(* ===== verification/Wedb_Prelude.thy ===== *)
theory Wedb_Prelude
  imports Main "HOL-Library.Word" "HOL-Library.List_Lexorder"
begin

text \<open>
  Shared vocabulary of the development: the machine integers of the Rust sources as
  \<^typ>\<open>64 word\<close> and its narrower kin, byte strings, the big-endian and little-endian
  conversions of the Rust standard library (\<open>to_be_bytes\<close>, \<open>from_be_bytes\<close>,
  \<open>to_le_bytes\<close>, \<open>from_le_bytes\<close>), saturating and checked \<open>usize\<close> arithmetic,
  the result type of fallible functions, and the lemmas on bytes, words and lists that the
  component theories share. Nothing here models a line of the repository itself.
\<close>

unbundle bit_operations_syntax

section \<open>Collections of facts\<close>

named_theorems field_defs \<open>definitions of bit-field masks and shifts\<close>
named_theorems byte_simps \<open>rewriting of byte-string conversions\<close>

section \<open>Types\<close>

type_synonym u8 = "8 word"
type_synonym u16 = "16 word"
type_synonym u32 = "32 word"
type_synonym u64 = "64 word"
type_synonym bytes = "8 word list"

text \<open>
  A \<open>Result\<close> is a sum: \<open>Inl\<close> the error, \<open>Inr\<close> the value. A \<open>usize\<close> that only
  counts bytes or indexes a slice is a \<^typ>\<open>nat\<close>; arithmetic on it that can pass
  \<open>usize::MAX\<close> goes through the functions below.
\<close>

type_synonym ('e, 'a) res = "'e + 'a"

fun res_bind :: "('e, 'a) res \<Rightarrow> ('a \<Rightarrow> ('e, 'b) res) \<Rightarrow> ('e, 'b) res" where
  "res_bind (Inl e) f = Inl e"
| "res_bind (Inr a) f = f a"

definition usize_max :: nat where
  "usize_max = 2 ^ 64 - 1"

definition saturating_add :: "nat \<Rightarrow> nat \<Rightarrow> nat" where
  "saturating_add a b = min (a + b) usize_max"

definition checked_add :: "nat \<Rightarrow> nat \<Rightarrow> nat option" where
  "checked_add a b = (if a + b \<le> usize_max then Some (a + b) else None)"

section \<open>Big-endian and little-endian byte strings\<close>

fun be_of_nat :: "nat \<Rightarrow> nat \<Rightarrow> bytes" where
  "be_of_nat 0 x = []"
| "be_of_nat (Suc n) x = be_of_nat n (x div 256) @ [of_nat (x mod 256)]"

definition nat_of_be :: "bytes \<Rightarrow> nat" where
  "nat_of_be bs = foldl (\<lambda>a b. a * 256 + unat b) 0 bs"

definition to_be_bytes :: "nat \<Rightarrow> 'a::len word \<Rightarrow> bytes" where
  "to_be_bytes n w = be_of_nat n (unat w)"

definition from_be_bytes :: "bytes \<Rightarrow> 'a::len word" where
  "from_be_bytes bs = of_nat (nat_of_be bs)"

definition to_le_bytes :: "nat \<Rightarrow> 'a::len word \<Rightarrow> bytes" where
  "to_le_bytes n w = rev (to_be_bytes n w)"

definition from_le_bytes :: "bytes \<Rightarrow> 'a::len word" where
  "from_le_bytes bs = from_be_bytes (rev bs)"

section \<open>Slices\<close>

text \<open>\<open>split_at_checked\<close> of the standard library, and a copy into a buffer at an offset.\<close>

definition split_at_checked :: "bytes \<Rightarrow> nat \<Rightarrow> (bytes \<times> bytes) option" where
  "split_at_checked s n = (if n \<le> length s then Some (take n s, drop n s) else None)"

definition copy_at :: "bytes \<Rightarrow> nat \<Rightarrow> bytes \<Rightarrow> bytes" where
  "copy_at buf off part = take off buf @ part @ drop (off + length part) buf"

lemma copy_at_end: "copy_at (xs @ ys) (length xs) p = xs @ p @ drop (length p) ys"
  by (simp add: copy_at_def)

lemma copy_at_0: "copy_at ys 0 p = p @ drop (length p) ys"
  by (simp add: copy_at_def)

lemma length_copy_at [simp]: "off + length p \<le> length b \<Longrightarrow> length (copy_at b off p) = length b"
  by (simp add: copy_at_def)

lemma nth_copy_at:
  "off + length p \<le> length b \<Longrightarrow> i < length b \<Longrightarrow> copy_at b off p ! i =
     (if off \<le> i \<and> i < off + length p then p ! (i - off) else b ! i)"
  by (auto simp: copy_at_def nth_append min_def)

text \<open>A window of a buffer after a copy: the copied bytes, or untouched ones.\<close>

lemma window_copy_at_same:
  "off + length p \<le> length b \<Longrightarrow> take (length p) (drop off (copy_at b off p)) = p"
  by (simp add: copy_at_def)

lemma window_copy_at_other:
  assumes "off + length p \<le> length b" and "i + n \<le> off \<or> off + length p \<le> i"
  shows "take n (drop i (copy_at b off p)) = take n (drop i b)"
  using assms by (intro nth_equalityI) (auto simp: nth_copy_at)

section \<open>Lemmas on results and sizes\<close>

lemma res_bind_Inr_iff: "res_bind r f = Inr y \<longleftrightarrow> (\<exists>a. r = Inr a \<and> f a = Inr y)"
  by (cases r) auto

lemma res_bind_assoc: "res_bind (res_bind r f) g = res_bind r (\<lambda>a. res_bind (f a) g)"
  by (cases r) auto

lemma saturating_add_small: "a + b \<le> usize_max \<Longrightarrow> saturating_add a b = a + b"
  by (simp add: saturating_add_def)

section \<open>Lemmas on byte strings\<close>

lemma unat_u8_less [simp]: "unat (b :: u8) < 256"
  using unsigned_less [of b] by simp

lemma unat_u64_less [simp]: "unat (w :: u64) < 18446744073709551616"
  using unsigned_less [of w, where 'a = nat] by simp

lemma length_be_of_nat [simp]: "length (be_of_nat n x) = n"
  by (induction n arbitrary: x) auto

lemma nat_of_be_Nil [simp]: "nat_of_be [] = 0"
  by (simp add: nat_of_be_def)

lemma nat_of_be_snoc [simp]: "nat_of_be (bs @ [b]) = nat_of_be bs * 256 + unat b"
  by (simp add: nat_of_be_def)

lemma nat_of_be_append: "nat_of_be (as @ bs) = nat_of_be as * 256 ^ length bs + nat_of_be bs"
  by (induction bs rule: rev_induct)
     (auto simp: algebra_simps simp flip: append_assoc)

lemma nat_of_be_Cons: "nat_of_be (b # bs) = unat b * 256 ^ length bs + nat_of_be bs"
  using nat_of_be_append [of "[b]" bs] nat_of_be_snoc [of "[]" b] by simp

lemma nat_of_be_less: "nat_of_be bs < 256 ^ length bs"
proof (induction bs rule: rev_induct)
  case Nil
  then show ?case by simp
next
  case (snoc b bs)
  have "nat_of_be bs * 256 + unat b < (nat_of_be bs + 1) * 256"
    using unat_u8_less [of b] by simp
  also have "\<dots> \<le> 256 ^ length bs * 256"
    using snoc.IH by (intro mult_le_mono1) simp
  finally show ?case by simp
qed

lemma unat_of_nat_u8 [simp]: "unat (of_nat (x mod 256) :: u8) = x mod 256"
  by (simp add: unat_of_nat take_bit_eq_mod)

lemma nat_of_be_of_nat: "nat_of_be (be_of_nat n x) = x mod 256 ^ n"
proof (induction n arbitrary: x)
  case 0
  then show ?case by simp
next
  case (Suc n)
  have "nat_of_be (be_of_nat (Suc n) x) = (x div 256 mod 256 ^ n) * 256 + x mod 256"
    by (simp add: Suc.IH)
  also have "\<dots> = x mod (256 * 256 ^ n)"
    by (simp add: mod_mult2_eq)
  finally show ?case by simp
qed

lemma be_of_nat_of_be: "be_of_nat (length bs) (nat_of_be bs) = bs"
proof (induction bs rule: rev_induct)
  case Nil
  then show ?case by simp
next
  case (snoc b bs)
  have "(nat_of_be bs * 256 + unat b) div 256 = nat_of_be bs"
    using unat_u8_less [of b] by simp
  moreover have "(nat_of_be bs * 256 + unat b) mod 256 = unat b"
    using unat_u8_less [of b] by simp
  ultimately show ?case by (simp add: snoc.IH)
qed

lemma nat_of_be_inject:
  "length as = length bs \<Longrightarrow> nat_of_be as = nat_of_be bs \<longleftrightarrow> as = bs"
  using be_of_nat_of_be by metis

text \<open>On strings of one length the dictionary order is the numeric order.\<close>

lemma bytes_less_iff:
  fixes as bs :: bytes
  shows "length as = length bs \<Longrightarrow> as < bs \<longleftrightarrow> nat_of_be as < nat_of_be bs"
proof (induction as bs rule: list_induct2)
  case Nil
  then show ?case by simp
next
  case (Cons a as b bs)
  let ?p = "(256::nat) ^ length bs"
  have la: "nat_of_be as < ?p" and lb: "nat_of_be bs < ?p"
    using nat_of_be_less [of as] nat_of_be_less [of bs] Cons.hyps by simp_all
  have step: "unat x * ?p + m < unat y * ?p + k" if "unat x < unat y" "m < ?p" for x y :: u8 and m k
  proof -
    have "unat x * ?p + m < (unat x + 1) * ?p" using that(2) by simp
    also have "\<dots> \<le> unat y * ?p" using that(1) by (intro mult_le_mono1) simp
    finally show ?thesis by linarith
  qed
  show ?case
  proof (cases a b rule: linorder_cases)
    case less
    then have "unat a < unat b" by (simp add: word_less_nat_alt)
    with step [OF this la, of "nat_of_be bs"] less Cons.hyps show ?thesis
      by (auto simp: nat_of_be_Cons)
  next
    case equal
    then show ?thesis using Cons by (simp add: nat_of_be_Cons)
  next
    case greater
    then have "unat b < unat a" by (simp add: word_less_nat_alt)
    with step [OF this lb, of "nat_of_be as"] greater Cons.hyps show ?thesis
      by (auto simp: nat_of_be_Cons)
  qed
qed

lemma length_to_be_bytes [simp]: "length (to_be_bytes n w) = n"
  by (simp add: to_be_bytes_def)

lemma length_to_le_bytes [simp]: "length (to_le_bytes n w) = n"
  by (simp add: to_le_bytes_def)

lemma nat_of_be_to_be_bytes: "nat_of_be (to_be_bytes n w) = unat w mod 256 ^ n"
  by (simp add: to_be_bytes_def nat_of_be_of_nat)

lemma from_to_be_bytes:
  fixes w :: "'a::len word"
  assumes "LENGTH('a) \<le> 8 * n"
  shows "from_be_bytes (to_be_bytes n w) = w"
proof -
  have "unat w < 2 ^ LENGTH('a)" by (rule unsigned_less)
  also have "\<dots> \<le> 2 ^ (8 * n)" using assms by (rule power_increasing) simp
  finally have "unat w mod 256 ^ n = unat w" by (simp add: power_mult)
  then show ?thesis by (simp add: from_be_bytes_def nat_of_be_to_be_bytes)
qed

lemma unat_from_be_bytes:
  fixes bs :: bytes
  assumes "8 * length bs \<le> LENGTH('a::len)"
  shows "unat (from_be_bytes bs :: 'a word) = nat_of_be bs"
proof -
  have "nat_of_be bs < 2 ^ (8 * length bs)"
    using nat_of_be_less [of bs] by (simp add: power_mult)
  also have "\<dots> \<le> 2 ^ LENGTH('a)" using assms by (rule power_increasing) simp
  finally show ?thesis by (simp add: from_be_bytes_def unat_of_nat take_bit_nat_eq_self)
qed

lemma to_from_be_bytes:
  assumes "length bs = n" and "8 * n = LENGTH('a::len)"
  shows "to_be_bytes n (from_be_bytes bs :: 'a word) = bs"
  using assms be_of_nat_of_be [of bs] by (simp add: to_be_bytes_def unat_from_be_bytes)

lemma from_to_le_bytes:
  fixes w :: "'a::len word"
  assumes "LENGTH('a) \<le> 8 * n"
  shows "from_le_bytes (to_le_bytes n w) = w"
  using assms by (simp add: from_le_bytes_def to_le_bytes_def from_to_be_bytes)

lemma to_from_le_bytes:
  assumes "length bs = n" and "8 * n = LENGTH('a::len)"
  shows "to_le_bytes n (from_le_bytes bs :: 'a word) = bs"
  using to_from_be_bytes [where bs = "rev bs" and n = n and 'a = 'a] assms
  by (simp add: to_le_bytes_def from_le_bytes_def)

section \<open>Lemmas on words\<close>

lemma word_or_eq_plus:
  fixes a b :: "'a::len word"
  assumes "a AND b = 0"
  shows "a OR b = a + b"
  using assms by (simp add: disjunctive_add_eq_or)

text \<open>A marker above bit \<open>k\<close> and a payload below it: OR is addition.\<close>

lemma not_bit_nat:
  assumes "(n::nat) < 2 ^ k" and "k \<le> i"
  shows "\<not> bit n i"
proof -
  have "n < 2 ^ i"
    using assms(1) power_increasing [OF assms(2), of "2::nat"] by linarith
  then show ?thesis by (simp add: bit_iff_odd)
qed

lemma push_bit_and_of_nat:
  fixes a :: "'a::len word"
  assumes "n < 2 ^ k"
  shows "push_bit k a AND of_nat n = 0"
  using not_bit_nat [OF assms] by (intro bit_word_eqI) (auto simp: bit_simps not_less)

lemma unat_and_mask: "unat (w AND mask k) = unat w mod 2 ^ k"
  by (metis take_bit_eq_mask take_bit_eq_mod unsigned_take_bit_eq)

end
