(* ===== verification/NumGrammar.thy ===== *)
theory NumGrammar
  imports Wedb_Prelude
begin

text \<open>
  The strict integer grammar of the protocol (\<open>wbase/src/num.rs\<close>): an optional sign, decimal digits without a
  superfluous leading zero, and nothing else, with the range of the target type. Signed machine integers are
  \<open>int\<close> values, the accumulator is a 64-bit word with checked operations. The parsers of floating point numbers
  are not modelled: they call the parser of the standard library.
\<close>

section \<open>Scanning\<close>

definition is_ascii_digit :: "u8 \<Rightarrow> bool" where
  "is_ascii_digit d \<longleftrightarrow> 0x30 \<le> d \<and> d \<le> 0x39"

definition checked_mul_u64 :: "u64 \<Rightarrow> u64 \<Rightarrow> u64 option" where
  "checked_mul_u64 a b = (if unat a * unat b < 2 ^ 64 then Some (a * b) else None)"

definition checked_add_u64 :: "u64 \<Rightarrow> u64 \<Rightarrow> u64 option" where
  "checked_add_u64 a b = (if unat a + unat b < 2 ^ 64 then Some (a + b) else None)"

fun scan_loop :: "u64 \<Rightarrow> bytes \<Rightarrow> u64 option" where
  "scan_loop number [] = Some number"
| "scan_loop number (d # ds) =
     (if \<not> is_ascii_digit d then None
      else case checked_mul_u64 number 10 of
        None \<Rightarrow> None
      | Some m \<Rightarrow> case checked_add_u64 m (ucast (d - 0x30)) of None \<Rightarrow> None | Some number \<Rightarrow> scan_loop number ds)"

definition split_sign :: "bytes \<Rightarrow> bytes \<times> bool" where
  "split_sign raw =
     (case raw of
        b # rest \<Rightarrow> if b = 0x2B then (rest, False) else if b = 0x2D then (rest, True) else (raw, False)
      | [] \<Rightarrow> (raw, False))"

definition scan_digits :: "bytes \<Rightarrow> (u64 \<times> bool) option" where
  "scan_digits raw =
     (let (digits, negative) = split_sign raw
      in if digits = [] \<or> (length digits > 1 \<and> hd digits = 0x30) then None
         else map_option (\<lambda>number. (number, negative)) (scan_loop 0 digits))"

section \<open>The ranges\<close>

definition i64_try_from :: "u64 \<Rightarrow> int option" where
  "i64_try_from n = (if unat n < 2 ^ 63 then Some (int (unat n)) else None)"

definition strict_i64 :: "bytes \<Rightarrow> int option" where
  "strict_i64 raw =
     (case scan_digits raw of
        None \<Rightarrow> None
      | Some (number, negative) \<Rightarrow>
          if negative
          then if number = 2 ^ 63 then Some (- (2 ^ 63)) else map_option uminus (i64_try_from number)
          else i64_try_from number)"

definition i32_try_from :: "int \<Rightarrow> int option" where
  "i32_try_from v = (if - (2 ^ 31) \<le> v \<and> v < 2 ^ 31 then Some v else None)"

definition strict_i32 :: "bytes \<Rightarrow> int option" where
  "strict_i32 raw = (case strict_i64 raw of None \<Rightarrow> None | Some v \<Rightarrow> i32_try_from v)"

definition strict_u64 :: "bytes \<Rightarrow> u64 option" where
  "strict_u64 raw =
     (case scan_digits raw of
        None \<Rightarrow> None
      | Some (number, negative) \<Rightarrow> if \<not> negative \<or> number = 0 then Some number else None)"

datatype DbIndexError = NotInteger | OutOfRange

definition parse_db_index :: "bytes \<Rightarrow> (DbIndexError, int) res" where
  "parse_db_index raw =
     (case strict_i32 raw of
        Some v \<Rightarrow> if 0 \<le> v then Inr v else Inl OutOfRange
      | None \<Rightarrow> Inl NotInteger)"

section \<open>Decimal literals\<close>

fun dec :: "nat \<Rightarrow> bytes" where
  "dec n = (if n < 10 then [0x30 + of_nat n] else dec (n div 10) @ [0x30 + of_nat (n mod 10)])"

declare dec.simps [simp del]

definition digit_value :: "u8 \<Rightarrow> nat" where
  "digit_value d = unat (d - 0x30)"

definition value_from :: "nat \<Rightarrow> bytes \<Rightarrow> nat" where
  "value_from n ds = foldl (\<lambda>n d. 10 * n + digit_value d) n ds"

text \<open>The literals of an integer: its canonical digits, with an optional sign.\<close>

definition literal :: "int \<Rightarrow> bytes \<Rightarrow> bool" where
  "literal v raw \<longleftrightarrow> 0 \<le> v \<and> (raw = dec (nat v) \<or> raw = 0x2B # dec (nat v)) \<or> v \<le> 0 \<and> raw = 0x2D # dec (nat (- v))"

lemma value_from_Cons [simp]: "value_from n (d # ds) = value_from (10 * n + digit_value d) ds"
  and value_from_Nil [simp]: "value_from n [] = n"
  and value_from_snoc [simp]: "value_from n (ds @ [d]) = 10 * value_from n ds + digit_value d"
  by (simp_all add: value_from_def)

lemma value_from_ge: "n \<le> value_from n ds"
proof (induction ds arbitrary: n)
  case (Cons d ds)
  show ?case using Cons.IH [of "10 * n + digit_value d"] by simp
qed simp

lemma digit_value_lt: "is_ascii_digit d \<Longrightarrow> digit_value d < 10"
  unfolding is_ascii_digit_def digit_value_def by (auto simp: word_le_nat_alt unat_sub_if')

lemma digit_value_of: "k < 10 \<Longrightarrow> digit_value (0x30 + of_nat k) = k" "k < 10 \<Longrightarrow> is_ascii_digit (0x30 + of_nat k)"
  unfolding is_ascii_digit_def digit_value_def by (simp_all add: word_le_nat_alt unat_word_ariths unat_of_nat)

lemma digit_of_value: "is_ascii_digit d \<Longrightarrow> 0x30 + of_nat (digit_value d) = d"
  by (simp add: digit_value_def)

lemma scan_step:
  assumes "is_ascii_digit d"
  shows "scan_loop n (d # ds) =
    (if 10 * unat n + digit_value d < 2 ^ 64 then scan_loop (of_nat (10 * unat n + digit_value d)) ds else None)"
proof -
  have u: "unat (ucast (d - 0x30) :: u64) = digit_value d" by (simp add: digit_value_def unsigned_ucast_eq take_bit_nat_eq_self unat_u8_less order_less_trans [OF unat_u8_less])
  have m: "unat (n * 10) = 10 * unat n" if "10 * unat n < 2 ^ 64" using that by (simp add: unat_word_ariths mult.commute)
  have "of_nat (10 * unat n) = n * 10" by (simp add: mult.commute)
  then have s: "n * 10 + ucast (d - 0x30) = of_nat (10 * unat n + digit_value d)" by (simp flip: u)
  show ?thesis
  proof (cases "10 * unat n < 2 ^ 64")
    case True
    then have "checked_mul_u64 n 10 = Some (n * 10)" by (simp add: checked_mul_u64_def)
    then show ?thesis unfolding s [symmetric] using assms by (simp add: checked_add_u64_def m [OF True] u)
  next
    case False
    then have "checked_mul_u64 n 10 = None" by (simp add: checked_mul_u64_def)
    then show ?thesis using False by simp
  qed
qed

lemma scan_loop_value:
  "scan_loop n ds = (if list_all is_ascii_digit ds \<and> value_from (unat n) ds < 2 ^ 64 then Some (of_nat (value_from (unat n) ds)) else None)"
proof (induction ds arbitrary: n)
  case Nil
  then show ?case using unat_u64_less [of n] by simp
next
  case (Cons d ds)
  let ?v = "10 * unat n + digit_value d"
  show ?case
  proof (cases "is_ascii_digit d")
    case True
    have "?v < 2 ^ 64" if "value_from ?v ds < 2 ^ 64" using that value_from_ge [of ?v ds] by linarith
    moreover have "unat (of_nat ?v :: u64) = ?v" if "?v < 2 ^ 64" using that unfolding unat_of_nat by simp
    ultimately show ?thesis unfolding scan_step [OF True] Cons.IH using True by auto
  qed simp
qed

lemma dec_small: "n < 10 \<Longrightarrow> dec n = [0x30 + of_nat n]"
  and dec_large: "10 \<le> n \<Longrightarrow> dec n = dec (n div 10) @ [0x30 + of_nat (n mod 10)]"
  by (subst dec.simps, simp)+

lemma dec_not_Nil [simp]: "dec n \<noteq> []"
  by (cases "n < 10") (simp_all add: dec_small dec_large)

lemma dec_digits: "list_all is_ascii_digit (dec n) \<and> value_from 0 (dec n) = n"
proof (induction n rule: less_induct)
  case (less n)
  show ?case
  proof (cases "n < 10")
    case True
    then show ?thesis by (simp add: dec_small digit_value_of)
  next
    case False
    then have "n div 10 < n" by simp
    then show ?thesis using False less.IH [of "n div 10"] by (simp add: dec_large digit_value_of)
  qed
qed

lemma dec_head: "hd (dec n) = 0x30 \<Longrightarrow> n = 0"
proof (induction n rule: less_induct)
  case (less n)
  show ?case
  proof (cases "n < 10")
    case True
    then have h: "0x30 + of_nat n = (0x30 :: u8)" using less.prems by (simp only: dec_small list.sel)
    have "digit_value 0x30 = 0" by (simp add: digit_value_def)
    with digit_value_of(1) [OF True, unfolded h] show ?thesis by (rule trans [OF sym])
  next
    case False
    then have "dec n = dec (n div 10) @ [0x30 + of_nat (n mod 10)]" by (intro dec_large) simp
    then have "hd (dec (n div 10)) = 0x30" using less.prems by simp
    then have "n div 10 = 0" using False by (intro less.IH) simp_all
    then show ?thesis using False by simp
  qed
qed

lemma dec_spec: "list_all is_ascii_digit (dec n)" "value_from 0 (dec n) = n" "\<not> (length (dec n) > 1 \<and> hd (dec n) = 0x30)"
  using dec_digits [of n] dec_head [of n] by (auto simp: dec_small)

lemma dec_value:
  "ds \<noteq> [] \<Longrightarrow> list_all is_ascii_digit ds \<Longrightarrow> length ds > 1 \<longrightarrow> hd ds \<noteq> 0x30 \<Longrightarrow> dec (value_from 0 ds) = ds"
proof (induction ds rule: rev_induct)
  case (snoc d ds)
  note dv = digit_value_lt [of d] digit_of_value [of d]
  show ?case
  proof (cases ds)
    case Nil
    then show ?thesis using snoc.prems dv by (simp add: dec_small)
  next
    case (Cons e es)
    then have ds: "dec (value_from 0 ds) = ds" using snoc by simp
    have "digit_value e \<noteq> 0" using snoc.prems(3) snoc.prems(2) Cons digit_of_value [of e] by (cases "digit_value e = 0") auto
    then have "1 \<le> value_from 0 ds" using value_from_ge [of "digit_value e" es] Cons by simp
    then show ?thesis using snoc.prems(2) dv ds by (simp add: dec_large)
  qed
qed simp

lemma dec_first: "hd (dec n) \<noteq> 0x2B" "hd (dec n) \<noteq> 0x2D"
  using dec_spec(1) [of n] dec_not_Nil [of n] by (cases "dec n"; auto simp: is_ascii_digit_def simp del: dec_not_Nil)+

text \<open>The scanner accepts exactly the signed canonical literals of magnitudes below \<open>2^64\<close>.\<close>

lemma scan_digits_iff:
  "scan_digits raw = Some (n, neg) \<longleftrightarrow>
     (if neg then raw = 0x2D # dec (unat n) else raw = dec (unat n) \<or> raw = 0x2B # dec (unat n))"
proof -
  have d: "ds \<noteq> [] \<and> \<not> (length ds > 1 \<and> hd ds = 0x30) \<and> scan_loop 0 ds = Some n \<longleftrightarrow> ds = dec (unat n)" for ds
  proof
    assume a: "ds \<noteq> [] \<and> \<not> (length ds > 1 \<and> hd ds = 0x30) \<and> scan_loop 0 ds = Some n"
    then have "list_all is_ascii_digit ds" "unat n = value_from 0 ds"
      by (auto simp: scan_loop_value unat_of_nat split: if_splits)
    then show "ds = dec (unat n)" using dec_value [of ds] a by simp
  next
    assume "ds = dec (unat n)"
    then show "ds \<noteq> [] \<and> \<not> (length ds > 1 \<and> hd ds = 0x30) \<and> scan_loop 0 ds = Some n"
      using dec_spec [of "unat n"] unat_u64_less [of n] by (auto simp: scan_loop_value)
  qed
  have s: "scan_digits raw = Some (n, neg) \<longleftrightarrow> (\<exists>ds. split_sign raw = (ds, neg) \<and> ds = dec (unat n))"
    unfolding d [symmetric] scan_digits_def by (cases "split_sign raw") auto
  obtain b bs where D: "dec (unat n) = b # bs" "b \<noteq> 0x2B" "b \<noteq> 0x2D"
    using dec_first [of "unat n"] dec_not_Nil [of "unat n"] by (cases "dec (unat n)") (auto simp del: dec_not_Nil)
  show ?thesis unfolding s D(1) using D(2,3) by (cases raw) (auto simp: split_sign_def)
qed

lemma unat_of_nat_u64: "n < 2 ^ 64 \<Longrightarrow> unat (of_nat n :: u64) = n"
  unfolding unat_of_nat by simp

lemma strict_i64_iff: "strict_i64 raw = Some v \<longleftrightarrow> - (2 ^ 63) \<le> v \<and> v < 2 ^ 63 \<and> literal v raw"
proof
  assume "strict_i64 raw = Some v"
  then obtain n neg where n: "scan_digits raw = Some (n, neg)"
    "v = (if neg then - int (unat n) else int (unat n))" "unat n < 2 ^ 63 \<or> neg \<and> n = 2 ^ 63"
    by (auto simp: strict_i64_def i64_try_from_def split: option.splits if_splits)
  obtain k where k: "unat n = k" by simp
  have "k \<le> 2 ^ 63" "k < 2 ^ 63 \<or> neg" using n(3) k by auto
  then show "- (2 ^ 63) \<le> v \<and> v < 2 ^ 63 \<and> literal v raw" using n(1,2) unfolding scan_digits_iff k by (auto simp: literal_def)
next
  assume a: "- (2 ^ 63) \<le> v \<and> v < 2 ^ 63 \<and> literal v raw"
  define n :: u64 where "n = of_nat (nat \<bar>v\<bar>)"
  have u: "unat n = nat \<bar>v\<bar>" unfolding n_def by (rule unat_of_nat_u64) (use a in auto)
  obtain neg where s: "scan_digits raw = Some (n, neg)" "neg \<and> v \<le> 0 \<or> \<not> neg \<and> 0 \<le> v"
  proof (cases "0 \<le> v \<and> (raw = dec (nat v) \<or> raw = 0x2B # dec (nat v))")
    case True
    then show thesis using that [of False] u by (simp add: scan_digits_iff)
  next
    case False
    then show thesis using that [of True] u a by (auto simp: scan_digits_iff literal_def)
  qed
  have "n = 2 ^ 63 \<longleftrightarrow> nat \<bar>v\<bar> = 2 ^ 63" using u by (auto simp: word_unat_eq_iff)
  then show "strict_i64 raw = Some v" using s u a by (auto simp: strict_i64_def i64_try_from_def)
qed

lemma strict_i32_iff: "strict_i32 raw = Some v \<longleftrightarrow> - (2 ^ 31) \<le> v \<and> v < 2 ^ 31 \<and> literal v raw"
proof -
  have "strict_i32 raw = Some v \<longleftrightarrow> strict_i64 raw = Some v \<and> - (2 ^ 31) \<le> v \<and> v < 2 ^ 31"
    by (auto simp: strict_i32_def i32_try_from_def split: option.splits)
  then show ?thesis unfolding strict_i64_iff by auto
qed

lemma strict_u64_iff: "strict_u64 raw = Some n \<longleftrightarrow> literal (int (unat n)) raw"
proof -
  have "strict_u64 raw = Some n \<longleftrightarrow> (\<exists>neg. scan_digits raw = Some (n, neg) \<and> (\<not> neg \<or> n = 0))"
    by (cases "scan_digits raw") (auto simp: strict_u64_def split: if_splits)
  moreover obtain k where k: "unat n = k" "n = 0 \<longleftrightarrow> k = 0" by (simp add: unat_eq_zero)
  ultimately show ?thesis unfolding scan_digits_iff k by (auto simp: literal_def)
qed

text \<open>
  C38: The integer parsers accept exactly the literals of their type. The 64-bit and the 32-bit parser return a value
  if and only if it is in range and the input is one of its literals (canonical digits, an optional sign, no
  superfluous zero, nothing else); the unsigned parser accepts a minus sign only for zero; a database index is an
  error of range exactly for the negative literals and not an integer exactly for what the 32-bit parser rejects.
\<close>

theorem strict_integers_exact:
  "(strict_i64 raw = Some v \<longleftrightarrow> - (2 ^ 63) \<le> v \<and> v < 2 ^ 63 \<and> literal v raw) \<and>
   (strict_i32 raw = Some v \<longleftrightarrow> - (2 ^ 31) \<le> v \<and> v < 2 ^ 31 \<and> literal v raw) \<and>
   (strict_u64 raw = Some n \<longleftrightarrow> literal (int (unat n)) raw) \<and>
   (parse_db_index raw = Inr v \<longleftrightarrow> 0 \<le> v \<and> v < 2 ^ 31 \<and> literal v raw) \<and>
   (parse_db_index raw = Inl OutOfRange \<longleftrightarrow> (\<exists>v. - (2 ^ 31) \<le> v \<and> v < 0 \<and> literal v raw))"
proof -
  have "parse_db_index raw = Inr v \<longleftrightarrow> strict_i32 raw = Some v \<and> 0 \<le> v"
    "parse_db_index raw = Inl OutOfRange \<longleftrightarrow> (\<exists>v. strict_i32 raw = Some v \<and> v < 0)"
    by (auto simp: parse_db_index_def split: option.splits)
  then show ?thesis unfolding strict_i64_iff strict_i32_iff strict_u64_iff by auto
qed

end
