(* ===== verification/Glob.thy ===== *)
theory Glob
  imports Wedb_Prelude
begin

text \<open>
  The glob matcher of \<open>wbase/src/glob.rs\<close> (KEYS, SCAN MATCH, pattern subscriptions, ACL key
  patterns): the greedy loop with one saved star that it backtracks to, and the bracket scanner.
  The main loop is a \<open>partial_function (option)\<close> over the source's four loop variables, so
  \<open>None\<close> is "does not return". The lemmas show that it always returns and that its answer is
  membership in the language the pattern denotes. The denotation is written apart from the
  matcher: \<open>glob_parse\<close> reads a pattern as a list of elements, \<open>elem_set\<close> gives each element
  its set of bytes, and \<open>glob_lang\<close> puts them together, a star standing for any bytes.
\<close>

section \<open>Bytes and ranges\<close>

definition to_ascii_lowercase :: "u8 \<Rightarrow> u8" where
  "to_ascii_lowercase b = (if 0x41 \<le> b \<and> b \<le> 0x5A then b OR 0x20 else b)"

definition byte_eq :: "u8 \<Rightarrow> u8 \<Rightarrow> bool \<Rightarrow> bool" where
  "byte_eq a b ignore_case =
     (if ignore_case then to_ascii_lowercase a = to_ascii_lowercase b else a = b)"

definition in_range :: "u8 \<Rightarrow> u8 \<Rightarrow> u8 \<Rightarrow> bool \<Rightarrow> bool" where
  "in_range ch low0 high0 ignore_case =
     (let (low, high) = (if low0 \<le> high0 then (low0, high0) else (high0, low0))
      in if ignore_case then
           (let ch = to_ascii_lowercase ch; low = to_ascii_lowercase low;
                high = to_ascii_lowercase high
            in low \<le> ch \<and> ch \<le> high)
         else ch - low \<le> high - low)"

section \<open>Bracket expressions\<close>

text \<open>The scan loop of \<open>match_bracket\<close>: the flag and the index it stops at.\<close>

function bracket_loop :: "bytes \<Rightarrow> u8 \<Rightarrow> bool \<Rightarrow> nat \<Rightarrow> bool \<Rightarrow> bool \<times> nat" where
  "bracket_loop pat target ignore_case i matched =
     (if i < length pat \<and> pat ! i \<noteq> 0x5D then
        (if pat ! i = 0x5C \<and> i + 1 < length pat then
           bracket_loop pat target ignore_case (i + 2)
             (if \<not> matched \<and> pat ! (i + 1) = target then True else matched)
         else if 3 \<le> length pat - i \<and> pat ! (i + 1) = 0x2D then
           bracket_loop pat target ignore_case (i + 3)
             (if \<not> matched \<and> in_range target (pat ! i) (pat ! (i + 2)) ignore_case then True
              else matched)
         else
           bracket_loop pat target ignore_case (i + 1)
             (if \<not> matched \<and> byte_eq (pat ! i) target ignore_case then True else matched))
      else (matched, i))"
  by pat_completeness auto
termination
  by (relation "measure (\<lambda>(pat, target, ic, i, matched). length pat - i)") auto

definition match_bracket :: "bytes \<Rightarrow> u8 \<Rightarrow> bool \<Rightarrow> bool \<times> nat" where
  "match_bracket pat target_byte ignore_case =
     (let invert = (1 < length pat \<and> pat ! 1 = 0x5E);
          (matched, i) = bracket_loop pat target_byte ignore_case (if invert then 2 else 1) False
      in if length pat \<le> i then (matched \<noteq> invert, length pat) else (matched \<noteq> invert, i + 1))"

section \<open>The greedy matcher\<close>

text \<open>The inner loop that collapses a run of stars, and the loop that skips trailing ones.\<close>

function star_run_end :: "bytes \<Rightarrow> nat \<Rightarrow> nat" where
  "star_run_end pattern p =
     (if p + 1 < length pattern \<and> pattern ! (p + 1) = 0x2A then star_run_end pattern (p + 1) else p)"
  by pat_completeness auto
termination
  by (relation "measure (\<lambda>(pattern, p). length pattern - p)") auto

function skip_stars :: "bytes \<Rightarrow> nat \<Rightarrow> nat" where
  "skip_stars pattern p =
     (if p < length pattern \<and> pattern ! p = 0x2A then skip_stars pattern (p + 1) else p)"
  by pat_completeness auto
termination
  by (relation "measure (\<lambda>(pattern, p). length pattern - p)") auto

declare bracket_loop.simps [simp del] star_run_end.simps [simp del] skip_stars.simps [simp del]

text \<open>
  One comparison of the loop body for a pattern byte that is not a star: whether the target byte
  matches, and how far the pattern index moves then.
\<close>

definition glob_step :: "bytes \<Rightarrow> nat \<Rightarrow> u8 \<Rightarrow> bool \<Rightarrow> bool \<times> nat" where
  "glob_step pattern p c ignore_case =
     (if pattern ! p = 0x3F then (True, 1)
      else if pattern ! p = 0x5B then match_bracket (drop p pattern) c ignore_case
      else if pattern ! p = 0x5C then
        (let pat_byte = (if p + 1 < length pattern then pattern ! (p + 1) else 0x5C)
         in (byte_eq pat_byte c ignore_case, if p + 1 < length pattern then 2 else 1))
      else (byte_eq (pattern ! p) c ignore_case, 1))"

partial_function (option) glob_loop ::
  "bytes \<Rightarrow> bytes \<Rightarrow> bool \<Rightarrow> nat \<Rightarrow> nat \<Rightarrow> nat option \<Rightarrow> nat \<Rightarrow> bool option" where
  "glob_loop pattern target ignore_case p t star_p star_t =
     (if t < length target then
        (if p < length pattern \<and> pattern ! p = 0x2A then
           (let p = star_run_end pattern p
            in if p + 1 = length pattern then Some True
               else glob_loop pattern target ignore_case (p + 1) t (Some p) t)
         else if p < length pattern \<and> fst (glob_step pattern p (target ! t) ignore_case) then
           glob_loop pattern target ignore_case
             (p + snd (glob_step pattern p (target ! t) ignore_case)) (t + 1) star_p star_t
         else
           (case star_p of
              Some sp \<Rightarrow>
                glob_loop pattern target ignore_case (sp + 1) (star_t + 1) (Some sp) (star_t + 1)
            | None \<Rightarrow> Some False))
      else Some (skip_stars pattern p = length pattern))"

definition glob_match_opt :: "bytes \<Rightarrow> bytes \<Rightarrow> bool \<Rightarrow> bool option" where
  "glob_match_opt pattern target ignore_case =
     (if target = [] then Some (pattern = [])
      else glob_loop pattern target ignore_case 0 0 None 0)"

definition glob_match :: "bytes \<Rightarrow> bytes \<Rightarrow> bool option" where
  "glob_match pattern target = glob_match_opt pattern target False"

definition glob_match_nocase :: "bytes \<Rightarrow> bytes \<Rightarrow> bool option" where
  "glob_match_nocase pattern target = glob_match_opt pattern target True"

section \<open>What a pattern denotes\<close>

text \<open>
  A bracket body is a list of items up to the closing bracket or the end of the pattern; an item
  is an escaped byte (compared exactly), a range or a byte.
\<close>

datatype bracket_item = BEsc u8 | BRange u8 u8 | BLit u8

fun bracket_parse :: "bytes \<Rightarrow> bracket_item list \<times> bytes" where
  "bracket_parse [] = ([], [])"
| "bracket_parse (b # r) =
     (if b = 0x5D then ([], b # r)
      else if b = 0x5C \<and> r \<noteq> [] then
        (let (items, rest) = bracket_parse (tl r) in (BEsc (hd r) # items, rest))
      else if 2 \<le> length r \<and> r ! 0 = 0x2D then
        (let (items, rest) = bracket_parse (drop 2 r) in (BRange b (r ! 1) # items, rest))
      else (let (items, rest) = bracket_parse r in (BLit b # items, rest)))"

text \<open>
  The elements of a pattern: a star, a question mark, a byte that stands for itself (written
  plainly or after a backslash; a backslash that ends the pattern stands for itself), a bracket
  expression, negated by a caret. The byte that closes a bracket belongs to no element; a bracket
  that is never closed takes the rest of the pattern.
\<close>

datatype glob_elem = GStar | GAny | GByte u8 | GBracket bool "bracket_item list"

lemma bracket_parse_rest: "length (snd (bracket_parse ps)) \<le> length ps"
  by (induction ps rule: bracket_parse.induct) (auto simp: Let_def split: prod.splits)

function glob_parse :: "bytes \<Rightarrow> glob_elem list" where
  "glob_parse [] = []"
| "glob_parse (b # r) =
     (if b = 0x2A then GStar # glob_parse r
      else if b = 0x3F then GAny # glob_parse r
      else if b = 0x5B then
        (let neg = (r \<noteq> [] \<and> hd r = 0x5E);
             (items, rest) = bracket_parse (if neg then tl r else r)
         in GBracket neg items # glob_parse (tl rest))
      else if b = 0x5C \<and> r \<noteq> [] then GByte (hd r) # glob_parse (tl r)
      else GByte b # glob_parse r)"
  by pat_completeness auto
termination
proof (relation "measure length")
  fix b :: u8 and r neg x items rest
  assume "neg = (r \<noteq> [] \<and> hd r = 0x5E)" "x = bracket_parse (if neg then tl r else r)"
    "(items, rest) = x"
  then have "rest = snd (bracket_parse (if neg then tl r else r))" by (metis snd_conv)
  then have "length rest \<le> length r"
    using bracket_parse_rest [of "tl r"] bracket_parse_rest [of r] by (auto split: if_splits)
  then show "(tl rest, b # r) \<in> measure length" by simp
qed auto

text \<open>
  The bytes an element stands for. Without regard to case two bytes are the same when they are
  the same after capital letters are moved to small ones; a range is ordered first and folded
  afterwards, and the byte after a backslash in a bracket is always meant exactly.
\<close>

definition case_fold :: "bool \<Rightarrow> u8 \<Rightarrow> u8" where
  "case_fold ic b = (if ic \<and> b \<in> {0x41..0x5A} then b + 0x20 else b)"

fun item_set :: "bool \<Rightarrow> bracket_item \<Rightarrow> u8 set" where
  "item_set ic (BEsc b) = {b}"
| "item_set ic (BRange lo hi) =
     {c. case_fold ic c \<in> {case_fold ic (min lo hi)..case_fold ic (max lo hi)}}"
| "item_set ic (BLit b) = {c. case_fold ic c = case_fold ic b}"

fun elem_set :: "bool \<Rightarrow> glob_elem \<Rightarrow> u8 set" where
  "elem_set ic (GByte b) = {c. case_fold ic c = case_fold ic b}"
| "elem_set ic (GBracket neg items) =
     (if neg then - (\<Union>x \<in> set items. item_set ic x) else (\<Union>x \<in> set items. item_set ic x))"
| "elem_set ic _ = UNIV"

text \<open>The language of a list of elements: a star is any bytes, another element one byte.\<close>

fun glob_lang :: "bool \<Rightarrow> glob_elem list \<Rightarrow> bytes set" where
  "glob_lang ic [] = {[]}"
| "glob_lang ic (e # es) =
     (if e = GStar then {u @ v | u v. v \<in> glob_lang ic es}
      else {c # v | c v. c \<in> elem_set ic e \<and> v \<in> glob_lang ic es})"

section \<open>Ranges and brackets\<close>

lemma word_window:
  fixes ch low high :: u8
  assumes "low \<le> high"
  shows "ch - low \<le> high - low \<longleftrightarrow> low \<le> ch \<and> ch \<le> high"
proof (cases "low \<le> ch")
  case True
  with assms show ?thesis by (auto simp: word_le_nat_alt unat_sub)
next
  case False
  then have "unat ch < unat low" by (simp add: word_le_nat_alt)
  then have "unat (ch - low) = 256 + unat ch - unat low"
    using unat_u8_less [of low] by (simp add: unat_word_ariths unat_sub_if')
  moreover have "unat (high - low) = unat high - unat low"
    using assms by (simp add: unat_sub)
  ultimately have "\<not> ch - low \<le> high - low"
    using \<open>unat ch < unat low\<close> unat_u8_less [of high] assms unfolding word_le_nat_alt by linarith
  with False show ?thesis by simp
qed

lemma case_fold_lower: "to_ascii_lowercase b = case_fold True b"
proof (cases "0x41 \<le> b \<and> b \<le> 0x5A")
  case True
  then have "65 \<le> unat b \<and> unat b < 91" by (simp add: word_le_nat_alt)
  then have "unat b \<in> set [65..<91]" by (simp only: atLeastLessThan_iff set_upt)
  moreover have "list_all (\<lambda>n. (of_nat n :: u8) OR 0x20 = of_nat n + 0x20) [65..<91]" by code_simp
  ultimately have "(of_nat (unat b) :: u8) OR 0x20 = of_nat (unat b) + 0x20"
    unfolding list_all_iff by blast
  then have "b OR 0x20 = b + 0x20" by simp
  with True show ?thesis by (simp add: to_ascii_lowercase_def case_fold_def)
qed (auto simp: to_ascii_lowercase_def case_fold_def)

lemma byte_eq_fold: "byte_eq a b ic \<longleftrightarrow> case_fold ic a = case_fold ic b"
  by (simp add: byte_eq_def case_fold_lower) (simp add: case_fold_def)

lemma in_range_fold: "in_range c lo hi ic \<longleftrightarrow>
    case_fold ic c \<in> {case_fold ic (min lo hi)..case_fold ic (max lo hi)}"
proof (cases ic)
  case True
  then show ?thesis by (simp add: in_range_def Let_def case_fold_lower min_def max_def)
next
  case False
  then show ?thesis using word_window [of lo hi c] word_window [of hi lo c]
    by (auto simp: in_range_def Let_def case_fold_def min_def max_def)
qed

lemma bracket_loop_unfold:
  "bracket_loop pat c ic i m =
     (if i < length pat \<and> pat ! i \<noteq> 0x5D then
        (if pat ! i = 0x5C \<and> i + 1 < length pat then
           bracket_loop pat c ic (i + 2) (m \<or> c \<in> item_set ic (BEsc (pat ! (i + 1))))
         else if 3 \<le> length pat - i \<and> pat ! (i + 1) = 0x2D then
           bracket_loop pat c ic (i + 3) (m \<or> c \<in> item_set ic (BRange (pat ! i) (pat ! (i + 2))))
         else bracket_loop pat c ic (i + 1) (m \<or> c \<in> item_set ic (BLit (pat ! i))))
      else (m, i))"
proof -
  have "(if \<not> m \<and> x then True else m) = (m \<or> x)" for x by simp
  moreover have "b = c \<longleftrightarrow> c \<in> item_set ic (BEsc b)"
    "in_range c lo hi ic \<longleftrightarrow> c \<in> item_set ic (BRange lo hi)"
    "byte_eq b c ic \<longleftrightarrow> c \<in> item_set ic (BLit b)" for b lo hi
    by (auto simp: in_range_fold byte_eq_fold)
  ultimately show ?thesis by (subst bracket_loop.simps) (simp only:)
qed

lemma bracket_parse_drop:
  assumes "i < length pat"
  shows "bracket_parse (drop i pat) =
    (if pat ! i = 0x5D then ([], drop i pat)
     else if pat ! i = 0x5C \<and> i + 1 < length pat then
       apfst ((#) (BEsc (pat ! (i + 1)))) (bracket_parse (drop (i + 2) pat))
     else if 3 \<le> length pat - i \<and> pat ! (i + 1) = 0x2D then
       apfst ((#) (BRange (pat ! i) (pat ! (i + 2)))) (bracket_parse (drop (i + 3) pat))
     else apfst ((#) (BLit (pat ! i))) (bracket_parse (drop (i + 1) pat)))"
proof -
  have d: "drop i pat = pat ! i # drop (i + 1) pat" using assms by (simp add: Cons_nth_drop_Suc)
  have tl: "tl (drop (i + 1) pat) = drop (i + 2) pat" by (simp add: tl_drop drop_Suc)
  have hd: "hd (drop (i + 1) pat) = pat ! (i + 1)" if "i + 1 < length pat"
    using that by (simp add: hd_drop_conv_nth)
  have l: "2 \<le> length (drop (i + 1) pat) \<longleftrightarrow> 3 \<le> length pat - i" by auto
  show ?thesis
    unfolding d bracket_parse.simps l tl drop_drop
    using hd by (auto simp: apfst_def map_prod_def numeral_3_eq_3 split: prod.splits)
qed

lemma bracket_loop_parse:
  "i \<le> length pat \<Longrightarrow> bracket_loop pat c ic i m =
     (m \<or> (\<exists>x \<in> set (fst (bracket_parse (drop i pat))). c \<in> item_set ic x),
      length pat - length (snd (bracket_parse (drop i pat))))"
proof (induction "length pat - i" arbitrary: i m rule: less_induct)
  case less
  show ?case
  proof (cases "i < length pat")
    case False
    then have "i = length pat" using less.prems by simp
    then show ?thesis by (simp add: bracket_loop_unfold [of pat c ic "length pat" m])
  next
    case True
    note step = bracket_loop_unfold [of pat c ic i m] bracket_parse_drop [OF True]
    have ih: "k \<in> {1, 2, 3} \<Longrightarrow> i + k \<le> length pat \<Longrightarrow> bracket_loop pat c ic (i + k) m' =
       (m' \<or> (\<exists>x \<in> set (fst (bracket_parse (drop (i + k) pat))). c \<in> item_set ic x),
        length pat - length (snd (bracket_parse (drop (i + k) pat))))" for k m'
      using True by (intro less.hyps) auto
    consider (close) "pat ! i = 0x5D"
      | (esc) "pat ! i = 0x5C" "i + 1 < length pat"
      | (range) "pat ! i \<noteq> 0x5D" "\<not> (pat ! i = 0x5C \<and> i + 1 < length pat)"
          "3 \<le> length pat - i \<and> pat ! (i + 1) = 0x2D"
      | (lit) "pat ! i \<noteq> 0x5D" "\<not> (pat ! i = 0x5C \<and> i + 1 < length pat)"
          "\<not> (3 \<le> length pat - i \<and> pat ! (i + 1) = 0x2D)"
      by blast
    then show ?thesis
    proof cases
      case close
      with True show ?thesis by (simp add: step)
    next
      case esc
      with True show ?thesis using ih [of 2] by (simp add: step disj_assoc)
    next
      case range
      then have "i + 3 \<le> length pat" by linarith
      with range show ?thesis unfolding step using ih [of 3] True by (simp add: disj_assoc)
    next
      case lit
      then show ?thesis unfolding step if_not_P [OF lit(2)] if_not_P [OF lit(3)]
        using ih [of 1] True by (simp add: disj_assoc)
    qed
  qed
qed

text \<open>How many pattern bytes a bracket takes does not depend on the target byte.\<close>

lemma match_bracket_eq:
  assumes "pat \<noteq> []"
  shows "match_bracket pat c ic =
    (let inv = (1 < length pat \<and> pat ! 1 = 0x5E);
         (items, rest) = bracket_parse (drop (if inv then 2 else 1) pat)
     in ((\<exists>x \<in> set items. c \<in> item_set ic x) \<noteq> inv,
         if rest = [] then length pat else length pat - length rest + 1))"
proof -
  let ?k = "if 1 < length pat \<and> pat ! 1 = 0x5E then 2 else 1 :: nat"
  have k: "?k \<le> length pat" using assms by (cases pat) (auto simp: Suc_le_eq)
  have "length (snd (bracket_parse (drop ?k pat))) \<le> length pat - ?k"
    using bracket_parse_rest [of "drop ?k pat"] by simp
  then have "length pat \<le> length pat - length (snd (bracket_parse (drop ?k pat)))
      \<longleftrightarrow> snd (bracket_parse (drop ?k pat)) = []"
    using assms by (cases "snd (bracket_parse (drop ?k pat)) = []") (auto simp: not_le)
  then show ?thesis
    unfolding match_bracket_def bracket_loop_parse [OF k] Let_def
    by (auto split: prod.splits)
qed

lemma match_bracket_snd: "pat \<noteq> [] \<Longrightarrow> snd (match_bracket pat c ic) = snd (match_bracket pat c' ic')"
  by (simp add: match_bracket_eq Let_def split: prod.splits)

lemma match_bracket_pos: "pat \<noteq> [] \<Longrightarrow> 1 \<le> snd (match_bracket pat c ic)"
  by (cases pat) (simp_all add: match_bracket_eq Let_def split: prod.splits)

lemma match_bracket_le: "pat \<noteq> [] \<Longrightarrow> snd (match_bracket pat c ic) \<le> length pat"
  using bracket_parse_rest [of "drop (if 1 < length pat \<and> pat ! 1 = 0x5E then 2 else 1) pat"]
  by (cases pat) (auto simp: match_bracket_eq Let_def neq_Nil_conv split: prod.splits)

text \<open>
  A bracket expression matches exactly the bytes of its items' union (ranges read in either
  direction), or their complement after a caret, and the scanner consumes it up to and including
  its closing bracket, or all of the pattern when the bracket is never closed.
\<close>

theorem match_bracket_denotation:
  "match_bracket (0x5B # body) c ic =
     (let neg = (body \<noteq> [] \<and> hd body = 0x5E);
          (items, rest) = bracket_parse (if neg then tl body else body)
      in ((c \<in> (\<Union>x \<in> set items. item_set ic x)) \<noteq> neg,
          if rest = [] then length body + 1 else length body + 2 - length rest))"
proof -
  have d: "drop 1 body = tl body" by (simp add: drop_Suc)
  have n: "(1 < length (0x5B # body) \<and> (0x5B # body) ! 1 = 0x5E) = (body \<noteq> [] \<and> hd body = 0x5E)"
    by (cases body) auto
  have r: "length (snd (bracket_parse xs)) \<le> Suc (length body)" if "xs = tl body \<or> xs = body" for xs
    using bracket_parse_rest [of xs] that by auto
  show ?thesis
    unfolding match_bracket_eq [of "0x5B # body" c ic, simplified] Let_def n [simplified]
    using r [of body] r [of "tl body"]
    by (auto simp: d drop_Suc Suc_diff_le hd_conv_nth split: prod.splits)
qed

lemma bracket_parse_suffix: "\<exists>k. snd (bracket_parse ps) = drop k ps"
proof (induction ps rule: bracket_parse.induct)
  case (2 b r)
  have s: "\<exists>k. drop j r = drop k (b # r)" for j by (rule exI [of _ "Suc j"]) simp
  have st: "\<exists>k. drop j (tl r) = drop k (b # r)" for j
    by (rule exI [of _ "Suc (Suc j)"]) (simp add: drop_Suc)
  have s2: "\<exists>k. drop j (drop 2 r) = drop k (b # r)" for j
    by (rule exI [of _ "j + 3"]) (simp add: numeral_3_eq_3)
  show ?case
  proof (cases "b = 0x5D")
    case False
    consider "b = 0x5C \<and> r \<noteq> []" | "\<not> (b = 0x5C \<and> r \<noteq> [])" "2 \<le> length r \<and> r ! 0 = 0x2D"
      | "\<not> (b = 0x5C \<and> r \<noteq> [])" "\<not> (2 \<le> length r \<and> r ! 0 = 0x2D)" by blast
    then show ?thesis
    proof cases
      case 1
      then show ?thesis using 2(1) [OF False 1] st False by (auto split: prod.splits)
    next
      case 2
      then show ?thesis using "2.IH"(2) [OF False 2] s2 False by (auto split: prod.splits)
    next
      case 3
      then show ?thesis using "2.IH"(3) [OF False 3] s False by (auto split: prod.splits)
    qed
  qed (auto intro: exI [of _ 0])
qed simp

section \<open>One element of a pattern\<close>

text \<open>
  What the loop body reads at the front of a pattern that does not start with a star, and the
  matcher that reads elements this way and tries every extent of every star.
\<close>

definition elem_len :: "bytes \<Rightarrow> nat" where
  "elem_len ps = snd (glob_step ps 0 0 False)"

definition elem_ok :: "bool \<Rightarrow> bytes \<Rightarrow> u8 \<Rightarrow> bool" where
  "elem_ok ic ps c = fst (glob_step ps 0 c ic)"

function glob_ref :: "bool \<Rightarrow> bytes \<Rightarrow> bytes \<Rightarrow> bool" where
  "glob_ref ic [] ts = (ts = [])"
| "glob_ref ic (p # ps) [] = (p = 0x2A \<and> glob_ref ic ps [])"
| "glob_ref ic (p # ps) (c # ts) =
     (if p = 0x2A then glob_ref ic ps (c # ts) \<or> glob_ref ic (p # ps) ts
      else elem_ok ic (p # ps) c \<and> glob_ref ic (drop (elem_len (p # ps)) (p # ps)) ts)"
  by pat_completeness auto
termination
  by (relation "measure (\<lambda>(ic, ps, ts). length ps + length ts)") auto

lemma glob_step_drop: "p < length P \<Longrightarrow> glob_step P p c ic = glob_step (drop p P) 0 c ic"
  by (auto simp: glob_step_def Let_def)

lemma glob_step_snd: "ps \<noteq> [] \<Longrightarrow> snd (glob_step ps 0 c ic) = elem_len ps"
  using match_bracket_snd [of ps c ic 0 False] by (auto simp: glob_step_def elem_len_def Let_def)

lemma elem_len_pos: "ps \<noteq> [] \<Longrightarrow> 0 < elem_len ps"
  using match_bracket_pos [of ps 0 False] by (auto simp: glob_step_def elem_len_def Let_def)

lemma elem_len_le: "ps \<noteq> [] \<Longrightarrow> elem_len ps \<le> length ps"
  using match_bracket_le [of ps 0 False]
  by (auto simp: glob_step_def elem_len_def Let_def Suc_le_eq)

section \<open>The declarative matcher at positions of the two strings\<close>

definition ref_at :: "bool \<Rightarrow> bytes \<Rightarrow> bytes \<Rightarrow> nat \<Rightarrow> nat \<Rightarrow> bool" where
  "ref_at ic P T p t = glob_ref ic (drop p P) (drop t T)"

lemma ref_at_elem:
  assumes "p < length P" and "P ! p \<noteq> 0x2A" and "t < length T"
  shows "ref_at ic P T p t \<longleftrightarrow>
    fst (glob_step P p (T ! t) ic) \<and> ref_at ic P T (p + snd (glob_step P p (T ! t) ic)) (t + 1)"
proof -
  have P: "drop p P = P ! p # drop (Suc p) P" and T: "drop t T = T ! t # drop (Suc t) T"
    using assms by (simp_all add: Cons_nth_drop_Suc)
  have "glob_ref ic (drop p P) (drop t T) \<longleftrightarrow> elem_ok ic (drop p P) (T ! t) \<and>
      glob_ref ic (drop (elem_len (drop p P)) (drop p P)) (drop (Suc t) T)"
    using assms(2) unfolding P T by simp
  then show ?thesis
    using assms by (simp add: ref_at_def glob_step_drop [OF assms(1)] glob_step_snd elem_ok_def add.commute)
qed

lemma ref_at_exhausted:
  "p < length P \<Longrightarrow> P ! p \<noteq> 0x2A \<Longrightarrow> \<not> ref_at ic P T p (length T)"
  by (simp add: ref_at_def Cons_nth_drop_Suc [symmetric])

lemma ref_at_pattern_end: "t < length T \<Longrightarrow> \<not> ref_at ic P T (length P) t"
  by (simp add: ref_at_def)

lemma ref_at_star:
  assumes "p < length P" and "P ! p = 0x2A" and "t \<le> length T"
  shows "ref_at ic P T p t \<longleftrightarrow> (\<exists>k. t \<le> k \<and> k \<le> length T \<and> ref_at ic P T (p + 1) k)"
  using assms(3)
proof (induction rule: inc_induct)
  case base
  then show ?case using assms
    by (auto simp: ref_at_def Cons_nth_drop_Suc [symmetric])
next
  case (step n)
  have "drop p P = 0x2A # drop (Suc p) P" and "drop n T = T ! n # drop (Suc n) T"
    using assms step.hyps by (simp_all add: Cons_nth_drop_Suc [symmetric])
  then have "ref_at ic P T p n \<longleftrightarrow> ref_at ic P T (p + 1) n \<or> ref_at ic P T p (Suc n)"
    unfolding ref_at_def by simp
  moreover have "(\<exists>k. n \<le> k \<and> k \<le> length T \<and> ref_at ic P T (p + 1) k) \<longleftrightarrow>
      ref_at ic P T (p + 1) n \<or> (\<exists>k. Suc n \<le> k \<and> k \<le> length T \<and> ref_at ic P T (p + 1) k)"
    using step.hyps by (metis Suc_leD Suc_leI le_eq_less_or_eq)
  ultimately show ?case using step.IH by blast
qed

lemma ref_at_star_mono:
  assumes "p < length P" "P ! p = 0x2A" "ref_at ic P T p k" "t \<le> k" "k \<le> length T"
  shows "ref_at ic P T p t"
proof -
  obtain j where "k \<le> j" "j \<le> length T" "ref_at ic P T (p + 1) j"
    using assms ref_at_star [of p P k T ic] by blast
  then show ?thesis using assms ref_at_star [of p P t T ic] by (meson order_trans)
qed

lemma star_run_end:
  "p < length P \<Longrightarrow> P ! p = 0x2A \<Longrightarrow> p \<le> star_run_end P p \<and> star_run_end P p < length P \<and>
     P ! star_run_end P p = 0x2A \<and>
     (\<forall>t \<le> length T. ref_at ic P T (star_run_end P p) t = ref_at ic P T p t)"
proof (induction P p rule: star_run_end.induct)
  case (1 P p)
  show ?case
  proof (cases "p + 1 < length P \<and> P ! (p + 1) = 0x2A")
    case True
    have "ref_at ic P T p t = ref_at ic P T (p + 1) t" if "t \<le> length T" for t
      using that True "1.prems" ref_at_star [of p P t T ic] ref_at_star_mono [of "p + 1" P ic T _ t]
      by blast
    with "1.IH" [OF True] True show ?thesis
      by (simp add: star_run_end.simps [of P p])
  next
    case False
    then have "star_run_end P p = p" by (auto simp: star_run_end.simps [of P p])
    with "1.prems" show ?thesis by simp
  qed
qed

lemma skip_stars_end:
  "p \<le> length P \<Longrightarrow> skip_stars P p = length P \<longleftrightarrow> ref_at ic P T p (length T)"
proof (induction P p rule: skip_stars.induct)
  case (1 P p)
  consider "p = length P" | "p < length P" "P ! p = 0x2A" | "p < length P" "P ! p \<noteq> 0x2A"
    using "1.prems" by linarith
  then show ?case
  proof cases
    case 1
    then show ?thesis by (simp add: skip_stars.simps [of P "length P"] ref_at_def)
  next
    case 2
    with "1.IH" show ?thesis
      by (simp add: skip_stars.simps [of P p] ref_at_def Cons_nth_drop_Suc [symmetric])
  next
    case 3
    then show ?thesis by (simp add: skip_stars.simps [of P p] ref_at_exhausted)
  qed
qed

section \<open>The greedy loop returns what the declarative matcher says\<close>

text \<open>
  The invariant: the saved star lies before the current position, and whatever extent of that
  star lets the rest of the pattern match also lets the part of the pattern still ahead match,
  shifted by the bytes consumed since the star.
\<close>

definition glob_inv ::
  "bool \<Rightarrow> bytes \<Rightarrow> bytes \<Rightarrow> nat \<Rightarrow> nat \<Rightarrow> nat option \<Rightarrow> nat \<Rightarrow> bool" where
  "glob_inv ic P T p t star_p star_t \<longleftrightarrow> p \<le> length P \<and> t \<le> length T \<and>
     (\<forall>sp. star_p = Some sp \<longrightarrow> sp < p \<and> star_t \<le> t \<and>
        (\<forall>k. k \<le> length T \<and> ref_at ic P T (sp + 1) k \<longrightarrow>
           k + (t - star_t) \<le> length T \<and> ref_at ic P T p (k + (t - star_t))))"

definition glob_ans ::
  "bool \<Rightarrow> bytes \<Rightarrow> bytes \<Rightarrow> nat \<Rightarrow> nat \<Rightarrow> nat option \<Rightarrow> nat \<Rightarrow> bool" where
  "glob_ans ic P T p t star_p star_t \<longleftrightarrow> ref_at ic P T p t \<or>
     (\<exists>sp k. star_p = Some sp \<and> star_t < k \<and> k \<le> length T \<and> ref_at ic P T (sp + 1) k)"

lemma glob_ans_end:
  assumes "glob_inv ic P T p (length T) star_p star_t"
  shows "glob_ans ic P T p (length T) star_p star_t = (skip_stars P p = length P)"
proof -
  have "\<not> (star_p = Some sp \<and> star_t < k \<and> k \<le> length T \<and> ref_at ic P T (sp + 1) k)" for sp k
  proof
    assume a: "star_p = Some sp \<and> star_t < k \<and> k \<le> length T \<and> ref_at ic P T (sp + 1) k"
    then have "star_t \<le> length T" "k + (length T - star_t) \<le> length T"
      using assms unfolding glob_inv_def by blast+
    with a show False by linarith
  qed
  with assms show ?thesis
    using skip_stars_end [of p P ic T] unfolding glob_ans_def glob_inv_def by blast
qed

lemma glob_ans_star:
  assumes inv: "glob_inv ic P T p t star_p star_t" and p: "p < length P" "P ! p = 0x2A"
  shows "glob_ans ic P T p t star_p star_t = ref_at ic P T p t"
proof -
  have t: "t \<le> length T" using inv by (simp add: glob_inv_def)
  have "ref_at ic P T p t"
    if k: "star_p = Some sp" "star_t < k" "k \<le> length T" "ref_at ic P T (sp + 1) k" for sp k
  proof -
    have "star_t \<le> t" "k + (t - star_t) \<le> length T" "ref_at ic P T p (k + (t - star_t))"
      using inv k by (auto simp: glob_inv_def)
    moreover from this k(2) have "t \<le> k + (t - star_t)" by simp
    ultimately show ?thesis using p by (meson ref_at_star_mono)
  qed
  then show ?thesis by (auto simp: glob_ans_def)
qed

lemma glob_inv_elem:
  assumes inv: "glob_inv ic P T p t star_p star_t" and p: "p < length P" "P ! p \<noteq> 0x2A"
    and t: "t < length T"
  shows "glob_inv ic P T (p + snd (glob_step P p (T ! t) ic)) (t + 1) star_p star_t"
proof -
  let ?n = "elem_len (drop p P)"
  have n: "snd (glob_step P p c ic) = ?n" for c
    using p by (simp add: glob_step_drop [OF p(1)] glob_step_snd)
  have le: "p + ?n \<le> length P" using elem_len_le [of "drop p P"] p by simp
  have "k + (t + 1 - st) \<le> length T \<and> ref_at ic P T (p + ?n) (k + (t + 1 - st))"
    if "k + (t - st) \<le> length T" "ref_at ic P T p (k + (t - st))" "st \<le> t" for k st
  proof -
    have "k + (t - st) \<noteq> length T" using that ref_at_exhausted [OF p] by metis
    with that(1) have "k + (t - st) < length T" by simp
    then show ?thesis using that ref_at_elem [OF p, of "k + (t - st)"] n
      by (simp add: Suc_diff_le)
  qed
  note shift = this
  show ?thesis unfolding glob_inv_def n
  proof (intro conjI allI impI)
    fix sp assume sp: "star_p = Some sp"
    show "sp < p + ?n" and "star_t \<le> t + 1" using inv sp by (auto simp: glob_inv_def)
    fix k assume "k \<le> length T \<and> ref_at ic P T (sp + 1) k"
    then have "k + (t + 1 - star_t) \<le> length T \<and> ref_at ic P T (p + ?n) (k + (t + 1 - star_t))"
      using inv sp by (intro shift) (auto simp: glob_inv_def)
    then show "k + (t + 1 - star_t) \<le> length T" "ref_at ic P T (p + ?n) (k + (t + 1 - star_t))"
      by simp_all
  qed (use le t in simp_all)
qed

lemma glob_inv_star:
  assumes "q < length P" "t \<le> length T"
  shows "glob_inv ic P T (q + 1) t (Some q) t"
  using assms by (simp add: glob_inv_def)

text \<open>
  The loop ends because every iteration moves the saved star to the right, or keeps it and moves
  its extent, or keeps both and moves the target index.
\<close>

definition glob_measures :: "bytes \<Rightarrow> bytes \<Rightarrow> (nat \<times> nat \<times> nat option \<times> nat \<Rightarrow> nat) list" where
  "glob_measures P T =
     [\<lambda>(p, t, sp, st). length P - (case sp of None \<Rightarrow> 0 | Some s \<Rightarrow> Suc s),
      \<lambda>(p, t, sp, st). length T - st, \<lambda>(p, t, sp, st). length T - t]"

lemma glob_loop_ref:
  "glob_inv ic P T p t star_p star_t \<Longrightarrow>
   glob_loop P T ic p t star_p star_t = Some (glob_ans ic P T p t star_p star_t)"
proof (induction "(p, t, star_p, star_t)" arbitrary: p t star_p star_t
    rule: wf_induct_rule [OF wf_measures [of "glob_measures P T"]])
  case 1
  note inv = "1.prems"
  note IH = "1.hyps"
  note unfold_loop = glob_loop.simps [of P T ic p t star_p star_t]
  have pt: "p \<le> length P" "t \<le> length T" using inv by (simp_all add: glob_inv_def)
  consider (fin) "t = length T"
    | (star) "t < length T" "p < length P" "P ! p = 0x2A"
    | (elem) "t < length T" "p < length P" "P ! p \<noteq> 0x2A" "fst (glob_step P p (T ! t) ic)"
    | (miss) "t < length T" "\<not> (p < length P \<and> P ! p = 0x2A)"
        "\<not> (p < length P \<and> fst (glob_step P p (T ! t) ic))"
    using pt by linarith
  then show ?case
  proof cases
    case fin
    then show ?thesis unfolding unfold_loop using glob_ans_end inv by simp
  next
    case star
    let ?q = "star_run_end P p"
    have q: "p \<le> ?q" "?q < length P" "P ! ?q = 0x2A" "ref_at ic P T ?q t = ref_at ic P T p t"
      using star_run_end [OF star(2,3), of T ic] pt by auto
    have ans: "glob_ans ic P T p t star_p star_t = ref_at ic P T ?q t"
      using glob_ans_star [OF inv star(2,3)] q by simp
    show ?thesis
    proof (cases "?q + 1 = length P")
      case True
      have "ref_at ic P T (length P) (length T)" by (simp add: ref_at_def)
      then have "ref_at ic P T ?q t"
        unfolding ref_at_star [OF q(2,3) pt(2)] True using pt by blast
      with True ans star show ?thesis unfolding unfold_loop by (simp add: Let_def)
    next
      case False
      have "glob_loop P T ic (?q + 1) t (Some ?q) t = Some (glob_ans ic P T (?q + 1) t (Some ?q) t)"
        using inv q star pt
        by (intro IH glob_inv_star) (auto simp: glob_measures_def glob_inv_def split: option.splits)
      moreover have "glob_ans ic P T (?q + 1) t (Some ?q) t = ref_at ic P T ?q t"
        unfolding glob_ans_def ref_at_star [OF q(2,3) pt(2)] using star(1)
        by (auto simp: le_less)
      ultimately show ?thesis unfolding unfold_loop using False ans star by (simp add: Let_def)
    qed
  next
    case elem
    let ?s = "snd (glob_step P p (T ! t) ic)"
    have "glob_loop P T ic (p + ?s) (t + 1) star_p star_t =
        Some (glob_ans ic P T (p + ?s) (t + 1) star_p star_t)"
      using elem glob_inv_elem [OF inv elem(2,3,1)] by (intro IH) (auto simp: glob_measures_def)
    then show ?thesis unfolding unfold_loop using elem ref_at_elem [OF elem(2,3,1), of ic]
      by (simp add: glob_ans_def)
  next
    case miss
    then have no: "\<not> ref_at ic P T p t"
      using ref_at_elem [of p P t T ic] ref_at_pattern_end [of t T ic P] pt
      by (cases "p < length P") auto
    show ?thesis
    proof (cases star_p)
      case None
      with miss no show ?thesis unfolding unfold_loop by (auto simp: glob_ans_def)
    next
      case (Some sp)
      have st: "sp < length P" "star_t + 1 \<le> length T"
        using inv miss pt Some by (auto simp: glob_inv_def)
      have "glob_loop P T ic (sp + 1) (star_t + 1) (Some sp) (star_t + 1) =
          Some (glob_ans ic P T (sp + 1) (star_t + 1) (Some sp) (star_t + 1))"
        using st Some by (intro IH glob_inv_star) (auto simp: glob_measures_def)
      moreover have "glob_ans ic P T (sp + 1) (star_t + 1) (Some sp) (star_t + 1) =
          glob_ans ic P T p t star_p star_t"
        unfolding glob_ans_def using st(2) no Some
        by simp (metis Suc_leI Suc_le_lessD Suc_lessD le_eq_less_or_eq)
      ultimately show ?thesis unfolding unfold_loop using miss Some by auto
    qed
  qed
qed

section \<open>The elements the loop reads are those of the pattern\<close>

lemma bracket_tail:
  assumes "(items, rest) = bracket_parse ps" and "\<exists>u. xs = u @ ps"
  shows "drop (if rest = [] then length xs else length xs + 1 - length rest) xs = tl rest"
proof -
  obtain k where k: "rest = drop k ps" using bracket_parse_suffix [of ps] assms(1) by (metis snd_conv)
  obtain v where v: "xs = v @ rest"
    using assms(2) k append_take_drop_id [of k ps] by (metis append.assoc)
  show ?thesis by (cases rest) (simp_all add: v)
qed

lemma elem_parse:
  assumes "p \<noteq> 0x2A"
  obtains e where "e \<noteq> GStar"
    and "glob_parse (p # ps) = e # glob_parse (drop (elem_len (p # ps)) (p # ps))"
    and "\<And>ic c. elem_ok ic (p # ps) c \<longleftrightarrow> c \<in> elem_set ic e"
proof (cases "p = 0x5B")
  case True
  define neg where "neg = (ps \<noteq> [] \<and> hd ps = 0x5E)"
  obtain items rest where b: "bracket_parse (if neg then tl ps else ps) = (items, rest)" by fastforce
  note den = match_bracket_denotation [of ps, folded neg_def, unfolded Let_def b prod.case]
  have "\<exists>u. p # ps = u @ (if neg then tl ps else ps)"
    by (rule exI [of _ "if neg then [p, hd ps] else [p]"]) (cases ps; simp add: neg_def)
  from bracket_tail [OF b [symmetric] this]
  have "drop (elem_len (p # ps)) (p # ps) = tl rest"
    using True by (auto simp: elem_len_def glob_step_def den)
  then show thesis using True den b
    by (intro that [of "GBracket neg items"]) (auto simp: elem_ok_def glob_step_def neg_def Let_def)
next
  case False
  show thesis
  proof (cases "p = 0x3F")
    case True
    then show thesis by (intro that [of GAny]) (simp_all add: elem_ok_def elem_len_def glob_step_def)
  next
    case q: False
    have sym: "(c \<in> {d. case_fold ic d = case_fold ic b}) = byte_eq b c ic" for ic c b by (simp add: byte_eq_fold eq_commute)
    show thesis
    proof (cases "p = 0x5C \<and> ps \<noteq> []")
      case True
      then show thesis
        by (intro that [of "GByte (hd ps)"])
          (simp_all only: elem_set.simps sym glob_elem.simps, simp_all add: elem_ok_def elem_len_def glob_step_def hd_conv_nth drop_Suc)
    next
      case plain: False
      then show thesis using q False assms
        by (intro that [of "GByte p"])
          (simp_all only: elem_set.simps sym glob_elem.simps, simp_all add: elem_ok_def elem_len_def glob_step_def)
    qed
  qed
qed

lemma glob_ref_lang: "glob_ref ic P T \<longleftrightarrow> T \<in> glob_lang ic (glob_parse P)"
proof (induction ic P T rule: glob_ref.induct)
  case (2 ic p ps)
  show ?case
  proof (cases "p = 0x2A")
    case False
    then obtain e where "e \<noteq> GStar" "glob_parse (p # ps) = e # glob_parse (drop (elem_len (p # ps)) (p # ps))"
      by (rule elem_parse)
    with False show ?thesis by simp
  qed (use 2 in simp)
next
  case (3 ic p ps c ts)
  show ?case
  proof (cases "p = 0x2A")
    case True
    have "(\<exists>u v. c # ts = u @ v \<and> v \<in> L) \<longleftrightarrow> c # ts \<in> L \<or> (\<exists>u v. ts = u @ v \<and> v \<in> L)" for L :: "bytes set"
      by (auto simp: Cons_eq_append_conv)
    with True 3 show ?thesis by simp
  next
    case False
    then obtain e where e: "e \<noteq> GStar" "glob_parse (p # ps) = e # glob_parse (drop (elem_len (p # ps)) (p # ps))"
        "elem_ok ic (p # ps) c \<longleftrightarrow> c \<in> elem_set ic e"
      using elem_parse [OF False, of ps] by metis
    from 3(3) [OF False] e(1,3) False show ?thesis unfolding e(2) by auto
  qed
qed simp

section \<open>Properties\<close>

text \<open>
  C34: The greedy matcher always returns, for every pattern and target and with or without case
  folding, and its answer is whether the target belongs to the language the pattern denotes: a
  star is any bytes, a question mark any byte, a byte or an escaped byte itself up to the chosen
  case rule, a bracket the union of its items or, after a caret, the complement. The documented
  exception is that an empty target matches the empty pattern only.
\<close>

theorem glob_match_opt_correct:
  "glob_match_opt P T ic = Some (if T = [] then P = [] else T \<in> glob_lang ic (glob_parse P))"
proof -
  have "glob_loop P T ic 0 0 None 0 = Some (glob_ans ic P T 0 0 None 0)"
    by (rule glob_loop_ref) (simp add: glob_inv_def)
  then show ?thesis by (simp add: glob_match_opt_def glob_ans_def ref_at_def glob_ref_lang)
qed

end
