(* ===== verification/Varint.thy ===== *)
theory Varint
  imports Wedb_Prelude
begin

text \<open>
  The order-preserving prefix varint (OPPV) of \<open>wbase/src/varint.rs\<close>: the length table,
  \<open>encode_u64\<close>, \<open>encode_u64_to_array\<close> and \<open>decode_u64\<close> with every error branch.
  A destination slice is a byte list that the encoder returns updated; the \<open>unreachable!\<close>
  of \<open>encode_u64_to_array\<close> is \<open>None\<close>. The lemmas show that the code is a bijection
  between \<open>u64\<close> and its canonical strings, self-delimiting, and that it preserves order.
\<close>

section \<open>Constants\<close>

definition VARINT_1B_MAX :: u64 where "VARINT_1B_MAX = 128"
definition VARINT_2B_MAX :: u64 where "VARINT_2B_MAX = 16512"
definition VARINT_3B_MAX :: u64 where "VARINT_3B_MAX = 2113664"
definition VARINT_4B_MAX :: u64 where "VARINT_4B_MAX = 270549120"
definition VARINT_9B_MARKER :: u8 where "VARINT_9B_MARKER = 0xFF"
definition VARINT_1B_FIRST_BYTE_MAX :: u8 where "VARINT_1B_FIRST_BYTE_MAX = 0x7F"
definition VARINT_1B_FIRST_BYTE_LIMIT :: u8 where "VARINT_1B_FIRST_BYTE_LIMIT = 0x80"
definition VARINT_2B_MARKER :: u8 where "VARINT_2B_MARKER = 0x80"
definition VARINT_2B_FIRST_BYTE_MAX :: u8 where "VARINT_2B_FIRST_BYTE_MAX = 0xBF"
definition VARINT_2B_PAYLOAD_MASK :: u8 where "VARINT_2B_PAYLOAD_MASK = 0x3F"
definition VARINT_3B_MARKER :: u8 where "VARINT_3B_MARKER = 0xC0"
definition VARINT_3B_FIRST_BYTE_MAX :: u8 where "VARINT_3B_FIRST_BYTE_MAX = 0xDF"
definition VARINT_3B_PAYLOAD_MASK :: u8 where "VARINT_3B_PAYLOAD_MASK = 0x1F"
definition VARINT_4B_MARKER :: u8 where "VARINT_4B_MARKER = 0xE0"
definition VARINT_4B_FIRST_BYTE_MAX :: u8 where "VARINT_4B_FIRST_BYTE_MAX = 0xEF"
definition VARINT_4B_PAYLOAD_MASK :: u8 where "VARINT_4B_PAYLOAD_MASK = 0x0F"
definition MAX_VARINT_LEN :: nat where "MAX_VARINT_LEN = 9"

lemmas varint_consts =
  VARINT_1B_MAX_def VARINT_2B_MAX_def VARINT_3B_MAX_def VARINT_4B_MAX_def VARINT_9B_MARKER_def
  VARINT_1B_FIRST_BYTE_MAX_def VARINT_1B_FIRST_BYTE_LIMIT_def
  VARINT_2B_MARKER_def VARINT_2B_FIRST_BYTE_MAX_def VARINT_2B_PAYLOAD_MASK_def
  VARINT_3B_MARKER_def VARINT_3B_FIRST_BYTE_MAX_def VARINT_3B_PAYLOAD_MASK_def
  VARINT_4B_MARKER_def VARINT_4B_FIRST_BYTE_MAX_def VARINT_4B_PAYLOAD_MASK_def MAX_VARINT_LEN_def

text \<open>The table \<open>VARINT_LEN_LUT\<close>, indexed by the first byte; 0 marks an illegal first byte.\<close>

definition VARINT_LEN_LUT :: "u8 \<Rightarrow> nat" where
  "VARINT_LEN_LUT i =
     (if i \<le> VARINT_1B_FIRST_BYTE_MAX then 1
      else if VARINT_2B_MARKER \<le> i \<and> i \<le> VARINT_2B_FIRST_BYTE_MAX then 2
      else if VARINT_3B_MARKER \<le> i \<and> i \<le> VARINT_3B_FIRST_BYTE_MAX then 3
      else if VARINT_4B_MARKER \<le> i \<and> i \<le> VARINT_4B_FIRST_BYTE_MAX then 4
      else if i = VARINT_9B_MARKER then MAX_VARINT_LEN
      else 0)"

datatype varint_error =
    VBufferTooShort nat nat
  | VNonCanonical

section \<open>Encoder and decoder\<close>

definition encode_u64 :: "u64 \<Rightarrow> bytes \<Rightarrow> (varint_error, bytes \<times> nat) res" where
  "encode_u64 val dst =
     (if val < VARINT_1B_MAX then
        (if dst = [] then Inl (VBufferTooShort 1 0)
         else Inr (dst[0 := ucast val], 1))
      else if val < VARINT_2B_MAX then
        (if length dst < 2 then Inl (VBufferTooShort 2 (length dst))
         else
           (let offset = (ucast (val - VARINT_1B_MAX) :: u16); bs = to_be_bytes 2 offset
            in Inr (dst[0 := VARINT_2B_MARKER OR bs ! 0, 1 := bs ! 1], 2)))
      else if val < VARINT_3B_MAX then
        (if length dst < 3 then Inl (VBufferTooShort 3 (length dst))
         else
           (let offset = (ucast (val - VARINT_2B_MAX) :: u32); bs = to_be_bytes 4 offset
            in Inr (dst[0 := VARINT_3B_MARKER OR bs ! 1, 1 := bs ! 2, 2 := bs ! 3], 3)))
      else if val < VARINT_4B_MAX then
        (if length dst < 4 then Inl (VBufferTooShort 4 (length dst))
         else
           (let offset = (ucast (val - VARINT_3B_MAX) :: u32); bs = to_be_bytes 4 offset
            in Inr (dst[0 := VARINT_4B_MARKER OR bs ! 0, 1 := bs ! 1, 2 := bs ! 2, 3 := bs ! 3], 4)))
      else
        (if length dst < MAX_VARINT_LEN then Inl (VBufferTooShort MAX_VARINT_LEN (length dst))
         else
           (let bs = to_be_bytes 8 val
            in Inr (dst[0 := VARINT_9B_MARKER, 1 := bs ! 0, 2 := bs ! 1, 3 := bs ! 2, 4 := bs ! 3,
                        5 := bs ! 4, 6 := bs ! 5, 7 := bs ! 6, 8 := bs ! 7], MAX_VARINT_LEN))))"

definition encode_u64_to_array :: "u64 \<Rightarrow> (bytes \<times> nat) option" where
  "encode_u64_to_array val =
     (case encode_u64 val (replicate MAX_VARINT_LEN 0) of
        Inr (buf, len) \<Rightarrow> Some (buf, len)
      | Inl _ \<Rightarrow> None)"

definition decode_u64 :: "bytes \<Rightarrow> (varint_error, u64 \<times> nat) res" where
  "decode_u64 s =
     (if 1 \<le> length s \<and> s ! 0 \<le> VARINT_1B_FIRST_BYTE_MAX then Inr (ucast (s ! 0), 1)
      else if 2 \<le> length s \<and> VARINT_2B_MARKER \<le> s ! 0 \<and> s ! 0 \<le> VARINT_2B_FIRST_BYTE_MAX then
        (let offset = (from_be_bytes [s ! 0 AND VARINT_2B_PAYLOAD_MASK, s ! 1] :: u16)
         in Inr (VARINT_1B_MAX + ucast offset, 2))
      else if 3 \<le> length s \<and> VARINT_3B_MARKER \<le> s ! 0 \<and> s ! 0 \<le> VARINT_3B_FIRST_BYTE_MAX then
        (let offset = (from_be_bytes [0, s ! 0 AND VARINT_3B_PAYLOAD_MASK, s ! 1, s ! 2] :: u32)
         in Inr (VARINT_2B_MAX + ucast offset, 3))
      else if 4 \<le> length s \<and> VARINT_4B_MARKER \<le> s ! 0 \<and> s ! 0 \<le> VARINT_4B_FIRST_BYTE_MAX then
        (let offset = (from_be_bytes [s ! 0 AND VARINT_4B_PAYLOAD_MASK, s ! 1, s ! 2, s ! 3] :: u32)
         in Inr (VARINT_3B_MAX + ucast offset, 4))
      else if 9 \<le> length s \<and> s ! 0 = VARINT_9B_MARKER then
        (let val = from_be_bytes (take 8 (drop 1 s))
         in if val < VARINT_4B_MAX then Inl VNonCanonical else Inr (val, MAX_VARINT_LEN))
      else if s = [] then Inl (VBufferTooShort 1 0)
      else
        (let expected = VARINT_LEN_LUT (s ! 0)
         in if expected = 0 then Inl VNonCanonical else Inl (VBufferTooShort expected (length s))))"

section \<open>The code as a number\<close>

text \<open>
  The canonical string of a value, written arithmetically: its length and the string read as
  one big-endian number. The encoder and the decoder are compared with it.
\<close>

definition varint_len :: "u64 \<Rightarrow> nat" where
  "varint_len v =
     (if v < 128 then 1 else if v < 16512 then 2 else if v < 2113664 then 3
      else if v < 270549120 then 4 else 9)"

definition varint_code :: "u64 \<Rightarrow> nat" where
  "varint_code v =
     (if v < 128 then unat v
      else if v < 16512 then 0x8000 + (unat v - 128)
      else if v < 2113664 then 0xC00000 + (unat v - 16512)
      else if v < 270549120 then 0xE0000000 + (unat v - 2113664)
      else 0xFF * 2 ^ 64 + unat v)"

definition varint_bytes :: "u64 \<Rightarrow> bytes" where
  "varint_bytes v = be_of_nat (varint_len v) (varint_code v)"

section \<open>Length and first byte of the canonical string\<close>

lemma length_varint_bytes [simp]: "length (varint_bytes v) = varint_len v"
  by (simp add: varint_bytes_def)

lemma varint_len_bounds: "1 \<le> varint_len v" "varint_len v \<le> 9"
  by (simp_all add: varint_len_def)

lemma varint_code_less: "varint_code v < 256 ^ varint_len v"
  using unsigned_less [of v] by (auto simp: varint_code_def varint_len_def word_less_nat_alt)

lemma nat_of_be_varint_bytes: "nat_of_be (varint_bytes v) = varint_code v"
  using varint_code_less [of v] by (simp add: varint_bytes_def nat_of_be_of_nat)

section \<open>The encoder writes the canonical string\<close>

lemma marker_or:
  "y < 64 \<Longrightarrow> (0x80 :: u8) OR of_nat y = of_nat (0x80 + y)"
  "y < 32 \<Longrightarrow> (0xC0 :: u8) OR of_nat y = of_nat (0xC0 + y)"
  "y < 16 \<Longrightarrow> (0xE0 :: u8) OR of_nat y = of_nat (0xE0 + y)"
  using word_or_eq_plus [OF push_bit_and_of_nat [of y 6 "2 :: u8"]]
    word_or_eq_plus [OF push_bit_and_of_nat [of y 5 "6 :: u8"]]
    word_or_eq_plus [OF push_bit_and_of_nat [of y 4 "14 :: u8"]]
  by (simp_all add: push_bit_eq_mult)

lemma be_of_nat_2: "be_of_nat 2 x = [of_nat (x div 256 mod 256), of_nat (x mod 256)]"
  by (simp add: numeral_2_eq_2)

lemma be_of_nat_3:
  "be_of_nat 3 x = [of_nat (x div 65536 mod 256), of_nat (x div 256 mod 256), of_nat (x mod 256)]"
  by (simp add: numeral_3_eq_3 div_mult2_eq [symmetric])

lemma be_of_nat_4:
  "be_of_nat 4 x = [of_nat (x div 16777216 mod 256), of_nat (x div 65536 mod 256),
     of_nat (x div 256 mod 256), of_nat (x mod 256)]"
  using be_of_nat.simps(2) [of 3 x] by (simp add: be_of_nat_3 div_mult2_eq [symmetric])

lemma list_upd_prefix:
  "2 \<le> length d \<Longrightarrow> d[0 := a, 1 := b] = [a, b] @ drop 2 d"
  "3 \<le> length d \<Longrightarrow> d[0 := a, 1 := b, 2 := c] = [a, b, c] @ drop 3 d"
  "4 \<le> length d \<Longrightarrow> d[0 := a, 1 := b, 2 := c, 3 := e] = [a, b, c, e] @ drop 4 d"
  by (auto simp: numeral_eq_Suc Suc_le_length_iff)

lemma list_upd_marker:
  assumes "length bs = 8" and "9 \<le> length d"
  shows "d[0 := m, 1 := bs ! 0, 2 := bs ! 1, 3 := bs ! 2, 4 := bs ! 3, 5 := bs ! 4, 6 := bs ! 5,
            7 := bs ! 6, 8 := bs ! 7] = m # bs @ drop 9 d"
  using assms by (auto simp: numeral_eq_Suc Suc_le_length_iff length_Suc_conv)

lemma unat_minus_ucast:
  assumes "k \<le> v" and "unat v - unat k < 2 ^ LENGTH('b)"
  shows "unat (ucast (v - k :: u64) :: 'b::len word) = unat v - unat k"
  using assms by (simp add: unsigned_ucast_eq unat_sub take_bit_nat_eq_self word_le_nat_alt)

lemma offset_2:
  assumes "\<not> v < 128" and "v < 16512"
  shows "unat (ucast (v - 128 :: u64) :: u16) = unat v - 128" "(unat v - 128) div 256 < 64"
  using unat_minus_ucast [of 128 v, where 'b = 16] assms by (auto simp: word_less_nat_alt word_le_nat_alt)

lemma offset_3:
  assumes "\<not> v < 16512" and "v < 2113664"
  shows "unat (ucast (v - 16512 :: u64) :: u32) = unat v - 16512" "(unat v - 16512) div 65536 < 32"
  using unat_minus_ucast [of 16512 v, where 'b = 32] assms by (auto simp: word_less_nat_alt word_le_nat_alt)

lemma offset_4:
  assumes "\<not> v < 2113664" and "v < 270549120"
  shows "unat (ucast (v - 2113664 :: u64) :: u32) = unat v - 2113664"
    "(unat v - 2113664) div 16777216 < 16"
  using unat_minus_ucast [of 2113664 v, where 'b = 32] assms
  by (auto simp: word_less_nat_alt word_le_nat_alt)

lemma be_marker_2:
  "x div 256 < 64 \<Longrightarrow> be_of_nat 2 (32768 + x) = [0x80 OR of_nat (x div 256), of_nat (x mod 256)]"
  using div_mult_self3 [of 256 128 x] mod_mult_self3 [of 128 256 x]
  by (simp add: be_of_nat_2 marker_or)

lemma be_marker_3:
  assumes "x div 65536 < 32"
  shows "be_of_nat 3 (12582912 + x)
    = [0xC0 OR of_nat (x div 65536), of_nat (x div 256 mod 256), of_nat (x mod 256)]"
proof -
  have "(12582912 + x) div 65536 = 192 + x div 65536" "(12582912 + x) div 256 = 192 * 256 + x div 256"
    using div_mult_self3 [of 65536 192 x] div_mult_self3 [of 256 49152 x] by simp_all
  moreover have "(192 * 256 + x div 256) mod 256 = x div 256 mod 256"
    by (rule mod_mult_self3)
  moreover have "(12582912 + x) mod 256 = x mod 256"
    using mod_mult_self3 [of 49152 256 x] by simp
  ultimately show ?thesis using assms by (simp add: be_of_nat_3 marker_or)
qed

lemma be_marker_4:
  assumes "x div 16777216 < 16"
  shows "be_of_nat 4 (3758096384 + x)
    = [0xE0 OR of_nat (x div 16777216), of_nat (x div 65536 mod 256), of_nat (x div 256 mod 256),
       of_nat (x mod 256)]"
proof -
  have "(3758096384 + x) div 16777216 = 224 + x div 16777216"
    "(3758096384 + x) div 65536 = 224 * 256 + x div 65536"
    "(3758096384 + x) div 256 = 57344 * 256 + x div 256"
    using div_mult_self3 [of 16777216 224 x] div_mult_self3 [of 65536 57344 x]
      div_mult_self3 [of 256 14680064 x] by simp_all
  moreover have "(224 * 256 + x div 65536) mod 256 = x div 65536 mod 256"
    "(57344 * 256 + x div 256) mod 256 = x div 256 mod 256"
    by (rule mod_mult_self3)+
  moreover have "(3758096384 + x) mod 256 = x mod 256"
    using mod_mult_self3 [of 14680064 256 x] by simp
  ultimately show ?thesis using assms by (simp add: be_of_nat_4 marker_or)
qed

lemma encode_2:
  assumes "\<not> v < 128" and "v < 16512" and "2 \<le> length dst"
  shows "encode_u64 v dst = Inr (varint_bytes v @ drop 2 dst, 2)"
proof -
  define x where "x = unat v - 128"
  have x: "unat (ucast (v - 128) :: u16) = x" "x div 256 < 64"
    using offset_2 [OF assms(1,2)] by (simp_all add: x_def)
  have "varint_bytes v = be_of_nat 2 (32768 + x)"
    using assms by (simp add: varint_bytes_def varint_len_def varint_code_def x_def)
  moreover have "to_be_bytes 2 (ucast (v - 128) :: u16) = [of_nat (x div 256), of_nat (x mod 256)]"
    using x by (simp add: to_be_bytes_def be_of_nat_2)
  ultimately show ?thesis
    using assms x(2)
    by (simp add: encode_u64_def varint_consts Let_def list_upd_prefix(1) [simplified] be_marker_2)
qed

lemma encode_3:
  assumes "\<not> v < 16512" and "v < 2113664" and "3 \<le> length dst"
  shows "encode_u64 v dst = Inr (varint_bytes v @ drop 3 dst, 3)"
proof -
  define x where "x = unat v - 16512"
  have r: "\<not> v < 128" using assms(1) by (simp add: word_less_nat_alt)
  have x: "unat (ucast (v - 16512) :: u32) = x" "x div 65536 < 32"
    using offset_3 [OF assms(1,2)] by (simp_all add: x_def)
  then have "x div 16777216 = 0" by simp
  then have "to_be_bytes 4 (ucast (v - 16512) :: u32)
      = [0, of_nat (x div 65536), of_nat (x div 256 mod 256), of_nat (x mod 256)]"
    using x by (simp add: to_be_bytes_def be_of_nat_4)
  moreover have "varint_bytes v = be_of_nat 3 (12582912 + x)"
    using assms r by (simp add: varint_bytes_def varint_len_def varint_code_def x_def)
  ultimately show ?thesis
    using assms x(2) r
    by (simp add: encode_u64_def varint_consts Let_def list_upd_prefix(2) [simplified] be_marker_3)
qed

lemma encode_4:
  assumes "\<not> v < 2113664" and "v < 270549120" and "4 \<le> length dst"
  shows "encode_u64 v dst = Inr (varint_bytes v @ drop 4 dst, 4)"
proof -
  define x where "x = unat v - 2113664"
  have r: "\<not> v < 128" "\<not> v < 16512" using assms(1) by (simp_all add: word_less_nat_alt)
  have x: "unat (ucast (v - 2113664) :: u32) = x" "x div 16777216 < 16"
    using offset_4 [OF assms(1,2)] by (simp_all add: x_def)
  then have "to_be_bytes 4 (ucast (v - 2113664) :: u32)
      = [of_nat (x div 16777216), of_nat (x div 65536 mod 256), of_nat (x div 256 mod 256),
         of_nat (x mod 256)]"
    by (simp add: to_be_bytes_def be_of_nat_4)
  moreover have "varint_bytes v = be_of_nat 4 (3758096384 + x)"
    using assms r by (simp add: varint_bytes_def varint_len_def varint_code_def x_def)
  ultimately show ?thesis
    using assms x(2) r
    by (simp add: encode_u64_def varint_consts Let_def list_upd_prefix(3) [simplified] be_marker_4)
qed

lemma varint_bytes_9:
  assumes "\<not> v < 270549120"
  shows "varint_bytes v = 0xFF # to_be_bytes 8 v"
proof -
  have "nat_of_be (0xFF # to_be_bytes 8 v) = 0xFF * 2 ^ 64 + unat v"
    by (simp add: nat_of_be_Cons nat_of_be_to_be_bytes)
  moreover have "nat_of_be (varint_bytes v) = 0xFF * 2 ^ 64 + unat v"
    using assms by (simp add: nat_of_be_varint_bytes varint_code_def word_less_nat_alt word_le_nat_alt)
  ultimately show ?thesis
    using assms by (subst nat_of_be_inject [symmetric])
      (simp_all add: varint_len_def word_less_nat_alt word_le_nat_alt)
qed

lemma encode_9:
  assumes "\<not> v < 270549120" and "9 \<le> length dst"
  shows "encode_u64 v dst = Inr (varint_bytes v @ drop 9 dst, 9)"
  using assms list_upd_marker [of "to_be_bytes 8 v" dst "0xFF"]
  by (simp add: encode_u64_def varint_consts varint_bytes_9 Let_def word_less_nat_alt word_le_nat_alt)

lemma encode_1:
  assumes "v < 128" and "1 \<le> length dst"
  shows "encode_u64 v dst = Inr (varint_bytes v @ drop 1 dst, 1)"
proof -
  have "varint_bytes v = [ucast v]"
    using assms
    by (simp add: varint_bytes_def varint_len_def varint_code_def word_less_nat_alt
        unsigned_ucast_eq of_nat_unat)
  with assms show ?thesis
    by (cases dst) (simp_all add: encode_u64_def varint_consts)
qed

text \<open>
  The encoder, on every branch: it fails exactly when the destination is shorter than the
  canonical string, and otherwise overwrites that many leading bytes and no others.
\<close>

lemma encode_u64_eq:
  "encode_u64 v dst =
     (if length dst < varint_len v then Inl (VBufferTooShort (varint_len v) (length dst))
      else Inr (varint_bytes v @ drop (varint_len v) dst, varint_len v))"
proof (cases "length dst < varint_len v")
  case True
  then show ?thesis by (auto simp: encode_u64_def varint_consts varint_len_def)
next
  case False
  then show ?thesis
    using encode_1 [of v dst] encode_2 [of v dst] encode_3 [of v dst] encode_4 [of v dst]
      encode_9 [of v dst]
    by (auto simp: varint_len_def split: if_splits)
qed

lemma encode_u64_to_array_eq:
  "encode_u64_to_array v = Some (varint_bytes v @ replicate (9 - varint_len v) 0, varint_len v)"
  using varint_len_bounds [of v]
  by (simp add: encode_u64_to_array_def encode_u64_eq MAX_VARINT_LEN_def)

section \<open>The decoder accepts exactly the canonical strings\<close>

lemma varint_bytesI:
  assumes "length s = varint_len v" and "nat_of_be s = varint_code v"
  shows "varint_bytes v = s"
  using assms by (simp add: nat_of_be_varint_bytes flip: nat_of_be_inject)

lemma mod_window:
  assumes "c * m \<le> n" and "n < c * m + m"
  shows "n mod m = n - c * (m :: nat)"
proof -
  obtain y where "n = c * m + y" using assms(1) le_Suc_ex by blast
  with assms(2) show ?thesis by simp
qed

lemma unat_payload:
  "0x80 \<le> b \<Longrightarrow> b \<le> 0xBF \<Longrightarrow> unat (b AND 0x3F) = unat (b :: u8) - 128"
  "0xC0 \<le> b \<Longrightarrow> b \<le> 0xDF \<Longrightarrow> unat (b AND 0x1F) = unat b - 192"
  "0xE0 \<le> b \<Longrightarrow> b \<le> 0xEF \<Longrightarrow> unat (b AND 0x0F) = unat b - 224"
  using unat_and_mask [of b 6] unat_and_mask [of b 5] unat_and_mask [of b 4]
    mod_window [of 2 64 "unat b"] mod_window [of 6 32 "unat b"] mod_window [of 14 16 "unat b"]
  by (simp_all add: mask_eq_exp_minus_1 word_le_nat_alt)

lemma unat_add_ucast:
  assumes "unat (x :: 'a::len word) = n" and "LENGTH('a) \<le> 32" and "unat (k :: u64) < 2 ^ 32"
  shows "unat (k + ucast x) = unat k + n"
proof -
  have "n < 2 ^ LENGTH('a)" using assms(1) unsigned_less [of x] by auto
  also have "\<dots> \<le> 2 ^ 32" using assms(2) by (rule power_increasing) simp
  finally have n: "unat k + n < 2 ^ 64" using assms(3) by simp
  have "(ucast x :: u64) = of_nat n" using assms(1) of_nat_unat by metis
  with n show ?thesis by (simp add: unat_word_ariths unat_of_nat take_bit_nat_eq_self)
qed

text \<open>One class of strings: a first byte, a payload \<open>x\<close> and the value it stands for.\<close>

lemma varint_value:
  assumes "unat v = n" and "length s = k"
    and "k = (if n < 128 then 1 else if n < 16512 then 2 else if n < 2113664 then 3
              else if n < 270549120 then 4 else 9)"
    and "nat_of_be s = (if n < 128 then n else if n < 16512 then 0x8000 + (n - 128)
              else if n < 2113664 then 0xC00000 + (n - 16512)
              else if n < 270549120 then 0xE0000000 + (n - 2113664) else 0xFF * 2 ^ 64 + n)"
  shows "varint_bytes v = s \<and> varint_len v = k"
  using assms
  by (intro conjI varint_bytesI) (auto simp: varint_len_def varint_code_def word_less_nat_alt)

lemma nat_of_be_short:
  "nat_of_be [a] = unat a" "nat_of_be [a, b] = unat a * 256 + unat b"
  "nat_of_be [a, b, c] = unat a * 65536 + unat b * 256 + unat c"
  "nat_of_be [a, b, c, d] = unat a * 16777216 + unat b * 65536 + unat c * 256 + unat d"
  by (simp_all add: nat_of_be_def)

lemma decode_1:
  assumes "b0 \<le> 0x7F"
  shows "\<exists>v. decode_u64 (b0 # r) = Inr (v, 1) \<and> varint_bytes v = [b0] \<and> varint_len v = 1"
proof -
  have "varint_bytes (ucast b0) = [b0] \<and> varint_len (ucast b0) = 1"
    using assms by (intro varint_value [of _ "unat b0"])
      (simp_all add: unsigned_ucast_eq nat_of_be_short word_le_nat_alt take_bit_nat_eq_self
        less_trans [OF unat_u8_less])
  with assms show ?thesis by (simp add: decode_u64_def varint_consts)
qed

lemma decode_2:
  assumes "0x80 \<le> b0" and "b0 \<le> 0xBF"
  shows "\<exists>v. decode_u64 (b0 # b1 # r) = Inr (v, 2) \<and> varint_bytes v = [b0, b1] \<and> varint_len v = 2"
proof -
  let ?x = "(unat b0 - 128) * 256 + unat b1"
  let ?o = "from_be_bytes [b0 AND 0x3F, b1] :: u16"
  have o: "unat ?o = ?x"
    using assms by (simp add: unat_from_be_bytes nat_of_be_short unat_payload)
  have b: "128 \<le> unat b0" "unat b0 < 192" "unat b1 < 256"
    using assms by (simp_all add: word_le_nat_alt)
  have x: "?x < 16384" "nat_of_be [b0, b1] = 0x8000 + ?x"
    using b unfolding nat_of_be_short by linarith+
  have "unat (128 + ucast ?o :: u64) = 128 + ?x"
    using unat_add_ucast [OF o, of 128] by simp
  then have "varint_bytes (128 + ucast ?o) = [b0, b1] \<and> varint_len (128 + ucast ?o) = 2"
    by (rule varint_value) (use x in simp_all)
  with assms b show ?thesis by (simp add: decode_u64_def varint_consts Let_def word_le_nat_alt)
qed

lemma decode_3:
  assumes "0xC0 \<le> b0" and "b0 \<le> 0xDF"
  shows "\<exists>v. decode_u64 (b0 # b1 # b2 # r) = Inr (v, 3) \<and> varint_bytes v = [b0, b1, b2]
    \<and> varint_len v = 3"
proof -
  let ?x = "(unat b0 - 192) * 65536 + unat b1 * 256 + unat b2"
  let ?o = "from_be_bytes [0, b0 AND 0x1F, b1, b2] :: u32"
  have o: "unat ?o = ?x"
    using assms by (simp add: unat_from_be_bytes nat_of_be_short unat_payload)
  have b: "192 \<le> unat b0" "unat b0 < 224" "unat b1 < 256" "unat b2 < 256"
    using assms by (simp_all add: word_le_nat_alt)
  have x: "?x < 2097152" "nat_of_be [b0, b1, b2] = 0xC00000 + ?x"
    using b unfolding nat_of_be_short by linarith+
  have "unat (16512 + ucast ?o :: u64) = 16512 + ?x"
    using unat_add_ucast [OF o, of 16512] by simp
  then have "varint_bytes (16512 + ucast ?o) = [b0, b1, b2] \<and> varint_len (16512 + ucast ?o) = 3"
    by (rule varint_value) (use x in simp_all)
  with assms b show ?thesis by (simp add: decode_u64_def varint_consts Let_def word_le_nat_alt)
qed

lemma decode_4:
  assumes "0xE0 \<le> b0" and "b0 \<le> 0xEF"
  shows "\<exists>v. decode_u64 (b0 # b1 # b2 # b3 # r) = Inr (v, 4)
    \<and> varint_bytes v = [b0, b1, b2, b3] \<and> varint_len v = 4"
proof -
  let ?x = "(unat b0 - 224) * 16777216 + unat b1 * 65536 + unat b2 * 256 + unat b3"
  let ?o = "from_be_bytes [b0 AND 0x0F, b1, b2, b3] :: u32"
  have o: "unat ?o = ?x"
    using assms by (simp add: unat_from_be_bytes nat_of_be_short unat_payload)
  have b: "224 \<le> unat b0" "unat b0 < 240" "unat b1 < 256" "unat b2 < 256" "unat b3 < 256"
    using assms by (simp_all add: word_le_nat_alt)
  have x: "?x < 268435456" "nat_of_be [b0, b1, b2, b3] = 0xE0000000 + ?x"
    using b unfolding nat_of_be_short by linarith+
  have "unat (2113664 + ucast ?o :: u64) = 2113664 + ?x"
    using unat_add_ucast [OF o, of 2113664] by simp
  then have "varint_bytes (2113664 + ucast ?o) = [b0, b1, b2, b3] \<and> varint_len (2113664 + ucast ?o) = 4"
    by (rule varint_value) (use x in simp_all)
  with assms b show ?thesis by (simp add: decode_u64_def varint_consts Let_def word_le_nat_alt)
qed

lemma decode_9:
  assumes "length bs = 8"
  shows "decode_u64 (0xFF # bs @ r) =
    (if from_be_bytes bs < (270549120 :: u64) then Inl VNonCanonical else Inr (from_be_bytes bs, 9))"
  using assms by (simp add: decode_u64_def varint_consts Let_def)

lemma varint_from_be:
  assumes "length bs = 8" and "\<not> from_be_bytes bs < (270549120 :: u64)"
  shows "varint_bytes (from_be_bytes bs) = 0xFF # bs \<and> varint_len (from_be_bytes bs :: u64) = 9"
  using assms varint_bytes_9 [OF assms(2)]
  by (simp add: to_from_be_bytes varint_len_def word_less_nat_alt)

text \<open>
  The decoder on every string: an illegal first byte or a redundant nine-byte form is not
  canonical, a string shorter than its first byte announces is too short, and every other
  string yields the value whose canonical string it starts with.
\<close>

lemma decode_u64_class:
  assumes "s \<noteq> []" and "VARINT_LEN_LUT (s ! 0) \<noteq> 0" and "VARINT_LEN_LUT (s ! 0) \<le> length s"
  shows "(decode_u64 s = Inl VNonCanonical \<and> VARINT_LEN_LUT (s ! 0) = 9
            \<and> (from_be_bytes (take 8 (tl s)) :: u64) < 270549120)
    \<or> (\<exists>v. decode_u64 s = Inr (v, VARINT_LEN_LUT (s ! 0)) \<and> varint_len v = VARINT_LEN_LUT (s ! 0)
          \<and> varint_bytes v = take (VARINT_LEN_LUT (s ! 0)) s)"
proof -
  obtain b r where s: "s = b # r" using assms(1) by (cases s) auto
  consider (one) "b \<le> 0x7F" | (two) "0x80 \<le> b" "b \<le> 0xBF" | (three) "0xC0 \<le> b" "b \<le> 0xDF"
    | (four) "0xE0 \<le> b" "b \<le> 0xEF" | (nine) "b = 0xFF"
    using assms s by (auto simp: VARINT_LEN_LUT_def varint_consts split: if_splits)
  then show ?thesis
  proof cases
    case one
    then show ?thesis using decode_1 [of b r] s by (auto simp: VARINT_LEN_LUT_def varint_consts)
  next
    case two
    then have l: "VARINT_LEN_LUT b = 2" by (simp add: VARINT_LEN_LUT_def varint_consts word_le_nat_alt)
    then obtain b1 r1 where "r = b1 # r1" using assms(3) s by (cases r) auto
    then show ?thesis using decode_2 [OF two, of b1 r1] s l by auto
  next
    case three
    then have l: "VARINT_LEN_LUT b = 3" by (simp add: VARINT_LEN_LUT_def varint_consts word_le_nat_alt)
    then obtain b1 b2 r1 where "r = b1 # b2 # r1"
      using assms(3) s by (auto simp: numeral_eq_Suc Suc_le_length_iff)
    then show ?thesis using decode_3 [OF three, of b1 b2 r1] s l by auto
  next
    case four
    then have l: "VARINT_LEN_LUT b = 4" by (simp add: VARINT_LEN_LUT_def varint_consts word_le_nat_alt)
    then obtain b1 b2 b3 r1 where "r = b1 # b2 # b3 # r1"
      using assms(3) s by (auto simp: numeral_eq_Suc Suc_le_length_iff)
    then show ?thesis using decode_4 [OF four, of b1 b2 b3 r1] s l by auto
  next
    case nine
    then have l: "VARINT_LEN_LUT b = 9" by (simp add: VARINT_LEN_LUT_def varint_consts)
    then have "length (take 8 r) = 8" using assms(3) s by simp
    then show ?thesis
      using decode_9 [of "take 8 r" "drop 8 r"] varint_from_be [of "take 8 r"] s l nine by auto
  qed
qed

lemma decode_u64_other:
  assumes "s = [] \<or> VARINT_LEN_LUT (s ! 0) = 0 \<or> length s < VARINT_LEN_LUT (s ! 0)"
  shows "decode_u64 s =
    (if s = [] then Inl (VBufferTooShort 1 0)
     else if VARINT_LEN_LUT (s ! 0) = 0 then Inl VNonCanonical
     else Inl (VBufferTooShort (VARINT_LEN_LUT (s ! 0)) (length s)))"
  using assms
  by (cases "s = []") (auto simp: decode_u64_def VARINT_LEN_LUT_def varint_consts Let_def split: if_splits)

section \<open>First byte, injectivity and order\<close>

lemma unat_hd_be:
  assumes "s \<noteq> []"
  shows "unat (s ! 0) = nat_of_be s div 256 ^ (length s - 1)"
proof -
  obtain b r where "s = b # r" using assms by (cases s) auto
  then show ?thesis using nat_of_be_less [of r] by (simp add: nat_of_be_Cons)
qed

lemma varint_bytes_not_Nil [simp]: "varint_bytes v \<noteq> []"
  using varint_len_bounds(1) [of v] length_varint_bytes [of v] by (metis list.size(3) not_one_le_zero)

lemma varint_first_byte:
  "unat (varint_bytes v ! 0) =
     (if v < 128 then unat v else if v < 16512 then 128 + (unat v - 128) div 256
      else if v < 2113664 then 192 + (unat v - 16512) div 65536
      else if v < 270549120 then 224 + (unat v - 2113664) div 16777216 else 255)"
proof -
  have h: "unat (varint_bytes v ! 0) = varint_code v div 256 ^ (varint_len v - 1)"
    using unat_hd_be [of "varint_bytes v"] by (simp add: nat_of_be_varint_bytes)
  show ?thesis
    using div_mult_self3 [of 256 128 "unat v - 128"] div_mult_self3 [of 65536 192 "unat v - 16512"]
      div_mult_self3 [of 16777216 224 "unat v - 2113664"]
      div_mult_self3 [of "2 ^ 64" 255 "unat v"]
    by (simp add: h varint_code_def varint_len_def)
qed

lemma varint_first_byte_range:
  "varint_len v = 1 \<Longrightarrow> unat (varint_bytes v ! 0) < 128"
  "varint_len v = 2 \<Longrightarrow> 128 \<le> unat (varint_bytes v ! 0) \<and> unat (varint_bytes v ! 0) < 192"
  "varint_len v = 3 \<Longrightarrow> 192 \<le> unat (varint_bytes v ! 0) \<and> unat (varint_bytes v ! 0) < 224"
  "varint_len v = 4 \<Longrightarrow> 224 \<le> unat (varint_bytes v ! 0) \<and> unat (varint_bytes v ! 0) < 240"
  "varint_len v = 9 \<Longrightarrow> unat (varint_bytes v ! 0) = 255"
  using offset_2(2) [of v] offset_3(2) [of v] offset_4(2) [of v]
  by (auto simp: varint_first_byte varint_len_def word_less_nat_alt split: if_splits)

lemma varint_len_cases: "varint_len v \<in> {1, 2, 3, 4, 9}"
  by (simp add: varint_len_def)

lemma varint_lut: "VARINT_LEN_LUT (varint_bytes v ! 0) = varint_len v"
  using varint_len_cases [of v] varint_first_byte_range [of v]
  by (auto simp: VARINT_LEN_LUT_def varint_consts word_le_nat_alt word_unat_eq_iff)

lemma varint_code_less_iff:
  "varint_len v = varint_len w \<Longrightarrow> varint_code v < varint_code w \<longleftrightarrow> v < w"
  by (auto simp: varint_len_def varint_code_def word_less_nat_alt split: if_splits)

lemma varint_len_mono: "v < w \<Longrightarrow> varint_len v \<le> varint_len w"
  by (auto simp: varint_len_def word_less_nat_alt split: if_splits)

lemma hd_less_bytes: "as \<noteq> [] \<Longrightarrow> bs \<noteq> [] \<Longrightarrow> as ! 0 < bs ! 0 \<Longrightarrow> as < (bs :: bytes)"
  by (cases as; cases bs) auto

lemma varint_less:
  assumes "v < w"
  shows "varint_bytes v < varint_bytes w"
proof (cases "varint_len v = varint_len w")
  case True
  with assms show ?thesis by (simp add: bytes_less_iff nat_of_be_varint_bytes varint_code_less_iff)
next
  case False
  with varint_len_mono [OF assms] have "varint_len v < varint_len w" by simp
  then have "unat (varint_bytes v ! 0) < unat (varint_bytes w ! 0)"
    using varint_len_cases [of v] varint_len_cases [of w] varint_first_byte_range [of v]
      varint_first_byte_range [of w] by auto
  then show ?thesis by (intro hd_less_bytes) (simp_all add: word_less_nat_alt)
qed

lemma varint_less_iff: "varint_bytes v < varint_bytes w \<longleftrightarrow> v < w"
  using varint_less [of v w] varint_less [of w v] by (cases v w rule: linorder_cases) auto

lemma varint_inject [simp]: "varint_bytes v = varint_bytes w \<longleftrightarrow> v = w"
  using varint_less [of v w] varint_less [of w v] by (cases v w rule: linorder_cases) auto

lemma decode_varint_bytes [simp]: "decode_u64 (varint_bytes v @ rest) = Inr (v, varint_len v)"
proof -
  let ?s = "varint_bytes v @ rest"
  have h: "VARINT_LEN_LUT (?s ! 0) = varint_len v"
    using varint_len_bounds(1) [of v] by (simp add: nth_append varint_lut)
  have "\<not> (from_be_bytes (take 8 (tl ?s)) :: u64) < 270549120" if "varint_len v = 9"
  proof -
    have nv: "\<not> v < 270549120" using that by (simp add: varint_len_def split: if_splits)
    show ?thesis using nv varint_bytes_9 [OF nv] by (simp add: from_to_be_bytes)
  qed
  then obtain w where "decode_u64 ?s = Inr (w, varint_len v)" "varint_bytes w = varint_bytes v"
    using decode_u64_class [of ?s] varint_len_bounds(1) [of v] by (auto simp: h)
  then show ?thesis by simp
qed

lemma decode_u64_canonical:
  assumes "decode_u64 s = Inr (v, n)"
  shows "n \<le> length s" "varint_bytes v = take n s" "n = varint_len v" "n = VARINT_LEN_LUT (s ! 0)"
    "s \<noteq> []"
proof -
  have c: "s \<noteq> []" "VARINT_LEN_LUT (s ! 0) \<noteq> 0" "VARINT_LEN_LUT (s ! 0) \<le> length s"
    using assms decode_u64_other [of s] by (metis not_less sum.distinct(1))+
  with decode_u64_class [OF c] assms
  show "n \<le> length s" "varint_bytes v = take n s" "n = varint_len v" "n = VARINT_LEN_LUT (s ! 0)"
    "s \<noteq> []"
    by auto
qed

section \<open>Properties\<close>

text \<open>
  encoding any \<open>u64\<close> into a destination and decoding what was written gives the value and
  the number of bytes back, whatever bytes follow, and the bytes of the destination behind the
  written ones are untouched.
\<close>

theorem varint_roundtrip:
  assumes "encode_u64 v dst = Inr (out, n)"
  shows "decode_u64 (take n out @ rest) = Inr (v, n) \<and> drop n out = drop n dst
    \<and> length out = length dst"
  using assms by (auto simp: encode_u64_eq not_less split: if_splits)

theorem varint_roundtrip_witness:
  "decode_u64 (take 2 [0x80, 0xAC, 7] @ [9]) = Inr (300, 2) \<and> drop 2 [0x80, 0xAC, 7 :: u8] = drop 2 [1, 2, 7]
    \<and> length [0x80, 0xAC, 7 :: u8] = length [1 :: u8, 2, 7]"
proof -
  have "encode_u64 300 [1, 2, 7] = Inr ([0x80, 0xAC, 7], 2)"
    by (simp add: encode_u64_def varint_consts Let_def to_be_bytes_def be_of_nat_2)
  then show ?thesis by (rule varint_roundtrip)
qed

text \<open>
  the decoder accepts canonical strings only: encoding a decoded value over the very bytes it
  was decoded from changes nothing and reports the same length.
\<close>

theorem varint_canonical:
  assumes "decode_u64 s = Inr (v, n)"
  shows "encode_u64 v s = Inr (s, n)"
  using decode_u64_canonical [OF assms] by (auto simp: encode_u64_eq)

theorem varint_canonical_witness: "encode_u64 300 [0x80, 0xAC, 5] = Inr ([0x80, 0xAC, 5], 2)"
proof -
  have "decode_u64 [0x80, 0xAC, 5] = Inr (300, 2)"
    by (simp add: decode_u64_def varint_consts Let_def from_be_bytes_def nat_of_be_short)
  then show ?thesis by (rule varint_canonical)
qed

text \<open>
  the code preserves order: the dictionary order of two encodings is the numeric order of the
  values, so composite keys built from them sort as the integers do.
\<close>

theorem varint_order_preserving:
  assumes "encode_u64_to_array v = Some (bv, nv)" and "encode_u64_to_array w = Some (bw, nw)"
  shows "take nv bv < take nw bw \<longleftrightarrow> v < w"
  using assms by (auto simp: encode_u64_to_array_eq varint_less_iff)

theorem varint_order_preserving_witness:
  "take 1 ([127] @ replicate 8 0) < take 2 ([0x80, 0] @ replicate 7 0 :: bytes) \<longleftrightarrow> (127 :: u64) < 128"
proof -
  have "encode_u64_to_array 127 = Some ([127] @ replicate 8 0, 1)"
    "encode_u64_to_array 128 = Some ([0x80, 0] @ replicate 7 0, 2)"
    by (simp_all add: encode_u64_to_array_eq varint_bytes_def varint_len_def varint_code_def
        be_of_nat_2)
  then show ?thesis by (rule varint_order_preserving)
qed

text \<open>
  a truncated encoding is reported as too short with the exact length that was expected,
  never decoded to another value.
\<close>

theorem varint_truncated:
  assumes "0 < k" and "k < varint_len v" and "encode_u64 v dst = Inr (out, n)"
  shows "decode_u64 (take k out) = Inl (VBufferTooShort n k)"
proof -
  have s: "take k out = take k (varint_bytes v)" "n = varint_len v"
    using assms by (auto simp: encode_u64_eq split: if_splits)
  have "take k out ! 0 = varint_bytes v ! 0" "length (take k out) = k" "take k out \<noteq> []"
    using assms s by auto
  then show ?thesis
    using assms s decode_u64_other [of "take k out"] by (simp add: varint_lut)
qed

theorem varint_truncated_witness:
  "decode_u64 (take 1 [0x80, 0xAC]) = Inl (VBufferTooShort 2 1)"
proof -
  have "encode_u64 300 [1, 2] = Inr ([0x80, 0xAC], 2)"
    by (simp add: encode_u64_def varint_consts Let_def to_be_bytes_def be_of_nat_2)
  moreover have "1 < varint_len 300" by (simp add: varint_len_def)
  ultimately show ?thesis using varint_truncated [of 1 300 "[1, 2]" "[0x80, 0xAC]" 2] by simp
qed

end
