(* ===== verification/Tags.thy ===== *)
theory Tags
  imports Wedb_Prelude
begin

text \<open>
  The one-byte discriminants of \<open>wval/src/tag.rs\<close> and the error type of \<open>wval/src/error.rs\<close>: the
  key tag that separates the record families inside a database, the sub tag of the vector
  registry, and the two object type bytes of a collection's metadata. \<open>from_u8\<close> is the checked
  conversion of the source (\<open>FromRepr\<close>), \<open>as_u8\<close> the cast. The lemmas of the locale \<open>repr_code\<close>
  (a checked conversion inverts the cast and accepts nothing else) are interpreted on all four.
\<close>

datatype wval_error =
    BufferTooShort nat nat
  | InvalidKeyTag u8
  | InvalidGarnetObjectType u8
  | InvalidCustomObjectType u8
  | InvalidStorageEncoding u8
  | NonCanonicalEncoding

section \<open>Key tags\<close>

datatype KeyTag =
  KString | KMeta | KTtl | KVector | KEtag | KObjectEnvelope | KAcl | KDbMeta | KVectorRegistry

fun keytag_as_u8 :: "KeyTag \<Rightarrow> u8" where
  "keytag_as_u8 KString = 0x00"
| "keytag_as_u8 KMeta = 0x01"
| "keytag_as_u8 KTtl = 0x09"
| "keytag_as_u8 KVector = 0x0A"
| "keytag_as_u8 KEtag = 0x0B"
| "keytag_as_u8 KObjectEnvelope = 0x0C"
| "keytag_as_u8 KAcl = 0x0D"
| "keytag_as_u8 KDbMeta = 0x0E"
| "keytag_as_u8 KVectorRegistry = 0x0F"

definition keytag_from_u8 :: "u8 \<Rightarrow> KeyTag option" where
  "keytag_from_u8 val =
     (if val = 0x00 then Some KString else if val = 0x01 then Some KMeta
      else if val = 0x09 then Some KTtl else if val = 0x0A then Some KVector
      else if val = 0x0B then Some KEtag else if val = 0x0C then Some KObjectEnvelope
      else if val = 0x0D then Some KAcl else if val = 0x0E then Some KDbMeta
      else if val = 0x0F then Some KVectorRegistry else None)"

definition keytag_prefix :: "KeyTag \<Rightarrow> bytes" where
  "keytag_prefix t = [keytag_as_u8 t]"

definition keytag_strip_prefix :: "KeyTag \<Rightarrow> bytes \<Rightarrow> bytes option" where
  "keytag_strip_prefix t key =
     (case key of first # rest \<Rightarrow> if first = keytag_as_u8 t then Some rest else None | [] \<Rightarrow> None)"

definition is_user_visible :: "KeyTag \<Rightarrow> bool" where
  "is_user_visible t \<longleftrightarrow> t = KString \<or> t = KMeta \<or> t = KObjectEnvelope"

definition keytag_try_from :: "u8 \<Rightarrow> (wval_error, KeyTag) res" where
  "keytag_try_from val =
     (case keytag_from_u8 val of Some t \<Rightarrow> Inr t | None \<Rightarrow> Inl (InvalidKeyTag val))"

section \<open>The vector registry sub tag\<close>

datatype VectorRegistrySubTag = VIndex | VMetadata

fun vsub_as_u8 :: "VectorRegistrySubTag \<Rightarrow> u8" where
  "vsub_as_u8 VIndex = 0x01"
| "vsub_as_u8 VMetadata = 0x02"

definition vsub_from_u8 :: "u8 \<Rightarrow> VectorRegistrySubTag option" where
  "vsub_from_u8 v = (if v = 0x01 then Some VIndex else if v = 0x02 then Some VMetadata else None)"

section \<open>Object types\<close>

definition LAST_RESERVED_BUILTIN_TYPE :: u8 where
  "LAST_RESERVED_BUILTIN_TYPE = 0x3F"

definition CUSTOM_OBJECT_TYPE_BASE :: u8 where
  "CUSTOM_OBJECT_TYPE_BASE = LAST_RESERVED_BUILTIN_TYPE + 1"

datatype GarnetObjectType =
  GNull | GSortedSet | GList | GHash | GSet | GRangeIndex | GAll

fun gobj_as_u8 :: "GarnetObjectType \<Rightarrow> u8" where
  "gobj_as_u8 GNull = 0"
| "gobj_as_u8 GSortedSet = 1"
| "gobj_as_u8 GList = 2"
| "gobj_as_u8 GHash = 3"
| "gobj_as_u8 GSet = 4"
| "gobj_as_u8 GRangeIndex = 5"
| "gobj_as_u8 GAll = 0xfb"

definition gobj_from_u8 :: "u8 \<Rightarrow> GarnetObjectType option" where
  "gobj_from_u8 val =
     (if val = 0 then Some GNull else if val = 1 then Some GSortedSet else if val = 2 then Some GList
      else if val = 3 then Some GHash else if val = 4 then Some GSet
      else if val = 5 then Some GRangeIndex else if val = 0xfb then Some GAll else None)"

fun gobj_as_str :: "GarnetObjectType \<Rightarrow> string" where
  "gobj_as_str GNull = ''null''"
| "gobj_as_str GSortedSet = ''zset''"
| "gobj_as_str GList = ''list''"
| "gobj_as_str GHash = ''hash''"
| "gobj_as_str GSet = ''set''"
| "gobj_as_str GRangeIndex = ''rangeindex''"
| "gobj_as_str GAll = ''all''"

definition is_tiered_collection :: "GarnetObjectType \<Rightarrow> bool" where
  "is_tiered_collection t \<longleftrightarrow>
     t = GRangeIndex \<or> t = GHash \<or> t = GSet \<or> t = GSortedSet \<or> t = GList"

definition gobj_try_from :: "u8 \<Rightarrow> (wval_error, GarnetObjectType) res" where
  "gobj_try_from val =
     (case gobj_from_u8 val of Some t \<Rightarrow> Inr t | None \<Rightarrow> Inl (InvalidGarnetObjectType val))"

datatype CustomObjectType = CRoaring | CJson

fun cobj_as_u8 :: "CustomObjectType \<Rightarrow> u8" where
  "cobj_as_u8 CRoaring = CUSTOM_OBJECT_TYPE_BASE"
| "cobj_as_u8 CJson = CUSTOM_OBJECT_TYPE_BASE + 1"

definition cobj_from_u8 :: "u8 \<Rightarrow> CustomObjectType option" where
  "cobj_from_u8 val =
     (if val = CUSTOM_OBJECT_TYPE_BASE then Some CRoaring
      else if val = CUSTOM_OBJECT_TYPE_BASE + 1 then Some CJson else None)"

definition cobj_try_from :: "u8 \<Rightarrow> (wval_error, CustomObjectType) res" where
  "cobj_try_from val =
     (case cobj_from_u8 val of Some t \<Rightarrow> Inr t | None \<Rightarrow> Inl (InvalidCustomObjectType val))"

section \<open>Discriminant codes\<close>

text \<open>A byte discriminant: a cast and a checked conversion that accepts exactly the casts.\<close>

locale repr_code =
  fixes as_u8 :: "'t \<Rightarrow> u8" and from_u8 :: "u8 \<Rightarrow> 't option"
  assumes from_as: "from_u8 (as_u8 t) = Some t"
    and from_some: "from_u8 b = Some t \<Longrightarrow> as_u8 t = b"
begin

lemma from_iff: "from_u8 b = Some t \<longleftrightarrow> b = as_u8 t"
  using from_as from_some by blast

lemma as_inject: "as_u8 s = as_u8 t \<longleftrightarrow> s = t"
  by (metis from_as option.inject)

lemma from_none: "from_u8 b = None \<longleftrightarrow> b \<notin> range as_u8"
  by (metis from_as from_some imageE not_None_eq rangeI)

end

interpretation keytag: repr_code keytag_as_u8 keytag_from_u8
proof
  show "keytag_from_u8 (keytag_as_u8 t) = Some t" for t
    by (cases t) (simp_all add: keytag_from_u8_def)
  show "keytag_as_u8 t = b" if "keytag_from_u8 b = Some t" for b t
    using that by (auto simp: keytag_from_u8_def split: if_splits)
qed

interpretation vsub: repr_code vsub_as_u8 vsub_from_u8
proof
  show "vsub_from_u8 (vsub_as_u8 t) = Some t" for t
    by (cases t) (simp_all add: vsub_from_u8_def)
  show "vsub_as_u8 t = b" if "vsub_from_u8 b = Some t" for b t
    using that by (auto simp: vsub_from_u8_def split: if_splits)
qed

interpretation gobj: repr_code gobj_as_u8 gobj_from_u8
proof
  show "gobj_from_u8 (gobj_as_u8 t) = Some t" for t
    by (cases t) (simp_all add: gobj_from_u8_def)
  show "gobj_as_u8 t = b" if "gobj_from_u8 b = Some t" for b t
    using that by (auto simp: gobj_from_u8_def split: if_splits)
qed

interpretation cobj: repr_code cobj_as_u8 cobj_from_u8
proof
  show "cobj_from_u8 (cobj_as_u8 t) = Some t" for t
    by (cases t) (simp_all add: cobj_from_u8_def CUSTOM_OBJECT_TYPE_BASE_def
        LAST_RESERVED_BUILTIN_TYPE_def)
  show "cobj_as_u8 t = b" if "cobj_from_u8 b = Some t" for b t
    using that by (auto simp: cobj_from_u8_def split: if_splits)
qed

lemmas keytag_code [simp] = keytag.from_as keytag.from_iff keytag.as_inject

text \<open>The key tags are ordered by their byte, as the derived \<open>Ord\<close> of the source orders them.\<close>

instantiation KeyTag :: linorder
begin

definition less_eq_KeyTag :: "KeyTag \<Rightarrow> KeyTag \<Rightarrow> bool" where
  "s \<le> t \<longleftrightarrow> keytag_as_u8 s \<le> keytag_as_u8 t"

definition less_KeyTag :: "KeyTag \<Rightarrow> KeyTag \<Rightarrow> bool" where
  "s < t \<longleftrightarrow> keytag_as_u8 s < keytag_as_u8 t"

instance
proof
  fix x y z :: KeyTag
  show "x < y \<longleftrightarrow> x \<le> y \<and> \<not> y \<le> x"
    unfolding less_eq_KeyTag_def less_KeyTag_def by (rule less_le_not_le)
  show "x \<le> x" unfolding less_eq_KeyTag_def by (rule order_refl)
  show "x \<le> y \<or> y \<le> x" unfolding less_eq_KeyTag_def by (rule linear)
  show "x \<le> y \<Longrightarrow> y \<le> z \<Longrightarrow> x \<le> z" unfolding less_eq_KeyTag_def by (rule order_trans)
  show "x \<le> y \<Longrightarrow> y \<le> x \<Longrightarrow> x = y"
    unfolding less_eq_KeyTag_def using keytag.as_inject antisym by blast
qed

end

text \<open>
  The built-in and the custom object types share one byte of the metadata: no byte is read as
  both.
\<close>

lemma object_types_disjoint: "gobj_from_u8 b = Some g \<Longrightarrow> cobj_from_u8 b = None"
  by (auto simp: gobj_from_u8_def cobj_from_u8_def CUSTOM_OBJECT_TYPE_BASE_def
      LAST_RESERVED_BUILTIN_TYPE_def split: if_splits)

end
