(* ===== verification/StackBuf.thy ===== *)
theory StackBuf
  imports Wedb_Prelude
begin

text \<open>
  The inline-or-heap byte buffer \<open>StackHeapBuf<CAP>\<close> of \<open>wbase/src/buf.rs\<close>. The const generic CAP
  is the first argument of the operations that read it. A buffer denotes the byte string
  \<open>shb_as_slice\<close>; equality, order and hash of the source are those of that string. The invariant
  \<open>shb_wf\<close> says that an inline buffer's array has CAP bytes and its length fits.
\<close>

datatype stack_heap_buf = Stack bytes u8 | Heap bytes

definition shb_from_stack :: "bytes \<Rightarrow> u8 \<Rightarrow> stack_heap_buf" where
  "shb_from_stack buf len = Stack buf len"

definition shb_from_heap :: "bytes \<Rightarrow> stack_heap_buf" where
  "shb_from_heap vec = Heap vec"

fun shb_as_slice :: "nat \<Rightarrow> stack_heap_buf \<Rightarrow> bytes" where
  "shb_as_slice cap (Stack buf len) = take (min (unat len) cap) buf"
| "shb_as_slice cap (Heap vec) = vec"

text \<open>A write through the mutable slice at an index below its length.\<close>

fun shb_write :: "nat \<Rightarrow> stack_heap_buf \<Rightarrow> nat \<Rightarrow> u8 \<Rightarrow> stack_heap_buf option" where
  "shb_write cap (Stack buf len) i v =
     (if i < length (take (min (unat len) cap) buf) then Some (Stack (buf[i := v]) len) else None)"
| "shb_write cap (Heap vec) i v = (if i < length vec then Some (Heap (vec[i := v])) else None)"

definition shb_len :: "nat \<Rightarrow> stack_heap_buf \<Rightarrow> nat" where
  "shb_len cap b = length (shb_as_slice cap b)"

definition shb_is_empty :: "nat \<Rightarrow> stack_heap_buf \<Rightarrow> bool" where
  "shb_is_empty cap b \<longleftrightarrow> shb_len cap b = 0"

fun shb_is_stack :: "stack_heap_buf \<Rightarrow> bool" where
  "shb_is_stack (Stack buf len) = True"
| "shb_is_stack (Heap vec) = False"

fun shb_is_heap :: "stack_heap_buf \<Rightarrow> bool" where
  "shb_is_heap (Stack buf len) = False"
| "shb_is_heap (Heap vec) = True"

fun shb_into_vec :: "nat \<Rightarrow> stack_heap_buf \<Rightarrow> bytes" where
  "shb_into_vec cap (Stack buf len) = take (min (unat len) cap) buf"
| "shb_into_vec cap (Heap vec) = vec"

definition shb_from_vec :: "nat \<Rightarrow> bytes \<Rightarrow> stack_heap_buf" where
  "shb_from_vec cap vec =
     (if length vec \<le> cap
      then Stack (vec @ drop (length vec) (replicate cap 0)) (of_nat (length vec))
      else Heap vec)"

definition shb_eq :: "nat \<Rightarrow> stack_heap_buf \<Rightarrow> stack_heap_buf \<Rightarrow> bool" where
  "shb_eq cap a b \<longleftrightarrow> shb_as_slice cap a = shb_as_slice cap b"

definition shb_less :: "nat \<Rightarrow> stack_heap_buf \<Rightarrow> stack_heap_buf \<Rightarrow> bool" where
  "shb_less cap a b \<longleftrightarrow> shb_as_slice cap a < shb_as_slice cap b"

fun shb_wf :: "nat \<Rightarrow> stack_heap_buf \<Rightarrow> bool" where
  "shb_wf cap (Stack buf len) \<longleftrightarrow> cap \<le> 255 \<and> length buf = cap \<and> unat len \<le> cap"
| "shb_wf cap (Heap vec) \<longleftrightarrow> cap \<le> 255"

section \<open>Lemmas\<close>

lemma shb_into_vec_eq: "shb_into_vec cap b = shb_as_slice cap b"
  by (cases b) auto

lemma unat_of_small: "n \<le> 255 \<Longrightarrow> unat (of_nat n :: u8) = n"
  by (simp add: unat_of_nat)

lemma shb_from_vec_slice: "cap \<le> 255 \<Longrightarrow> shb_as_slice cap (shb_from_vec cap v) = v"
  by (simp add: shb_from_vec_def unat_of_small)

lemma shb_from_vec_wf: "cap \<le> 255 \<Longrightarrow> shb_wf cap (shb_from_vec cap v)"
  by (simp add: shb_from_vec_def unat_of_small)

lemma shb_write_Some:
  assumes "shb_write cap b i v = Some b'"
  shows "i < shb_len cap b" "shb_as_slice cap b' = (shb_as_slice cap b)[i := v]"
    "shb_wf cap b \<Longrightarrow> shb_wf cap b'" "shb_is_stack b' = shb_is_stack b"
  using assms by (cases b; auto simp: shb_len_def take_update_swap split: if_splits)+

lemma shb_write_total: "i < shb_len cap b \<Longrightarrow> \<exists>b'. shb_write cap b i v = Some b'"
  by (cases b) (auto simp: shb_len_def)

end
