(* ===== verification/KeyCodec.thy ===== *)
theory KeyCodec
  imports Varint Tags StackBuf "HOL-Library.Product_Lexorder"
begin

text \<open>
  The physical key layout of \<open>wval/src/ns_codec.rs\<close>: varint namespace, varint database, one tag
  byte, payload. The session prefix (namespace and database) is cached in an 18-byte buffer, a
  whole key is built on the stack up to 62 bytes and on the heap beyond. \<open>None\<close> in the encoders is
  a panic of the source (an \<open>unreachable!\<close> or \<open>assert!\<close>); the lemmas show where it cannot happen.
  The locale \<open>ordered_code\<close> is the contract the layout relies on (self-delimiting, canonical and
  order preserving); it is interpreted on the varint and, through the product of two codes, on the
  session prefix.
\<close>

section \<open>Constants and buffers\<close>

definition MIN_SESSION_PREFIX_LEN :: nat where "MIN_SESSION_PREFIX_LEN = 2"
definition MAX_SESSION_PREFIX_LEN :: nat where "MAX_SESSION_PREFIX_LEN = 18"
definition STACK_KEY_CAP :: nat where "STACK_KEY_CAP = 62"

record SessionPrefixBuf =
  spb_buf :: bytes
  spb_len :: u8

section \<open>Session prefixes\<close>

definition encode_session_prefix_to_array :: "u64 \<Rightarrow> u64 \<Rightarrow> (bytes \<times> nat) option" where
  "encode_session_prefix_to_array ns db =
     (if ns < VARINT_1B_MAX \<and> db < VARINT_1B_MAX then
        Some ((replicate MAX_SESSION_PREFIX_LEN 0)[0 := ucast ns, 1 := ucast db], 2)
      else
        (case encode_u64_to_array ns of None \<Rightarrow> None | Some (ns_buf, ns_len) \<Rightarrow>
         (case encode_u64_to_array db of None \<Rightarrow> None | Some (db_buf, db_len) \<Rightarrow>
           Some (copy_at (copy_at (replicate MAX_SESSION_PREFIX_LEN 0) 0 (take ns_len ns_buf))
                   ns_len (take db_len db_buf), ns_len + db_len))))"

definition varint_len_from_byte :: "u8 \<Rightarrow> nat option" where
  "varint_len_from_byte first =
     (let len = VARINT_LEN_LUT first in if len \<noteq> 0 then Some len else None)"

definition decode_varint :: "bytes \<Rightarrow> (wval_error, u64 \<times> nat) res" where
  "decode_varint sl =
     (case decode_u64 sl of
        Inr v \<Rightarrow> Inr v
      | Inl (VBufferTooShort expected actual) \<Rightarrow> Inl (BufferTooShort expected actual)
      | Inl VNonCanonical \<Rightarrow> Inl NonCanonicalEncoding)"

definition decode_session_prefix :: "bytes \<Rightarrow> (wval_error, (u64 \<times> u64) \<times> nat) res" where
  "decode_session_prefix key =
     res_bind (decode_varint key) (\<lambda>(ns, ns_len).
       case split_at_checked key ns_len of
         None \<Rightarrow> Inl (BufferTooShort ns_len (length key))
       | Some (_, rest) \<Rightarrow>
           res_bind (decode_varint rest) (\<lambda>(db, db_len). Inr ((ns, db), ns_len + db_len)))"

definition spb_new :: "u64 \<Rightarrow> u64 \<Rightarrow> SessionPrefixBuf option" where
  "spb_new ns db =
     map_option (\<lambda>(buf, len). \<lparr>spb_buf = buf, spb_len = of_nat len\<rparr>)
       (encode_session_prefix_to_array ns db)"

definition spb_ROOT :: SessionPrefixBuf where
  "spb_ROOT = \<lparr>spb_buf = replicate MAX_SESSION_PREFIX_LEN 0, spb_len = 2\<rparr>"

definition spb_default :: "SessionPrefixBuf option" where
  "spb_default = spb_new 0 0"

definition spb_as_slice :: "SessionPrefixBuf \<Rightarrow> bytes" where
  "spb_as_slice self =
     take (if unat (spb_len self) < MAX_SESSION_PREFIX_LEN then unat (spb_len self)
           else MAX_SESSION_PREFIX_LEN) (spb_buf self)"

definition spb_length :: "SessionPrefixBuf \<Rightarrow> nat" where
  "spb_length self = unat (spb_len self)"

definition spb_is_empty :: "SessionPrefixBuf \<Rightarrow> bool" where
  "spb_is_empty self \<longleftrightarrow> spb_len self = 0"

definition spb_from_slice :: "bytes \<Rightarrow> (wval_error, SessionPrefixBuf) res" where
  "spb_from_slice sl =
     (if length sl = 2 \<and> sl ! 0 < VARINT_1B_FIRST_BYTE_LIMIT
         \<and> sl ! 1 < VARINT_1B_FIRST_BYTE_LIMIT then
        Inr \<lparr>spb_buf = (replicate MAX_SESSION_PREFIX_LEN 0)[0 := sl ! 0, 1 := sl ! 1],
             spb_len = 2\<rparr>
      else if sl = [] \<or> MAX_SESSION_PREFIX_LEN < length sl then
        Inl (BufferTooShort 1 (length sl))
      else
        res_bind (decode_session_prefix sl) (\<lambda>(_, total_len).
          if length sl \<noteq> total_len then Inl NonCanonicalEncoding
          else Inr \<lparr>spb_buf = copy_at (replicate MAX_SESSION_PREFIX_LEN 0) 0 (take total_len sl),
                    spb_len = of_nat total_len\<rparr>))"

definition spb_decode :: "SessionPrefixBuf \<Rightarrow> (wval_error, u64 \<times> u64) res" where
  "spb_decode self =
     (if spb_len self = 2 then Inr (ucast (spb_buf self ! 0), ucast (spb_buf self ! 1))
      else res_bind (decode_session_prefix (spb_as_slice self)) (\<lambda>((ns, db), _). Inr (ns, db)))"

definition spb_eq :: "SessionPrefixBuf \<Rightarrow> SessionPrefixBuf \<Rightarrow> bool" where
  "spb_eq a b \<longleftrightarrow> spb_as_slice a = spb_as_slice b"

definition spb_less :: "SessionPrefixBuf \<Rightarrow> SessionPrefixBuf \<Rightarrow> bool" where
  "spb_less a b \<longleftrightarrow> spb_as_slice a < spb_as_slice b"

section \<open>Building keys\<close>

text \<open>The tagged key buffer is a \<open>StackHeapBuf\<close> of capacity 62.\<close>

type_synonym TaggedKeyBuf = stack_heap_buf

definition tkb_new :: TaggedKeyBuf where
  "tkb_new = shb_from_stack (replicate STACK_KEY_CAP 0) 0"

definition tkb_as_slice :: "TaggedKeyBuf \<Rightarrow> bytes" where
  "tkb_as_slice self = shb_as_slice STACK_KEY_CAP self"

definition tkb_len :: "TaggedKeyBuf \<Rightarrow> nat" where
  "tkb_len self = shb_len STACK_KEY_CAP self"

definition tkb_into_vec :: "TaggedKeyBuf \<Rightarrow> bytes" where
  "tkb_into_vec self = shb_into_vec STACK_KEY_CAP self"

definition tkb_from :: "bytes \<Rightarrow> TaggedKeyBuf" where
  "tkb_from vec = shb_from_vec STACK_KEY_CAP vec"

definition set_tag_at :: "TaggedKeyBuf \<Rightarrow> nat \<Rightarrow> KeyTag \<Rightarrow> TaggedKeyBuf option" where
  "set_tag_at self tag_offset new_tag =
     (if tag_offset < tkb_len self
      then shb_write STACK_KEY_CAP self tag_offset (keytag_as_u8 new_tag) else None)"

fun copy_parts :: "bytes \<Rightarrow> nat \<Rightarrow> bytes list \<Rightarrow> bytes" where
  "copy_parts buf off [] = buf"
| "copy_parts buf off (part # parts) = copy_parts (copy_at buf off part) (off + length part) parts"

definition build_key :: "bytes list \<Rightarrow> TaggedKeyBuf" where
  "build_key parts =
     (let total_len = sum_list (map length parts)
      in if total_len \<le> STACK_KEY_CAP
         then shb_from_stack (copy_parts (replicate STACK_KEY_CAP 0) 0 parts) (of_nat total_len)
         else shb_from_heap (fold (\<lambda>part vec. vec @ part) parts []))"

definition encode_with_session_prefix :: "bytes \<Rightarrow> KeyTag \<Rightarrow> bytes \<Rightarrow> TaggedKeyBuf" where
  "encode_with_session_prefix prefix tag payload = build_key [prefix, [keytag_as_u8 tag], payload]"

definition encode_tagged_key :: "u64 \<Rightarrow> u64 \<Rightarrow> KeyTag \<Rightarrow> bytes \<Rightarrow> TaggedKeyBuf option" where
  "encode_tagged_key ns db tag payload =
     map_option (\<lambda>prefix. encode_with_session_prefix (spb_as_slice prefix) tag payload)
       (spb_new ns db)"

definition encode_vector_key_with_prefix :: "bytes \<Rightarrow> u64 \<Rightarrow> bytes \<Rightarrow> TaggedKeyBuf" where
  "encode_vector_key_with_prefix prefix context key =
     build_key [prefix, [keytag_as_u8 KVector], to_be_bytes 8 context, key]"

definition replace_tag_at :: "bytes \<Rightarrow> nat \<Rightarrow> KeyTag \<Rightarrow> TaggedKeyBuf option" where
  "replace_tag_at key tag_offset new_tag =
     (if tag_offset < length key
      then Some (build_key [take tag_offset key, [keytag_as_u8 new_tag], drop (tag_offset + 1) key])
      else None)"

section \<open>Taking keys apart\<close>

text \<open>The one-byte fast path every decoder starts with.\<close>

abbreviation short_prefix :: "bytes \<Rightarrow> bool" where
  "short_prefix key \<equiv> key ! 0 < VARINT_1B_FIRST_BYTE_LIMIT \<and> key ! 1 < VARINT_1B_FIRST_BYTE_LIMIT"

definition decode_tagged_key :: "bytes \<Rightarrow> (wval_error, u64 \<times> u64 \<times> KeyTag \<times> bytes) res" where
  "decode_tagged_key key =
     (if 3 \<le> length key \<and> short_prefix key then
        (case keytag_from_u8 (key ! 2) of
           Some tag \<Rightarrow> Inr (ucast (key ! 0), ucast (key ! 1), tag, drop 3 key)
         | None \<Rightarrow> Inl (InvalidKeyTag (key ! 2)))
      else
        res_bind (decode_session_prefix key) (\<lambda>((ns, db), prefix_len).
          case split_at_checked key prefix_len of
            None \<Rightarrow> Inl (BufferTooShort prefix_len (length key))
          | Some (_, []) \<Rightarrow> Inl (BufferTooShort 1 0)
          | Some (_, tag_byte # payload) \<Rightarrow>
              (case keytag_from_u8 tag_byte of
                 Some tag \<Rightarrow> Inr (ns, db, tag, payload)
               | None \<Rightarrow> Inl (InvalidKeyTag tag_byte))))"

definition strip_prefix :: "bytes \<Rightarrow> bytes \<Rightarrow> bytes option" where
  "strip_prefix key p =
     (if take (length p) key = p then Some (drop (length p) key) else None)"

definition strip_session_prefix :: "bytes \<Rightarrow> bytes \<Rightarrow> (KeyTag \<times> bytes) option" where
  "strip_session_prefix key session_prefix =
     (case strip_prefix key session_prefix of
        None \<Rightarrow> None
      | Some [] \<Rightarrow> None
      | Some (tag_byte # payload) \<Rightarrow> map_option (\<lambda>tag. (tag, payload)) (keytag_from_u8 tag_byte))"

definition strip_session_prefix_with_tag :: "bytes \<Rightarrow> bytes \<Rightarrow> KeyTag \<Rightarrow> bytes option" where
  "strip_session_prefix_with_tag key session_prefix expected_tag =
     (case strip_prefix key session_prefix of
        None \<Rightarrow> None
      | Some [] \<Rightarrow> None
      | Some (tag_byte # payload) \<Rightarrow>
          if tag_byte = keytag_as_u8 expected_tag then Some payload else None)"

definition extract_live_user_key :: "bytes \<Rightarrow> bytes \<Rightarrow> (KeyTag \<times> bytes) option" where
  "extract_live_user_key key session_prefix =
     (case strip_session_prefix key session_prefix of
        Some (tag, user_key) \<Rightarrow> if is_user_visible tag then Some (tag, user_key) else None
      | None \<Rightarrow> None)"

definition session_prefix_len_from_slice :: "bytes \<Rightarrow> nat option" where
  "session_prefix_len_from_slice key =
     (if 2 \<le> length key \<and> short_prefix key then Some MIN_SESSION_PREFIX_LEN
      else if key = [] then None
      else (case varint_len_from_byte (key ! 0) of None \<Rightarrow> None | Some ns_len \<Rightarrow>
        (case split_at_checked key ns_len of
           None \<Rightarrow> None
         | Some (_, []) \<Rightarrow> None
         | Some (_, db_first # _) \<Rightarrow>
             (case varint_len_from_byte db_first of None \<Rightarrow> None | Some db_len \<Rightarrow>
               (let prefix_len = ns_len + db_len
                in if prefix_len \<le> length key then Some prefix_len else None)))))"

definition decode_tag :: "bytes \<Rightarrow> KeyTag option" where
  "decode_tag key =
     (if 3 \<le> length key \<and> short_prefix key then keytag_from_u8 (key ! 2)
      else (case session_prefix_len_from_slice key of None \<Rightarrow> None | Some prefix_len \<Rightarrow>
        (case split_at_checked key prefix_len of
           Some (_, tag_byte # _) \<Rightarrow> keytag_from_u8 tag_byte
         | _ \<Rightarrow> None)))"

definition decode_meta_user_key :: "bytes \<Rightarrow> bytes option" where
  "decode_meta_user_key key =
     (if 3 \<le> length key \<and> short_prefix key then
        (if key ! 2 = keytag_as_u8 KMeta then Some (drop 3 key) else None)
      else (case session_prefix_len_from_slice key of None \<Rightarrow> None | Some prefix_len \<Rightarrow>
        (case split_at_checked key prefix_len of
           Some (_, tag_byte # payload) \<Rightarrow>
             if tag_byte = keytag_as_u8 KMeta then Some payload else None
         | _ \<Rightarrow> None)))"

section \<open>Self-delimiting, canonical, ordered codes\<close>

lemma bytes_append_less_iff [simp]: "xs @ r < xs @ r' \<longleftrightarrow> r < (r' :: bytes)"
  by (induction xs) auto

lemma bytes_less_append:
  assumes "xs < (ys :: bytes)" and "\<nexists>z. ys = xs @ z"
  shows "xs @ r < ys @ r'"
  using assms
proof (induction xs arbitrary: ys)
  case (Cons x xs)
  then obtain y ys' where "ys = y # ys'" by (cases ys) auto
  with Cons show ?case by auto
qed simp

definition pair_code :: "('a \<Rightarrow> bytes) \<Rightarrow> 'a \<times> 'a \<Rightarrow> bytes" where
  "pair_code enc = (\<lambda>(a, b). enc a @ enc b)"

definition pair_decode ::
  "(bytes \<Rightarrow> ('e, 'a \<times> nat) res) \<Rightarrow> bytes \<Rightarrow> ('e, ('a \<times> 'a) \<times> nat) res" where
  "pair_decode dec s =
     res_bind (dec s) (\<lambda>(a, n). res_bind (dec (drop n s)) (\<lambda>(b, k). Inr ((a, b), n + k)))"

locale ordered_code =
  fixes enc :: "'a::linorder \<Rightarrow> bytes" and dec :: "bytes \<Rightarrow> ('e, 'a \<times> nat) res"
  assumes dec_enc: "dec (enc a @ r) = Inr (a, length (enc a))"
    and dec_canonical: "dec s = Inr (a, n) \<Longrightarrow> n \<le> length s \<and> enc a = take n s"
    and enc_less: "a < b \<Longrightarrow> enc a < enc b"
begin

lemma dec_iff: "dec s = Inr (a, n) \<longleftrightarrow> (\<exists>r. s = enc a @ r \<and> n = length (enc a))"
proof
  assume "dec s = Inr (a, n)"
  then have "s = enc a @ drop n s" "n = length (enc a)"
    using dec_canonical [of s a n] by auto
  then show "\<exists>r. s = enc a @ r \<and> n = length (enc a)" by blast
qed (auto simp: dec_enc)

lemma append_inject: "enc a @ r = enc b @ r' \<longleftrightarrow> a = b \<and> r = r'"
  by (metis Inr_inject Pair_inject dec_enc same_append_eq)

lemma append_less: "enc a @ r < enc b @ r' \<longleftrightarrow> a < b \<or> a = b \<and> r < r'"
proof -
  have lt: "enc x @ s < enc y @ s'" if "x < y" for x y s s'
  proof (rule bytes_less_append [OF enc_less [OF that]])
    show "\<nexists>z. enc y = enc x @ z"
      using append_inject [of y "[]" x] that by auto
  qed
  show ?thesis
    using lt [of a b r r'] lt [of b a r' r] by (cases a b rule: linorder_cases) auto
qed

lemma pair_ordered: "ordered_code (pair_code enc) (pair_decode dec)"
proof
  fix p q :: "'a \<times> 'a" and r s :: bytes and n :: nat
  show "pair_decode dec (pair_code enc p @ r) = Inr (p, length (pair_code enc p))"
    by (cases p) (simp add: pair_decode_def pair_code_def dec_enc)
  show "n \<le> length s \<and> pair_code enc p = take n s" if "pair_decode dec s = Inr (p, n)"
    using that by (auto simp: pair_decode_def pair_code_def res_bind_Inr_iff dec_iff)
  show "pair_code enc p < pair_code enc q" if "p < q"
    using that append_less [of "fst p" "enc (snd p)" "fst q" "enc (snd q)"] enc_less
    by (auto simp: pair_code_def less_prod_def' split: prod.splits)
qed

end

section \<open>The session prefix is such a code\<close>

interpretation vi: ordered_code varint_bytes decode_varint
proof
  show "decode_varint (varint_bytes a @ r) = Inr (a, length (varint_bytes a))" for a r
    by (simp add: decode_varint_def)
  show "n \<le> length s \<and> varint_bytes a = take n s" if "decode_varint s = Inr (a, n)" for s a n
    using that decode_u64_canonical [of s a n]
    by (auto simp: decode_varint_def split: sum.splits varint_error.splits)
  show "varint_bytes a < varint_bytes b" if "a < b" for a b
    using that by (simp add: varint_less_iff)
qed

interpretation sp: ordered_code "pair_code varint_bytes" "pair_decode decode_varint"
  by (rule vi.pair_ordered)

definition session_bytes :: "u64 \<Rightarrow> u64 \<Rightarrow> bytes" where
  "session_bytes ns db = varint_bytes ns @ varint_bytes db"

lemma session_bytes_pair: "session_bytes ns db = pair_code varint_bytes (ns, db)"
  by (simp add: session_bytes_def pair_code_def)

lemma length_session_bytes:
  "2 \<le> length (session_bytes ns db)" "length (session_bytes ns db) \<le> 18"
  using varint_len_bounds [of ns] varint_len_bounds [of db] by (simp_all add: session_bytes_def)

lemma varint_bytes_1:
  assumes "v < 128"
  shows "varint_bytes v = [ucast v]"
proof -
  have "unat v < 128" using assms by (simp add: word_less_nat_alt)
  then have "be_of_nat 1 (unat v) = [of_nat (unat v)]" by simp
  with assms show ?thesis by (simp add: varint_bytes_def varint_code_def varint_len_def of_nat_unat)
qed

lemma varint_len_1: "varint_len v = 1 \<longleftrightarrow> v < 128"
  by (simp add: varint_len_def)

lemma session_bytes_short:
  "length (session_bytes ns db) = 2 \<longleftrightarrow> ns < 128 \<and> db < 128"
  using varint_len_bounds [of ns] varint_len_bounds [of db]
  by (auto simp: session_bytes_def varint_len_1 [symmetric])

lemma decode_session_prefix_eq: "decode_session_prefix s = pair_decode decode_varint s"
  using vi.dec_canonical [of s]
  by (cases "decode_varint s")
    (auto simp: decode_session_prefix_def pair_decode_def split_at_checked_def)

lemma decode_session_prefix_iff:
  "decode_session_prefix s = Inr ((ns, db), n) \<longleftrightarrow>
     (\<exists>r. s = session_bytes ns db @ r \<and> n = length (session_bytes ns db))"
  unfolding decode_session_prefix_eq session_bytes_pair by (rule sp.dec_iff)

section \<open>What the encoders produce\<close>

lemma encode_session_prefix_eq:
  "encode_session_prefix_to_array ns db =
     Some (session_bytes ns db @ replicate (18 - length (session_bytes ns db)) 0,
           length (session_bytes ns db))"
proof (cases "ns < 128 \<and> db < 128")
  case True
  then show ?thesis
    by (simp add: encode_session_prefix_to_array_def varint_consts session_bytes_def
        varint_bytes_1 MAX_SESSION_PREFIX_LEN_def numeral_eq_Suc)
next
  case False
  have "copy_at (copy_at (replicate 18 0) 0 (varint_bytes ns)) (varint_len ns) (varint_bytes db) =
      session_bytes ns db @ replicate (18 - length (session_bytes ns db)) 0"
    using copy_at_end [of "varint_bytes ns" "replicate (18 - varint_len ns) 0" "varint_bytes db"]
      varint_len_bounds [of ns] varint_len_bounds [of db]
    by (simp add: copy_at_0 session_bytes_def)
  with False show ?thesis
    by (auto simp: encode_session_prefix_to_array_def varint_consts encode_u64_to_array_eq
        MAX_SESSION_PREFIX_LEN_def session_bytes_def)
qed

lemma spb_new_eq:
  "spb_new ns db = Some \<lparr>spb_buf = session_bytes ns db @ replicate (18 - length (session_bytes ns db)) 0,
     spb_len = of_nat (length (session_bytes ns db))\<rparr>"
  by (simp add: spb_new_def encode_session_prefix_eq)

lemma spb_as_slice_new: "spb_new ns db = Some p \<Longrightarrow> spb_as_slice p = session_bytes ns db"
  using length_session_bytes [of ns db]
  by (auto simp: spb_new_eq spb_as_slice_def unat_of_small MAX_SESSION_PREFIX_LEN_def)

lemma copy_parts_eq:
  "sum_list (map length parts) \<le> length ys \<Longrightarrow>
   copy_parts (xs @ ys) (length xs) parts = xs @ concat parts @ drop (length (concat parts)) ys"
proof (induction parts arbitrary: xs ys)
  case (Cons p parts)
  have "copy_parts (copy_at (xs @ ys) (length xs) p) (length xs + length p) parts =
      copy_parts ((xs @ p) @ drop (length p) ys) (length (xs @ p)) parts"
    by (simp add: copy_at_end)
  also have "\<dots> = (xs @ p) @ concat parts @ drop (length (concat parts)) (drop (length p) ys)"
    using Cons.prems by (intro Cons.IH) simp
  finally show ?case by (simp add: add.commute)
qed simp

lemma fold_append: "fold (\<lambda>part vec. vec @ part) parts acc = acc @ concat parts"
  by (induction parts arbitrary: acc) auto

lemma build_key_slice [simp]: "tkb_as_slice (build_key parts) = concat parts"
  using copy_parts_eq [of parts "replicate STACK_KEY_CAP 0" "[]"]
  by (auto simp: build_key_def tkb_as_slice_def shb_from_stack_def shb_from_heap_def Let_def
      fold_append unat_of_small STACK_KEY_CAP_def length_concat)

lemma build_key_wf: "shb_wf STACK_KEY_CAP (build_key parts)"
  using copy_parts_eq [of parts "replicate STACK_KEY_CAP 0" "[]"]
  by (auto simp: build_key_def shb_from_stack_def shb_from_heap_def Let_def
      unat_of_small STACK_KEY_CAP_def length_concat)

lemma build_key_is_stack: "shb_is_stack (build_key parts) \<longleftrightarrow> length (concat parts) \<le> 62"
  by (simp add: build_key_def Let_def shb_from_stack_def shb_from_heap_def STACK_KEY_CAP_def
      length_concat)

definition key_bytes :: "u64 \<Rightarrow> u64 \<Rightarrow> KeyTag \<Rightarrow> bytes \<Rightarrow> bytes" where
  "key_bytes ns db tag payload = session_bytes ns db @ keytag_as_u8 tag # payload"

lemma encode_tagged_key_slice:
  "map_option tkb_as_slice (encode_tagged_key ns db tag payload) = Some (key_bytes ns db tag payload)"
  using spb_as_slice_new [OF spb_new_eq]
  by (simp add: encode_tagged_key_def spb_new_eq encode_with_session_prefix_def key_bytes_def)

section \<open>What the decoders accept\<close>

lemma decode_varint_short:
  "s \<noteq> [] \<Longrightarrow> s ! 0 < VARINT_1B_FIRST_BYTE_LIMIT \<Longrightarrow> decode_varint s = Inr (ucast (s ! 0), 1)"
  by (auto simp: decode_varint_def decode_u64_def varint_consts Suc_le_eq
      word_le_nat_alt word_less_nat_alt)

lemma decode_short_prefix:
  assumes "2 \<le> length key" and "short_prefix key"
  shows "decode_session_prefix key = Inr ((ucast (key ! 0), ucast (key ! 1)), 2)"
proof -
  obtain a b r where "key = a # b # r"
    using assms(1) by (cases key; cases "tl key") auto
  with assms show ?thesis
    by (simp add: decode_session_prefix_eq pair_decode_def decode_varint_short)
qed

text \<open>The decoder without its fast path.\<close>

lemma decode_tagged_key_slow:
  "decode_tagged_key key =
     res_bind (decode_session_prefix key) (\<lambda>((ns, db), prefix_len).
       case split_at_checked key prefix_len of
         None \<Rightarrow> Inl (BufferTooShort prefix_len (length key))
       | Some (_, []) \<Rightarrow> Inl (BufferTooShort 1 0)
       | Some (_, tag_byte # payload) \<Rightarrow>
           (case keytag_from_u8 tag_byte of
              Some tag \<Rightarrow> Inr (ns, db, tag, payload)
            | None \<Rightarrow> Inl (InvalidKeyTag tag_byte)))"
proof (cases "3 \<le> length key \<and> short_prefix key")
  case True
  then obtain a b c r where "key = a # b # c # r"
    by (cases key; cases "tl key"; cases "tl (tl key)") auto
  with True decode_short_prefix [of key] show ?thesis
    by (simp add: decode_tagged_key_def split_at_checked_def numeral_3_eq_3 split: option.split)
next
  case False
  then show ?thesis by (simp only: decode_tagged_key_def if_False)
qed

lemma decode_tagged_key_iff:
  "decode_tagged_key key = Inr (ns, db, tag, payload) \<longleftrightarrow> key = key_bytes ns db tag payload"
proof
  assume "decode_tagged_key key = Inr (ns, db, tag, payload)"
  then obtain n d k where dec: "decode_session_prefix key = Inr ((n, d), k)"
    and "(case split_at_checked key k of
         None \<Rightarrow> Inl (BufferTooShort k (length key))
       | Some (_, []) \<Rightarrow> Inl (BufferTooShort 1 0)
       | Some (_, tag_byte # payload) \<Rightarrow>
           (case keytag_from_u8 tag_byte of
              Some tag \<Rightarrow> Inr (n, d, tag, payload)
            | None \<Rightarrow> Inl (InvalidKeyTag tag_byte))) = Inr (ns, db, tag, payload)"
    unfolding decode_tagged_key_slow res_bind_Inr_iff by auto
  then show "key = key_bytes ns db tag payload"
    unfolding decode_session_prefix_iff
    by (auto simp: key_bytes_def split_at_checked_def split: list.splits option.splits)
next
  assume key: "key = key_bytes ns db tag payload"
  then have "decode_session_prefix key = Inr ((ns, db), length (session_bytes ns db))"
    unfolding decode_session_prefix_iff key_bytes_def by blast
  with key show "decode_tagged_key key = Inr (ns, db, tag, payload)"
    by (simp add: decode_tagged_key_slow split_at_checked_def key_bytes_def)
qed

lemma key_bytes_inject [simp]:
  "key_bytes ns db tag p = key_bytes ns' db' tag' p' \<longleftrightarrow> ns = ns' \<and> db = db' \<and> tag = tag' \<and> p = p'"
  unfolding key_bytes_def session_bytes_pair sp.append_inject by auto

lemma key_bytes_less:
  "key_bytes ns db tag p < key_bytes ns' db' tag' p' \<longleftrightarrow> (ns, db, tag, p) < (ns', db', tag', p')"
  unfolding key_bytes_def session_bytes_pair sp.append_less
  by (auto simp: less_prod_def' less_KeyTag_def)

lemma lut_decode:
  "decode_varint s = Inr (v, n) \<Longrightarrow> s \<noteq> [] \<and> varint_len_from_byte (s ! 0) = Some n"
  using varint_lut [of v] varint_len_bounds [of v]
  by (auto simp: vi.dec_iff varint_len_from_byte_def Let_def nth_append)

text \<open>The length scan that skips the canonicity check agrees with the decoder where it decodes.\<close>

lemma session_prefix_len_decode:
  assumes "decode_session_prefix key = Inr (p, n)"
  shows "session_prefix_len_from_slice key = Some n"
proof (cases "2 \<le> length key \<and> short_prefix key")
  case True
  with assms decode_short_prefix [of key] show ?thesis
    by (simp add: session_prefix_len_from_slice_def MIN_SESSION_PREFIX_LEN_def)
next
  case False
  obtain ns db k l where p: "decode_varint key = Inr (ns, k)" "decode_varint (drop k key) = Inr (db, l)"
    "n = k + l"
    using assms unfolding decode_session_prefix_eq pair_decode_def by (auto simp: res_bind_Inr_iff)
  have l: "k \<le> length key" "k + l \<le> length key"
    using vi.dec_canonical [OF p(1)] vi.dec_canonical [OF p(2)] lut_decode [OF p(2)] by auto
  obtain f r where f: "drop k key = f # r" using lut_decode [OF p(2)] by (cases "drop k key") auto
  show ?thesis
    unfolding session_prefix_len_from_slice_def if_not_P [OF False]
    using p l lut_decode [OF p(1)] lut_decode [OF p(2)] f by (simp add: split_at_checked_def)
qed

lemma session_prefix_len_key: "session_prefix_len_from_slice (key_bytes ns db tag p) =
    Some (length (session_bytes ns db))"
  by (rule session_prefix_len_decode [where p = "(ns, db)"])
    (simp add: decode_session_prefix_iff key_bytes_def)

lemma short_key:
  assumes "3 \<le> length (key_bytes ns db tag p) \<and> short_prefix (key_bytes ns db tag p)"
  shows "key_bytes ns db tag p ! 2 = keytag_as_u8 tag" "drop 3 (key_bytes ns db tag p) = p"
proof -
  have "decode_session_prefix (key_bytes ns db tag p) = Inr ((ns, db), length (session_bytes ns db))"
    by (simp add: decode_session_prefix_iff key_bytes_def)
  with assms have "length (session_bytes ns db) = 2" using decode_short_prefix by auto
  then show "key_bytes ns db tag p ! 2 = keytag_as_u8 tag" "drop 3 (key_bytes ns db tag p) = p"
    by (simp_all add: key_bytes_def nth_append)
qed

lemma decode_tag_key: "decode_tag (key_bytes ns db tag p) = Some tag"
  using short_key [of ns db tag p] session_prefix_len_key [of ns db tag p]
  by (auto simp: decode_tag_def split_at_checked_def) (simp_all add: key_bytes_def)

lemma decode_meta_key:
  "decode_meta_user_key (key_bytes ns db tag p) = (if tag = KMeta then Some p else None)"
  using short_key [of ns db tag p] session_prefix_len_key [of ns db tag p]
    keytag.as_inject [of tag KMeta]
  by (auto simp: decode_meta_user_key_def split_at_checked_def simp del: keytag_as_u8.simps)
    (simp_all add: key_bytes_def del: keytag_as_u8.simps)

lemma strip_session_prefix_iff:
  "strip_session_prefix key (session_bytes ns db) = Some (tag, p) \<longleftrightarrow> key = key_bytes ns db tag p"
proof -
  have "take (length s) key = s \<longleftrightarrow> key = s @ drop (length s) key" for s :: bytes
    by (metis append_eq_conv_conj append_take_drop_id)
  then show ?thesis
    by (auto simp: strip_session_prefix_def strip_prefix_def key_bytes_def split: list.splits)
qed

lemma encode_tagged_key_Some:
  "encode_tagged_key ns db tag payload = Some k \<Longrightarrow> tkb_as_slice k = key_bytes ns db tag payload"
  using encode_tagged_key_slice [of ns db tag payload] by simp

lemma encode_tagged_key_total:
  "\<exists>k. encode_tagged_key ns db tag payload = Some k \<and> tkb_as_slice k = key_bytes ns db tag payload"
  using encode_tagged_key_slice [of ns db tag payload] by auto

lemma replace_tag_key:
  "\<exists>k. replace_tag_at (key_bytes ns db tag p) (length (session_bytes ns db)) new_tag = Some k \<and>
     tkb_as_slice k = key_bytes ns db new_tag p"
  by (simp add: replace_tag_at_def key_bytes_def)

lemma set_tag_key:
  assumes "tkb_as_slice b = key_bytes ns db tag p"
  shows "\<exists>k. set_tag_at b (length (session_bytes ns db)) new_tag = Some k \<and>
     tkb_as_slice k = key_bytes ns db new_tag p"
proof -
  let ?n = "length (session_bytes ns db)"
  have n: "?n < shb_len STACK_KEY_CAP b"
    using assms by (simp add: tkb_as_slice_def shb_len_def key_bytes_def)
  then obtain k where k: "shb_write STACK_KEY_CAP b ?n (keytag_as_u8 new_tag) = Some k"
    using shb_write_total by blast
  have "tkb_as_slice k = (key_bytes ns db tag p)[?n := keytag_as_u8 new_tag]"
    using shb_write_Some(2) [OF k] assms by (simp add: tkb_as_slice_def)
  with n k show ?thesis by (simp add: set_tag_at_def tkb_len_def key_bytes_def)
qed

lemma spb_new_2:
  assumes "length (session_bytes ns db) = 2" and "session_bytes ns db = [a, b]"
  shows "spb_new ns db = Some \<lparr>spb_buf = (replicate MAX_SESSION_PREFIX_LEN 0)[0 := a, 1 := b],
    spb_len = 2\<rparr>"
  using assms by (simp add: spb_new_eq MAX_SESSION_PREFIX_LEN_def numeral_eq_Suc)

lemma spb_from_slice_iff:
  "spb_from_slice s = Inr b \<longleftrightarrow> (\<exists>ns db. s = session_bytes ns db \<and> spb_new ns db = Some b)"
proof (cases "length s = 2 \<and> short_prefix s")
  case True
  then obtain x y where s: "s = [x, y]" by (auto simp: length_Suc_conv numeral_2_eq_2)
  from True obtain ns db r where "s = session_bytes ns db @ r" "length (session_bytes ns db) = 2"
    using decode_short_prefix [of s] by (auto simp: decode_session_prefix_iff)
  with s have eq: "session_bytes ns db = [x, y]" using append_eq_conv_conj [of "session_bytes ns db" r s] by simp
  have u: "s = session_bytes n d \<longleftrightarrow> n = ns \<and> d = db" for n d
    using s eq sp.append_inject [of "(ns, db)" "[]" "(n, d)" "[]"] by (auto simp: session_bytes_pair)
  have "spb_from_slice s = Inr \<lparr>spb_buf = (replicate MAX_SESSION_PREFIX_LEN 0)[0 := x, 1 := y],
      spb_len = 2\<rparr>"
    using True s by (simp add: spb_from_slice_def)
  moreover have "spb_new ns db = Some \<lparr>spb_buf = (replicate MAX_SESSION_PREFIX_LEN 0)[0 := x, 1 := y],
      spb_len = 2\<rparr>"
    using eq by (intro spb_new_2) simp_all
  ultimately show ?thesis unfolding u by auto
next
  case False
  show ?thesis
  proof
    assume "spb_from_slice s = Inr b"
    then show "\<exists>ns db. s = session_bytes ns db \<and> spb_new ns db = Some b"
      unfolding spb_from_slice_def if_not_P [OF False]
      by (auto simp: res_bind_Inr_iff decode_session_prefix_iff spb_new_eq copy_at_0
          MAX_SESSION_PREFIX_LEN_def split: if_splits) blast
  next
    assume "\<exists>ns db. s = session_bytes ns db \<and> spb_new ns db = Some b"
    then obtain ns db where s: "s = session_bytes ns db" "spb_new ns db = Some b" by blast
    have "decode_session_prefix s = Inr ((ns, db), length s)"
      by (simp add: decode_session_prefix_iff s)
    then show "spb_from_slice s = Inr b"
      unfolding spb_from_slice_def if_not_P [OF False]
      using s length_session_bytes [of ns db]
      by (auto simp: spb_new_eq copy_at_0 MAX_SESSION_PREFIX_LEN_def)
  qed
qed

lemma spb_decode_new:
  assumes "spb_new ns db = Some b"
  shows "spb_decode b = Inr (ns, db)"
proof (cases "length (session_bytes ns db) = 2")
  case True
  then have lt: "ns < 128" "db < 128" by (simp_all add: session_bytes_short)
  then have eq: "session_bytes ns db = [ucast ns, ucast db]"
    by (simp add: session_bytes_def varint_bytes_1)
  have "ucast (ucast v :: u8) = v" if "v < (128 :: u64)" for v
    using that by (simp add: word_unat_eq_iff unsigned_ucast_eq word_less_nat_alt unsigned_take_bit_eq
        take_bit_nat_eq_self)
  with True lt assms eq show ?thesis by (auto simp: spb_new_eq spb_decode_def)
next
  case False
  then have "spb_len b \<noteq> 2"
    using assms length_session_bytes [of ns db]
    by (auto simp: spb_new_eq word_unat_eq_iff unat_of_small)
  then show ?thesis
    unfolding spb_decode_def using spb_as_slice_new [OF assms]
    by (simp add: decode_session_prefix_iff [of _ ns db _, THEN iffD2])
qed

section \<open>Properties\<close>

text \<open>
  C19: Encoding a physical key never panics, and decoding the encoded key returns the namespace,
  database, tag and payload; the buffer is well formed and lives on the stack exactly when the key
  has at most 62 bytes.
\<close>

theorem tagged_key_roundtrip:
  "\<exists>k. encode_tagged_key ns db tag payload = Some k
     \<and> decode_tagged_key (tkb_as_slice k) = Inr (ns, db, tag, payload)
     \<and> shb_wf STACK_KEY_CAP k \<and> (shb_is_stack k \<longleftrightarrow> tkb_len k \<le> STACK_KEY_CAP)"
proof -
  obtain k where k: "encode_tagged_key ns db tag payload = Some k"
    "tkb_as_slice k = key_bytes ns db tag payload"
    using encode_tagged_key_total by blast
  then obtain parts where "k = build_key parts"
    by (auto simp: encode_tagged_key_def encode_with_session_prefix_def)
  then have "shb_wf STACK_KEY_CAP k" "shb_is_stack k \<longleftrightarrow> tkb_len k \<le> STACK_KEY_CAP"
    using build_key_is_stack [of parts] build_key_slice [of parts] build_key_wf [of parts]
    by (simp_all add: tkb_len_def shb_len_def tkb_as_slice_def STACK_KEY_CAP_def)
  with k show ?thesis by (auto simp: decode_tagged_key_iff)
qed

text \<open>
  A byte string the decoder accepts is the encoding of what it decodes to: no two distinct
  physical keys denote the same logical key.
\<close>

theorem tagged_key_canonical:
  assumes "decode_tagged_key key = Inr (ns, db, tag, payload)"
  shows "\<exists>k. encode_tagged_key ns db tag payload = Some k \<and> tkb_as_slice k = key"
  using assms encode_tagged_key_total [of ns db tag payload] by (simp add: decode_tagged_key_iff)

theorem tagged_key_canonical_witness:
  "\<exists>k. encode_tagged_key 1 200 KMeta [7] = Some k \<and> tkb_as_slice k = [1, 0x80, 0x48, 0x01, 7]"
proof -
  have "decode_tagged_key [1, 0x80, 0x48, 0x01, 7] = Inr (1, 200, KMeta, [7])"
    by code_simp
  then show ?thesis by (rule tagged_key_canonical)
qed

text \<open>
  C39: The byte order of physical keys is the order of (namespace, database, tag byte, payload), so
  a range scan visits one database after the other and, inside a database, one record family after
  the other.
\<close>

theorem tagged_key_order:
  assumes "encode_tagged_key ns db tag p = Some k" and "encode_tagged_key ns' db' tag' p' = Some k'"
  shows "tkb_as_slice k < tkb_as_slice k' \<longleftrightarrow> (ns, db, tag, p) < (ns', db', tag', p')"
  using encode_tagged_key_Some [OF assms(1)] encode_tagged_key_Some [OF assms(2)]
  by (simp add: key_bytes_less)

theorem tagged_key_order_witness:
  "tkb_as_slice (the (encode_tagged_key 1 127 KVector [])) < tkb_as_slice (the (encode_tagged_key 1 128 KString [3]))
     \<longleftrightarrow> (1 :: u64, 127 :: u64, KVector, [] :: bytes) < (1, 128, KString, [3])"
  by (rule tagged_key_order) (code_simp, code_simp)

text \<open>
  C24: Scanning with a session's prefix sees exactly the keys of that session's namespace and
  database, with their tag and user key: no key of another namespace or database, of whatever
  varint width, is ever attributed to it.
\<close>

theorem session_isolation:
  assumes "spb_new ns db = Some prefix"
  shows "strip_session_prefix key (spb_as_slice prefix) = Some (tag, user_key)
     \<longleftrightarrow> decode_tagged_key key = Inr (ns, db, tag, user_key)"
  using spb_as_slice_new [OF assms] by (simp add: strip_session_prefix_iff decode_tagged_key_iff)

theorem session_isolation_witness:
  "strip_session_prefix [1, 2, 0, 9] (spb_as_slice (the (spb_new 1 2))) = Some (KString, [9])
     \<longleftrightarrow> decode_tagged_key [1, 2, 0, 9] = Inr (1, 2, KString, [9])"
  by (rule session_isolation) code_simp

text \<open>
  On every valid key the accessors that skip the full decode agree with it: the prefix length
  scan, the tag reader and the metadata reader; and rewriting the tag at that offset, in a fresh
  buffer or in place, changes the tag and nothing else.
\<close>

theorem key_accessors_agree:
  assumes "decode_tagged_key key = Inr (ns, db, tag, payload)"
    and "tkb_as_slice b = key"
  shows "decode_tag key = Some tag
    \<and> decode_meta_user_key key = (if tag = KMeta then Some payload else None)
    \<and> (\<exists>n k k'. session_prefix_len_from_slice key = Some n
        \<and> replace_tag_at key n new_tag = Some k \<and> set_tag_at b n new_tag = Some k'
        \<and> decode_tagged_key (tkb_as_slice k) = Inr (ns, db, new_tag, payload)
        \<and> tkb_as_slice k' = tkb_as_slice k)"
proof -
  have key: "key = key_bytes ns db tag payload"
    using assms(1) by (simp add: decode_tagged_key_iff)
  obtain k k' where "replace_tag_at key (length (session_bytes ns db)) new_tag = Some k"
    "tkb_as_slice k = key_bytes ns db new_tag payload"
    "set_tag_at b (length (session_bytes ns db)) new_tag = Some k'"
    "tkb_as_slice k' = key_bytes ns db new_tag payload"
    using replace_tag_key set_tag_key assms(2) key by metis
  then show ?thesis
    using key decode_tag_key decode_meta_key session_prefix_len_key
    by (auto simp: decode_tagged_key_iff)
qed

theorem key_accessors_agree_witness:
  "decode_tag [1, 2, 1, 9] = Some KMeta
    \<and> decode_meta_user_key [1, 2, 1, 9] = (if KMeta = KMeta then Some [9] else None)
    \<and> (\<exists>n k k'. session_prefix_len_from_slice [1, 2, 1, 9] = Some n
        \<and> replace_tag_at [1, 2, 1, 9] n KTtl = Some k \<and> set_tag_at (tkb_from [1, 2, 1, 9]) n KTtl = Some k'
        \<and> decode_tagged_key (tkb_as_slice k) = Inr (1, 2, KTtl, [9])
        \<and> tkb_as_slice k' = tkb_as_slice k)"
  by (rule key_accessors_agree) (code_simp, code_simp)

text \<open>
  A session prefix buffer rebuilt from a byte string decodes to the namespace and database it
  stands for and is equal to the buffer built from them; every buffer built from a namespace and
  database is accepted back.
\<close>

theorem session_prefix_roundtrip:
  "(spb_from_slice s = Inr b \<and> spb_decode b = Inr (ns, db))
     \<longleftrightarrow> (spb_new ns db = Some b \<and> spb_as_slice b = s)"
  using spb_from_slice_iff [of s b] spb_decode_new spb_as_slice_new by fastforce

end
