(* ===== verification/MetaValue.thy ===== *)
theory MetaValue
  imports Tags
begin

text \<open>
  The value side of \<open>wval\<close>: the 32-byte metadata record of a collection (\<open>wval/src/meta.rs\<close>), the
  big-endian i64 value codec and the two expiry comparisons (\<open>wval/src/codec.rs\<close>). An i64 is the
  64-bit word with its two's complement reading \<open>sint\<close>.
\<close>

section \<open>Definitions\<close>

type_synonym i64 = "64 word"

definition I64_MAX :: i64 where "I64_MAX = 0x7FFFFFFFFFFFFFFF"
definition U64_MAX :: u64 where "U64_MAX = 0xFFFFFFFFFFFFFFFF"

definition u64_saturating_add :: "u64 \<Rightarrow> u64 \<Rightarrow> u64" where
  "u64_saturating_add a b = (if a + b < a then U64_MAX else a + b)"

definition u64_saturating_sub :: "u64 \<Rightarrow> u64 \<Rightarrow> u64" where
  "u64_saturating_sub a b = (if a < b then 0 else a - b)"

definition read_be_u64_at :: "bytes \<Rightarrow> nat \<Rightarrow> u64" where
  "read_be_u64_at s offset = from_be_bytes
     [s ! offset, s ! (offset + 1), s ! (offset + 2), s ! (offset + 3),
      s ! (offset + 4), s ! (offset + 5), s ! (offset + 6), s ! (offset + 7)]"

definition ensure_len :: "bytes \<Rightarrow> nat \<Rightarrow> (wval_error, unit) res" where
  "ensure_len s need = (if length s < need then Inl (BufferTooShort need (length s)) else Inr ())"

definition TYPE_OFFSET :: nat where "TYPE_OFFSET = 8"
definition SIZE_OFFSET :: nat where "SIZE_OFFSET = 16"
definition NEXT_EXPIRY_OFFSET :: nat where "NEXT_EXPIRY_OFFSET = 24"
definition META_VALUE_SIZE :: nat where "META_VALUE_SIZE = 32"

lemmas meta_consts =
  TYPE_OFFSET_def SIZE_OFFSET_def NEXT_EXPIRY_OFFSET_def META_VALUE_SIZE_def

datatype StorageEncoding = FlattenedTree

fun storage_encoding_u8 :: "StorageEncoding \<Rightarrow> u8" where
  "storage_encoding_u8 FlattenedTree = 2"

definition storage_encoding_try_from_u8 :: "u8 \<Rightarrow> StorageEncoding option" where
  "storage_encoding_try_from_u8 val = (if val = 2 then Some FlattenedTree else None)"

record MetaValue =
  key_id :: u64
  collection_type :: GarnetObjectType
  reserved :: bytes
  msize :: u64
  next_expiry :: i64

definition meta_new_with_expiry :: "u64 \<Rightarrow> GarnetObjectType \<Rightarrow> u64 \<Rightarrow> i64 \<Rightarrow> MetaValue" where
  "meta_new_with_expiry kid ty sz nx =
     \<lparr>key_id = kid, collection_type = ty,
      reserved = [storage_encoding_u8 FlattenedTree, 0, 0, 0, 0, 0, 0], msize = sz, next_expiry = nx\<rparr>"

definition meta_new :: "u64 \<Rightarrow> GarnetObjectType \<Rightarrow> u64 \<Rightarrow> MetaValue" where
  "meta_new kid ty sz = meta_new_with_expiry kid ty sz I64_MAX"

definition inc_size :: "MetaValue \<Rightarrow> u64 \<Rightarrow> MetaValue" where
  "inc_size self count = self\<lparr>msize := u64_saturating_add (msize self) count\<rparr>"

definition dec_size :: "MetaValue \<Rightarrow> u64 \<Rightarrow> MetaValue" where
  "dec_size self count = self\<lparr>msize := u64_saturating_sub (msize self) count\<rparr>"

definition is_range_index :: "MetaValue \<Rightarrow> bool" where
  "is_range_index self \<longleftrightarrow> collection_type self = GRangeIndex"

definition is_live :: "MetaValue \<Rightarrow> bool" where
  "is_live self \<longleftrightarrow> is_range_index self \<or> 0 < msize self"

definition meta_to_bytes :: "MetaValue \<Rightarrow> bytes" where
  "meta_to_bytes self =
     (let k = to_be_bytes 8 (key_id self); r = reserved self;
          s = to_be_bytes 8 (msize self); n = to_be_bytes 8 (next_expiry self)
      in [k ! 0, k ! 1, k ! 2, k ! 3, k ! 4, k ! 5, k ! 6, k ! 7,
          gobj_as_u8 (collection_type self),
          r ! 0, r ! 1, r ! 2, r ! 3, r ! 4, r ! 5, r ! 6,
          s ! 0, s ! 1, s ! 2, s ! 3, s ! 4, s ! 5, s ! 6, s ! 7,
          n ! 0, n ! 1, n ! 2, n ! 3, n ! 4, n ! 5, n ! 6, n ! 7])"

definition meta_from_slice :: "bytes \<Rightarrow> (wval_error, MetaValue) res" where
  "meta_from_slice s =
     res_bind (ensure_len s META_VALUE_SIZE) (\<lambda>_.
       case gobj_from_u8 (s ! TYPE_OFFSET) of
         None \<Rightarrow> Inl (InvalidGarnetObjectType (s ! TYPE_OFFSET))
       | Some ty \<Rightarrow>
           if storage_encoding_try_from_u8 (s ! 9) = None then Inl (InvalidStorageEncoding (s ! 9))
           else Inr \<lparr>key_id = read_be_u64_at s 0, collection_type = ty,
                     reserved = [s ! 9, s ! 10, s ! 11, s ! 12, s ! 13, s ! 14, s ! 15],
                     msize = read_be_u64_at s SIZE_OFFSET,
                     next_expiry = read_be_u64_at s NEXT_EXPIRY_OFFSET\<rparr>)"

definition I64_VAL_LEN :: nat where "I64_VAL_LEN = 8"

definition i64_encode :: "i64 \<Rightarrow> bytes" where
  "i64_encode v = to_be_bytes I64_VAL_LEN v"

definition i64_decode :: "bytes \<Rightarrow> i64 option" where
  "i64_decode bs =
     (if I64_VAL_LEN \<le> length bs then Some (from_be_bytes (take I64_VAL_LEN bs)) else None)"

definition expiry_elapsed :: "i64 option \<Rightarrow> i64 \<Rightarrow> bool" where
  "expiry_elapsed expiry now = (case expiry of Some ticks \<Rightarrow> sint ticks < sint now | None \<Rightarrow> False)"

definition expiry_reached :: "i64 option \<Rightarrow> i64 \<Rightarrow> bool" where
  "expiry_reached expiry now = (case expiry of Some ticks \<Rightarrow> sint ticks \<le> sint now | None \<Rightarrow> False)"

section \<open>Lemmas\<close>

text \<open>
  The invariant of a metadata record: seven reserved bytes, of which the first is a known storage
  encoding.
\<close>

definition meta_wf :: "MetaValue \<Rightarrow> bool" where
  "meta_wf m \<longleftrightarrow> length (reserved m) = 7 \<and> storage_encoding_try_from_u8 (reserved m ! 0) \<noteq> None"

lemma list_8: "length xs = 8 \<Longrightarrow> \<exists>a b c d e f g h. xs = [a, b, c, d, e, f, g, h]"
  by (auto simp: numeral_eq_Suc length_Suc_conv)

lemma list_7: "length xs = 7 \<Longrightarrow> \<exists>a b c d e f g. xs = [a, b, c, d, e, f, g]"
  by (auto simp: numeral_eq_Suc length_Suc_conv)

lemma nth_8: "length xs = 8 \<Longrightarrow> [xs ! 0, xs ! 1, xs ! 2, xs ! 3, xs ! 4, xs ! 5, xs ! 6, xs ! 7] = xs"
  by (drule list_8) (elim exE, simp)

lemma nth_7: "length xs = 7 \<Longrightarrow> [xs ! 0, xs ! 1, xs ! 2, xs ! 3, xs ! 4, xs ! 5, xs ! 6] = xs"
  by (drule list_7) (elim exE, simp)

lemma cat_4:
  "[k0, k1, k2, k3, k4, k5, k6, k7, c, r0, r1, r2, r3, r4, r5, r6,
    s0, s1, s2, s3, s4, s5, s6, s7, n0, n1, n2, n3, n4, n5, n6, n7] =
   [k0, k1, k2, k3, k4, k5, k6, k7] @ [c] @ [r0, r1, r2, r3, r4, r5, r6] @
   [s0, s1, s2, s3, s4, s5, s6, s7] @ [n0, n1, n2, n3, n4, n5, n6, n7]"
  by simp

lemma meta_to_bytes_append:
  assumes "length (reserved m) = 7"
  shows "meta_to_bytes m = to_be_bytes 8 (key_id m) @ [gobj_as_u8 (collection_type m)] @ reserved m
    @ to_be_bytes 8 (msize m) @ to_be_bytes 8 (next_expiry m)"
  unfolding meta_to_bytes_def Let_def cat_4 by (simp only: nth_8 nth_7 assms length_to_be_bytes)

lemma read_be_u64_at_eq:
  assumes "offset + 8 \<le> length s"
  shows "read_be_u64_at s offset = from_be_bytes (take 8 (drop offset s))"
  using assms unfolding read_be_u64_at_def
  by (subst nth_8 [of "take 8 (drop offset s)", symmetric]) simp_all

text \<open>A string of at least 32 bytes, cut at the field boundaries.\<close>

lemma meta_fields:
  assumes "32 \<le> length s"
  shows "s = take 8 s @ [s ! 8] @ [s ! 9, s ! 10, s ! 11, s ! 12, s ! 13, s ! 14, s ! 15]
    @ take 8 (drop 16 s) @ take 8 (drop 24 s) @ drop 32 s"
proof -
  have "s = take 8 s @ take 1 (drop 8 s) @ take 7 (drop 9 s) @ take 8 (drop 16 s)
      @ take 8 (drop 24 s) @ drop 32 s"
    by (simp add: append_take_drop_id [of 8 "drop 24 s", simplified]
        append_take_drop_id [of 8 "drop 16 s", simplified]
        append_take_drop_id [of 7 "drop 9 s", simplified]
        append_take_drop_id [of 1 "drop 8 s", simplified])
  moreover have "take 7 (drop 9 s) = [s ! 9, s ! 10, s ! 11, s ! 12, s ! 13, s ! 14, s ! 15]"
    using assms by (subst nth_7 [of "take 7 (drop 9 s)", symmetric]) simp_all
  moreover have "take 1 (drop 8 s) = [s ! 8]"
    using assms by (simp add: take_Suc hd_drop_conv_nth)
  ultimately show ?thesis by metis
qed

lemma meta_wf_new: "meta_wf (meta_new_with_expiry k t s n)" "meta_wf (meta_new k t s)"
  by (simp_all add: meta_wf_def meta_new_def meta_new_with_expiry_def storage_encoding_try_from_u8_def)

lemma meta_wf_size: "meta_wf (inc_size m c) = meta_wf m" "meta_wf (dec_size m c) = meta_wf m"
  by (simp_all add: meta_wf_def inc_size_def dec_size_def)

lemma meta_from_slice_sound:
  assumes "meta_from_slice s = Inr m"
  shows "meta_wf m" "\<exists>rest. s = meta_to_bytes m @ rest"
proof -
  have len: "32 \<le> length s" and ty: "gobj_from_u8 (s ! 8) = Some (collection_type m)"
    and st: "storage_encoding_try_from_u8 (s ! 9) \<noteq> None"
    and r: "reserved m = [s ! 9, s ! 10, s ! 11, s ! 12, s ! 13, s ! 14, s ! 15]"
    and f: "key_id m = read_be_u64_at s 0" "msize m = read_be_u64_at s 16"
      "next_expiry m = read_be_u64_at s 24"
    using assms
    by (auto simp: meta_from_slice_def ensure_len_def meta_consts split: if_splits option.splits)
  show "meta_wf m" using st r by (simp add: meta_wf_def)
  have "meta_to_bytes m = take 8 s @ [s ! 8] @ reserved m @ take 8 (drop 16 s) @ take 8 (drop 24 s)"
    using len ty r f
    by (simp add: meta_to_bytes_append read_be_u64_at_eq to_from_be_bytes gobj.from_iff)
  then have "s = meta_to_bytes m @ drop 32 s"
    using meta_fields [OF len] r by simp
  then show "\<exists>rest. s = meta_to_bytes m @ rest" by blast
qed

lemma meta_from_slice_complete:
  assumes "meta_wf m"
  shows "meta_from_slice (meta_to_bytes m @ rest) = Inr m"
proof -
  let ?s = "meta_to_bytes m @ rest"
  have r: "length (reserved m) = 7" using assms by (simp add: meta_wf_def)
  have len: "32 \<le> length ?s" by (simp add: meta_to_bytes_append r)
  have "?s ! 8 = gobj_as_u8 (collection_type m)"
    "[?s ! 9, ?s ! 10, ?s ! 11, ?s ! 12, ?s ! 13, ?s ! 14, ?s ! 15] = reserved m"
    using nth_7 [OF r] by (simp_all add: meta_to_bytes_append r nth_append)
  moreover have "read_be_u64_at ?s 0 = key_id m" "read_be_u64_at ?s 16 = msize m"
    "read_be_u64_at ?s 24 = next_expiry m"
    using len by (simp_all add: read_be_u64_at_eq meta_to_bytes_append r from_to_be_bytes)
  moreover have "?s ! 9 = reserved m ! 0"
    by (simp add: meta_to_bytes_append r nth_append)
  ultimately show ?thesis
    using assms len by (simp add: meta_from_slice_def ensure_len_def meta_consts meta_wf_def gobj.from_as)
qed

lemma u64_saturating_add_unat: "unat (u64_saturating_add a b) = min (unat a + unat b) (2 ^ 64 - 1)"
  by (auto simp: u64_saturating_add_def U64_MAX_def word_less_nat_alt unat_plus_if')
    (use unat_u64_less [of b] in linarith)

lemma u64_saturating_sub_unat: "unat (u64_saturating_sub a b) = unat a - unat b"
  by (auto simp: u64_saturating_sub_def word_less_nat_alt unat_sub_if')

lemma i64_roundtrip: "i64_decode (i64_encode v @ rest) = Some v"
  by (simp add: i64_decode_def i64_encode_def I64_VAL_LEN_def from_to_be_bytes)

lemma i64_decode_short: "length bs < 8 \<Longrightarrow> i64_decode bs = None"
  by (simp add: i64_decode_def I64_VAL_LEN_def)

lemma expiry_elapsed_reached: "expiry_elapsed e now \<Longrightarrow> expiry_reached e now"
  by (auto simp: expiry_elapsed_def expiry_reached_def split: option.splits)

section \<open>Properties\<close>

text \<open>
  The metadata decoder inverts the encoder and accepts nothing else: it returns a record exactly
  when the string starts with the 32 bytes of that record and the record is well formed (seven
  reserved bytes, the first a known storage encoding); trailing bytes are ignored.
\<close>

theorem meta_value_roundtrip:
  "meta_from_slice s = Inr m \<longleftrightarrow> meta_wf m \<and> (\<exists>rest. s = meta_to_bytes m @ rest)"
  using meta_from_slice_sound [of s m] meta_from_slice_complete by blast

text \<open>
  Every way the source makes a metadata record gives a well-formed one, and the member counter
  saturates: adding stops at the largest u64, subtracting stops at zero, and neither touches another
  field, so that a collection other than a range index is live exactly while its counter is positive.
\<close>

theorem meta_size_saturates:
  "meta_wf (meta_new kid ty sz)
   \<and> (meta_wf (inc_size m c) \<longleftrightarrow> meta_wf m) \<and> (meta_wf (dec_size m c) \<longleftrightarrow> meta_wf m)
   \<and> unat (msize (inc_size m c)) = min (unat (msize m) + unat c) (2 ^ 64 - 1)
   \<and> unat (msize (dec_size m c)) = unat (msize m) - unat c
   \<and> (is_live (dec_size m c) \<longleftrightarrow> is_range_index m \<or> unat c < unat (msize m))
   \<and> (dec_size m c)\<lparr>msize := msize m\<rparr> = m \<and> (inc_size m c)\<lparr>msize := msize m\<rparr> = m"
  using meta_wf_size [of m c] by (simp add: meta_wf_new inc_size_def dec_size_def
      u64_saturating_add_unat u64_saturating_sub_unat is_live_def is_range_index_def word_less_nat_alt)

end
