(* ===== verification/Address.thy ===== *)
theory Address
  imports Wedb_Prelude
begin

text \<open>
  Log addresses (\<open>wbase/src/addr.rs\<close>): 48 bits of a word, of which bit 47 selects the read cache.
  The bit-field lemmas here (\<open>bitw\<close>, \<open>fieldw\<close>, bits of masked and shifted words) serve
  the record header and the index words as well.
\<close>

definition ADDRESS_BITS :: nat where "ADDRESS_BITS = 48"
definition ADDRESS_MASK :: u64 where "ADDRESS_MASK = push_bit ADDRESS_BITS 1 - 1"
definition READ_CACHE_BIT :: u64 where "READ_CACHE_BIT = push_bit (ADDRESS_BITS - 1) 1"
definition ABSOLUTE_ADDRESS_MASK :: u64 where
  "ABSOLUTE_ADDRESS_MASK = ADDRESS_MASK AND NOT READ_CACHE_BIT"
definition INVALID_ADDRESS :: u64 where "INVALID_ADDRESS = 0"

definition clean_address :: "u64 \<Rightarrow> u64" where
  "clean_address addr = addr AND ADDRESS_MASK"

definition is_valid :: "u64 \<Rightarrow> bool" where
  "is_valid addr \<longleftrightarrow> clean_address addr \<noteq> INVALID_ADDRESS"

definition is_read_cache :: "u64 \<Rightarrow> bool" where
  "is_read_cache addr \<longleftrightarrow> addr AND READ_CACHE_BIT = READ_CACHE_BIT"

definition to_absolute :: "u64 \<Rightarrow> u64" where
  "to_absolute addr = addr AND ABSOLUTE_ADDRESS_MASK"

definition with_read_cache :: "u64 \<Rightarrow> u64" where
  "with_read_cache addr = (addr AND ADDRESS_MASK) OR READ_CACHE_BIT"

section \<open>Bit fields\<close>

text \<open>The word with one bit, and the word with the \<open>n\<close> bits from bit \<open>k\<close> on.\<close>

definition bitw :: "nat \<Rightarrow> 'a::len word" where "bitw k = push_bit k 1"
definition fieldw :: "nat \<Rightarrow> nat \<Rightarrow> 'a::len word" where "fieldw k n = push_bit k (mask n)"

lemma bit_bitw: "bit (bitw k :: 'a::len word) i \<longleftrightarrow> i = k \<and> i < LENGTH('a)"
  unfolding bitw_def bit_push_bit_iff bit_1_iff by auto

lemma bit_fieldw: "bit (fieldw k n :: 'a::len word) i \<longleftrightarrow> k \<le> i \<and> i < k + n \<and> i < LENGTH('a)"
  unfolding fieldw_def bit_push_bit_iff bit_mask_iff by auto

lemma bit_mask_word: "bit (mask n :: 'a::len word) i \<longleftrightarrow> i < n \<and> i < LENGTH('a)"
  by (auto simp: bit_mask_iff)

lemmas bit_fields =
  bit_mask_word bit_fieldw bit_bitw bit_and_iff bit_or_iff bit_not_iff bit_xor_iff
  bit_push_bit_iff bit_drop_bit_eq

lemma word_bits_eq: "v = w \<longleftrightarrow> (\<forall>n < LENGTH('a). bit v n = bit (w :: 'a::len word) n)"
  using bit_word_eqI [of v w] by auto

lemma and_bitw_zero: "k < LENGTH('a) \<Longrightarrow> w AND bitw k = 0 \<longleftrightarrow> \<not> bit (w :: 'a::len word) k"
  by (auto simp: word_bits_eq bit_fields)

lemma and_bitw_self: "k < LENGTH('a) \<Longrightarrow> w AND bitw k = bitw k \<longleftrightarrow> bit (w :: 'a::len word) k"
  by (auto simp: word_bits_eq bit_fields)

lemma and_mask_idem: "w AND mask n = (w :: 'a::len word) \<longleftrightarrow> unat w < 2 ^ n"
  by (metis take_bit_eq_mask take_bit_nat_eq_self_iff unsigned_take_bit_eq word_unat_eq_iff)

lemma mask_words [field_defs]:
  "ADDRESS_MASK = mask 48" "READ_CACHE_BIT = bitw 47"
  by (simp_all add: ADDRESS_MASK_def READ_CACHE_BIT_def ADDRESS_BITS_def mask_eq_exp_minus_1 bitw_def)

lemma is_read_cache_bit: "is_read_cache a \<longleftrightarrow> bit a 47"
  by (simp add: is_read_cache_def field_defs and_bitw_self)

lemma clean_address_idem [simp]: "clean_address (clean_address a) = clean_address a"
  by (simp add: clean_address_def and.assoc)

lemma read_cache_roundtrip:
  "is_read_cache (with_read_cache a)" "to_absolute (with_read_cache a) = to_absolute a"
  "\<not> is_read_cache (to_absolute a)" "clean_address (to_absolute a) = to_absolute a"
  "is_read_cache (clean_address a) = is_read_cache a"
  by (auto simp: is_read_cache_bit with_read_cache_def to_absolute_def clean_address_def
      ABSOLUTE_ADDRESS_MASK_def field_defs bit_fields word_bits_eq)

end
