(* ===== verification/RecordHeader.thy ===== *)
theory RecordHeader
  imports Address
begin

text \<open>
  The 16-byte record header (\<open>wrecord/src/header/bits.rs\<close>, \<open>wrecord/src/header.rs\<close>): an info word
  with the 48-bit previous address and four flag bits, and a length word packing the filler (8 bits,
  in words of 8 bytes), the key length (24 bits) and the value length (32 bits). A usize is a
  natural number; where the source saturates, checks or wraps, the definition says so.
  The lemmas are the get/set laws of the packed fields, the size arithmetic of aligned records and
  the exactness of the slack computation that in-place updates rely on.
\<close>

section \<open>Errors and constants\<close>

datatype record_error =
    RBufferTooShort nat nat
  | AddressOverflow u64
  | KeyLengthOverflow nat
  | ValueLengthOverflow nat
  | RecordSizeOverflow
  | ValueLengthMismatch nat nat
  | TombstoneUpdate

definition PAD_KEY_LEN :: u32 where "PAD_KEY_LEN = push_bit 24 1 - 1"
definition SEALED_BIT :: u64 where "SEALED_BIT = push_bit 60 1"
definition IN_NEW_VERSION_BIT :: u64 where "IN_NEW_VERSION_BIT = push_bit 61 1"
definition HEADER_READ_CACHE_BIT :: u64 where "HEADER_READ_CACHE_BIT = push_bit 62 1"
definition TOMBSTONE_BIT :: u64 where "TOMBSTONE_BIT = push_bit 63 1"

definition FILLER_WORDS_SHIFT :: nat where "FILLER_WORDS_SHIFT = 0"
definition FILLER_WORDS_BITS :: nat where "FILLER_WORDS_BITS = 8"
definition FILLER_WORDS_VALUE_MASK :: u64 where "FILLER_WORDS_VALUE_MASK = push_bit FILLER_WORDS_BITS 1 - 1"
definition FILLER_WORDS_MASK :: u64 where "FILLER_WORDS_MASK = push_bit FILLER_WORDS_SHIFT FILLER_WORDS_VALUE_MASK"
definition KEY_LEN_SHIFT :: nat where "KEY_LEN_SHIFT = FILLER_WORDS_SHIFT + FILLER_WORDS_BITS"
definition KEY_LEN_BITS :: nat where "KEY_LEN_BITS = 24"
definition KEY_LEN_VALUE_MASK :: u64 where "KEY_LEN_VALUE_MASK = push_bit KEY_LEN_BITS 1 - 1"
definition KEY_LEN_MASK :: u64 where "KEY_LEN_MASK = push_bit KEY_LEN_SHIFT KEY_LEN_VALUE_MASK"
definition VAL_LEN_SHIFT :: nat where "VAL_LEN_SHIFT = KEY_LEN_SHIFT + KEY_LEN_BITS"
definition VAL_LEN_BITS :: nat where "VAL_LEN_BITS = 32"
definition VAL_LEN_VALUE_MASK :: u64 where "VAL_LEN_VALUE_MASK = push_bit VAL_LEN_BITS 1 - 1"
definition VAL_LEN_MASK :: u64 where "VAL_LEN_MASK = push_bit VAL_LEN_SHIFT VAL_LEN_VALUE_MASK"
definition MAX_FILLER_BYTES :: nat where "MAX_FILLER_BYTES = unat FILLER_WORDS_VALUE_MASK * 8"

definition HEADER_SIZE :: nat where "HEADER_SIZE = 16"
definition RECORD_ALIGNMENT :: nat where "RECORD_ALIGNMENT = 8"

text \<open>The alignment of a usize: addition wraps at 64 bits.\<close>

definition align_record_size :: "nat \<Rightarrow> nat" where
  "align_record_size sz =
     unat ((of_nat sz + (of_nat RECORD_ALIGNMENT - 1)) AND NOT (of_nat RECORD_ALIGNMENT - 1) :: u64)"

definition with_bit :: "u64 \<Rightarrow> u64 \<Rightarrow> bool \<Rightarrow> u64" where
  "with_bit word msk on = (if on then word OR msk else word AND NOT msk)"

definition pack_rdh_word :: "u8 \<Rightarrow> u32 \<Rightarrow> u32 \<Rightarrow> u64" where
  "pack_rdh_word filler_words key_len val_len =
     (ucast filler_words AND FILLER_WORDS_VALUE_MASK)
     OR push_bit KEY_LEN_SHIFT (ucast key_len AND KEY_LEN_VALUE_MASK)
     OR push_bit VAL_LEN_SHIFT (ucast val_len AND VAL_LEN_VALUE_MASK)"

definition record_size :: "nat \<Rightarrow> nat \<Rightarrow> nat" where
  "record_size key_len val_len =
     align_record_size (saturating_add (saturating_add HEADER_SIZE key_len) val_len)"

definition checked_record_size :: "nat \<Rightarrow> nat \<Rightarrow> nat option" where
  "checked_record_size key_len val_len =
     (case checked_add HEADER_SIZE key_len of None \<Rightarrow> None | Some s \<Rightarrow> checked_add s val_len)"

section \<open>The header\<close>

record RecordHeader =
  prev_address :: u64
  rdh_word :: u64

definition rh_from_words :: "u64 \<Rightarrow> u64 \<Rightarrow> RecordHeader" where
  "rh_from_words p r = \<lparr>prev_address = p, rdh_word = r\<rparr>"

definition rh_new :: "u64 \<Rightarrow> u32 \<Rightarrow> u32 \<Rightarrow> bool \<Rightarrow> (record_error, RecordHeader) res" where
  "rh_new prev_addr key_len val_len is_tombstone =
     (if prev_addr AND NOT ADDRESS_MASK \<noteq> 0 then Inl (AddressOverflow prev_addr)
      else Inr (rh_from_words (with_bit prev_addr TOMBSTONE_BIT is_tombstone)
                  (pack_rdh_word 0 key_len val_len)))"

definition rh_from_raw :: "u64 \<Rightarrow> u32 \<Rightarrow> u32 \<Rightarrow> RecordHeader" where
  "rh_from_raw p key_len val_len = rh_from_words p (pack_rdh_word 0 key_len val_len)"

definition rh_address :: "RecordHeader \<Rightarrow> u64" where
  "rh_address self = prev_address self AND ADDRESS_MASK"

definition rh_is_tombstone :: "RecordHeader \<Rightarrow> bool" where
  "rh_is_tombstone self \<longleftrightarrow> prev_address self AND TOMBSTONE_BIT \<noteq> 0"

definition rh_set_tombstone :: "RecordHeader \<Rightarrow> bool \<Rightarrow> RecordHeader" where
  "rh_set_tombstone self t = self\<lparr>prev_address := with_bit (prev_address self) TOMBSTONE_BIT t\<rparr>"

definition is_closed_word :: "u64 \<Rightarrow> bool" where
  "is_closed_word word \<longleftrightarrow> word AND SEALED_BIT \<noteq> 0"

definition rh_is_closed :: "RecordHeader \<Rightarrow> bool" where
  "rh_is_closed self = is_closed_word (prev_address self)"

text \<open>
  The three operations on the shared info word. Each reads the word, computes the new one and
  publishes it by compare-and-swap; \<open>current\<close> is the word the compare-and-swap meets.
\<close>

definition compare_exchange :: "u64 \<Rightarrow> u64 \<Rightarrow> u64 \<Rightarrow> bool \<times> u64" where
  "compare_exchange current expected new = (if current = expected then (True, new) else (False, current))"

definition rh_try_seal :: "u64 \<Rightarrow> u64 \<Rightarrow> bool \<times> u64" where
  "rh_try_seal loaded current =
     (if is_closed_word loaded then (False, current)
      else compare_exchange current loaded (loaded OR SEALED_BIT))"

definition rh_try_update_address :: "u64 \<Rightarrow> u64 \<Rightarrow> u64 \<Rightarrow> u64 \<Rightarrow> bool \<times> u64" where
  "rh_try_update_address loaded current expected_prev_addr new_prev_addr =
     (if loaded AND ADDRESS_MASK \<noteq> expected_prev_addr AND ADDRESS_MASK then (False, current)
      else compare_exchange current loaded
             ((loaded AND NOT ADDRESS_MASK) OR (new_prev_addr AND ADDRESS_MASK)))"

definition rh_set_invalid_atomic :: "u64 \<Rightarrow> u64" where
  "rh_set_invalid_atomic word = word OR SEALED_BIT"

definition rh_is_sealed :: "RecordHeader \<Rightarrow> bool" where
  "rh_is_sealed self \<longleftrightarrow> prev_address self AND SEALED_BIT \<noteq> 0"

definition rh_set_sealed :: "RecordHeader \<Rightarrow> bool \<Rightarrow> RecordHeader" where
  "rh_set_sealed self s = self\<lparr>prev_address := with_bit (prev_address self) SEALED_BIT s\<rparr>"

definition rh_seal :: "RecordHeader \<Rightarrow> RecordHeader" where
  "rh_seal self = rh_set_sealed self True"

definition rh_is_in_new_version :: "RecordHeader \<Rightarrow> bool" where
  "rh_is_in_new_version self \<longleftrightarrow> prev_address self AND IN_NEW_VERSION_BIT \<noteq> 0"

definition rh_set_in_new_version :: "RecordHeader \<Rightarrow> bool \<Rightarrow> RecordHeader" where
  "rh_set_in_new_version self v =
     self\<lparr>prev_address := with_bit (prev_address self) IN_NEW_VERSION_BIT v\<rparr>"

definition rh_is_read_cache :: "RecordHeader \<Rightarrow> bool" where
  "rh_is_read_cache self \<longleftrightarrow> prev_address self AND HEADER_READ_CACHE_BIT \<noteq> 0"

definition filler_words :: "RecordHeader \<Rightarrow> u8" where
  "filler_words self = ucast (drop_bit FILLER_WORDS_SHIFT (rdh_word self AND FILLER_WORDS_MASK))"

definition filler_bytes :: "RecordHeader \<Rightarrow> nat" where
  "filler_bytes self = unat (filler_words self) * 8"

definition set_filler_words :: "RecordHeader \<Rightarrow> u8 \<Rightarrow> RecordHeader" where
  "set_filler_words self words =
     self\<lparr>rdh_word := (rdh_word self AND NOT FILLER_WORDS_MASK)
       OR push_bit FILLER_WORDS_SHIFT (ucast words AND FILLER_WORDS_VALUE_MASK)\<rparr>"

definition set_filler_bytes :: "RecordHeader \<Rightarrow> nat \<Rightarrow> RecordHeader" where
  "set_filler_bytes self total_bytes =
     (let words = total_bytes div 8
      in set_filler_words self
           (if unat FILLER_WORDS_VALUE_MASK < words then ucast FILLER_WORDS_VALUE_MASK
            else of_nat words))"

definition set_val_len :: "RecordHeader \<Rightarrow> u32 \<Rightarrow> RecordHeader" where
  "set_val_len self val_len =
     self\<lparr>rdh_word := (rdh_word self AND NOT VAL_LEN_MASK)
       OR push_bit VAL_LEN_SHIFT (ucast val_len AND VAL_LEN_VALUE_MASK)\<rparr>"

definition key_len :: "RecordHeader \<Rightarrow> u32" where
  "key_len self = ucast (drop_bit KEY_LEN_SHIFT (rdh_word self AND KEY_LEN_MASK))"

definition val_len :: "RecordHeader \<Rightarrow> u32" where
  "val_len self = ucast (drop_bit VAL_LEN_SHIFT (rdh_word self AND VAL_LEN_MASK))"

definition kv_size :: "RecordHeader \<Rightarrow> nat" where
  "kv_size self =
     saturating_add (saturating_add HEADER_SIZE (unat (key_len self))) (unat (val_len self))"

definition rh_record_size :: "RecordHeader \<Rightarrow> nat" where
  "rh_record_size self = align_record_size (kv_size self)"

definition physical_size :: "RecordHeader \<Rightarrow> nat" where
  "physical_size self = saturating_add (rh_record_size self) (filler_bytes self)"

definition val_capacity :: "RecordHeader \<Rightarrow> nat" where
  "val_capacity self = physical_size self - (HEADER_SIZE + unat (key_len self))"

definition rh_checked_record_size :: "RecordHeader \<Rightarrow> nat option" where
  "rh_checked_record_size self = checked_record_size (unat (key_len self)) (unat (val_len self))"

definition checked_physical_size :: "RecordHeader \<Rightarrow> nat option" where
  "checked_physical_size self = checked_add (rh_record_size self) (filler_bytes self)"

definition rh_set_address :: "RecordHeader \<Rightarrow> u64 \<Rightarrow> (record_error, RecordHeader) res" where
  "rh_set_address self prev_addr =
     (if prev_addr AND NOT ADDRESS_MASK \<noteq> 0 then Inl (AddressOverflow prev_addr)
      else Inr (self\<lparr>prev_address :=
        (prev_addr AND ADDRESS_MASK) OR (prev_address self AND NOT ADDRESS_MASK)\<rparr>))"

definition slack_for_val_len :: "RecordHeader \<Rightarrow> nat \<Rightarrow> nat option" where
  "slack_for_val_len self new_val_len =
     (let physical = physical_size self;
          new_aligned = align_record_size
            (saturating_add (saturating_add HEADER_SIZE (unat (key_len self))) new_val_len)
      in if new_aligned \<le> physical \<and> physical - new_aligned \<le> MAX_FILLER_BYTES
         then Some (physical - new_aligned) else None)"

definition can_update_with_slack :: "RecordHeader \<Rightarrow> nat \<Rightarrow> bool" where
  "can_update_with_slack self new_val_len \<longleftrightarrow>
     \<not> rh_is_tombstone self \<and> slack_for_val_len self new_val_len \<noteq> None"

definition rh_to_bytes :: "RecordHeader \<Rightarrow> bytes" where
  "rh_to_bytes self = to_le_bytes 8 (prev_address self) @ to_le_bytes 8 (rdh_word self)"

definition rh_from_bytes :: "bytes \<Rightarrow> RecordHeader" where
  "rh_from_bytes bs = rh_from_words (from_le_bytes (take 8 bs)) (from_le_bytes (take 8 (drop 8 bs)))"

definition rh_from_slice :: "bytes \<Rightarrow> (record_error, RecordHeader) res" where
  "rh_from_slice src =
     (if HEADER_SIZE \<le> length src then Inr (rh_from_bytes (take HEADER_SIZE src))
      else Inl (RBufferTooShort HEADER_SIZE (length src)))"

definition rh_decode_opt :: "bytes \<Rightarrow> RecordHeader option" where
  "rh_decode_opt src =
     (if HEADER_SIZE \<le> length src then Some (rh_from_bytes (take HEADER_SIZE src)) else None)"

definition rh_is_null :: "RecordHeader \<Rightarrow> bool" where
  "rh_is_null self \<longleftrightarrow> prev_address self = 0 \<and> rdh_word self AND NOT FILLER_WORDS_MASK = 0"

definition rh_pad :: "nat \<Rightarrow> RecordHeader" where
  "rh_pad remaining_bytes =
     (let vl = (if HEADER_SIZE \<le> remaining_bytes then of_nat (remaining_bytes - HEADER_SIZE) else 0)
      in rh_from_words 0 (pack_rdh_word 0 PAD_KEY_LEN vl))"

definition rh_is_pad :: "RecordHeader \<Rightarrow> bool" where
  "rh_is_pad self \<longleftrightarrow> key_len self = PAD_KEY_LEN"

definition rh_is_unreadable :: "RecordHeader \<Rightarrow> bool" where
  "rh_is_unreadable self \<longleftrightarrow> rh_is_pad self \<or> rh_is_null self"

definition pad_extent :: "RecordHeader \<Rightarrow> nat" where
  "pad_extent self = HEADER_SIZE + unat (val_len self)"

definition is_zero_slice :: "bytes \<Rightarrow> bool" where
  "is_zero_slice src =
     (if HEADER_SIZE \<le> length src then
        (from_le_bytes (take 8 src) OR from_le_bytes (take 8 (drop 8 src)) :: u64) = 0
      else list_all (\<lambda>b. b = 0) src)"

definition read_address :: "bytes \<Rightarrow> u64 option" where
  "read_address src =
     (if 8 \<le> length src then Some (from_le_bytes (take 8 src) AND ADDRESS_MASK) else None)"

section \<open>Masks and flags\<close>

lemma header_masks [field_defs]:
  "SEALED_BIT = bitw 60" "IN_NEW_VERSION_BIT = bitw 61" "HEADER_READ_CACHE_BIT = bitw 62"
  "TOMBSTONE_BIT = bitw 63"
  "FILLER_WORDS_VALUE_MASK = mask 8" "FILLER_WORDS_MASK = mask 8"
  "KEY_LEN_VALUE_MASK = mask 24" "KEY_LEN_MASK = fieldw 8 24"
  "VAL_LEN_VALUE_MASK = mask 32" "VAL_LEN_MASK = fieldw 32 32" "PAD_KEY_LEN = mask 24"
  by (simp_all add: SEALED_BIT_def IN_NEW_VERSION_BIT_def HEADER_READ_CACHE_BIT_def TOMBSTONE_BIT_def
      FILLER_WORDS_VALUE_MASK_def FILLER_WORDS_MASK_def KEY_LEN_VALUE_MASK_def KEY_LEN_MASK_def
      VAL_LEN_VALUE_MASK_def VAL_LEN_MASK_def PAD_KEY_LEN_def FILLER_WORDS_SHIFT_def
      FILLER_WORDS_BITS_def KEY_LEN_SHIFT_def KEY_LEN_BITS_def VAL_LEN_SHIFT_def VAL_LEN_BITS_def
      mask_eq_exp_minus_1 bitw_def fieldw_def)

lemma header_shifts [field_defs]:
  "FILLER_WORDS_SHIFT = 0" "KEY_LEN_SHIFT = 8" "VAL_LEN_SHIFT = 32"
  by (simp_all add: FILLER_WORDS_SHIFT_def FILLER_WORDS_BITS_def KEY_LEN_SHIFT_def KEY_LEN_BITS_def
      VAL_LEN_SHIFT_def)

lemma MAX_FILLER_BYTES_eq: "MAX_FILLER_BYTES = 2040"
  by (simp add: MAX_FILLER_BYTES_def FILLER_WORDS_VALUE_MASK_def FILLER_WORDS_BITS_def)

lemma with_bit_bit: "k < 64 \<Longrightarrow> bit (with_bit w (bitw k) on) i = (if i = k then on else bit w i)"
  by (auto simp: with_bit_def bit_fields dest: bit_imp_le_length)

text \<open>The five readings of an info word, bit by bit.\<close>

lemma info_flags:
  "rh_is_tombstone h \<longleftrightarrow> bit (prev_address h) 63" "rh_is_sealed h \<longleftrightarrow> bit (prev_address h) 60"
  "rh_is_in_new_version h \<longleftrightarrow> bit (prev_address h) 61"
  "rh_is_read_cache h \<longleftrightarrow> bit (prev_address h) 62" "is_closed_word w \<longleftrightarrow> bit w 60"
  "rh_is_closed h \<longleftrightarrow> bit (prev_address h) 60"
  by (simp_all add: rh_is_tombstone_def rh_is_sealed_def rh_is_in_new_version_def rh_is_read_cache_def
      rh_is_closed_def is_closed_word_def field_defs and_bitw_zero)

lemma bit_rh_address: "bit (rh_address h) i \<longleftrightarrow> bit (prev_address h) i \<and> i < 48"
  by (auto simp: rh_address_def field_defs bit_fields dest: bit_imp_le_length)

section \<open>The packed length word\<close>

lemma bit_key_len: "bit (key_len h) i \<longleftrightarrow> i < 24 \<and> bit (rdh_word h) (i + 8)"
  by (auto simp: key_len_def field_defs bit_fields bit_ucast_iff add.commute)

lemma bit_val_len: "bit (val_len h) i \<longleftrightarrow> i < 32 \<and> bit (rdh_word h) (i + 32)"
  by (auto simp: val_len_def field_defs bit_fields bit_ucast_iff add.commute dest: bit_imp_le_length)

lemma bit_filler_words: "bit (filler_words h) i \<longleftrightarrow> i < 8 \<and> bit (rdh_word h) i"
  by (auto simp: filler_words_def field_defs bit_fields bit_ucast_iff)

lemmas bit_lengths = bit_key_len bit_val_len bit_filler_words

lemma bit_pack_rdh:
  "bit (pack_rdh_word f k v) i \<longleftrightarrow>
     (if i < 8 then bit f i else if i < 32 then bit k (i - 8) else i < 64 \<and> bit v (i - 32))"
  by (auto simp: pack_rdh_word_def field_defs bit_fields bit_ucast_iff dest: bit_imp_le_length)

lemma pack_fields:
  "rdh_word h = pack_rdh_word f k v \<Longrightarrow> filler_words h = f"
  "rdh_word h = pack_rdh_word f k v \<Longrightarrow> k < 2 ^ 24 \<Longrightarrow> key_len h = k"
  "rdh_word h = pack_rdh_word f k v \<Longrightarrow> val_len h = v"
proof -
  assume h: "rdh_word h = pack_rdh_word f k v"
  show "filler_words h = f" "val_len h = v"
    using h by (auto simp: word_bits_eq bit_lengths bit_pack_rdh)
  assume "k < 2 ^ 24"
  then have "k AND mask 24 = k" by (simp add: and_mask_idem word_less_nat_alt)
  then have "bit k i \<Longrightarrow> i < 24" for i by (metis bit_and_iff bit_mask_word)
  with h show "key_len h = k"
    by (auto simp: word_bits_eq bit_lengths bit_pack_rdh)
qed

lemma set_val_len_fields [simp]:
  "val_len (set_val_len h v) = v" "key_len (set_val_len h v) = key_len h"
  "filler_words (set_val_len h v) = filler_words h" "prev_address (set_val_len h v) = prev_address h"
  by (auto simp: word_bits_eq bit_lengths) (auto simp: set_val_len_def field_defs bit_fields bit_ucast_iff)

lemma set_filler_words_fields [simp]:
  "filler_words (set_filler_words h f) = f" "key_len (set_filler_words h f) = key_len h"
  "val_len (set_filler_words h f) = val_len h" "prev_address (set_filler_words h f) = prev_address h"
  by (auto simp: word_bits_eq bit_lengths)
    (auto simp: set_filler_words_def field_defs bit_fields bit_ucast_iff)

text \<open>A length word is determined by its three fields.\<close>

lemma rdh_word_eqI:
  assumes "filler_words h = filler_words g" "key_len h = key_len g" "val_len h = val_len g"
  shows "rdh_word h = rdh_word g"
proof -
  have "bit (rdh_word h) i = bit (rdh_word g) i" if "i < 64" for i
  proof -
    consider "i < 8" | "8 \<le> i" "i < 32" | "32 \<le> i" by linarith
    then show ?thesis
    proof cases
      case 1
      then show ?thesis using arg_cong [OF assms(1), of "\<lambda>w. bit w i"] by (simp add: bit_lengths)
    next
      case 2
      then have "i - 8 < 24" by simp
      then show ?thesis using 2 arg_cong [OF assms(2), of "\<lambda>w. bit w (i - 8)"]
        by (simp add: bit_lengths)
    next
      case 3
      then have "i - 32 < 32" using that by simp
      then show ?thesis using 3 arg_cong [OF assms(3), of "\<lambda>w. bit w (i - 32)"]
        by (simp add: bit_lengths)
    qed
  qed
  then show ?thesis by (simp add: word_bits_eq)
qed

lemma key_len_bound: "unat (key_len h) < 2 ^ 24"
proof -
  have "key_len h AND mask 24 = key_len h"
    by (auto simp: word_bits_eq bit_fields bit_lengths)
  then show ?thesis by (simp add: and_mask_idem)
qed

section \<open>Sizes\<close>

lemma unat_and_not_mask: "unat (w AND NOT (mask n) :: 'a::len word) = unat w div 2 ^ n * 2 ^ n"
proof -
  have eq: "w AND NOT (mask n) = push_bit n (drop_bit n w)"
    by (auto simp: word_bits_eq bit_fields)
  moreover have "unat w div 2 ^ n * 2 ^ n < 2 ^ LENGTH('a)"
    using unsigned_less [of w, where 'a = nat] div_times_less_eq_dividend [of "unat w" "2 ^ n"]
    by (meson order_le_less_trans)
  ultimately show ?thesis
    unfolding eq unsigned_push_bit_eq unat_drop_bit_eq
    by (simp add: take_bit_nat_eq_self push_bit_eq_mult drop_bit_eq_div)
qed

lemma align_record_size_eq:
  assumes "n + 7 < 2 ^ 64"
  shows "align_record_size n = (n + 7) div 8 * 8"
proof -
  have 7: "(of_nat RECORD_ALIGNMENT - 1 :: u64) = mask 3"
    by (simp add: RECORD_ALIGNMENT_def mask_eq_exp_minus_1)
  have "unat (of_nat n + mask 3 :: u64) = n + 7"
    using assms by (simp add: unat_word_ariths unat_of_nat mask_eq_exp_minus_1)
  then show ?thesis
    unfolding align_record_size_def 7 unat_and_not_mask by simp
qed

lemma align_bounds:
  "n \<le> (n + 7) div 8 * 8" "(n + 7) div 8 * 8 < n + 8" "8 dvd (n + 7) div 8 * (8 :: nat)"
  by auto

lemma kv_size_eq: "kv_size h = 16 + unat (key_len h) + unat (val_len h)"
  and kv_size_less: "kv_size h < 2 ^ 33"
proof -
  have "unat (val_len h) < 2 ^ 32" using unsigned_less [of "val_len h", where 'a = nat] by simp
  with key_len_bound [of h] show "kv_size h = 16 + unat (key_len h) + unat (val_len h)"
    by (simp add: kv_size_def saturating_add_def usize_max_def HEADER_SIZE_def)
  with key_len_bound [of h] \<open>unat (val_len h) < 2 ^ 32\<close> show "kv_size h < 2 ^ 33"
    by simp
qed

lemma rh_record_size_eq: "rh_record_size h = (kv_size h + 7) div 8 * 8"
  using kv_size_less [of h] by (simp add: rh_record_size_def align_record_size_eq)

lemma filler_bytes_le: "filler_bytes h \<le> 2040"
  using unat_u8_less [of "filler_words h"] unfolding filler_bytes_def by linarith

lemma physical_size_eq: "physical_size h = rh_record_size h + filler_bytes h"
  and physical_size_less: "physical_size h < 2 ^ 34"
proof -
  have *: "rh_record_size h + filler_bytes h < 2 ^ 34"
    using kv_size_less [of h] filler_bytes_le [of h] align_bounds(2) [of "kv_size h"]
    unfolding rh_record_size_eq by simp
  then show "physical_size h = rh_record_size h + filler_bytes h"
    by (simp add: physical_size_def saturating_add_def usize_max_def)
  with * show "physical_size h < 2 ^ 34" by simp
qed

lemma checked_sizes:
  "checked_physical_size h = Some (physical_size h)" "rh_checked_record_size h = Some (kv_size h)"
proof -
  show "checked_physical_size h = Some (physical_size h)"
    using physical_size_less [of h] unfolding physical_size_eq
    by (simp add: checked_physical_size_def checked_add_def usize_max_def)
  show "rh_checked_record_size h = Some (kv_size h)"
    using kv_size_less [of h] unfolding kv_size_eq
    by (simp add: rh_checked_record_size_def checked_record_size_def checked_add_def usize_max_def
        HEADER_SIZE_def)
qed

lemma sizes_aligned: "8 dvd rh_record_size h" "8 dvd physical_size h"
  by (simp_all add: rh_record_size_eq physical_size_eq filler_bytes_def)

lemma size_order: "16 + unat (key_len h) + unat (val_len h) \<le> rh_record_size h"
  "rh_record_size h \<le> physical_size h"
  using align_bounds(1) [of "kv_size h"] by (simp_all add: rh_record_size_eq physical_size_eq kv_size_eq)

text \<open>
  The slack computation for a length no byte string of a 64-bit machine exceeds: it succeeds
  exactly when some filler of whole words makes the new layout fill the old extent.
\<close>

lemma slack_Some:
  assumes "n < 2 ^ 63"
  shows "slack_for_val_len h n = Some s \<longleftrightarrow>
    (16 + unat (key_len h) + n + 7) div 8 * 8 + s = physical_size h \<and> s \<le> 2040"
proof -
  have "saturating_add (saturating_add HEADER_SIZE (unat (key_len h))) n = 16 + unat (key_len h) + n"
    using assms key_len_bound [of h] by (simp add: saturating_add_def usize_max_def HEADER_SIZE_def)
  moreover have "align_record_size (16 + unat (key_len h) + n) = (16 + unat (key_len h) + n + 7) div 8 * 8"
    using assms key_len_bound [of h] by (intro align_record_size_eq) simp
  ultimately show ?thesis
    unfolding slack_for_val_len_def MAX_FILLER_BYTES_eq Let_def by auto
qed

lemma slack_words:
  assumes "slack_for_val_len h n = Some s" and "n < 2 ^ 63"
  shows "8 dvd s" "unat (of_nat (s div 8) :: u8) * 8 = s" "n \<le> val_capacity h"
proof -
  have s: "(16 + unat (key_len h) + n + 7) div 8 * 8 + s = physical_size h" "s \<le> 2040"
    using assms by (simp_all add: slack_Some)
  then show "8 dvd s" using sizes_aligned(2) [of h] by (metis dvd_add_right_iff dvd_triv_right)
  then show "unat (of_nat (s div 8) :: u8) * 8 = s"
    using s(2) by (simp add: unat_of_nat)
  show "n \<le> val_capacity h"
    using s align_bounds(1) [of "16 + unat (key_len h) + n"] by (simp add: val_capacity_def HEADER_SIZE_def)
qed

text \<open>The header after an in-place change of the value length.\<close>

definition relayout :: "RecordHeader \<Rightarrow> nat \<Rightarrow> nat \<Rightarrow> RecordHeader" where
  "relayout h n s = set_filler_words (set_val_len h (of_nat n)) (of_nat (s div 8))"

lemma relayout_fields [simp]:
  "key_len (relayout h n s) = key_len h" "prev_address (relayout h n s) = prev_address h"
  "val_len (relayout h n s) = of_nat n" "filler_words (relayout h n s) = of_nat (s div 8)"
  by (simp_all add: relayout_def)

lemma relayout_sizes:
  assumes "slack_for_val_len h n = Some s" and "n < 2 ^ 32"
  shows "physical_size (relayout h n s) = physical_size h" "unat (val_len (relayout h n s)) = n"
proof -
  have n: "n < 2 ^ 63" using assms(2) by simp
  have f: "filler_bytes (relayout h n s) = s"
    using slack_words(2) [OF assms(1) n] by (simp add: filler_bytes_def)
  show v: "unat (val_len (relayout h n s)) = n"
    using assms(2) by (simp add: unat_of_nat)
  have "(16 + unat (key_len h) + n + 7) div 8 * 8 + s = physical_size h"
    using assms(1) slack_Some [OF n, of h s] by blast
  then show "physical_size (relayout h n s) = physical_size h"
    unfolding physical_size_eq [of "relayout h n s"] rh_record_size_eq kv_size_eq v f relayout_fields(1) .
qed

section \<open>Serialisation\<close>

lemma length_rh_to_bytes [simp]: "length (rh_to_bytes h) = 16"
  by (simp add: rh_to_bytes_def)

lemma rh_from_to_bytes [simp]: "rh_from_bytes (rh_to_bytes h) = h"
  by (simp add: rh_from_bytes_def rh_to_bytes_def rh_from_words_def from_to_le_bytes)

lemma rh_to_from_bytes: "length bs = 16 \<Longrightarrow> rh_to_bytes (rh_from_bytes bs) = bs"
  by (simp add: rh_from_bytes_def rh_to_bytes_def rh_from_words_def to_from_le_bytes)

lemma rh_from_slice_append [simp]: "rh_from_slice (rh_to_bytes h @ rest) = Inr h"
  by (simp add: rh_from_slice_def HEADER_SIZE_def)

lemma rh_from_slice_short: "length s < 16 \<Longrightarrow> rh_from_slice s = Inl (RBufferTooShort 16 (length s))"
  by (simp add: rh_from_slice_def HEADER_SIZE_def)

lemma rh_from_slice_iff:
  "rh_from_slice s = Inr h \<longleftrightarrow> 16 \<le> length s \<and> take 16 s = rh_to_bytes h"
  by (auto simp: rh_from_slice_def HEADER_SIZE_def rh_to_from_bytes)

end
