(* ===== verification/RecordCodec.thy ===== *)
theory RecordCodec
  imports RecordHeader
begin

text \<open>
  Log records (\<open>wrecord/src/codec.rs\<close>, \<open>record_ref.rs\<close>, \<open>record_mut.rs\<close>): the encoder into a slot,
  the read-only view, and the mutable view that updates a record in place within the bytes it
  already occupies. A record is its bytes; the mutable view keeps a cached header beside them, as in
  the source, and the header words in memory are the little-endian words at offsets 0 and 8. A value
  source is the byte string it writes. The invariant \<open>rm_inv\<close> (the cached header is the one in
  memory and the view spans exactly the physical size) is kept by every operation.
\<close>

section \<open>Encoding\<close>

definition MAX_KEY_LEN :: nat where "MAX_KEY_LEN = unat PAD_KEY_LEN - 1"

definition U32_MAX :: nat where "U32_MAX = 2 ^ 32 - 1"

definition build_header ::
  "u64 \<Rightarrow> bytes \<Rightarrow> nat \<Rightarrow> bool \<Rightarrow> bool \<Rightarrow> (record_error, RecordHeader \<times> nat) res" where
  "build_header prev_addr key vlen is_tombstone in_new_version =
     (if MAX_KEY_LEN < length key then Inl (KeyLengthOverflow (length key))
      else if U32_MAX < vlen then Inl (ValueLengthOverflow vlen)
      else
        res_bind (rh_new prev_addr (of_nat (length key)) (of_nat vlen) is_tombstone) (\<lambda>header.
          Inr (rh_set_in_new_version header in_new_version, record_size (length key) vlen)))"

definition write_record_unchecked :: "bytes \<Rightarrow> RecordHeader \<Rightarrow> bytes \<Rightarrow> bytes \<Rightarrow> bytes" where
  "write_record_unchecked buf header key val =
     (let buf = copy_at buf HEADER_SIZE key;
          buf = copy_at buf (HEADER_SIZE + length key) val
      in copy_at buf 0 (rh_to_bytes header))"

definition publish_extent_header :: "bytes \<Rightarrow> nat \<Rightarrow> bytes" where
  "publish_extent_header buf rec_size = copy_at buf 8 (to_le_bytes 8 (rdh_word (rh_pad rec_size)))"

definition encode_to_slice ::
  "bytes \<Rightarrow> u64 \<Rightarrow> bytes \<Rightarrow> bytes \<Rightarrow> bool \<Rightarrow> bool \<Rightarrow> (record_error, bytes \<times> nat) res" where
  "encode_to_slice dst prev_addr key val is_tombstone in_new_version =
     res_bind (build_header prev_addr key (length val) is_tombstone in_new_version)
       (\<lambda>(header, total_size).
         if length dst < total_size then Inl (RBufferTooShort total_size (length dst))
         else Inr (write_record_unchecked (take total_size dst) header key val @ drop total_size dst,
                   total_size))"

section \<open>The read-only view\<close>

record RecordRef =
  rr_header :: RecordHeader
  rr_key :: bytes
  rr_value :: bytes

definition rr_from_slice :: "bytes \<Rightarrow> (record_error, RecordRef) res" where
  "rr_from_slice s =
     res_bind (rh_from_slice s) (\<lambda>header.
       let kl = unat (key_len header); vl = unat (val_len header); total_size = rh_record_size header
       in if length s < total_size then Inl (RBufferTooShort total_size (length s))
          else let key_end = HEADER_SIZE + kl
               in Inr \<lparr>rr_header = header, rr_key = take kl (drop HEADER_SIZE s),
                       rr_value = take vl (drop key_end s)\<rparr>)"

definition rr_matches_key :: "RecordRef \<Rightarrow> bytes \<Rightarrow> bool" where
  "rr_matches_key self target_key \<longleftrightarrow> rr_key self = target_key"

definition rr_prev_address :: "RecordRef \<Rightarrow> u64" where
  "rr_prev_address self = rh_address (rr_header self)"

definition rr_total_size :: "RecordRef \<Rightarrow> nat" where
  "rr_total_size self = rh_record_size (rr_header self)"

section \<open>The mutable view\<close>

record RecordMut =
  rm_header :: RecordHeader
  rm_slice :: bytes

definition parse_header_phys :: "bytes \<Rightarrow> (record_error, RecordHeader \<times> nat) res" where
  "parse_header_phys s =
     res_bind (rh_from_slice s) (\<lambda>header.
       case checked_physical_size header of
         None \<Rightarrow> Inl RecordSizeOverflow
       | Some phys_size \<Rightarrow>
           if length s < phys_size then Inl (RBufferTooShort phys_size (length s))
           else Inr (header, phys_size))"

definition from_slice_mut :: "bytes \<Rightarrow> (record_error, RecordMut) res" where
  "from_slice_mut s =
     res_bind (parse_header_phys s) (\<lambda>(header, phys_size).
       Inr \<lparr>rm_header = header, rm_slice = take phys_size s\<rparr>)"

definition key_end :: "RecordMut \<Rightarrow> nat" where
  "key_end self = HEADER_SIZE + unat (key_len (rm_header self))"

text \<open>The two words in memory.\<close>

definition mem_info_word :: "RecordMut \<Rightarrow> u64" where
  "mem_info_word self = from_le_bytes (take 8 (rm_slice self))"

definition store_info_word :: "RecordMut \<Rightarrow> u64 \<Rightarrow> RecordMut" where
  "store_info_word self w = self\<lparr>rm_slice := copy_at (rm_slice self) 0 (to_le_bytes 8 w)\<rparr>"

definition set_cached_info :: "RecordMut \<Rightarrow> u64 \<Rightarrow> RecordMut" where
  "set_cached_info self w = self\<lparr>rm_header := (rm_header self)\<lparr>prev_address := w\<rparr>\<rparr>"

definition info_fetch_or :: "RecordMut \<Rightarrow> u64 \<Rightarrow> RecordMut" where
  "info_fetch_or self msk =
     (let self = store_info_word self (mem_info_word self OR msk)
      in set_cached_info self (prev_address (rm_header self) OR msk))"

definition info_fetch_and :: "RecordMut \<Rightarrow> u64 \<Rightarrow> RecordMut" where
  "info_fetch_and self msk =
     (let self = store_info_word self (mem_info_word self AND msk)
      in set_cached_info self (prev_address (rm_header self) AND msk))"

definition info_set_bit :: "RecordMut \<Rightarrow> u64 \<Rightarrow> bool \<Rightarrow> RecordMut" where
  "info_set_bit self msk on =
     (if on then info_fetch_or self msk else info_fetch_and self (NOT msk))"

definition publish_rdh :: "RecordMut \<Rightarrow> RecordMut" where
  "publish_rdh self =
     self\<lparr>rm_slice := copy_at (rm_slice self) 8 (to_le_bytes 8 (rdh_word (rm_header self)))\<rparr>"

definition rm_key :: "RecordMut \<Rightarrow> bytes" where
  "rm_key self = take (key_end self - HEADER_SIZE) (drop HEADER_SIZE (rm_slice self))"

definition rm_matches_key :: "RecordMut \<Rightarrow> bytes \<Rightarrow> bool" where
  "rm_matches_key self target_key \<longleftrightarrow> rm_key self = target_key"

definition rm_value :: "RecordMut \<Rightarrow> bytes" where
  "rm_value self = take (unat (val_len (rm_header self))) (drop (key_end self) (rm_slice self))"

text \<open>Writes through the mutable slices: the value, and the whole capacity behind the key.\<close>

definition value_mut_write :: "RecordMut \<Rightarrow> bytes \<Rightarrow> RecordMut option" where
  "value_mut_write self bs =
     (if length bs = unat (val_len (rm_header self))
      then Some (self\<lparr>rm_slice := copy_at (rm_slice self) (key_end self) bs\<rparr>) else None)"

definition value_capacity_mut_write :: "RecordMut \<Rightarrow> bytes \<Rightarrow> RecordMut option" where
  "value_capacity_mut_write self bs =
     (if length bs = length (rm_slice self) - key_end self
      then Some (self\<lparr>rm_slice := copy_at (rm_slice self) (key_end self) bs\<rparr>) else None)"

text \<open>
  The compare-and-swap loop that clears the two bits retries until it meets the word it read; with
  no other writer it stores once.
\<close>

definition publish_val_layout :: "RecordMut \<Rightarrow> nat \<Rightarrow> nat \<Rightarrow> bool \<Rightarrow> RecordMut" where
  "publish_val_layout self new_val_len remaining_slack clear_tombstone =
     (let self = self\<lparr>rm_header := set_val_len (rm_header self) (of_nat new_val_len)\<rparr>;
          self = self\<lparr>rm_header := set_filler_words (rm_header self) (of_nat (remaining_slack div 8))\<rparr>;
          self = publish_rdh self
      in if clear_tombstone then
           (let self = store_info_word self (mem_info_word self AND NOT (TOMBSTONE_BIT OR SEALED_BIT))
            in set_cached_info self
                 (prev_address (rm_header self) AND NOT (TOMBSTONE_BIT OR SEALED_BIT)))
         else self)"

definition write_val_with_slack ::
  "RecordMut \<Rightarrow> bytes \<Rightarrow> bool \<Rightarrow> (record_error, RecordMut) res" where
  "write_val_with_slack self new_val clear_tombstone =
     (let is_tombstone = rh_is_tombstone (rm_header self)
      in if is_tombstone \<and> \<not> clear_tombstone then Inl TombstoneUpdate
         else
           let new_val_len = length new_val; phys = physical_size (rm_header self)
           in case slack_for_val_len (rm_header self) new_val_len of
                None \<Rightarrow> Inl (ValueLengthMismatch phys new_val_len)
              | Some remaining_slack \<Rightarrow>
                  let self = self\<lparr>rm_slice := copy_at (rm_slice self) (key_end self) new_val\<rparr>
                  in Inr (publish_val_layout self new_val_len remaining_slack clear_tombstone))"

definition update_value_with_slack :: "RecordMut \<Rightarrow> bytes \<Rightarrow> (record_error, RecordMut) res" where
  "update_value_with_slack self new_val = write_val_with_slack self new_val False"

definition resize_val_with_slack :: "RecordMut \<Rightarrow> nat \<Rightarrow> (record_error, RecordMut) res" where
  "resize_val_with_slack self new_val_len =
     (if rh_is_tombstone (rm_header self) then Inl TombstoneUpdate
      else case slack_for_val_len (rm_header self) new_val_len of
             None \<Rightarrow> Inl (ValueLengthMismatch (physical_size (rm_header self)) new_val_len)
           | Some remaining_slack \<Rightarrow> Inr (publish_val_layout self new_val_len remaining_slack False))"

definition revivify_with_slack :: "RecordMut \<Rightarrow> bytes \<Rightarrow> (record_error, RecordMut) res" where
  "revivify_with_slack self new_val = write_val_with_slack self new_val True"

definition rm_set_tombstone :: "RecordMut \<Rightarrow> bool \<Rightarrow> RecordMut" where
  "rm_set_tombstone self is_tombstone = info_set_bit self TOMBSTONE_BIT is_tombstone"

definition rm_prev_address :: "RecordMut \<Rightarrow> u64" where
  "rm_prev_address self = rh_address (rm_header self)"

definition rm_try_seal :: "RecordMut \<Rightarrow> bool \<times> RecordMut" where
  "rm_try_seal self =
     (let word = mem_info_word self; (ok, word') = rh_try_seal word word;
          self = store_info_word self word'
      in (ok, if ok then self\<lparr>rm_header := rh_set_sealed (rm_header self) True\<rparr> else self))"

definition rm_total_size :: "RecordMut \<Rightarrow> nat" where
  "rm_total_size self = rh_record_size (rm_header self)"

definition rm_as_ref :: "RecordMut \<Rightarrow> RecordRef" where
  "rm_as_ref self = \<lparr>rr_header = rm_header self, rr_key = rm_key self, rr_value = rm_value self\<rparr>"

section \<open>What the encoder writes\<close>

lemma MAX_KEY_LEN_eq: "MAX_KEY_LEN = 16777214"
  by (simp add: MAX_KEY_LEN_def PAD_KEY_LEN_def)

lemma address_check: "p AND NOT ADDRESS_MASK \<noteq> 0 \<longleftrightarrow> 2 ^ 48 \<le> unat p"
proof -
  have "p AND NOT (mask 48) = 0 \<longleftrightarrow> p AND mask 48 = p"
    by (auto simp: word_bits_eq bit_fields)
  then show ?thesis by (simp add: field_defs and_mask_idem not_less)
qed

lemma small_address_bit: "unat p < 2 ^ 48 \<Longrightarrow> bit (p :: u64) i \<Longrightarrow> i < 48"
  by (metis and_mask_idem bit_and_iff bit_mask_word)

lemma build_header_iff:
  "build_header p key n t nv = Inr (h, sz) \<longleftrightarrow>
     length key \<le> MAX_KEY_LEN \<and> n \<le> U32_MAX \<and> unat p < 2 ^ 48
     \<and> h = rh_set_in_new_version (rh_from_words (with_bit p TOMBSTONE_BIT t)
             (pack_rdh_word 0 (of_nat (length key)) (of_nat n))) nv
     \<and> sz = record_size (length key) n"
  using address_check [of p] by (auto simp: build_header_def rh_new_def not_le)

lemma build_header_fields:
  assumes "build_header p key n t nv = Inr (h, sz)"
  shows "unat (key_len h) = length key" "unat (val_len h) = n" "filler_words h = 0"
    "rh_address h = p" "rh_is_tombstone h = t" "rh_is_in_new_version h = nv" "\<not> rh_is_sealed h"
    "\<not> rh_is_read_cache h" "sz = rh_record_size h" "sz = physical_size h" "16 + length key + n \<le> sz"
proof -
  note b = assms [unfolded build_header_iff MAX_KEY_LEN_eq U32_MAX_def]
  have w: "rdh_word h = pack_rdh_word 0 (of_nat (length key)) (of_nat n)"
    using b by (simp add: rh_set_in_new_version_def rh_from_words_def)
  have "(of_nat (length key) :: u32) < 2 ^ 24" using b by (simp add: word_less_nat_alt unat_of_nat)
  note f = pack_fields(1) [OF w] pack_fields(2) [OF w this] pack_fields(3) [OF w]
  show k: "unat (key_len h) = length key" and v: "unat (val_len h) = n" and "filler_words h = 0"
    using b f by (simp_all add: unat_of_nat)
  have p: "bit p i \<Longrightarrow> i < 48" for i using small_address_bit b by blast
  have pa: "bit (prev_address h) i =
      (if i = 61 then nv else if i = 63 then t else bit p i)" for i
    using b by (simp add: rh_set_in_new_version_def rh_from_words_def field_defs with_bit_bit)
  show "rh_is_tombstone h = t" "rh_is_in_new_version h = nv" "\<not> rh_is_sealed h" "\<not> rh_is_read_cache h"
    using p [of 60] p [of 62] by (auto simp: info_flags pa)
  show "rh_address h = p" using p p [of 61] p [of 63] by (auto simp: word_bits_eq bit_rh_address pa)
  have "sz = align_record_size (kv_size h)"
    using b k v by (simp add: record_size_def kv_size_def)
  then show "sz = rh_record_size h" by (simp add: rh_record_size_def)
  then show "sz = physical_size h" "16 + length key + n \<le> sz"
    using size_order(1) [of h] k v by (simp_all add: physical_size_eq filler_bytes_def f)
qed

lemma write_record_windows:
  assumes "16 + length key + length val \<le> length buf"
    and out_def: "out = write_record_unchecked buf h key val"
  shows "length out = length buf" "take 16 out = rh_to_bytes h"
    "take (length key) (drop 16 out) = key"
    "take (length val) (drop (16 + length key) out) = val"
    "drop (16 + length key + length val) out = drop (16 + length key + length val) buf"
proof -
  let ?b1 = "copy_at buf 16 key" let ?b2 = "copy_at ?b1 (16 + length key) val"
  have out: "out = copy_at ?b2 0 (rh_to_bytes h)"
    by (simp add: out_def write_record_unchecked_def HEADER_SIZE_def)
  have l: "length ?b1 = length buf" "length ?b2 = length buf" using assms(1) by simp_all
  show "length out = length buf" using l assms(1) by (simp add: out)
  show "take 16 out = rh_to_bytes h" by (simp add: out copy_at_0)
  have d: "take n (drop i out) = take n (drop i ?b2)" if "16 \<le> i" for n i
    unfolding out using that l assms(1) by (intro window_copy_at_other) auto
  show "take (length val) (drop (16 + length key) out) = val"
    using d l assms(1) by (simp add: window_copy_at_same)
  have "take (length key) (drop 16 ?b2) = take (length key) (drop 16 ?b1)"
    using l assms(1) by (intro window_copy_at_other) auto
  then show "take (length key) (drop 16 out) = key"
    using d l assms(1) by (simp add: window_copy_at_same)
  let ?e = "16 + length key + length val"
  have "take (length buf) (drop ?e out) = take (length buf) (drop ?e ?b2)" using d by simp
  also have "\<dots> = take (length buf) (drop ?e ?b1)"
    using l assms(1) by (intro window_copy_at_other) auto
  also have "\<dots> = take (length buf) (drop ?e buf)"
    using l assms(1) by (intro window_copy_at_other) auto
  finally show "drop ?e out = drop ?e buf" using \<open>length out = length buf\<close> by simp
qed

section \<open>The mutable view keeps its invariant\<close>

definition rm_inv :: "RecordMut \<Rightarrow> bool" where
  "rm_inv m \<longleftrightarrow> length (rm_slice m) = physical_size (rm_header m)
     \<and> take 16 (rm_slice m) = rh_to_bytes (rm_header m)"

text \<open>The bytes behind the header.\<close>

definition rm_body :: "RecordMut \<Rightarrow> bytes" where
  "rm_body m = drop 16 (rm_slice m)"

lemma from_slice_mut_inv:
  assumes "from_slice_mut s = Inr m"
  shows "rm_inv m" "rm_slice m = take (physical_size (rm_header m)) s" "rh_from_slice s = Inr (rm_header m)"
  using assms size_order [of "rm_header m"]
  by (auto simp: from_slice_mut_def parse_header_phys_def res_bind_Inr_iff checked_sizes rm_inv_def
      rh_from_slice_iff min_def split: if_splits)

lemma rm_inv_sizes:
  assumes "rm_inv m"
  shows "16 + unat (key_len (rm_header m)) + unat (val_len (rm_header m)) \<le> length (rm_slice m)"
  using assms size_order [of "rm_header m"] by (simp add: rm_inv_def)

lemma rm_inv_mem_info: "rm_inv m \<Longrightarrow> mem_info_word m = prev_address (rm_header m)"
proof -
  assume "rm_inv m"
  then have "take 8 (take 16 (rm_slice m)) = to_le_bytes 8 (prev_address (rm_header m))"
    by (simp add: rm_inv_def rh_to_bytes_def)
  then show ?thesis by (simp add: mem_info_word_def from_to_le_bytes)
qed

lemma rm_views:
  "rm_key m = take (unat (key_len (rm_header m))) (rm_body m)"
  "rm_value m = take (unat (val_len (rm_header m))) (drop (unat (key_len (rm_header m))) (rm_body m))"
  by (simp_all add: rm_key_def rm_value_def rm_body_def key_end_def HEADER_SIZE_def add.commute)

lemma prev_address_update_sizes [simp]:
  "key_len (h\<lparr>prev_address := w\<rparr>) = key_len h" "val_len (h\<lparr>prev_address := w\<rparr>) = val_len h"
  "filler_words (h\<lparr>prev_address := w\<rparr>) = filler_words h"
  "physical_size (h\<lparr>prev_address := w\<rparr>) = physical_size h"
  by (simp_all add: key_len_def val_len_def filler_words_def physical_size_def rh_record_size_def
      kv_size_def filler_bytes_def)

lemma rm_info_update:
  assumes "rm_inv m"
    and m'_def: "m' = set_cached_info (store_info_word m w) w"
  shows "rm_inv m'" "rm_body m' = rm_body m" "rm_header m' = (rm_header m)\<lparr>prev_address := w\<rparr>"
    "length (rm_slice m') = length (rm_slice m)"
proof -
  have l: "16 \<le> length (rm_slice m)" using rm_inv_sizes [OF assms(1)] by simp
  have s: "rm_slice m' = to_le_bytes 8 w @ drop 8 (rm_slice m)"
    by (simp add: m'_def set_cached_info_def store_info_word_def copy_at_0)
  show h: "rm_header m' = (rm_header m)\<lparr>prev_address := w\<rparr>"
    by (simp add: m'_def set_cached_info_def store_info_word_def)
  show "rm_body m' = rm_body m" by (simp add: rm_body_def s)
  show len: "length (rm_slice m') = length (rm_slice m)" using l by (simp add: s)
  have "take 8 (drop 8 (take 16 (rm_slice m))) = to_le_bytes 8 (rdh_word (rm_header m))"
    using assms(1) by (simp add: rm_inv_def rh_to_bytes_def)
  then have "take 8 (drop 8 (rm_slice m)) = to_le_bytes 8 (rdh_word (rm_header m))"
    by (simp add: drop_take)
  then show "rm_inv m'"
    using assms(1) len by (simp add: rm_inv_def h s rh_to_bytes_def)
qed

definition live_bits :: "u64 \<Rightarrow> u64" where
  "live_bits w = w AND NOT (TOMBSTONE_BIT OR SEALED_BIT)"

lemma publish_rdh_inv:
  assumes "rm_inv m" and "physical_size g = physical_size (rm_header m)"
    and "prev_address g = prev_address (rm_header m)" and m'_def: "m' = publish_rdh (m\<lparr>rm_header := g\<rparr>)"
  shows "rm_inv m'" "rm_body m' = rm_body m" "rm_header m' = g" "length (rm_slice m') = length (rm_slice m)"
proof -
  have l: "16 \<le> length (rm_slice m)" using rm_inv_sizes [OF assms(1)] by simp
  have s: "rm_slice m' = take 8 (rm_slice m) @ to_le_bytes 8 (rdh_word g) @ drop 16 (rm_slice m)"
    by (simp add: m'_def publish_rdh_def copy_at_def)
  show h: "rm_header m' = g" by (simp add: m'_def publish_rdh_def)
  show "rm_body m' = rm_body m" using l by (simp add: rm_body_def s)
  show len: "length (rm_slice m') = length (rm_slice m)" using l by (simp add: s)
  have "take 8 (take 16 (rm_slice m)) = to_le_bytes 8 (prev_address (rm_header m))"
    using assms(1) by (simp add: rm_inv_def rh_to_bytes_def)
  then show "rm_inv m'"
    using assms(1,2,3) len l by (simp add: rm_inv_def h s rh_to_bytes_def)
qed

lemma publish_val_layout_inv:
  assumes inv: "rm_inv m" and slack: "slack_for_val_len (rm_header m) n = Some s" and n: "n < 2 ^ 32"
    and m'_def: "m' = publish_val_layout m n s c"
  shows "rm_inv m'" "rm_body m' = rm_body m" "length (rm_slice m') = length (rm_slice m)"
    "rm_header m' = (relayout (rm_header m) n s)\<lparr>prev_address :=
       (if c then live_bits (prev_address (rm_header m)) else prev_address (rm_header m))\<rparr>"
proof -
  define m1 where "m1 = publish_rdh (m\<lparr>rm_header := relayout (rm_header m) n s\<rparr>)"
  note p1 = publish_rdh_inv [OF inv relayout_sizes(1) [OF slack n] relayout_fields(2) m1_def]
  define m2 where "m2 = set_cached_info (store_info_word m1 (live_bits (prev_address (rm_header m))))
      (live_bits (prev_address (rm_header m)))"
  note p2 = rm_info_update [OF p1(1) m2_def]
  have mem: "mem_info_word m1 = prev_address (rm_header m)"
    using rm_inv_mem_info [OF p1(1)] p1(3) by simp
  have "m' = (if c then m2 else m1)"
    by (simp add: m'_def publish_val_layout_def m2_def m1_def [symmetric] relayout_def [symmetric] Let_def
        mem p1(3) store_info_word_def live_bits_def)
  then show "rm_inv m'" "rm_body m' = rm_body m" "length (rm_slice m') = length (rm_slice m)"
    "rm_header m' = (relayout (rm_header m) n s)\<lparr>prev_address :=
       (if c then live_bits (prev_address (rm_header m)) else prev_address (rm_header m))\<rparr>"
    using p1 p2 by (auto simp: relayout_fields(2) [of "rm_header m" n s, symmetric] simp del: relayout_fields(2))
qed

lemma write_body_inv:
  assumes inv: "rm_inv m" and "length v \<le> val_capacity (rm_header m)"
    and m'_def: "m' = m\<lparr>rm_slice := copy_at (rm_slice m) (key_end m) v\<rparr>"
  shows "rm_inv m'" "rm_body m' = copy_at (rm_body m) (unat (key_len (rm_header m))) v"
    "rm_header m' = rm_header m" "length (rm_slice m') = length (rm_slice m)"
    "unat (key_len (rm_header m)) + length v \<le> length (rm_body m)"
proof -
  let ?k = "unat (key_len (rm_header m))"
  have e: "key_end m = 16 + ?k" by (simp add: key_end_def HEADER_SIZE_def)
  have le: "16 + ?k + length v \<le> length (rm_slice m)"
    using assms(2) inv rm_inv_sizes [OF inv] by (simp add: rm_inv_def val_capacity_def HEADER_SIZE_def)
  then show "length (rm_slice m') = length (rm_slice m)" by (simp add: m'_def e)
  have "take 16 (rm_slice m') = take 16 (rm_slice m)"
    using le window_copy_at_other [of "16 + ?k" v "rm_slice m" 0 16] by (simp add: m'_def e)
  then show "rm_inv m'"
    using inv \<open>length (rm_slice m') = length (rm_slice m)\<close> by (simp add: rm_inv_def m'_def)
  show "rm_header m' = rm_header m" by (simp add: m'_def)
  show "rm_body m' = copy_at (rm_body m) ?k v"
    using le by (simp add: rm_body_def m'_def e copy_at_def drop_take add.commute add.left_commute)
  show "?k + length v \<le> length (rm_body m)" using le by (simp add: rm_body_def)
qed

lemma write_val_with_slack_inv:
  assumes inv: "rm_inv m" and ok: "write_val_with_slack m v c = Inr m'" and len: "length v < 2 ^ 32"
  shows "rm_inv m'" "rm_key m' = rm_key m" "rm_value m' = v"
    "length (rm_slice m') = length (rm_slice m)" "physical_size (rm_header m') = physical_size (rm_header m)"
    "prev_address (rm_header m') =
       (if c then live_bits (prev_address (rm_header m)) else prev_address (rm_header m))"
    "c \<or> \<not> rh_is_tombstone (rm_header m)"
proof -
  let ?h = "rm_header m" let ?k = "unat (key_len ?h)"
  obtain s where s: "slack_for_val_len ?h (length v) = Some s" and c: "c \<or> \<not> rh_is_tombstone ?h"
    and m': "m' = publish_val_layout (m\<lparr>rm_slice := copy_at (rm_slice m) (key_end m) v\<rparr>) (length v) s c"
    using ok by (auto simp: write_val_with_slack_def Let_def split: if_splits option.splits)
  have cap: "length v \<le> val_capacity ?h" using slack_words(3) [OF s] len by simp
  define m0 where "m0 = m\<lparr>rm_slice := copy_at (rm_slice m) (key_end m) v\<rparr>"
  note w = write_body_inv [OF inv cap m0_def]
  have s0: "slack_for_val_len (rm_header m0) (length v) = Some s" using s w(3) by simp
  note p = publish_val_layout_inv [OF w(1) s0 len m' [folded m0_def]]
  show "rm_inv m'" "c \<or> \<not> rh_is_tombstone ?h" by (fact p(1) c)+
  show "length (rm_slice m') = length (rm_slice m)" using p(3) w(4) by simp
  show "physical_size (rm_header m') = physical_size ?h"
    using relayout_sizes(1) [OF s len] by (simp add: p(4) w(3))
  show "prev_address (rm_header m') = (if c then live_bits (prev_address ?h) else prev_address ?h)"
    by (simp add: p(4) w(3))
  have kl: "unat (key_len (rm_header m')) = ?k" and vl: "unat (val_len (rm_header m')) = length v"
    using relayout_sizes(2) [OF s len] by (simp_all add: p(4) w(3))
  show "rm_key m' = rm_key m"
    unfolding rm_views kl p(2) w(2) using w(5) by (simp add: copy_at_def)
  show "rm_value m' = v"
    unfolding rm_views kl vl p(2) w(2) using w(5) by (simp add: copy_at_def)
qed

lemma info_ops:
  assumes "rm_inv m"
  shows "info_set_bit m msk on = (let w = with_bit (prev_address (rm_header m)) msk on
           in set_cached_info (store_info_word m w) w)"
    "rm_try_seal m =
       (if rh_is_closed (rm_header m) then (False, m)
        else (True, let w = prev_address (rm_header m) OR SEALED_BIT
                    in set_cached_info (store_info_word m w) w))"
proof -
  note mem = rm_inv_mem_info [OF assms]
  show "info_set_bit m msk on = (let w = with_bit (prev_address (rm_header m)) msk on
           in set_cached_info (store_info_word m w) w)"
    by (simp add: info_set_bit_def info_fetch_or_def info_fetch_and_def with_bit_def mem
        store_info_word_def Let_def)
  have "take 8 (take 16 (rm_slice m)) = to_le_bytes 8 (prev_address (rm_header m))"
    using assms by (simp add: rm_inv_def rh_to_bytes_def)
  then have "to_le_bytes 8 (prev_address (rm_header m)) @ drop 8 (rm_slice m) = rm_slice m"
    using append_take_drop_id [of 8 "rm_slice m"] by simp
  then have "store_info_word m (prev_address (rm_header m)) = m"
    by (simp add: store_info_word_def copy_at_0)
  then show "rm_try_seal m =
       (if rh_is_closed (rm_header m) then (False, m)
        else (True, let w = prev_address (rm_header m) OR SEALED_BIT
                    in set_cached_info (store_info_word m w) w))"
    by (simp add: rm_try_seal_def mem rh_try_seal_def compare_exchange_def rh_is_closed_def Let_def
        rh_set_sealed_def with_bit_def set_cached_info_def store_info_word_def)
qed

text \<open>The in-place operations as steps of one record.\<close>

inductive rm_step :: "RecordMut \<Rightarrow> RecordMut \<Rightarrow> bool" where
  step_update: "update_value_with_slack m v = Inr m' \<Longrightarrow> length v < 2 ^ 32 \<Longrightarrow> rm_step m m'"
| step_revivify: "revivify_with_slack m v = Inr m' \<Longrightarrow> length v < 2 ^ 32 \<Longrightarrow> rm_step m m'"
| step_resize: "resize_val_with_slack m n = Inr m' \<Longrightarrow> n < 2 ^ 32 \<Longrightarrow> rm_step m m'"
| step_write: "value_mut_write m bs = Some m' \<Longrightarrow> rm_step m m'"
| step_tombstone: "rm_step m (rm_set_tombstone m t)"
| step_seal: "rm_step m (snd (rm_try_seal m))"

text \<open>What every step keeps: the invariant, the key, the chain address and the extent.\<close>

definition rm_same :: "RecordMut \<Rightarrow> RecordMut \<Rightarrow> bool" where
  "rm_same m m' \<longleftrightarrow> rm_inv m' \<and> rm_key m' = rm_key m \<and> rm_prev_address m' = rm_prev_address m
     \<and> rh_is_in_new_version (rm_header m') = rh_is_in_new_version (rm_header m)
     \<and> rh_is_read_cache (rm_header m') = rh_is_read_cache (rm_header m)
     \<and> length (rm_slice m') = length (rm_slice m)"

lemma rm_same_trans: "rm_same a b \<Longrightarrow> rm_same b c \<Longrightarrow> rm_same a c"
  by (simp add: rm_same_def)

lemma bit_with_flags:
  "bit (live_bits w) i \<longleftrightarrow> bit w i \<and> i \<noteq> 63 \<and> i \<noteq> 60"
  by (auto simp: live_bits_def field_defs bit_fields dest: bit_imp_le_length)

lemma rm_same_info:
  assumes "rm_inv m" and "\<And>i. i \<noteq> 60 \<Longrightarrow> i \<noteq> 63 \<Longrightarrow> bit w i = bit (prev_address (rm_header m)) i"
  shows "rm_same m (set_cached_info (store_info_word m w) w)"
  using rm_info_update [OF assms(1) refl, of w] assms(2)
  by (auto simp: rm_same_def rm_views rm_prev_address_def info_flags word_bits_eq bit_rh_address)

lemma rm_same_write:
  assumes "rm_inv m" and "write_val_with_slack m v c = Inr m'" and "length v < 2 ^ 32"
  shows "rm_same m m'"
  using write_val_with_slack_inv [OF assms]
  by (auto simp: rm_same_def rm_prev_address_def info_flags word_bits_eq bit_rh_address bit_with_flags)

lemma rm_same_resize:
  assumes "rm_inv m" and "resize_val_with_slack m n = Inr m'" and "n < 2 ^ 32"
  shows "rm_same m m'" "unat (val_len (rm_header m')) = n" "rm_body m' = rm_body m"
proof -
  obtain s where s: "slack_for_val_len (rm_header m) n = Some s"
    and m': "m' = publish_val_layout m n s False"
    using assms(2) by (auto simp: resize_val_with_slack_def split: if_splits option.splits)
  note p = publish_val_layout_inv [OF assms(1) s assms(3) m']
  then show "rm_same m m'" "unat (val_len (rm_header m')) = n" "rm_body m' = rm_body m"
    using relayout_sizes(2) [OF s assms(3)]
    by (simp_all add: rm_same_def rm_views rm_prev_address_def info_flags rh_address_def)
qed

lemma rm_same_value_mut:
  assumes inv: "rm_inv m" and "value_mut_write m bs = Some m'"
  shows "rm_same m m'" "rm_value m' = bs"
proof -
  have m': "m' = m\<lparr>rm_slice := copy_at (rm_slice m) (key_end m) bs\<rparr>"
    and l: "length bs = unat (val_len (rm_header m))"
    using assms(2) by (auto simp: value_mut_write_def split: if_splits)
  have "length bs \<le> val_capacity (rm_header m)"
    using l rm_inv_sizes [OF inv] inv by (simp add: rm_inv_def val_capacity_def HEADER_SIZE_def)
  note w = write_body_inv [OF inv this m']
  show "rm_same m m'" "rm_value m' = bs"
    using w l by (simp_all add: rm_same_def rm_views rm_prev_address_def copy_at_def)
qed

lemma rm_step_same: "rm_step m m' \<Longrightarrow> rm_inv m \<Longrightarrow> rm_same m m'"
proof (induction rule: rm_step.induct)
  case (step_tombstone m t)
  then show ?case
    unfolding rm_set_tombstone_def info_ops(1) [OF step_tombstone] Let_def
    by (intro rm_same_info) (simp_all add: field_defs with_bit_bit)
next
  case (step_seal m)
  then show ?case
    by (auto simp: info_ops(2) [OF step_seal] Let_def field_defs bit_fields rm_same_def
        intro!: rm_same_info [unfolded rm_same_def])
qed (simp_all add: update_value_with_slack_def revivify_with_slack_def rm_same_write rm_same_resize(1)
    rm_same_value_mut(1))

lemma rm_inv_reparse: "rm_inv m \<Longrightarrow> from_slice_mut (rm_slice m @ rest) = Inr m"
proof -
  assume "rm_inv m"
  then have "rh_from_slice (rm_slice m @ rest) = Inr (rm_header m)"
    using rm_inv_sizes [of m] by (simp add: rh_from_slice_iff rm_inv_def)
  with \<open>rm_inv m\<close> show ?thesis
    by (simp add: from_slice_mut_def parse_header_phys_def checked_sizes rm_inv_def)
qed

lemma rm_inv_ref: "rm_inv m \<Longrightarrow> rr_from_slice (rm_slice m @ rest) = Inr (rm_as_ref m)"
proof -
  assume inv: "rm_inv m"
  have "rh_from_slice (rm_slice m @ rest) = Inr (rm_header m)"
    using inv rm_inv_sizes [OF inv] by (simp add: rh_from_slice_iff rm_inv_def)
  moreover have "rh_record_size (rm_header m) \<le> length (rm_slice m)"
    using inv size_order(2) [of "rm_header m"] by (simp add: rm_inv_def)
  ultimately show ?thesis
    using rm_inv_sizes [OF inv]
    by (simp add: rr_from_slice_def Let_def rm_as_ref_def rm_key_def rm_value_def key_end_def
        HEADER_SIZE_def)
qed

lemma encode_to_slice_iff:
  "encode_to_slice dst p key val t nv = Inr (out, n) \<longleftrightarrow>
     (\<exists>h. build_header p key (length val) t nv = Inr (h, n) \<and> n \<le> length dst
        \<and> out = write_record_unchecked (take n dst) h key val @ drop n dst)"
  by (cases "build_header p key (length val) t nv") (auto simp: encode_to_slice_def split: if_splits)

lemma encode_windows:
  assumes "encode_to_slice dst p key val t nv = Inr (out, n)"
  obtains h where "build_header p key (length val) t nv = Inr (h, n)" "n \<le> length dst"
    "length out = length dst" "take 16 out = rh_to_bytes h"
    "take (length key) (drop 16 out) = key"
    "take (length val) (drop (16 + length key) out) = val"
    "drop (16 + length key + length val) out = drop (16 + length key + length val) dst"
proof -
  obtain h where h: "build_header p key (length val) t nv = Inr (h, n)" and n: "n \<le> length dst"
    and out: "out = write_record_unchecked (take n dst) h key val @ drop n dst"
    using assms unfolding encode_to_slice_iff by blast
  have le: "16 + length key + length val \<le> n" using build_header_fields(11) [OF h] .
  then have "16 + length key + length val \<le> length (take n dst)" using n by simp
  note w = write_record_windows [OF this refl, of h]
  have "drop (16 + length key + length val) (take n dst) @ drop n dst
      = drop (16 + length key + length val) dst"
    using le n drop_append [of "16 + length key + length val" "take n dst" "drop n dst"] by simp
  with w h n le show ?thesis by (intro that [of h]) (simp_all add: out)
qed

lemma null_key_len:
  assumes "rh_is_null h"
  shows "key_len h = 0"
proof -
  have "rdh_word h AND NOT (mask 8) = 0" using assms by (simp add: rh_is_null_def field_defs)
  then have z: "bit (rdh_word h AND NOT (mask 8)) i = False" for i by simp
  then have "\<not> bit (rdh_word h) (i + 8)" if "i < 24" for i
    using that z [of "i + 8"] by (simp add: bit_fields)
  then show ?thesis by (auto simp: word_bits_eq bit_key_len)
qed

lemma be_of_nat_numeral:
  "be_of_nat (numeral k) x = be_of_nat (pred_numeral k) (x div 256) @ [of_nat (x mod 256)]"
  unfolding numeral_eq_Suc [of k] be_of_nat.simps ..

lemmas record_eval =
  be_of_nat_numeral
  encode_to_slice_def build_header_def MAX_KEY_LEN_eq U32_MAX_def rh_new_def rh_from_words_def
  rh_set_in_new_version_def with_bit_def pack_rdh_word_def record_size_def align_record_size_def
  saturating_add_def usize_max_def HEADER_SIZE_def RECORD_ALIGNMENT_def write_record_unchecked_def
  copy_at_def rh_to_bytes_def to_le_bytes_def to_be_bytes_def ADDRESS_MASK_def ADDRESS_BITS_def
  TOMBSTONE_BIT_def IN_NEW_VERSION_BIT_def FILLER_WORDS_VALUE_MASK_def FILLER_WORDS_BITS_def
  FILLER_WORDS_SHIFT_def KEY_LEN_SHIFT_def KEY_LEN_BITS_def KEY_LEN_VALUE_MASK_def VAL_LEN_SHIFT_def
  VAL_LEN_BITS_def VAL_LEN_VALUE_MASK_def

section \<open>Properties\<close>

text \<open>
  C7: A record encoded into a slot is read back whole: key, value, chain address, tombstone and
  version flags, with the announced size; the size is the aligned one, no byte beyond the value is
  written, and the record is not mistaken for page padding or an empty slot.
\<close>

theorem record_roundtrip:
  assumes "encode_to_slice dst p key val t nv = Inr (out, n)"
  shows "\<exists>r. rr_from_slice out = Inr r \<and> rr_key r = key \<and> rr_value r = val \<and> rr_prev_address r = p
    \<and> rh_is_tombstone (rr_header r) = t \<and> rh_is_in_new_version (rr_header r) = nv
    \<and> \<not> rh_is_pad (rr_header r) \<and> (key \<noteq> [] \<longrightarrow> \<not> rh_is_unreadable (rr_header r))
    \<and> rr_total_size r = n \<and> 8 dvd n \<and> length out = length dst
    \<and> drop (16 + length key + length val) out = drop (16 + length key + length val) dst"
proof -
  obtain h where h: "build_header p key (length val) t nv = Inr (h, n)" and n: "n \<le> length dst"
    and w: "length out = length dst" "take 16 out = rh_to_bytes h"
      "take (length key) (drop 16 out) = key" "take (length val) (drop (16 + length key) out) = val"
      "drop (16 + length key + length val) out = drop (16 + length key + length val) dst"
    using encode_windows [OF assms] .
  note f = build_header_fields [OF h]
  have "length key \<le> 16777214" using h by (simp add: build_header_iff MAX_KEY_LEN_eq)
  then have pad: "\<not> rh_is_pad h"
    using f(1) by (auto simp: rh_is_pad_def PAD_KEY_LEN_def)
  have "rh_is_null h \<Longrightarrow> key = []" using f(1) null_key_len [of h] by auto
  moreover have "rh_from_slice out = Inr h" using w n f(11) by (simp add: rh_from_slice_iff)
  then have "rr_from_slice out = Inr \<lparr>rr_header = h, rr_key = key, rr_value = val\<rparr>"
    using w n f by (simp add: rr_from_slice_def Let_def HEADER_SIZE_def)
  ultimately show ?thesis
    using f w pad sizes_aligned(1) [of h]
    by (auto simp: rr_prev_address_def rr_total_size_def rh_is_unreadable_def)
qed

theorem record_roundtrip_witness:
  "\<exists>r. rr_from_slice [64, 0, 0, 0, 0, 0, 0, 128, 0, 1, 0, 0, 2, 0, 0, 0, 7, 8, 9, 1, 1, 1, 1, 1] = Inr r
    \<and> rr_key r = [7] \<and> rr_value r = [8, 9] \<and> rr_prev_address r = 64
    \<and> rh_is_tombstone (rr_header r) \<and> \<not> rh_is_unreadable (rr_header r) \<and> rr_total_size r = 24"
proof -
  have "encode_to_slice (replicate 24 1) 64 [7] [8, 9] True False =
      Inr ([64, 0, 0, 0, 0, 0, 0, 128, 0, 1, 0, 0, 2, 0, 0, 0, 7, 8, 9, 1, 1, 1, 1, 1], 24)"
    by (simp add: record_eval) (simp add: numeral_eq_Suc)
  from record_roundtrip [OF this] show ?thesis by auto
qed

text \<open>
  The encoder succeeds exactly when the key fits the 24-bit field below the padding sentinel, the
  value fits 32 bits, the address fits 48 bits and the slot holds the record rounded up to eight
  bytes; the size it returns is that one.
\<close>

theorem record_encode_succeeds:
  "(\<exists>out. encode_to_slice dst p key val t nv = Inr (out, n)) \<longleftrightarrow>
     length key < 2 ^ 24 - 1 \<and> length val < 2 ^ 32 \<and> unat p < 2 ^ 48
     \<and> n = (16 + length key + length val + 7) div 8 * 8 \<and> n \<le> length dst"
proof -
  let ?h = "rh_set_in_new_version (rh_from_words (with_bit p TOMBSTONE_BIT t)
             (pack_rdh_word 0 (of_nat (length key)) (of_nat (length val)))) nv"
  have size: "record_size (length key) (length val) = (16 + length key + length val + 7) div 8 * 8"
    if "build_header p key (length val) t nv = Inr (?h, record_size (length key) (length val))"
    using build_header_fields(1,2,9) [OF that] by (simp add: rh_record_size_eq kv_size_eq)
  have "(\<exists>out. encode_to_slice dst p key val t nv = Inr (out, n)) \<longleftrightarrow>
      (\<exists>h. build_header p key (length val) t nv = Inr (h, n)) \<and> n \<le> length dst"
    unfolding encode_to_slice_iff by blast
  also have "\<dots> \<longleftrightarrow> length key \<le> MAX_KEY_LEN \<and> length val \<le> U32_MAX \<and> unat p < 2 ^ 48
      \<and> n = record_size (length key) (length val) \<and> n \<le> length dst"
    by (auto simp: build_header_iff)
  also have "\<dots> \<longleftrightarrow> length key < 2 ^ 24 - 1 \<and> length val < 2 ^ 32 \<and> unat p < 2 ^ 48
     \<and> n = (16 + length key + length val + 7) div 8 * 8 \<and> n \<le> length dst"
    using size by (auto simp: build_header_iff MAX_KEY_LEN_eq U32_MAX_def)
  finally show ?thesis .
qed

lemma update_value_iff:
  assumes "length v < 2 ^ 32"
  shows "(\<exists>m'. update_value_with_slack m v = Inr m') \<longleftrightarrow> \<not> rh_is_tombstone (rm_header m)
    \<and> (\<exists>w \<le> 255. (16 + unat (key_len (rm_header m)) + length v + 7) div 8 * 8 + 8 * w
          = physical_size (rm_header m))"
proof -
  let ?fit = "\<lambda>s. (16 + unat (key_len (rm_header m)) + length v + 7) div 8 * 8 + s = physical_size (rm_header m)"
  have "(\<exists>m'. update_value_with_slack m v = Inr m') \<longleftrightarrow>
      \<not> rh_is_tombstone (rm_header m) \<and> (\<exists>s. slack_for_val_len (rm_header m) (length v) = Some s)"
    by (auto simp: update_value_with_slack_def write_val_with_slack_def Let_def split: option.splits)
  also have "(\<exists>s. slack_for_val_len (rm_header m) (length v) = Some s) \<longleftrightarrow> (\<exists>s \<le> 2040. ?fit s)"
    using assms by (auto simp: slack_Some)
  also have "\<dots> \<longleftrightarrow> (\<exists>w \<le> 255. ?fit (8 * w))"
  proof
    assume "\<exists>s \<le> 2040. ?fit s"
    then obtain s where s: "s \<le> 2040" "?fit s" by blast
    then have "slack_for_val_len (rm_header m) (length v) = Some s" using assms by (simp add: slack_Some)
    moreover have "length v < 2 ^ 63" using assms by simp
    ultimately have "8 dvd s" by (rule slack_words(1))
    then obtain w where "s = 8 * w" by (rule dvdE)
    with s show "\<exists>w \<le> 255. ?fit (8 * w)" by (intro exI [of _ w]) simp
  next
    assume "\<exists>w \<le> 255. ?fit (8 * w)"
    then obtain w where "w \<le> 255" "?fit (8 * w)" by blast
    then show "\<exists>s \<le> 2040. ?fit s" by (intro exI [of _ "8 * w"]) simp
  qed
  finally show ?thesis .
qed

lemma rm_step_reach:
  assumes "rm_step\<^sup>*\<^sup>* m m'" and "rm_inv m"
  shows "rm_same m m'"
  using assms
proof (induction rule: rtranclp_induct)
  case base
  then show ?case by (simp add: rm_same_def)
next
  case (step y z)
  then have "rm_same m y" by blast
  moreover from this have "rm_same y z" using step rm_step_same by (simp add: rm_same_def)
  ultimately show ?case by (rule rm_same_trans)
qed

text \<open>A record of a one-byte key and a two-byte value, for the concrete instances below.\<close>

definition sample_record :: RecordMut where
  "sample_record = \<lparr>rm_header = rh_from_raw 64 1 2,
     rm_slice = rh_to_bytes (rh_from_raw 64 1 2) @ [7, 8, 9, 0, 0, 0, 0, 0]\<rparr>"

lemma sample_header:
  "unat (key_len (rh_from_raw 64 1 2)) = 1" "physical_size (rh_from_raw 64 1 2) = 24"
  "\<not> rh_is_tombstone (rh_from_raw 64 1 2)"
proof -
  let ?h = "rh_from_raw 64 1 2"
  have w: "rdh_word ?h = pack_rdh_word 0 1 2" by (simp add: rh_from_raw_def rh_from_words_def)
  have f: "key_len ?h = 1" "val_len ?h = 2" "filler_words ?h = 0"
    using pack_fields [OF w] by simp_all
  then show "unat (key_len ?h) = 1" "physical_size ?h = 24"
    by (simp_all add: physical_size_eq rh_record_size_eq kv_size_eq filler_bytes_def)
  show "\<not> rh_is_tombstone ?h"
    by (simp add: rh_is_tombstone_def rh_from_raw_def rh_from_words_def TOMBSTONE_BIT_def)
qed

lemma sample_inv: "rm_inv sample_record"
  by (simp add: rm_inv_def sample_record_def sample_header)

lemma sample_parse: "from_slice_mut (rm_slice sample_record) = Inr sample_record"
  using rm_inv_reparse [OF sample_inv, of "[]"] by simp

text \<open>
  C15: An in-place update either succeeds or changes nothing; it succeeds exactly on a record that is
  not a tombstone and whose physical extent is the new aligned size plus at most 255 filler words.
  Then the record at that place reads back with the old key, chain address and the new value, over
  the same extent, and what follows the extent is untouched.
\<close>

theorem in_place_update:
  assumes "from_slice_mut s = Inr m" and "length v < 2 ^ 32"
  shows "((\<exists>m'. update_value_with_slack m v = Inr m') \<longleftrightarrow> \<not> rh_is_tombstone (rm_header m)
      \<and> (\<exists>w \<le> 255. (16 + unat (key_len (rm_header m)) + length v + 7) div 8 * 8 + 8 * w
            = physical_size (rm_header m)))
    \<and> (\<forall>m'. update_value_with_slack m v = Inr m' \<longrightarrow>
         rm_value m' = v \<and> rm_key m' = rm_key m \<and> rm_prev_address m' = rm_prev_address m
         \<and> length (rm_slice m') = length (rm_slice m)
         \<and> rr_from_slice (rm_slice m' @ drop (length (rm_slice m)) s) = Inr (rm_as_ref m'))"
proof -
  have inv: "rm_inv m" using from_slice_mut_inv(1) [OF assms(1)] .
  have "rm_value m' = v \<and> rm_key m' = rm_key m \<and> rm_prev_address m' = rm_prev_address m
      \<and> length (rm_slice m') = length (rm_slice m)
      \<and> rr_from_slice (rm_slice m' @ drop (length (rm_slice m)) s) = Inr (rm_as_ref m')"
    if "update_value_with_slack m v = Inr m'" for m'
    using that write_val_with_slack_inv [OF inv _ assms(2), of False m'] rm_inv_ref [of m']
    by (auto simp: update_value_with_slack_def rm_prev_address_def rh_address_def)
  with update_value_iff [OF assms(2), of m] show ?thesis by blast
qed

theorem in_place_update_witness:
  "\<exists>m'. update_value_with_slack sample_record [1, 2, 3] = Inr m'
     \<and> rm_value m' = [1, 2, 3] \<and> rm_key m' = rm_key sample_record
     \<and> length (rm_slice m') = length (rm_slice sample_record)
     \<and> rr_from_slice (rm_slice m') = Inr (rm_as_ref m')"
proof -
  have "\<exists>w \<le> 255. (16 + unat (key_len (rm_header sample_record)) + length [1, 2, 3 :: u8] + 7) div 8 * 8 + 8 * w
      = physical_size (rm_header sample_record)"
    by (rule exI [of _ 0]) (simp add: sample_record_def sample_header)
  moreover have "\<not> rh_is_tombstone (rm_header sample_record)"
    by (simp add: sample_record_def sample_header)
  ultimately show ?thesis
    using in_place_update [OF sample_parse, of "[1, 2, 3]"] by auto
qed

text \<open>
  C10: Whatever sequence of in-place operations runs on a record (updates, revivifications, resizes,
  writes through the value slice, tombstone changes, seals), the bytes in memory always parse back to
  the cached view, and key, chain address, version and read-cache flags and the extent are those of the
  record it started from.
\<close>

theorem in_place_history:
  assumes "from_slice_mut s = Inr m" and "rm_step\<^sup>*\<^sup>* m m'"
  shows "from_slice_mut (rm_slice m' @ drop (length (rm_slice m)) s) = Inr m'
    \<and> rm_key m' = rm_key m \<and> rm_prev_address m' = rm_prev_address m
    \<and> rh_is_in_new_version (rm_header m') = rh_is_in_new_version (rm_header m)
    \<and> rh_is_read_cache (rm_header m') = rh_is_read_cache (rm_header m)
    \<and> length (rm_slice m') = length (rm_slice m)"
proof -
  have "rm_same m m'" using rm_step_reach [OF assms(2) from_slice_mut_inv(1) [OF assms(1)]] .
  then show ?thesis using rm_inv_reparse [of m'] by (auto simp: rm_same_def)
qed

theorem in_place_history_witness:
  "from_slice_mut (rm_slice (rm_set_tombstone sample_record True)
      @ drop (length (rm_slice sample_record)) (rm_slice sample_record)) = Inr (rm_set_tombstone sample_record True)
    \<and> rm_key (rm_set_tombstone sample_record True) = rm_key sample_record
    \<and> rm_prev_address (rm_set_tombstone sample_record True) = rm_prev_address sample_record
    \<and> rh_is_in_new_version (rm_header (rm_set_tombstone sample_record True))
        = rh_is_in_new_version (rm_header sample_record)
    \<and> rh_is_read_cache (rm_header (rm_set_tombstone sample_record True))
        = rh_is_read_cache (rm_header sample_record)
    \<and> length (rm_slice (rm_set_tombstone sample_record True)) = length (rm_slice sample_record)"
  by (rule in_place_history [OF sample_parse]) (blast intro: rm_step.intros)

text \<open>
  The padding header written at the end of a page covers exactly the bytes it is given (from a
  bare header up to the 32-bit limit), is recognised as padding and is never read as a record; no
  header built for a key is.
\<close>

theorem pad_covers_gap:
  assumes "16 \<le> n" and "n < 2 ^ 32 + 16"
  shows "rh_is_pad (rh_pad n) \<and> rh_is_unreadable (rh_pad n) \<and> pad_extent (rh_pad n) = n
    \<and> (build_header p key k t nv = Inr (h, sz) \<longrightarrow> \<not> rh_is_pad h)"
proof -
  let ?h = "rh_pad n"
  have w: "rdh_word ?h = pack_rdh_word 0 PAD_KEY_LEN (of_nat (n - 16))"
    using assms by (simp add: rh_pad_def rh_from_words_def HEADER_SIZE_def)
  have "key_len ?h = PAD_KEY_LEN" by (rule pack_fields(2) [OF w]) (simp add: PAD_KEY_LEN_def)
  moreover have "unat (val_len ?h) = n - 16"
    unfolding pack_fields(3) [OF w] using assms by (subst unat_of_nat) simp
  moreover have "rh_is_pad h \<Longrightarrow> build_header p key k t nv \<noteq> Inr (h, sz)"
  proof
    assume "rh_is_pad h" and b: "build_header p key k t nv = Inr (h, sz)"
    then have "length key = 16777215"
      using build_header_fields(1) [OF b] by (simp add: rh_is_pad_def PAD_KEY_LEN_def)
    with b show False by (simp add: build_header_iff MAX_KEY_LEN_eq)
  qed
  ultimately show ?thesis
    using assms by (auto simp: rh_is_pad_def rh_is_unreadable_def pad_extent_def HEADER_SIZE_def)
qed

theorem pad_covers_gap_witness:
  "rh_is_pad (rh_pad 40) \<and> rh_is_unreadable (rh_pad 40) \<and> pad_extent (rh_pad 40) = 40"
  using pad_covers_gap [of 40] by simp

text \<open>
  The encoder rejects a value of four gibibytes or more, the slack computation does not: at the limit it
  grants an in-place length that the 32-bit field cannot hold, and the new header records zero.
\<close>

theorem slack_oversize:
  "slack_for_val_len (rh_from_words 0 (pack_rdh_word 1 0 0xFFFFFFFF)) (2 ^ 32) = Some 8
    \<and> unat (val_len (relayout (rh_from_words 0 (pack_rdh_word 1 0 0xFFFFFFFF)) (2 ^ 32) 8)) = 0"
proof -
  let ?h = "rh_from_words 0 (pack_rdh_word 1 0 0xFFFFFFFF)"
  have w: "rdh_word ?h = pack_rdh_word 1 0 0xFFFFFFFF" by (simp add: rh_from_words_def)
  have "key_len ?h = 0" by (rule pack_fields(2) [OF w]) simp
  moreover have "filler_words ?h = 1" "val_len ?h = 0xFFFFFFFF"
    using pack_fields(1,3) [OF w] by simp_all
  ultimately show ?thesis
    by (simp add: slack_Some physical_size_eq rh_record_size_eq kv_size_eq filler_bytes_def)
qed

end
