(* ===== verification/IndexEntry.thy ===== *)
theory IndexEntry
  imports Address
begin

text \<open>
  A slot of the hash index (\<open>windex/src/entry.rs\<close>): a word with a 48-bit address, a 15-bit tag taken
  from the top of the key's hash, and a tentative bit. The newtype of the source is transparent; an
  entry is its word.
\<close>

type_synonym HashBucketEntry = u64

definition TAG_BITS :: nat where "TAG_BITS = 63 - ADDRESS_BITS"
definition TAG_SHIFT :: nat where "TAG_SHIFT = 63 - TAG_BITS"
definition TAG_MASK :: u64 where "TAG_MASK = push_bit TAG_BITS 1 - 1"
definition TAG_POS_MASK :: u64 where "TAG_POS_MASK = push_bit TAG_SHIFT TAG_MASK"
definition TENTATIVE_SHIFT :: nat where "TENTATIVE_SHIFT = 63"
definition TENTATIVE_MASK :: u64 where "TENTATIVE_MASK = push_bit TENTATIVE_SHIFT 1"
definition HASH_TAG_SHIFT :: nat where "HASH_TAG_SHIFT = 64 - TAG_BITS"

definition entry_new :: "u64 \<Rightarrow> u16 \<Rightarrow> bool \<Rightarrow> HashBucketEntry" where
  "entry_new address tag tentative =
     (address AND ADDRESS_MASK) OR push_bit TAG_SHIFT (ucast tag AND TAG_MASK)
     OR (if tentative then TENTATIVE_MASK else 0)"

definition entry_address :: "HashBucketEntry \<Rightarrow> u64" where
  "entry_address e = e AND ADDRESS_MASK"

definition entry_tag :: "HashBucketEntry \<Rightarrow> u16" where
  "entry_tag e = ucast (drop_bit TAG_SHIFT (e AND TAG_POS_MASK))"

definition is_tentative :: "HashBucketEntry \<Rightarrow> bool" where
  "is_tentative e \<longleftrightarrow> e AND TENTATIVE_MASK \<noteq> 0"

definition entry_is_empty :: "HashBucketEntry \<Rightarrow> bool" where
  "entry_is_empty e \<longleftrightarrow> e = 0"

definition entry_is_valid :: "HashBucketEntry \<Rightarrow> bool" where
  "entry_is_valid e \<longleftrightarrow> e \<noteq> 0 \<and> \<not> is_tentative e"

definition entry_is_read_cache :: "HashBucketEntry \<Rightarrow> bool" where
  "entry_is_read_cache e \<longleftrightarrow> e AND READ_CACHE_BIT \<noteq> 0"

definition matches_tag :: "HashBucketEntry \<Rightarrow> u16 \<Rightarrow> bool" where
  "matches_tag e tag \<longleftrightarrow>
     drop_bit TAG_SHIFT e = ucast tag AND TAG_MASK \<and> e AND ADDRESS_MASK \<noteq> 0"

definition with_tentative :: "HashBucketEntry \<Rightarrow> bool \<Rightarrow> HashBucketEntry" where
  "with_tentative e tentative =
     (if tentative then e OR TENTATIVE_MASK else e AND NOT TENTATIVE_MASK)"

definition with_tag :: "HashBucketEntry \<Rightarrow> u16 \<Rightarrow> HashBucketEntry" where
  "with_tag e tag = (e AND NOT TAG_POS_MASK) OR push_bit TAG_SHIFT (ucast tag AND TAG_MASK)"

definition tag_from_hash :: "u64 \<Rightarrow> u16" where
  "tag_from_hash hash = ucast (drop_bit HASH_TAG_SHIFT hash AND TAG_MASK)"

section \<open>Lemmas\<close>

lemma entry_masks [field_defs]:
  "TAG_SHIFT = 48" "TAG_MASK = mask 15" "TAG_POS_MASK = fieldw 48 15" "TENTATIVE_MASK = bitw 63"
  "HASH_TAG_SHIFT = 49"
  by (simp_all add: TAG_SHIFT_def TAG_BITS_def TAG_MASK_def TAG_POS_MASK_def TENTATIVE_MASK_def
      TENTATIVE_SHIFT_def HASH_TAG_SHIFT_def ADDRESS_BITS_def mask_eq_exp_minus_1 bitw_def fieldw_def)

lemma bit_entry_address: "bit (entry_address e) i \<longleftrightarrow> i < 48 \<and> bit e i"
  by (auto simp: entry_address_def field_defs bit_fields dest: bit_imp_le_length)

lemma bit_entry_tag: "bit (entry_tag e) i \<longleftrightarrow> i < 15 \<and> bit e (i + 48)"
  by (auto simp: entry_tag_def field_defs bit_fields bit_ucast_iff add.commute dest: bit_imp_le_length)

lemma is_tentative_bit: "is_tentative e \<longleftrightarrow> bit e 63"
  by (simp add: is_tentative_def field_defs and_bitw_zero)

lemma bit_entry_new:
  "bit (entry_new a t tn) i \<longleftrightarrow>
     (if i < 48 then bit a i else if i < 63 then bit t (i - 48) else i = 63 \<and> tn)"
  by (auto simp: entry_new_def field_defs bit_fields bit_ucast_iff dest: bit_imp_le_length)

lemmas entry_bits = bit_entry_address bit_entry_tag is_tentative_bit bit_entry_new

lemma tag_bit_bound: "unat t < 2 ^ 15 \<Longrightarrow> bit (t :: u16) i \<Longrightarrow> i < 15"
  by (metis and_mask_idem bit_and_iff bit_mask_word)

lemma address_bit_bound: "unat a < 2 ^ 48 \<Longrightarrow> bit (a :: u64) i \<Longrightarrow> i < 48"
  by (metis and_mask_idem bit_and_iff bit_mask_word)

lemma entry_new_fields:
  "entry_address (entry_new a t tn) = clean_address a" "is_tentative (entry_new a t tn) = tn"
  by (auto simp: word_bits_eq entry_bits clean_address_def field_defs bit_fields)

lemma entry_new_tag: "unat t < 2 ^ 15 \<Longrightarrow> entry_tag (entry_new a t tn) = t"
  using tag_bit_bound [of t] by (auto simp: word_bits_eq entry_bits)

lemma entry_of_fields: "entry_new (entry_address e) (entry_tag e) (is_tentative e) = e"
proof -
  have "bit (entry_new (entry_address e) (entry_tag e) (is_tentative e)) i = bit e i" if "i < 64" for i
  proof -
    have "i < 48 \<or> 48 \<le> i \<and> i < 63 \<or> i = 63" using that by linarith
    then show ?thesis by (elim disjE conjE) (simp_all add: entry_bits less_diff_conv2)
  qed
  then show ?thesis by (simp add: word_bits_eq)
qed

lemma tag_from_hash_bound: "unat (tag_from_hash h) < 2 ^ 15"
proof -
  have "tag_from_hash h AND mask 15 = tag_from_hash h"
    by (auto simp: word_bits_eq tag_from_hash_def field_defs bit_fields bit_ucast_iff)
  then show ?thesis by (simp add: and_mask_idem)
qed

text \<open>
  The shifted comparison of the source reads the tag and the tentative bit at once: an entry matches
  exactly when it is not tentative, has that tag and a non-zero address.
\<close>

lemma drop_bit_tag: "unat t < 2 ^ 15 \<Longrightarrow>
    drop_bit TAG_SHIFT e = ucast t AND TAG_MASK \<longleftrightarrow> entry_tag e = t \<and> \<not> is_tentative e"
proof -
  assume t: "unat t < 2 ^ 15"
  have "drop_bit TAG_SHIFT e = ucast t AND TAG_MASK \<longleftrightarrow> (\<forall>i < 64. bit e (i + 48) = (i < 15 \<and> bit t i))"
    by (intro iffI allI impI; simp add: word_bits_eq field_defs bit_fields bit_ucast_iff add.commute; blast)
  also have "\<dots> \<longleftrightarrow> (\<forall>i < 15. bit e (i + 48) = bit t i) \<and> \<not> bit e 63"
  proof
    assume a: "\<forall>i < 64. bit e (i + 48) = (i < 15 \<and> bit t i)"
    from spec [OF a, of 15] have "\<not> bit e 63" by simp
    with a show "(\<forall>i < 15. bit e (i + 48) = bit t i) \<and> \<not> bit e 63" by simp
  next
    assume "(\<forall>i < 15. bit e (i + 48) = bit t i) \<and> \<not> bit e 63"
    then have "bit e (i + 48) = (i < 15 \<and> bit t i)" for i
      using bit_imp_le_length [of e "i + 48"] by (cases "i = 15") auto
    then show "\<forall>i < 64. bit e (i + 48) = (i < 15 \<and> bit t i)" by blast
  qed
  also have "\<dots> \<longleftrightarrow> entry_tag e = t \<and> \<not> is_tentative e"
  proof -
    have "bit (entry_tag e) i = bit t i" if "\<forall>i < 15. bit e (i + 48) = bit t i" for i
      using that tag_bit_bound [OF t, of i] by (auto simp: bit_entry_tag)
    then have "(\<forall>i < 15. bit e (i + 48) = bit t i) \<longleftrightarrow> entry_tag e = t"
      by (metis bit_entry_tag bit_word_eqI)
    then show ?thesis by (simp add: is_tentative_bit)
  qed
  finally show ?thesis .
qed

lemma matches_tag_iff:
  "unat t < 2 ^ 15 \<Longrightarrow>
     matches_tag e t \<longleftrightarrow> entry_tag e = t \<and> \<not> is_tentative e \<and> entry_address e \<noteq> 0"
  by (auto simp: matches_tag_def drop_bit_tag entry_address_def)

end
