(* ===== verification/BucketLatch.thy ===== *)
theory BucketLatch
  imports IndexEntry
begin

text \<open>
  The latch of a hash bucket (\<open>windex/src/bucket.rs\<close>): the last word of a bucket packs the overflow
  link (48 bits), a 13-bit count of shared holders, a handoff bit, a release-notify bit and the
  exclusive bit. Two models of the same code:

  the operations as functions on the word, run without interference (a weak compare-and-swap that
  meets the word it read succeeds), and

  every atomic access as a step of a thread with a program counter, interleaved arbitrarily, weak
  compare-and-swaps failing at will. A thread is one activity: a holder that runs a second operation
  is a second thread of the model.

  The lemmas relate the word to its abstract reading \<open>latch\<close>, and show for the interleaved model that
  the count is the number of shared holders, the exclusive bit belongs to exactly one thread, and an
  exclusive holder is alone.
\<close>

section \<open>The word\<close>

definition MAX_LOCK_SPINS :: nat where "MAX_LOCK_SPINS = 10"
definition MAX_READER_DRAIN_SPINS :: nat where "MAX_READER_DRAIN_SPINS = 100"
definition SHARED_LATCH_BITS :: nat where "SHARED_LATCH_BITS = 13"
definition SHARED_LATCH_SHIFT :: nat where "SHARED_LATCH_SHIFT = ADDRESS_BITS"
definition SHARED_LATCH_MASK :: u64 where
  "SHARED_LATCH_MASK = push_bit SHARED_LATCH_SHIFT (push_bit SHARED_LATCH_BITS 1 - 1)"
definition SHARED_LATCH_INC :: u64 where "SHARED_LATCH_INC = push_bit SHARED_LATCH_SHIFT 1"
definition HANDOFF_SHIFT :: nat where "HANDOFF_SHIFT = SHARED_LATCH_SHIFT + SHARED_LATCH_BITS"
definition HANDOFF_MASK :: u64 where "HANDOFF_MASK = push_bit HANDOFF_SHIFT 1"
definition RELEASE_NOTIFY_SHIFT :: nat where "RELEASE_NOTIFY_SHIFT = HANDOFF_SHIFT + 1"
definition RELEASE_NOTIFY_MASK :: u64 where "RELEASE_NOTIFY_MASK = push_bit RELEASE_NOTIFY_SHIFT 1"
definition EXCLUSIVE_LATCH_SHIFT :: nat where "EXCLUSIVE_LATCH_SHIFT = 63"
definition EXCLUSIVE_LATCH_MASK :: u64 where "EXCLUSIVE_LATCH_MASK = push_bit EXCLUSIVE_LATCH_SHIFT 1"
definition LATCH_MASK :: u64 where "LATCH_MASK = SHARED_LATCH_MASK OR EXCLUSIVE_LATCH_MASK"

section \<open>The operations without interference\<close>

definition shared_guard :: "u64 \<Rightarrow> bool" where
  "shared_guard w \<longleftrightarrow>
     w AND EXCLUSIVE_LATCH_MASK = 0 \<and> w AND SHARED_LATCH_MASK \<noteq> SHARED_LATCH_MASK"

fun lock_shared_spin :: "nat \<Rightarrow> u64 \<Rightarrow> bool \<times> u64" where
  "lock_shared_spin 0 w = (False, w)"
| "lock_shared_spin (Suc n) w =
     (if shared_guard w then (True, w + SHARED_LATCH_INC) else lock_shared_spin n w)"

definition try_lock_shared :: "u64 \<Rightarrow> bool \<times> u64" where
  "try_lock_shared w = lock_shared_spin MAX_LOCK_SPINS w"

definition unlock_shared :: "u64 \<Rightarrow> u64" where
  "unlock_shared w = w - SHARED_LATCH_INC"

definition handoff_pending :: "u64 \<Rightarrow> bool" where
  "handoff_pending w \<longleftrightarrow> w AND HANDOFF_MASK \<noteq> 0"

fun drain_spin :: "nat \<Rightarrow> u64 \<Rightarrow> bool" where
  "drain_spin 0 w = False"
| "drain_spin (Suc n) w = (if w AND SHARED_LATCH_MASK = 0 then True else drain_spin n w)"

definition drain_or_rollback :: "u64 \<Rightarrow> bool \<times> u64" where
  "drain_or_rollback w =
     (if drain_spin MAX_READER_DRAIN_SPINS w then (True, w)
      else (False, w AND NOT EXCLUSIVE_LATCH_MASK))"

fun exclusive_bit_spin :: "nat \<Rightarrow> u64 \<Rightarrow> bool \<times> u64" where
  "exclusive_bit_spin 0 w = (False, w)"
| "exclusive_bit_spin (Suc n) w =
     (if w AND EXCLUSIVE_LATCH_MASK = 0 then (True, w OR EXCLUSIVE_LATCH_MASK)
      else exclusive_bit_spin n w)"

definition try_lock_exclusive_now :: "u64 \<Rightarrow> bool \<times> u64" where
  "try_lock_exclusive_now w =
     (let (acquired_bit, w) = exclusive_bit_spin MAX_LOCK_SPINS w
      in if \<not> acquired_bit then (False, w) else drain_or_rollback w)"

definition try_lock_exclusive :: "u64 \<Rightarrow> bool \<times> u64" where
  "try_lock_exclusive w = (if handoff_pending w then (False, w) else try_lock_exclusive_now w)"

definition unlock_exclusive :: "u64 \<Rightarrow> u64" where
  "unlock_exclusive w = (w AND NOT EXCLUSIVE_LATCH_MASK) OR RELEASE_NOTIFY_MASK"

definition consume_release_notify :: "u64 \<Rightarrow> bool \<times> u64" where
  "consume_release_notify w =
     (if w AND RELEASE_NOTIFY_MASK = 0 then (False, w) else (True, w AND NOT RELEASE_NOTIFY_MASK))"

definition set_handoff :: "u64 \<Rightarrow> u64" where
  "set_handoff w = w OR HANDOFF_MASK"

definition clear_handoff :: "u64 \<Rightarrow> u64" where
  "clear_handoff w = w AND NOT HANDOFF_MASK"

definition is_latched_exclusive :: "u64 \<Rightarrow> bool" where
  "is_latched_exclusive w \<longleftrightarrow> w AND EXCLUSIVE_LATCH_MASK \<noteq> 0"

definition is_latched_shared :: "u64 \<Rightarrow> bool" where
  "is_latched_shared w \<longleftrightarrow> w AND SHARED_LATCH_MASK \<noteq> 0"

definition num_latched_shared :: "u64 \<Rightarrow> u16" where
  "num_latched_shared w = ucast (drop_bit SHARED_LATCH_SHIFT (w AND SHARED_LATCH_MASK))"

definition is_latched :: "u64 \<Rightarrow> bool" where
  "is_latched w \<longleftrightarrow> w AND LATCH_MASK \<noteq> 0"

definition overflow_index :: "u64 \<Rightarrow> u64" where
  "overflow_index w = w AND ADDRESS_MASK"

definition set_overflow_index :: "u64 \<Rightarrow> u64 \<Rightarrow> bool \<times> u64" where
  "set_overflow_index w overflow_idx =
     (if overflow_idx = 0 then (False, w)
      else let target_addr = overflow_idx AND ADDRESS_MASK
           in if w AND ADDRESS_MASK \<noteq> 0 then (False, w) else (True, w OR target_addr))"

section \<open>The operations step by step\<close>

text \<open>
  Where a thread is. The number is the spins left, the word the value the thread loaded and will
  compare against; \<open>SHeld\<close> and \<open>XHeld\<close> are the holders.
\<close>

datatype pc =
    Idle
  | STry nat | SCas nat u64 | SHeld
  | XCheck | XTry nat | XCas nat u64 | XDrain nat | XRoll | XRollCas u64 | XHeld | XNotify
  | NCas u64
  | OCas u64 u64

inductive latch_step :: "u64 \<Rightarrow> pc \<Rightarrow> u64 \<Rightarrow> pc \<Rightarrow> bool" where
  s_call: "latch_step w Idle w (STry MAX_LOCK_SPINS)"
| s_load: "shared_guard w \<Longrightarrow> latch_step w (STry (Suc n)) w (SCas n w)"
| s_skip: "\<not> shared_guard w \<Longrightarrow> latch_step w (STry (Suc n)) w (STry n)"
| s_give_up: "latch_step w (STry 0) w Idle"
| s_cas_ok: "latch_step w (SCas n w) (w + SHARED_LATCH_INC) SHeld"
| s_cas_fail: "latch_step w (SCas n c) w (STry n)"
| s_unlock: "latch_step w SHeld (w - SHARED_LATCH_INC) Idle"
| x_call: "latch_step w Idle w XCheck"
| x_call_now: "latch_step w Idle w (XTry MAX_LOCK_SPINS)"
| x_pending: "handoff_pending w \<Longrightarrow> latch_step w XCheck w Idle"
| x_free: "\<not> handoff_pending w \<Longrightarrow> latch_step w XCheck w (XTry MAX_LOCK_SPINS)"
| x_load: "w AND EXCLUSIVE_LATCH_MASK = 0 \<Longrightarrow> latch_step w (XTry (Suc n)) w (XCas n w)"
| x_skip: "w AND EXCLUSIVE_LATCH_MASK \<noteq> 0 \<Longrightarrow> latch_step w (XTry (Suc n)) w (XTry n)"
| x_give_up: "latch_step w (XTry 0) w Idle"
| x_cas_ok: "latch_step w (XCas n w) (w OR EXCLUSIVE_LATCH_MASK) (XDrain MAX_READER_DRAIN_SPINS)"
| x_cas_fail: "latch_step w (XCas n c) w (XTry n)"
| d_done: "w AND SHARED_LATCH_MASK = 0 \<Longrightarrow> latch_step w (XDrain (Suc n)) w XHeld"
| d_spin: "w AND SHARED_LATCH_MASK \<noteq> 0 \<Longrightarrow> latch_step w (XDrain (Suc n)) w (XDrain n)"
| d_out: "latch_step w (XDrain 0) w XRoll"
| r_load: "latch_step w XRoll w (XRollCas w)"
| r_cas_ok: "latch_step w (XRollCas w) (w AND NOT EXCLUSIVE_LATCH_MASK) Idle"
| r_cas_fail: "latch_step w (XRollCas c) w XRoll"
| x_unlock: "latch_step w XHeld (w AND NOT EXCLUSIVE_LATCH_MASK) XNotify"
| x_notify: "latch_step w XNotify (w OR RELEASE_NOTIFY_MASK) Idle"
| n_load: "w AND RELEASE_NOTIFY_MASK \<noteq> 0 \<Longrightarrow> latch_step w Idle w (NCas w)"
| n_cas_ok: "latch_step w (NCas w) (w AND NOT RELEASE_NOTIFY_MASK) Idle"
| n_gone: "w AND RELEASE_NOTIFY_MASK = 0 \<Longrightarrow> latch_step w (NCas c) w Idle"
| n_retry: "w AND RELEASE_NOTIFY_MASK \<noteq> 0 \<Longrightarrow> latch_step w (NCas c) w (NCas w)"
| h_set: "latch_step w Idle (w OR HANDOFF_MASK) Idle"
| h_clear: "latch_step w Idle (w AND NOT HANDOFF_MASK) Idle"
| o_load: "idx \<noteq> 0 \<Longrightarrow> latch_step w Idle w (OCas (idx AND ADDRESS_MASK) w)"
| o_linked: "c AND ADDRESS_MASK \<noteq> 0 \<Longrightarrow> latch_step w (OCas a c) w Idle"
| o_cas_ok: "w AND ADDRESS_MASK = 0 \<Longrightarrow> latch_step w (OCas a w) (w OR a) Idle"
| o_cas_fail: "c AND ADDRESS_MASK = 0 \<Longrightarrow> latch_step w (OCas a c) w (OCas a w)"

text \<open>Interleaving: one thread takes a step. Runs start with the latch word zero and every thread idle.\<close>

type_synonym 't lstate = "u64 \<times> ('t \<Rightarrow> pc)"

inductive lstep :: "'t lstate \<Rightarrow> 't lstate \<Rightarrow> bool" where
  "latch_step w (pcs t) w' pc' \<Longrightarrow> lstep (w, pcs) (w', pcs(t := pc'))"

definition linit :: "'t lstate" where
  "linit = (0, \<lambda>t. Idle)"

definition lreachable :: "'t lstate \<Rightarrow> bool" where
  "lreachable s \<longleftrightarrow> lstep\<^sup>*\<^sup>* linit s"

section \<open>Reading the word\<close>

lemma latch_masks [field_defs]:
  "SHARED_LATCH_SHIFT = 48" "SHARED_LATCH_MASK = fieldw 48 13" "HANDOFF_MASK = bitw 61"
  "RELEASE_NOTIFY_MASK = bitw 62" "EXCLUSIVE_LATCH_MASK = bitw 63"
  by (simp_all add: SHARED_LATCH_SHIFT_def SHARED_LATCH_MASK_def SHARED_LATCH_BITS_def HANDOFF_MASK_def
      HANDOFF_SHIFT_def RELEASE_NOTIFY_MASK_def RELEASE_NOTIFY_SHIFT_def EXCLUSIVE_LATCH_MASK_def
      EXCLUSIVE_LATCH_SHIFT_def ADDRESS_BITS_def mask_eq_exp_minus_1 bitw_def fieldw_def)

definition readers :: "u64 \<Rightarrow> nat" where
  "readers w = unat (num_latched_shared w)"

lemma bit_num_latched_shared: "bit (num_latched_shared w) i \<longleftrightarrow> i < 13 \<and> bit w (i + 48)"
  by (auto simp: num_latched_shared_def field_defs bit_fields bit_ucast_iff add.commute
      dest: bit_imp_le_length)

lemma readers_eq: "readers w = unat w div 2 ^ 48 mod 2 ^ 13"
proof -
  have "ucast (num_latched_shared w) = take_bit 13 (drop_bit 48 w)"
    by (auto simp: word_bits_eq bit_ucast_iff bit_num_latched_shared bit_take_bit_iff bit_drop_bit_eq
        add.commute)
  moreover have "unat (ucast (num_latched_shared w) :: u64) = unat (num_latched_shared w)"
    using unsigned_less [of "num_latched_shared w", where 'a = nat]
    by (simp add: unsigned_ucast_eq unsigned_take_bit_eq take_bit_nat_eq_self)
  moreover have "unat (take_bit 13 (drop_bit 48 w)) = unat w div 2 ^ 48 mod 2 ^ 13"
    unfolding unsigned_take_bit_eq unat_drop_bit_eq by (simp only: take_bit_eq_mod drop_bit_eq_div)
  ultimately show ?thesis by (simp only: readers_def)
qed

lemma readers_less: "readers w < 8192"
  by (simp add: readers_eq)

lemma shared_field:
  "w AND SHARED_LATCH_MASK = 0 \<longleftrightarrow> readers w = 0"
  "w AND SHARED_LATCH_MASK = SHARED_LATCH_MASK \<longleftrightarrow> readers w = 8191"
proof -
  have u: "w AND fieldw 48 13 = push_bit 48 (ucast (num_latched_shared w))"
    by (auto simp: word_bits_eq bit_fields bit_ucast_iff bit_num_latched_shared)
  have inj: "push_bit 48 (ucast x :: u64) = push_bit 48 (ucast y) \<longleftrightarrow> x = y" for x y :: u16
  proof
    assume a: "push_bit 48 (ucast x :: u64) = push_bit 48 (ucast y)"
    have "bit x i = bit y i" if "i < 16" for i
      using arg_cong [OF a, of "\<lambda>w. bit w (i + 48)"] that by (simp add: bit_fields bit_ucast_iff)
    then show "x = y" by (simp add: word_bits_eq)
  qed simp
  have z: "(0 :: u64) = push_bit 48 (ucast (0 :: u16))" by simp
  have f: "(fieldw 48 13 :: u64) = push_bit 48 (ucast (8191 :: u16))"
    by (simp add: fieldw_def mask_eq_exp_minus_1)
  show "w AND SHARED_LATCH_MASK = 0 \<longleftrightarrow> readers w = 0"
    unfolding latch_masks u by (subst z, unfold inj) (simp add: readers_def word_unat_eq_iff)
  show "w AND SHARED_LATCH_MASK = SHARED_LATCH_MASK \<longleftrightarrow> readers w = 8191"
    unfolding latch_masks u by (subst f, unfold inj) (simp add: readers_def word_unat_eq_iff)
qed

lemma latch_flags:
  "w AND EXCLUSIVE_LATCH_MASK = 0 \<longleftrightarrow> \<not> bit w 63" "w AND RELEASE_NOTIFY_MASK = 0 \<longleftrightarrow> \<not> bit w 62"
  "w AND HANDOFF_MASK = 0 \<longleftrightarrow> \<not> bit w 61"
  by (simp_all add: field_defs and_bitw_zero)

lemma shared_guard_iff: "shared_guard w \<longleftrightarrow> \<not> bit w 63 \<and> readers w \<noteq> 8191"
  by (simp add: shared_guard_def shared_field latch_flags)

lemma readers_bits: "(\<And>i. 48 \<le> i \<Longrightarrow> i < 61 \<Longrightarrow> bit w i = bit v i) \<Longrightarrow> readers w = readers v"
proof -
  assume "\<And>i. 48 \<le> i \<Longrightarrow> i < 61 \<Longrightarrow> bit w i = bit v i"
  then have "num_latched_shared w = num_latched_shared v"
    by (auto simp: word_bits_eq bit_num_latched_shared)
  then show ?thesis by (simp add: readers_def)
qed

section \<open>Counting shared holders in the word\<close>

lemma mod_Suc_8192: "x mod 8192 \<noteq> 8191 \<Longrightarrow> Suc x mod 8192 = Suc (x mod 8192) \<and> Suc x div 8192 = x div (8192 :: nat)"
  by (simp add: mod_Suc div_Suc)

lemma readers_add:
  assumes "readers w \<noteq> 8191"
  shows "readers (w + SHARED_LATCH_INC) = readers w + 1"
    "i < 48 \<or> 61 \<le> i \<Longrightarrow> bit (w + SHARED_LATCH_INC) i = bit w i"
proof -
  let ?u = "unat w" let ?x = "?u div 2 ^ 48"
  have x: "?x mod 8192 \<noteq> 8191" using assms by (simp add: readers_eq)
  have "?u + 2 ^ 48 < 2 ^ 64"
  proof (rule ccontr)
    assume "\<not> ?thesis"
    then have "65535 \<le> ?x" using div_le_mono [of "2 ^ 64 - 2 ^ 48" ?u "2 ^ 48"] by simp
    moreover have "?x < 65536" using unat_u64_less [of w] by (simp add: less_mult_imp_div_less)
    ultimately have "?x = 65535" by linarith
    with x show False by simp
  qed
  then have u: "unat (w + SHARED_LATCH_INC) = ?u + 2 ^ 48"
    by (simp add: SHARED_LATCH_INC_def SHARED_LATCH_SHIFT_def ADDRESS_BITS_def unat_word_ariths)
  have d: "(?u + 2 ^ 48) div 2 ^ 48 = Suc ?x" by simp
  show "readers (w + SHARED_LATCH_INC) = readers w + 1"
    unfolding readers_eq u d using mod_Suc_8192 [OF x] by simp
  have lo: "take_bit 48 (?u + 2 ^ 48) = take_bit 48 ?u" by (simp add: take_bit_eq_mod)
  have "(?u + 2 ^ 48) div 2 ^ 61 = Suc ?x div 2 ^ 13"
    using d div_mult2_eq [of "?u + 2 ^ 48" "2 ^ 48" "2 ^ 13"] by simp
  also have "\<dots> = ?u div 2 ^ 61"
    using mod_Suc_8192 [OF x] div_mult2_eq [of ?u "2 ^ 48" "2 ^ 13"] by simp
  finally have hi: "drop_bit 61 (?u + 2 ^ 48) = drop_bit 61 ?u" by (simp add: drop_bit_eq_div)
  have b: "bit v i = bit (unat v) i" for v :: u64 and i by (auto simp: bit_unsigned_iff dest: bit_imp_le_length)
  show "bit (w + SHARED_LATCH_INC) i = bit w i" if "i < 48 \<or> 61 \<le> i"
  proof (cases "i < 48")
    case True
    then show ?thesis unfolding b u using arg_cong [OF lo, of "\<lambda>n. bit n i"]
      by (simp add: bit_take_bit_iff)
  next
    case False
    then have "61 \<le> i" using that by simp
    then show ?thesis unfolding b u using arg_cong [OF hi, of "\<lambda>n. bit n (i - 61)"]
      by (simp add: bit_drop_bit_eq)
  qed
qed

lemma readers_sub:
  assumes "0 < readers w"
  shows "readers (w - SHARED_LATCH_INC) = readers w - 1"
    "i < 48 \<or> 61 \<le> i \<Longrightarrow> bit (w - SHARED_LATCH_INC) i = bit w i"
proof -
  let ?v = "w - SHARED_LATCH_INC" let ?x = "unat w div 2 ^ 48"
  have inc: "unat SHARED_LATCH_INC = 2 ^ 48"
    by (simp add: SHARED_LATCH_INC_def SHARED_LATCH_SHIFT_def ADDRESS_BITS_def)
  have x: "0 < ?x mod 8192" using assms by (simp add: readers_eq)
  then have "0 < ?x" by (cases ?x) auto
  then have "2 ^ 48 \<le> unat w" by (metis div_less gr_implies_not0 not_less)
  then have u: "unat ?v = unat w - 2 ^ 48" using inc by (simp add: unat_sub word_le_nat_alt)
  have "unat ?v div 2 ^ 48 = ?x - 1" unfolding u using le_div_geq [of "2 ^ 48" "unat w"] \<open>2 ^ 48 \<le> unat w\<close> by simp
  then have "readers ?v = (?x - 1) mod 8192" by (simp add: readers_eq)
  also have "\<dots> \<noteq> 8191" using x \<open>0 < ?x\<close> mod_Suc [of "?x - 1" 8192] by auto
  finally have ne: "readers ?v \<noteq> 8191" .
  from readers_add [OF ne] show "readers ?v = readers w - 1"
    "i < 48 \<or> 61 \<le> i \<Longrightarrow> bit ?v i = bit w i" by simp_all
qed

text \<open>The abstract latch and what each word operation does to it.\<close>

record latch =
  l_addr :: u64
  l_readers :: nat
  l_handoff :: bool
  l_notify :: bool
  l_excl :: bool

definition latch_of :: "u64 \<Rightarrow> latch" where
  "latch_of w = \<lparr>l_addr = overflow_index w, l_readers = readers w, l_handoff = bit w 61,
     l_notify = bit w 62, l_excl = bit w 63\<rparr>"

lemma bit_overflow_index: "bit (overflow_index w) i \<longleftrightarrow> i < 48 \<and> bit w i"
  by (auto simp: overflow_index_def field_defs bit_fields dest: bit_imp_le_length)

lemma overflow_index_bits: "(\<And>i. i < 48 \<Longrightarrow> bit w i = bit v i) \<Longrightarrow> overflow_index w = overflow_index v"
  by (auto simp: word_bits_eq bit_overflow_index)

lemma latch_of_add:
  assumes "readers w \<noteq> 8191"
  shows "latch_of (w + SHARED_LATCH_INC) = (latch_of w)\<lparr>l_readers := readers w + 1\<rparr>"
proof -
  note b = readers_add [OF assms]
  have "overflow_index (w + SHARED_LATCH_INC) = overflow_index w"
    by (rule overflow_index_bits) (rule b(2), simp)
  with b show ?thesis by (simp add: latch_of_def)
qed

lemma latch_of_sub:
  assumes "0 < readers w"
  shows "latch_of (w - SHARED_LATCH_INC) = (latch_of w)\<lparr>l_readers := readers w - 1\<rparr>"
proof -
  note b = readers_sub [OF assms]
  have "overflow_index (w - SHARED_LATCH_INC) = overflow_index w"
    by (rule overflow_index_bits) (rule b(2), simp)
  with b show ?thesis by (simp add: latch_of_def)
qed

lemma latch_of_flags:
  "latch_of (w OR EXCLUSIVE_LATCH_MASK) = (latch_of w)\<lparr>l_excl := True\<rparr>"
  "latch_of (w AND NOT EXCLUSIVE_LATCH_MASK) = (latch_of w)\<lparr>l_excl := False\<rparr>"
  "latch_of (w OR RELEASE_NOTIFY_MASK) = (latch_of w)\<lparr>l_notify := True\<rparr>"
  "latch_of (w AND NOT RELEASE_NOTIFY_MASK) = (latch_of w)\<lparr>l_notify := False\<rparr>"
  "latch_of (w OR HANDOFF_MASK) = (latch_of w)\<lparr>l_handoff := True\<rparr>"
  "latch_of (w AND NOT HANDOFF_MASK) = (latch_of w)\<lparr>l_handoff := False\<rparr>"
  by (auto simp: latch_of_def field_defs bit_fields intro!: overflow_index_bits readers_bits)

lemma latch_of_link:
  assumes "w AND ADDRESS_MASK = 0" and "a AND NOT ADDRESS_MASK = 0"
  shows "latch_of (w OR a) = (latch_of w)\<lparr>l_addr := a\<rparr>"
proof -
  have z: "\<not> bit (w AND ADDRESS_MASK) i" "\<not> bit (a AND NOT ADDRESS_MASK) i" for i
    using assms by simp_all
  have w: "bit w i \<Longrightarrow> 48 \<le> i" for i
    using z(1) [of i] by (auto simp: field_defs bit_fields dest: bit_imp_le_length)
  have a: "bit a i \<Longrightarrow> i < 48" for i
    using z(2) [of i] by (auto simp: field_defs bit_fields dest: bit_imp_le_length)
  have "overflow_index (w OR a) = a"
    using w a by (auto simp: word_bits_eq bit_overflow_index bit_fields dest!: w)
  moreover have "readers (w OR a) = readers w" using a by (intro readers_bits) (auto simp: bit_fields dest: a)
  ultimately show ?thesis using a [of 61] a [of 62] a [of 63] by (auto simp: latch_of_def bit_fields)
qed

section \<open>The interleaved model\<close>

fun owner :: "pc \<Rightarrow> bool" where
  "owner (XDrain n) = True"
| "owner XRoll = True"
| "owner (XRollCas c) = True"
| "owner XHeld = True"
| "owner pc = False"

text \<open>What a thread remembers of the word it loaded.\<close>

fun pc_ok :: "pc \<Rightarrow> bool" where
  "pc_ok (SCas n c) = shared_guard c"
| "pc_ok (XCas n c) = (\<not> bit c 63)"
| "pc_ok (OCas a c) = (a AND NOT ADDRESS_MASK = 0)"
| "pc_ok pc = True"

lemma flag_ops [simp]:
  "readers (w OR EXCLUSIVE_LATCH_MASK) = readers w" "bit (w OR EXCLUSIVE_LATCH_MASK) 63"
  "readers (w AND NOT EXCLUSIVE_LATCH_MASK) = readers w" "\<not> bit (w AND NOT EXCLUSIVE_LATCH_MASK) 63"
  "readers (w OR RELEASE_NOTIFY_MASK) = readers w" "bit (w OR RELEASE_NOTIFY_MASK) 63 = bit w 63"
  "readers (w AND NOT RELEASE_NOTIFY_MASK) = readers w" "bit (w AND NOT RELEASE_NOTIFY_MASK) 63 = bit w 63"
  "readers (w OR HANDOFF_MASK) = readers w" "bit (w OR HANDOFF_MASK) 63 = bit w 63"
  "readers (w AND NOT HANDOFF_MASK) = readers w" "bit (w AND NOT HANDOFF_MASK) 63 = bit w 63"
  using latch_of_flags [of w] unfolding latch_of_def by simp_all

lemma flag_link:
  "overflow_index (w OR EXCLUSIVE_LATCH_MASK) = overflow_index w"
  "overflow_index (w AND NOT EXCLUSIVE_LATCH_MASK) = overflow_index w"
  "overflow_index (w OR RELEASE_NOTIFY_MASK) = overflow_index w"
  "overflow_index (w AND NOT RELEASE_NOTIFY_MASK) = overflow_index w"
  "overflow_index (w OR HANDOFF_MASK) = overflow_index w"
  "overflow_index (w AND NOT HANDOFF_MASK) = overflow_index w"
  using latch_of_flags [of w] unfolding latch_of_def by simp_all

lemma link_ops:
  "w AND ADDRESS_MASK = 0 \<Longrightarrow> a AND NOT ADDRESS_MASK = 0 \<Longrightarrow> readers (w OR a) = readers w"
  "w AND ADDRESS_MASK = 0 \<Longrightarrow> a AND NOT ADDRESS_MASK = 0 \<Longrightarrow> bit (w OR a) 63 = bit w 63"
  using latch_of_link [of w a] unfolding latch_of_def by simp_all

lemma and_not_self: "(idx AND ADDRESS_MASK) AND NOT ADDRESS_MASK = 0"
  by (simp add: and.assoc)

text \<open>The five kinds of step, as far as holders are concerned.\<close>

definition quiet :: "u64 \<Rightarrow> pc \<Rightarrow> u64 \<Rightarrow> pc \<Rightarrow> bool" where
  "quiet w p w' p' \<longleftrightarrow> readers w' = readers w \<and> bit w' 63 = bit w 63 \<and> (p = SHeld \<longleftrightarrow> p' = SHeld)
     \<and> owner p = owner p' \<and> (p' = XHeld \<longrightarrow> p = XHeld \<or> readers w = 0)"

definition takes_shared :: "u64 \<Rightarrow> pc \<Rightarrow> u64 \<Rightarrow> pc \<Rightarrow> bool" where
  "takes_shared w p w' p' \<longleftrightarrow> \<not> bit w 63 \<and> \<not> bit w' 63 \<and> readers w' = readers w + 1
     \<and> p \<noteq> SHeld \<and> p' = SHeld \<and> \<not> owner p"

definition drops_shared :: "u64 \<Rightarrow> pc \<Rightarrow> u64 \<Rightarrow> pc \<Rightarrow> bool" where
  "drops_shared w p w' p' \<longleftrightarrow> p = SHeld \<and> p' = Idle \<and> w' = w - SHARED_LATCH_INC"

definition takes_bit :: "u64 \<Rightarrow> pc \<Rightarrow> u64 \<Rightarrow> pc \<Rightarrow> bool" where
  "takes_bit w p w' p' \<longleftrightarrow> \<not> bit w 63 \<and> bit w' 63 \<and> readers w' = readers w \<and> \<not> owner p \<and> owner p'
     \<and> p \<noteq> SHeld \<and> p' \<noteq> SHeld \<and> p' \<noteq> XHeld"

definition drops_bit :: "u64 \<Rightarrow> pc \<Rightarrow> u64 \<Rightarrow> pc \<Rightarrow> bool" where
  "drops_bit w p w' p' \<longleftrightarrow> owner p \<and> \<not> owner p' \<and> \<not> bit w' 63 \<and> readers w' = readers w
     \<and> p \<noteq> SHeld \<and> p' \<noteq> SHeld \<and> p' \<noteq> XHeld"

lemmas step_kinds = quiet_def takes_shared_def drops_shared_def takes_bit_def drops_bit_def

lemma latch_step_kind:
  assumes "latch_step w p w' p'" and "pc_ok p"
  shows "quiet w p w' p' \<or> takes_shared w p w' p' \<or> drops_shared w p w' p' \<or> takes_bit w p w' p'
    \<or> drops_bit w p w' p'"
  using assms
proof (induction rule: latch_step.induct)
  case (s_cas_ok w n)
  then show ?case using readers_add [of w] by (simp add: step_kinds shared_guard_iff)
next
  case (o_cas_ok w a)
  then show ?case by (simp add: step_kinds link_ops)
qed (simp_all add: step_kinds shared_field)

lemma latch_step_pc_ok: "latch_step w p w' p' \<Longrightarrow> pc_ok p \<Longrightarrow> pc_ok p'"
  by (induction rule: latch_step.induct) (simp_all add: latch_flags and_not_self)

definition linv :: "'t lstate \<Rightarrow> bool" where
  "linv s = (case s of (w, pcs) \<Rightarrow>
     finite {t. pcs t \<noteq> Idle} \<and> (\<forall>t. pc_ok (pcs t))
     \<and> readers w = card {t. pcs t = SHeld}
     \<and> (bit w 63 \<longleftrightarrow> (\<exists>t. owner (pcs t)))
     \<and> (\<forall>t u. owner (pcs t) \<and> owner (pcs u) \<longrightarrow> t = u)
     \<and> (\<forall>t. pcs t = XHeld \<longrightarrow> readers w = 0))"

lemma linv_init: "linv linit"
  by (simp add: linv_def linit_def readers_eq)

lemma finite_upd: "finite {t. pcs t \<noteq> Idle} \<Longrightarrow> finite {u. (pcs(t := p)) u \<noteq> Idle}"
  by (rule finite_subset [of _ "insert t {t. pcs t \<noteq> Idle}"]) auto

lemma sheld_upd:
  assumes "finite {t. pcs t \<noteq> Idle}" and "pcs t = SHeld \<longrightarrow> p \<noteq> SHeld"
  shows "card {u. (pcs(t := p)) u = SHeld} =
    (if pcs t = SHeld then card {u. pcs u = SHeld} - 1 else card {u. pcs u = SHeld})
      + (if p = SHeld then 1 else 0)"
proof -
  let ?S = "{u. pcs u = SHeld}"
  have fin: "finite ?S" by (rule finite_subset [OF _ assms(1)]) auto
  have "{u. (pcs(t := p)) u = SHeld} = (if p = SHeld then insert t (?S - {t}) else ?S - {t})" by auto
  then show ?thesis using fin assms(2) by (simp add: card_Diff_singleton_if)
qed

lemma linv_step: "lstep s s' \<Longrightarrow> linv s \<Longrightarrow> linv s'"
proof (induction rule: lstep.induct)
  case (1 w pcs t w' p')
  let ?p = "pcs t" let ?pcs = "pcs(t := p')"
  have fin: "finite {t. pcs t \<noteq> Idle}" and ok: "\<forall>t. pc_ok (pcs t)"
    and rd: "readers w = card {t. pcs t = SHeld}"
    and ex: "bit w 63 \<longleftrightarrow> (\<exists>t. owner (pcs t))"
    and un: "\<And>t u. owner (pcs t) \<Longrightarrow> owner (pcs u) \<Longrightarrow> t = u"
    and hd: "\<And>t. pcs t = XHeld \<Longrightarrow> readers w = 0"
    using "1.prems" unfolding linv_def by blast+
  have ok': "\<forall>u. pc_ok (?pcs u)" using ok latch_step_pc_ok [OF "1.hyps"] by simp
  note fin' = finite_upd [OF fin, of t p'] and card' = sheld_upd [OF fin, of t p']
  have pos: "0 < readers w" if "pcs u = SHeld" for u
  proof -
    have "finite {t. pcs t = SHeld}" by (rule finite_subset [OF _ fin]) auto
    then show ?thesis using that unfolding rd card_gt_0_iff by blast
  qed
  consider "quiet w ?p w' p'" | "takes_shared w ?p w' p'" | "drops_shared w ?p w' p'"
    | "takes_bit w ?p w' p'" | "drops_bit w ?p w' p'"
    using latch_step_kind [OF "1.hyps"] ok by blast
  then have "readers w' = card {u. ?pcs u = SHeld} \<and> (bit w' 63 \<longleftrightarrow> (\<exists>u. owner (?pcs u)))
      \<and> (\<forall>u v. owner (?pcs u) \<and> owner (?pcs v) \<longrightarrow> u = v) \<and> (\<forall>u. ?pcs u = XHeld \<longrightarrow> readers w' = 0)"
  proof cases
    case 1
    then have s: "{u. ?pcs u = SHeld} = {u. pcs u = SHeld}" and o: "owner (?pcs u) = owner (pcs u)" for u
      by (auto simp: quiet_def)
    from 1 show ?thesis unfolding s o using rd ex un hd
      by (auto simp: quiet_def split: if_splits)
  next
    case 2
    moreover have "pcs u \<noteq> XHeld" for u using 2 ex unfolding takes_shared_def by (metis owner.simps(4))
    ultimately show ?thesis using card' rd ex un unfolding takes_shared_def by auto
  next
    case 3
    then have o: "owner (?pcs u) = owner (pcs u)" "?pcs u = XHeld \<longleftrightarrow> pcs u = XHeld" for u
      by (auto simp: drops_shared_def)
    from 3 have r: "0 < readers w" "w' = w - SHARED_LATCH_INC" "pcs t = SHeld" "p' = Idle"
      using pos [of t] by (auto simp: drops_shared_def)
    then have "readers w' = readers w - 1" "bit w' 63 = bit w 63" using readers_sub [of w] by simp_all
    with card' r rd ex un hd show ?thesis unfolding o by auto
  next
    case 4
    then show ?thesis using card' rd ex un hd unfolding takes_bit_def by auto
  next
    case 5
    then show ?thesis using card' rd ex un hd unfolding drops_bit_def by auto
  qed
  with fin' ok' show ?case unfolding linv_def prod.case by blast
qed

lemma linv_reachable: "lreachable s \<Longrightarrow> linv s"
  unfolding lreachable_def
  by (induction rule: rtranclp_induct) (rule linv_init, erule linv_step)

section \<open>The functions as runs of one thread\<close>

text \<open>A run of thread \<open>t\<close> alone, the others staying where they are.\<close>

lemma lstep_alone: "latch_step w p w' p' \<Longrightarrow> lstep (w, pcs(t := p)) (w', pcs(t := p'))"
  using lstep.intros [of w "pcs(t := p)" t w' p'] by simp

lemma run_trans:
  "latch_step w p w' p' \<Longrightarrow> lstep\<^sup>*\<^sup>* (w', pcs(t := p')) s \<Longrightarrow> lstep\<^sup>*\<^sup>* (w, pcs(t := p)) s"
  by (meson converse_rtranclp_into_rtranclp lstep_alone)

lemma run_shared:
  "lstep\<^sup>*\<^sup>* (w, pcs(t := STry n))
     (case lock_shared_spin n w of (b, w') \<Rightarrow> (w', pcs(t := if b then SHeld else Idle)))"
proof (induction n)
  case 0
  have "lstep\<^sup>*\<^sup>* (w, pcs(t := STry 0)) (w, pcs(t := Idle))"
    by (rule run_trans [OF s_give_up], rule rtranclp.rtrancl_refl)
  then show ?case by (simp add: fun_upd_def)
next
  case (Suc n)
  show ?case
  proof (cases "shared_guard w")
    case True
    have "lstep\<^sup>*\<^sup>* (w, pcs(t := STry (Suc n))) (w + SHARED_LATCH_INC, pcs(t := SHeld))"
      by (rule run_trans [OF s_load [OF True]], rule run_trans [OF s_cas_ok], rule rtranclp.rtrancl_refl)
    with True show ?thesis by (simp add: fun_upd_def)
  next
    case False
    show ?thesis using run_trans [OF s_skip [OF False] Suc.IH] False by (simp add: fun_upd_def)
  qed
qed

lemma run_drain:
  "lstep\<^sup>*\<^sup>* (w, pcs(t := XDrain n)) (if drain_spin n w then (w, pcs(t := XHeld))
     else (w AND NOT EXCLUSIVE_LATCH_MASK, pcs(t := Idle)))"
proof (induction n)
  case 0
  have "lstep\<^sup>*\<^sup>* (w, pcs(t := XDrain 0)) (w AND NOT EXCLUSIVE_LATCH_MASK, pcs(t := Idle))"
    by (rule run_trans [OF d_out], rule run_trans [OF r_load], rule run_trans [OF r_cas_ok],
        rule rtranclp.rtrancl_refl)
  then show ?case by (simp add: fun_upd_def)
next
  case (Suc n)
  show ?case
  proof (cases "w AND SHARED_LATCH_MASK = 0")
    case True
    have "lstep\<^sup>*\<^sup>* (w, pcs(t := XDrain (Suc n))) (w, pcs(t := XHeld))"
      by (rule run_trans [OF d_done [OF True]], rule rtranclp.rtrancl_refl)
    with True show ?thesis by (simp add: fun_upd_def)
  next
    case False
    show ?thesis using run_trans [OF d_spin [OF False] Suc.IH] False by (simp add: fun_upd_def)
  qed
qed

lemma run_exclusive_bit:
  "lstep\<^sup>*\<^sup>* (w, pcs(t := XTry n)) (case exclusive_bit_spin n w of (a, v) \<Rightarrow>
     (v, pcs(t := if a then XDrain MAX_READER_DRAIN_SPINS else Idle)))"
proof (induction n)
  case 0
  have "lstep\<^sup>*\<^sup>* (w, pcs(t := XTry 0)) (w, pcs(t := Idle))"
    by (rule run_trans [OF x_give_up], rule rtranclp.rtrancl_refl)
  then show ?case by (simp add: fun_upd_def)
next
  case (Suc n)
  show ?case
  proof (cases "w AND EXCLUSIVE_LATCH_MASK = 0")
    case True
    have "lstep\<^sup>*\<^sup>* (w, pcs(t := XTry (Suc n)))
        (w OR EXCLUSIVE_LATCH_MASK, pcs(t := XDrain MAX_READER_DRAIN_SPINS))"
      by (rule run_trans [OF x_load [OF True]], rule run_trans [OF x_cas_ok], rule rtranclp.rtrancl_refl)
    with True show ?thesis by (simp add: fun_upd_def)
  next
    case False
    show ?thesis using run_trans [OF x_skip [OF False] Suc.IH] False by (simp add: fun_upd_def)
  qed
qed

lemma run_exclusive:
  assumes "try_lock_exclusive_now w = (b, w')"
  shows "lstep\<^sup>*\<^sup>* (w, pcs(t := XTry MAX_LOCK_SPINS)) (w', pcs(t := if b then XHeld else Idle))"
proof -
  obtain a v where e: "exclusive_bit_spin MAX_LOCK_SPINS w = (a, v)" by fastforce
  then have r: "lstep\<^sup>*\<^sup>* (w, pcs(t := XTry MAX_LOCK_SPINS))
      (v, pcs(t := if a then XDrain MAX_READER_DRAIN_SPINS else Idle))"
    using run_exclusive_bit [of w pcs t MAX_LOCK_SPINS] by simp
  show ?thesis
  proof (cases a)
    case True
    then have "(w', pcs(t := if b then XHeld else Idle)) =
        (if drain_spin MAX_READER_DRAIN_SPINS v then (v, pcs(t := XHeld))
         else (v AND NOT EXCLUSIVE_LATCH_MASK, pcs(t := Idle)))"
      using assms e by (auto simp: try_lock_exclusive_now_def drain_or_rollback_def split: if_splits)
    with r True run_drain [of v pcs t MAX_READER_DRAIN_SPINS] show ?thesis by simp
  next
    case False
    then show ?thesis using r assms e by (simp add: try_lock_exclusive_now_def)
  qed
qed

section \<open>What the functions compute\<close>

lemma lock_shared_spin_eq:
  "lock_shared_spin n w = (if 0 < n \<and> shared_guard w then (True, w + SHARED_LATCH_INC) else (False, w))"
  by (induction n) auto

lemma try_lock_shared_eq:
  "try_lock_shared w = (if shared_guard w then (True, w + SHARED_LATCH_INC) else (False, w))"
  by (simp add: try_lock_shared_def lock_shared_spin_eq MAX_LOCK_SPINS_def)

lemma exclusive_bit_spin_eq:
  "exclusive_bit_spin n w = (if 0 < n \<and> \<not> bit w 63 then (True, w OR EXCLUSIVE_LATCH_MASK) else (False, w))"
  by (induction n) (auto simp: latch_flags)

lemma drain_spin_eq: "drain_spin n w \<longleftrightarrow> 0 < n \<and> readers w = 0"
  by (induction n) (auto simp: shared_field)

lemma exclusive_undo: "\<not> bit w 63 \<Longrightarrow> (w OR EXCLUSIVE_LATCH_MASK) AND NOT EXCLUSIVE_LATCH_MASK = w"
  by (auto simp: word_bits_eq field_defs bit_fields)

lemma try_lock_exclusive_now_eq:
  "try_lock_exclusive_now w =
     (if \<not> bit w 63 \<and> readers w = 0 then (True, w OR EXCLUSIVE_LATCH_MASK) else (False, w))"
  by (auto simp: try_lock_exclusive_now_def exclusive_bit_spin_eq drain_or_rollback_def drain_spin_eq
      MAX_LOCK_SPINS_def MAX_READER_DRAIN_SPINS_def exclusive_undo)

lemma handoff_pending_bit: "handoff_pending w \<longleftrightarrow> bit w 61"
  by (simp add: handoff_pending_def latch_flags)

lemma try_lock_exclusive_eq:
  "try_lock_exclusive w =
     (if \<not> bit w 61 \<and> \<not> bit w 63 \<and> readers w = 0 then (True, w OR EXCLUSIVE_LATCH_MASK) else (False, w))"
  by (simp add: try_lock_exclusive_def try_lock_exclusive_now_eq handoff_pending_bit)

lemma is_latched_view:
  "is_latched_exclusive w \<longleftrightarrow> bit w 63" "is_latched_shared w \<longleftrightarrow> 0 < readers w"
  "is_latched w \<longleftrightarrow> bit w 63 \<or> 0 < readers w"
proof -
  show e: "is_latched_exclusive w \<longleftrightarrow> bit w 63" by (simp add: is_latched_exclusive_def latch_flags)
  show s: "is_latched_shared w \<longleftrightarrow> 0 < readers w" by (simp add: is_latched_shared_def shared_field)
  have "w AND LATCH_MASK = 0 \<longleftrightarrow> w AND SHARED_LATCH_MASK = 0 \<and> w AND EXCLUSIVE_LATCH_MASK = 0"
    by (auto simp: LATCH_MASK_def word_bits_eq bit_fields)
  then show "is_latched w \<longleftrightarrow> bit w 63 \<or> 0 < readers w"
    by (auto simp: is_latched_def shared_field latch_flags)
qed

text \<open>Once the overflow link is set no step changes it.\<close>

lemma latch_step_link:
  assumes "latch_step w p w' p'" and "pc_ok p" and "overflow_index w \<noteq> 0"
  shows "overflow_index w' = overflow_index w"
  using assms
proof (induction rule: latch_step.induct)
  case (s_cas_ok w n)
  then show ?case using latch_of_add [of w] by (simp add: latch_of_def shared_guard_iff)
next
  case (s_unlock w)
  have "overflow_index (w - SHARED_LATCH_INC) = overflow_index w"
  proof (rule overflow_index_bits)
    fix i :: nat assume "i < 48"
    let ?v = "w - SHARED_LATCH_INC"
    have "unat (?v + SHARED_LATCH_INC) = (unat ?v + 2 ^ 48) mod 2 ^ 64"
      unfolding unat_word_ariths(1) by (simp add: SHARED_LATCH_INC_def SHARED_LATCH_SHIFT_def ADDRESS_BITS_def)
    then have "unat w mod 2 ^ 48 = unat ?v mod 2 ^ 48"
      using mod_mod_cancel [of "2 ^ 48" "2 ^ 64" "unat ?v + 2 ^ 48"] by simp
    then have "take_bit 48 (unat w) = take_bit 48 (unat ?v)" by (simp only: take_bit_eq_mod)
    then have "bit (take_bit 48 (unat w)) i = bit (take_bit 48 (unat ?v)) i" by (rule arg_cong)
    with \<open>i < 48\<close> show "bit ?v i = bit w i" by (simp add: bit_take_bit_iff bit_unsigned_iff)
  qed
  then show ?case .
next
  case (o_cas_ok w a)
  then show ?case by (simp add: overflow_index_def)
qed (simp_all add: flag_link)

lemma link_kept:
  assumes "lstep\<^sup>*\<^sup>* s s'" and "linv s" and "overflow_index (fst s) \<noteq> 0"
  shows "overflow_index (fst s') = overflow_index (fst s)"
proof -
  have "linv s' \<and> overflow_index (fst s') = overflow_index (fst s)"
    using assms
  proof (induction rule: rtranclp_induct)
    case (step y z)
    then have y: "linv y" "overflow_index (fst y) = overflow_index (fst s)" by blast+
    have "overflow_index (fst z) = overflow_index (fst y)"
      using step.hyps(2) y step.prems
    proof (induction rule: lstep.induct)
      case (1 w pcs t w' pc')
      have "pc_ok (pcs t)" using "1.prems"(1) by (simp add: linv_def)
      then show ?case using latch_step_link [OF "1.hyps"] "1.prems" by simp
    qed
    with y linv_step [OF step.hyps(2)] show ?case by simp
  qed simp
  then show ?thesis ..
qed

section \<open>Properties\<close>

text \<open>
  C1: In every interleaving of every number of threads, a thread that holds the latch exclusively is
  alone: no other thread holds it exclusively and none holds it shared; the word says so.
\<close>

theorem latch_mutual_exclusion:
  assumes "lreachable (w, pcs)" and "pcs t = XHeld"
  shows "(\<forall>u. u \<noteq> t \<longrightarrow> pcs u \<noteq> XHeld) \<and> (\<forall>u. pcs u \<noteq> SHeld)
    \<and> is_latched_exclusive w \<and> num_latched_shared w = 0"
proof -
  have inv: "linv (w, pcs)" using linv_reachable [OF assms(1)] .
  have "finite {t. pcs t = SHeld}"
    by (rule finite_subset [of _ "{t. pcs t \<noteq> Idle}"]) (use inv in \<open>auto simp: linv_def\<close>)
  moreover have own: "owner (pcs t)" using assms(2) by simp
  ultimately have r: "readers w = 0" "bit w 63" "finite {t. pcs t = SHeld}"
    using inv assms(2) unfolding linv_def by blast+
  then have "{t. pcs t = SHeld} = {}" using inv unfolding linv_def by simp
  moreover have "pcs u \<noteq> XHeld" if "u \<noteq> t" for u
  proof
    assume "pcs u = XHeld"
    then have "owner (pcs u)" by simp
    with own inv have "u = t" unfolding linv_def by blast
    with that show False ..
  qed
  ultimately show ?thesis
    using r by (auto simp: is_latched_view readers_def word_unat_eq_iff)
qed

lemma exclusive_run: "lreachable (EXCLUSIVE_LATCH_MASK, (\<lambda>t. Idle)(0 :: nat := XHeld))"
proof -
  have e: "try_lock_exclusive_now 0 = (True, EXCLUSIVE_LATCH_MASK)"
    by (simp add: try_lock_exclusive_now_eq readers_eq)
  have "(\<lambda>t. Idle) = (\<lambda>t. Idle)(0 :: nat := Idle)" by auto
  then have "linit = (0, (\<lambda>t. Idle)(0 :: nat := Idle))" by (simp only: linit_def)
  then show ?thesis
    using run_trans [OF x_call_now, OF run_exclusive [OF e], of "\<lambda>t. Idle" "0 :: nat"]
    by (simp add: lreachable_def)
qed

theorem latch_mutual_exclusion_witness:
  "((\<lambda>t. Idle)(0 :: nat := XHeld)) 1 \<noteq> SHeld \<and> is_latched_exclusive EXCLUSIVE_LATCH_MASK
    \<and> num_latched_shared EXCLUSIVE_LATCH_MASK = 0"
  using latch_mutual_exclusion [OF exclusive_run, of 0] by simp

text \<open>
  C3: In every interleaving the shared count in the word is the number of shared holders (it never
  wraps and no release is lost), the exclusive bit is set exactly while one thread owns it, and the
  latch reads free exactly when nobody holds or is acquiring it: a failed or abandoned acquisition
  leaves no trace.
\<close>

theorem latch_word_accurate:
  assumes "lreachable (w, pcs)"
  shows "unat (num_latched_shared w) = card {t. pcs t = SHeld} \<and> finite {t. pcs t = SHeld}
    \<and> (is_latched_exclusive w \<longleftrightarrow> (\<exists>!t. owner (pcs t)))
    \<and> (is_latched w \<longleftrightarrow> (\<exists>t. pcs t = SHeld \<or> owner (pcs t)))"
proof -
  have inv: "linv (w, pcs)" using linv_reachable [OF assms] .
  have fin: "finite {t. pcs t = SHeld}"
    by (rule finite_subset [of _ "{t. pcs t \<noteq> Idle}"]) (use inv in \<open>auto simp: linv_def\<close>)
  have rd: "readers w = card {t. pcs t = SHeld}" and ex: "bit w 63 \<longleftrightarrow> (\<exists>t. owner (pcs t))"
    and un: "\<And>t u. owner (pcs t) \<Longrightarrow> owner (pcs u) \<Longrightarrow> t = u"
    using inv unfolding linv_def by blast+
  have "0 < readers w \<longleftrightarrow> (\<exists>t. pcs t = SHeld)" unfolding rd using fin by (auto simp: card_gt_0_iff)
  then show ?thesis
    using fin rd ex un by (auto simp: is_latched_view readers_def)
qed

theorem latch_word_accurate_witness:
  "unat (num_latched_shared EXCLUSIVE_LATCH_MASK) = card {t. ((\<lambda>t. Idle)(0 :: nat := XHeld)) t = SHeld}
    \<and> is_latched EXCLUSIVE_LATCH_MASK"
  using latch_word_accurate [OF exclusive_run] by (auto intro: exI [of _ 0])

text \<open>
  The overflow link of a bucket is written once: from the moment it is set, no interleaving of
  latch operations or of competing link attempts changes it.
\<close>

theorem overflow_link_set_once:
  assumes "lreachable (w, pcs)" and "overflow_index w \<noteq> 0" and "lstep\<^sup>*\<^sup>* (w, pcs) (w', pcs')"
  shows "overflow_index w' = overflow_index w"
  using link_kept [OF assms(3) linv_reachable [OF assms(1)]] assms(2) by simp

lemma link_run: "lreachable (5, \<lambda>t :: nat. Idle)"
proof -
  have i: "(\<lambda>t. Idle) = (\<lambda>t. Idle)(0 :: nat := Idle)" by auto
  have "latch_step 0 Idle 0 (OCas (5 AND ADDRESS_MASK) 0)" by (rule o_load) simp
  moreover have "latch_step 0 (OCas (5 AND ADDRESS_MASK) 0) (0 OR (5 AND ADDRESS_MASK)) Idle"
    by (rule o_cas_ok) simp
  ultimately have "lstep\<^sup>*\<^sup>* (0, (\<lambda>t. Idle)(0 :: nat := Idle)) (5, (\<lambda>t. Idle)(0 := Idle))"
    by (intro run_trans [of 0 Idle 0 "OCas (5 AND ADDRESS_MASK) 0"]
        run_trans [of 0 "OCas (5 AND ADDRESS_MASK) 0" 5 Idle])
      (simp_all add: ADDRESS_MASK_def ADDRESS_BITS_def)
  then show ?thesis by (simp only: lreachable_def linit_def i [symmetric])
qed

theorem overflow_link_set_once_witness: "overflow_index 5 = overflow_index 5 \<and> overflow_index 5 = 5"
proof -
  have "overflow_index 5 = 5" by (simp add: overflow_index_def ADDRESS_MASK_def ADDRESS_BITS_def)
  then show ?thesis using overflow_link_set_once [OF link_run, of 5 "\<lambda>t. Idle"] by simp
qed

text \<open>The latch as its clients see it.\<close>

definition spec_lock_shared :: "latch \<Rightarrow> bool \<times> latch" where
  "spec_lock_shared l =
     (if \<not> l_excl l \<and> l_readers l < 8191 then (True, l\<lparr>l_readers := l_readers l + 1\<rparr>) else (False, l))"

definition spec_lock_exclusive :: "latch \<Rightarrow> bool \<times> latch" where
  "spec_lock_exclusive l =
     (if \<not> l_handoff l \<and> \<not> l_excl l \<and> l_readers l = 0 then (True, l\<lparr>l_excl := True\<rparr>) else (False, l))"

definition spec_unlock_exclusive :: "latch \<Rightarrow> latch" where
  "spec_unlock_exclusive l = l\<lparr>l_excl := False, l_notify := True\<rparr>"

text \<open>
  C29: The latch functions implement the abstract latch: an acquisition succeeds exactly when the
  abstract one does, with the same effect, a failed one (the drain of readers rolled back included)
  leaves the word as it was, and releasing a shared acquisition restores the word. Each function is a
  run of one thread of the interleaved model that ends as holder or idle.
\<close>

theorem latch_refines:
  "map_prod id latch_of (try_lock_shared w) = spec_lock_shared (latch_of w)
   \<and> map_prod id latch_of (try_lock_exclusive w) = spec_lock_exclusive (latch_of w)
   \<and> latch_of (unlock_exclusive w) = spec_unlock_exclusive (latch_of w)
   \<and> (case try_lock_shared w of (ok, w') \<Rightarrow> (if ok then unlock_shared w' else w') = w)
   \<and> (case try_lock_exclusive w of (ok, w') \<Rightarrow> (if ok then w' AND NOT EXCLUSIVE_LATCH_MASK else w') = w)
   \<and> lstep\<^sup>*\<^sup>* (w, pcs(t := STry MAX_LOCK_SPINS))
       (case try_lock_shared w of (ok, w') \<Rightarrow> (w', pcs(t := if ok then SHeld else Idle)))
   \<and> lstep\<^sup>*\<^sup>* (w, pcs(t := XCheck))
       (case try_lock_exclusive w of (ok, w') \<Rightarrow> (w', pcs(t := if ok then XHeld else Idle)))"
proof (intro conjI)
  show "map_prod id latch_of (try_lock_shared w) = spec_lock_shared (latch_of w)"
    using readers_less [of w] latch_of_add [of w]
    by (auto simp: try_lock_shared_eq spec_lock_shared_def shared_guard_iff latch_of_def)
  show "map_prod id latch_of (try_lock_exclusive w) = spec_lock_exclusive (latch_of w)"
    using latch_of_flags(1) [of w]
    by (auto simp: try_lock_exclusive_eq spec_lock_exclusive_def latch_of_def)
  show "latch_of (unlock_exclusive w) = spec_unlock_exclusive (latch_of w)"
    by (simp add: unlock_exclusive_def spec_unlock_exclusive_def latch_of_flags)
  show "case try_lock_shared w of (ok, w') \<Rightarrow> (if ok then unlock_shared w' else w') = w"
    by (simp add: try_lock_shared_eq unlock_shared_def)
  show "case try_lock_exclusive w of (ok, w') \<Rightarrow> (if ok then w' AND NOT EXCLUSIVE_LATCH_MASK else w') = w"
    by (simp add: try_lock_exclusive_eq exclusive_undo)
  show "lstep\<^sup>*\<^sup>* (w, pcs(t := STry MAX_LOCK_SPINS))
      (case try_lock_shared w of (ok, w') \<Rightarrow> (w', pcs(t := if ok then SHeld else Idle)))"
    unfolding try_lock_shared_def by (rule run_shared)
  show "lstep\<^sup>*\<^sup>* (w, pcs(t := XCheck))
      (case try_lock_exclusive w of (ok, w') \<Rightarrow> (w', pcs(t := if ok then XHeld else Idle)))"
  proof (cases "handoff_pending w")
    case True
    have "lstep\<^sup>*\<^sup>* (w, pcs(t := XCheck)) (w, pcs(t := Idle))"
      by (rule run_trans [OF x_pending [OF True]], rule rtranclp.rtrancl_refl)
    with True show ?thesis by (simp add: try_lock_exclusive_def)
  next
    case False
    obtain ok w' where e: "try_lock_exclusive_now w = (ok, w')" by fastforce
    have "lstep\<^sup>*\<^sup>* (w, pcs(t := XCheck)) (w', pcs(t := if ok then XHeld else Idle))"
      by (rule run_trans [OF x_free [OF False] run_exclusive [OF e]])
    with False e show ?thesis by (cases ok) (simp_all add: try_lock_exclusive_def)
  qed
qed

end
