(* ===== verification/Align.thy ===== *)
theory Align
  imports Wedb_Prelude
begin

text \<open>
  Alignment arithmetic (\<open>wbase/src/align.rs\<close>): rounding a 64-bit position down or up to a multiple,
  with the overflow cases of the source, the sector bounds of a flush, and the sector range that covers
  a logical byte range. A \<open>usize\<close> here is a 64-bit word, as on the platforms the code supports.

  Each function is related to its reference on natural numbers: the largest multiple below, the least
  multiple above.
\<close>

section \<open>Model\<close>

definition DEFAULT_SECTOR_SIZE :: u64 where "DEFAULT_SECTOR_SIZE = 4096"
definition MIN_SECTOR_SIZE :: u64 where "MIN_SECTOR_SIZE = 512"

text \<open>\<open>u64::is_power_of_two\<close>, \<open>checked_add\<close>, \<open>checked_sub\<close> and \<open>leading_zeros\<close> of the standard library.\<close>

definition is_power_of_two :: "u64 \<Rightarrow> bool" where
  "is_power_of_two w \<longleftrightarrow> list_ex (\<lambda>k. w = push_bit k 1) [0..<64]"

definition checked_add_u64 :: "u64 \<Rightarrow> u64 \<Rightarrow> u64 option" where
  "checked_add_u64 a b = (if unat a + unat b < 2 ^ 64 then Some (a + b) else None)"

definition checked_sub_u64 :: "u64 \<Rightarrow> u64 \<Rightarrow> u64 option" where
  "checked_sub_u64 a b = (if b \<le> a then Some (a - b) else None)"

fun leading_zeros_from :: "nat \<Rightarrow> u64 \<Rightarrow> nat" where
  "leading_zeros_from 0 w = 0"
| "leading_zeros_from (Suc k) w = (if bit w k then 0 else Suc (leading_zeros_from k w))"

definition leading_zeros :: "u64 \<Rightarrow> nat" where
  "leading_zeros w = leading_zeros_from 64 w"

definition prev_power_of2 :: "u64 \<Rightarrow> u64" where
  "prev_power_of2 v = (if v = 0 then 0 else push_bit (63 - leading_zeros v) 1)"

definition align_down :: "u64 \<Rightarrow> u64 \<Rightarrow> u64" where
  "align_down val align =
     (if align \<le> 1 then val
      else if is_power_of_two align then val AND NOT (align - 1)
      else (val div align) * align)"

definition checked_align_up :: "u64 \<Rightarrow> u64 \<Rightarrow> u64 option" where
  "checked_align_up val align =
     (if align \<le> 1 then Some val
      else if is_power_of_two align then
        let mask = align - 1
        in if val AND mask = 0 then Some val
           else case checked_add_u64 val mask of Some v \<Rightarrow> Some (v AND NOT mask) | None \<Rightarrow> None
      else
        let rem = val mod align
        in if rem = 0 then Some val else checked_add_u64 val (align - rem))"

definition align_up :: "u64 \<Rightarrow> u64 \<Rightarrow> u64" where
  "align_up val align =
     (case checked_align_up val align of
        Some v \<Rightarrow> v
      | None \<Rightarrow> if is_power_of_two align then NOT (align - 1) else ((- 1) div align) * align)"

definition sector_bounds :: "u64 \<Rightarrow> u64 \<Rightarrow> u64 \<Rightarrow> u64 \<times> u64" where
  "sector_bounds from_pos to_pos sector = (align_down from_pos sector, align_up to_pos sector)"

definition is_valid_sector_size :: "u64 \<Rightarrow> bool" where
  "is_valid_sector_size sz \<longleftrightarrow> MIN_SECTOR_SIZE \<le> sz \<and> is_power_of_two sz"

datatype SectorRangeError = InvalidSectorSize u64 | SectorOverflow

record SectorRange =
  aligned_offset :: u64
  aligned_len :: u64
  internal_offset :: u64

definition sector_range_calculate :: "u64 \<Rightarrow> u64 \<Rightarrow> u64 \<Rightarrow> (SectorRangeError, SectorRange) res" where
  "sector_range_calculate offset len sector_size =
     (if \<not> is_valid_sector_size sector_size then Inl (InvalidSectorSize sector_size)
      else
        let aligned = align_down offset sector_size; internal = offset - aligned
        in if len = 0 then
             Inr \<lparr>aligned_offset = aligned, aligned_len = 0, internal_offset = internal\<rparr>
           else case checked_add_u64 offset len of
             None \<Rightarrow> Inl SectorOverflow
           | Some end_pos \<Rightarrow>
               case checked_align_up end_pos sector_size of
                 None \<Rightarrow> Inl SectorOverflow
               | Some aligned_end \<Rightarrow>
                   case checked_sub_u64 aligned_end aligned of
                     None \<Rightarrow> Inl SectorOverflow
                   | Some n_bytes \<Rightarrow>
                       Inr \<lparr>aligned_offset = aligned, aligned_len = n_bytes, internal_offset = internal\<rparr>)"

definition sector_count :: "SectorRange \<Rightarrow> u64 \<Rightarrow> u64" where
  "sector_count r sector_size =
     (if aligned_len r = 0 \<or> sector_size = 0 then 0 else aligned_len r div sector_size)"

definition sub_range :: "SectorRange \<Rightarrow> u64 \<Rightarrow> u64 \<times> u64" where
  "sub_range r len =
     (internal_offset r,
      case checked_add_u64 (internal_offset r) len of Some e \<Rightarrow> e | None \<Rightarrow> - 1)"

section \<open>Reference functions\<close>

definition floor_mult :: "nat \<Rightarrow> nat \<Rightarrow> nat" where
  "floor_mult v a = (v div a) * a"

definition ceil_mult :: "nat \<Rightarrow> nat \<Rightarrow> nat" where
  "ceil_mult v a = (if a dvd v then v else (v div a + 1) * a)"

lemma floor_mult_u64: "floor_mult (unat (v :: u64)) a < 2 ^ 64"
proof -
  have "floor_mult (unat v) a \<le> unat v" by (simp add: floor_mult_def)
  moreover have "unat v < 2 ^ 64" using unsigned_less [where 'a = nat, of v] by simp
  ultimately show ?thesis by (rule le_less_trans)
qed

lemma floor_mult_bounds:
  assumes "0 < a"
  shows "a dvd floor_mult v a" "floor_mult v a \<le> v" "v < floor_mult v a + a"
  using assms div_mult_mod_eq [of v a] mod_less_divisor [OF assms, of v]
  unfolding floor_mult_def by (simp, linarith, linarith)

lemma ceil_mult_bounds:
  assumes "0 < a"
  shows "a dvd ceil_mult v a" "v \<le> ceil_mult v a" "ceil_mult v a < v + a"
proof -
  have "floor_mult v a < v" if "\<not> a dvd v"
    using that floor_mult_bounds [OF assms, of v] by (metis le_neq_implies_less)
  moreover have "ceil_mult v a = (if a dvd v then v else floor_mult v a + a)"
    by (simp add: ceil_mult_def floor_mult_def)
  ultimately show "a dvd ceil_mult v a" "v \<le> ceil_mult v a" "ceil_mult v a < v + a"
    using assms floor_mult_bounds [OF assms, of v] by auto
qed

lemma floor_mult_greatest: "a dvd m \<Longrightarrow> m \<le> v \<Longrightarrow> m \<le> floor_mult v a"
  using div_le_mono [of m v a] by (auto simp: floor_mult_def elim!: dvdE)

lemma ceil_mult_least: "a dvd m \<Longrightarrow> v \<le> m \<Longrightarrow> ceil_mult v a \<le> m"
proof -
  assume m: "a dvd m" "v \<le> m"
  then obtain k where k: "m = a * k" by blast
  show ?thesis
  proof (cases "a dvd v")
    case False
    with m have "v < k * a" using k by (metis le_neq_implies_less mult.commute)
    then have "v div a + 1 \<le> k" by (simp add: Suc_le_eq less_mult_imp_div_less)
    then show ?thesis using False k mult_le_mono1 [of "v div a + 1" k a] by (simp add: ceil_mult_def mult.commute)
  qed (simp add: ceil_mult_def m)
qed

section \<open>Rounding\<close>

lemma is_power_of_two_iff: "is_power_of_two w \<longleftrightarrow> (\<exists>k < 64. w = push_bit k 1)"
  by (auto simp: is_power_of_two_def list_ex_iff)

lemma unat_power: "k < 64 \<Longrightarrow> unat (push_bit k 1 :: u64) = 2 ^ k"
  unfolding unsigned_push_bit_eq using power_strict_increasing [of k 64 "2 :: nat"] by (simp add: take_bit_eq_mod)

lemma power_minus_one: "push_bit k 1 - 1 = (mask k :: u64)"
  by (simp add: mask_eq_exp_minus_1)

lemma and_not_mask: "(v :: u64) AND NOT (mask k) = push_bit k (drop_bit k v)"
  by (rule bit_word_eqI) (auto simp: bit_simps)

lemma unat_clear_low: "unat ((v :: u64) AND NOT (mask k)) = floor_mult (unat v) (2 ^ k)"
proof -
  have d: "unat (drop_bit k v) = unat v div 2 ^ k"
    by (simp only: unat_drop_bit_eq drop_bit_eq_div [of k "unat v"])
  show ?thesis
    using floor_mult_u64 [of v "2 ^ k"]
    unfolding and_not_mask unsigned_push_bit_eq d floor_mult_def by (simp add: take_bit_eq_mod push_bit_eq_mult)
qed

lemma and_mask_dvd: "(v :: u64) AND mask k = 0 \<longleftrightarrow> 2 ^ k dvd unat v"
proof -
  have "unat (v AND mask k) = take_bit k (unat v)"
    unfolding take_bit_eq_mask [symmetric] by (rule unsigned_take_bit_eq)
  then have "unat (v AND mask k) = unat v mod 2 ^ k" by (simp only: take_bit_eq_mod)
  then show ?thesis by (metis dvd_eq_mod_eq_0 unat_0 word_unat_eq_iff)
qed

lemma align_down_floor: "align \<noteq> 0 \<Longrightarrow> unat (align_down val align) = floor_mult (unat val) (unat align)"
proof (cases "align = 1")
  case False
  assume "align \<noteq> 0"
  with False have a: "\<not> align \<le> 1" by (auto simp: word_le_nat_alt word_unat_eq_iff)
  show ?thesis
  proof (cases "is_power_of_two align")
    case True
    then obtain k where "k < 64" "align = push_bit k 1" by (auto simp: is_power_of_two_iff)
    then show ?thesis using a True unat_clear_low [of val k] unat_power [of k]
      by (simp only: align_down_def power_minus_one if_False if_True)
  next
    case False
    then show ?thesis using a floor_mult_u64 [of val "unat align"] unat_mult_lem [of "val div align" align]
      by (simp add: align_down_def floor_mult_def unat_div)
  qed
qed (simp add: align_down_def floor_mult_def)

text \<open>\<open>None\<close> exactly when the least multiple is beyond the 64-bit range, and that multiple otherwise.\<close>

lemma u64_of_nat: "n < 2 ^ 64 \<Longrightarrow> w = (of_nat n :: u64) \<longleftrightarrow> unat w = n"
  by (auto simp: unat_of_nat)

lemma checked_add_of_nat:
  "checked_add_u64 a b = (if unat a + unat b < 2 ^ 64 then Some (of_nat (unat a + unat b)) else None)"
  by (simp add: checked_add_u64_def)

lemma multiple_step: "a dvd m \<Longrightarrow> a dvd c \<Longrightarrow> c < m \<Longrightarrow> c + a \<le> (m :: nat)"
  using dvd_imp_le [of a "m - c"] dvd_diff_nat [of a m c] by linarith

lemma ceil_mult_pow:
  assumes "k < 64" and "\<not> 2 ^ k dvd v"
  shows "ceil_mult v (2 ^ k) = floor_mult (v + (2 ^ k - 1)) (2 ^ k)"
    "ceil_mult v (2 ^ k) < 2 ^ 64 \<longleftrightarrow> v + (2 ^ k - 1) < 2 ^ 64"
proof -
  have p: "(0::nat) < 2 ^ k" by simp
  show eq: "ceil_mult v (2 ^ k) = floor_mult (v + (2 ^ k - 1)) (2 ^ k)"
  proof (rule order_antisym)
    show "ceil_mult v (2 ^ k) \<le> floor_mult (v + (2 ^ k - 1)) (2 ^ k)"
      using ceil_mult_bounds [OF p, of v] by (intro floor_mult_greatest) auto
    show "floor_mult (v + (2 ^ k - 1)) (2 ^ k) \<le> ceil_mult v (2 ^ k)"
    proof (rule ccontr)
      assume "\<not> floor_mult (v + (2 ^ k - 1)) (2 ^ k) \<le> ceil_mult v (2 ^ k)"
      then have "ceil_mult v (2 ^ k) + 2 ^ k \<le> floor_mult (v + (2 ^ k - 1)) (2 ^ k)"
        using floor_mult_bounds(1) [OF p] ceil_mult_bounds(1) [OF p] by (intro multiple_step) auto
      then show False
        using floor_mult_bounds(2) [OF p, of "v + (2 ^ k - 1)"] ceil_mult_bounds(2) [OF p, of v] p by linarith
    qed
  qed
  show "ceil_mult v (2 ^ k) < 2 ^ 64 \<longleftrightarrow> v + (2 ^ k - 1) < 2 ^ 64"
  proof
    assume c: "ceil_mult v (2 ^ k) < 2 ^ 64"
    show "v + (2 ^ k - 1) < 2 ^ 64"
    proof (rule ccontr)
      assume "\<not> v + (2 ^ k - 1) < 2 ^ 64"
      moreover have "(2::nat) ^ k dvd 2 ^ 64" using assms(1) by (intro le_imp_power_dvd) simp
      ultimately have "2 ^ 64 \<le> floor_mult (v + (2 ^ k - 1)) (2 ^ k)"
        by (intro floor_mult_greatest) (simp_all only: not_less)
      then show False using c unfolding eq by linarith
    qed
  next
    assume "v + (2 ^ k - 1) < 2 ^ 64"
    moreover have "floor_mult (v + (2 ^ k - 1)) (2 ^ k) \<le> v + (2 ^ k - 1)" by (simp add: floor_mult_def)
    ultimately show "ceil_mult v (2 ^ k) < 2 ^ 64" unfolding eq by (rule le_less_trans [rotated])
  qed
qed

lemma checked_align_up_ceil:
  assumes "align \<noteq> 0"
  shows "checked_align_up val align =
    (if ceil_mult (unat val) (unat align) < 2 ^ 64 then Some (of_nat (ceil_mult (unat val) (unat align))) else None)"
proof -
  define v where "v = unat val"
  have v: "v < 2 ^ 64" using unsigned_less [where 'a = nat, of val] by (simp add: v_def)
  have w: "val = of_nat v" by (simp add: v_def)
  have "align = 1 \<or> \<not> align \<le> 1" using assms by (auto simp: word_le_nat_alt word_unat_eq_iff)
  then consider (one) "align = 1" | (pow) "\<not> align \<le> 1" "is_power_of_two align"
    | (other) "\<not> align \<le> 1" "\<not> is_power_of_two align"
    by blast
  then show ?thesis
  proof cases
    case one
    with v show ?thesis by (simp add: checked_align_up_def ceil_mult_def v_def [symmetric] w)
  next
    case pow
    then obtain k where k: "k < 64" "align = push_bit k 1" by (auto simp: is_power_of_two_iff)
    have um: "unat (mask k :: u64) = 2 ^ k - 1"
      unfolding power_minus_one [symmetric] using unat_power [OF k(1)] unat_minus_one [of "push_bit k 1 :: u64"]
      by (metis unat_0 power_not_zero zero_neq_numeral)
    show ?thesis
    proof (cases "2 ^ k dvd v")
      case True
      with pow v show ?thesis
        unfolding checked_align_up_def k(2) power_minus_one Let_def and_mask_dvd unat_power [OF k(1)] v_def [symmetric]
        by (simp add: ceil_mult_def w)
    next
      case False
      note c = ceil_mult_pow [OF k(1) False]
      have "Some ((val + mask k) AND NOT (mask k)) = Some (of_nat (ceil_mult v (2 ^ k)) :: u64)"
        if lt: "v + (2 ^ k - 1) < 2 ^ 64"
      proof -
        have "unat (val + mask k) = v + (2 ^ k - 1)"
          using lt um by (simp add: unat_plus_if' v_def)
        then show ?thesis
          using c(2) lt u64_of_nat [of "ceil_mult v (2 ^ k)"] by (simp add: unat_clear_low c(1))
      qed
      with pow False show ?thesis
        unfolding checked_align_up_def k(2) power_minus_one Let_def and_mask_dvd unat_power [OF k(1)] v_def [symmetric]
          checked_add_u64_def um
        using c(2) by simp
    qed
  next
    case other
    then have a0: "0 < unat align" using assms by (simp add: unat_gt_0)
    have m: "unat (val mod align) = v mod unat align" by (simp add: unat_mod v_def)
    then have z: "val mod align = 0 \<longleftrightarrow> unat align dvd v" by (metis dvd_eq_mod_eq_0 unat_0 word_unat_eq_iff)
    have "unat (align - val mod align) = unat align - v mod unat align"
      using a0 m by (simp add: unat_sub word_le_nat_alt)
    then have "v + unat (align - val mod align) = ceil_mult v (unat align)" if "\<not> unat align dvd v"
      using that a0 mod_less_divisor [OF a0, of v] div_mult_mod_eq [of v "unat align"]
      by (simp only: ceil_mult_def if_False distrib_right mult_1)
    then show ?thesis
      using other v z unfolding checked_align_up_def Let_def checked_add_of_nat v_def [symmetric]
      by (cases "unat align dvd v") (simp_all add: ceil_mult_def w)
  qed
qed

text \<open>The saturating version stops at the largest multiple that fits.\<close>

lemma checked_align_up_Some:
  "align \<noteq> 0 \<Longrightarrow> checked_align_up val align = Some r \<Longrightarrow> unat r = ceil_mult (unat val) (unat align)"
  by (auto simp: checked_align_up_ceil unat_of_nat split: if_splits)

lemma max_multiple_pow: "k < 64 \<Longrightarrow> unat (NOT (mask k) :: u64) = floor_mult (2 ^ 64 - 1) (2 ^ k)"
proof -
  have "(NOT (mask k) :: u64) = (- 1) AND NOT (mask k)" by simp
  moreover have "unat (- 1 :: u64) = 2 ^ 64 - 1" by (simp add: unsigned_minus_1_eq_mask mask_eq_exp_minus_1)
  ultimately show ?thesis by (metis unat_clear_low)
qed

lemma align_up_ceil:
  assumes "align \<noteq> 0"
  shows "unat (align_up val align) =
    (if ceil_mult (unat val) (unat align) < 2 ^ 64 then ceil_mult (unat val) (unat align)
     else floor_mult (2 ^ 64 - 1) (unat align))"
proof (cases "checked_align_up val align")
  case (Some r)
  then show ?thesis using assms checked_align_up_Some [OF assms Some]
    by (auto simp: align_up_def checked_align_up_ceil split: if_splits)
next
  case None
  then have big: "\<not> ceil_mult (unat val) (unat align) < 2 ^ 64"
    using assms by (auto simp: checked_align_up_ceil)
  show ?thesis
  proof (cases "is_power_of_two align")
    case True
    then obtain k where k: "k < 64" "align = push_bit k 1" by (auto simp: is_power_of_two_iff)
    show ?thesis using None True big max_multiple_pow [OF k(1)] unat_power [OF k(1)]
      unfolding align_up_def k(2) power_minus_one by simp
  next
    case False
    have "unat (- 1 :: u64) = 2 ^ 64 - 1" by (simp add: unsigned_minus_1_eq_mask mask_eq_exp_minus_1)
    then show ?thesis
      using None False big floor_mult_u64 [of "- 1" "unat align"] unat_mult_lem [of "(- 1) div align" align]
      by (simp add: align_up_def floor_mult_def unat_div)
  qed
qed

section \<open>The sector range\<close>

lemma valid_sector: "is_valid_sector_size s \<Longrightarrow> s \<noteq> 0"
  by (auto simp: is_valid_sector_size_def MIN_SECTOR_SIZE_def)

lemma align_down_le: "align_down v a \<le> v"
proof (cases "a = 0")
  case False
  then show ?thesis by (simp add: word_le_nat_alt align_down_floor floor_mult_def)
qed (simp add: align_down_def)

lemma unat_internal: "s \<noteq> 0 \<Longrightarrow> unat (v - align_down v s) = unat v mod unat s"
  by (simp add: unat_sub [OF align_down_le] align_down_floor floor_mult_def minus_div_mult_eq_mod)

lemma sector_range_cases:
  assumes s: "is_valid_sector_size s" and len: "len \<noteq> 0"
  shows "sector_range_calculate v len s =
    (if ceil_mult (unat v + unat len) (unat s) < 2 ^ 64
     then Inr \<lparr>aligned_offset = align_down v s,
       aligned_len = of_nat (ceil_mult (unat v + unat len) (unat s) - floor_mult (unat v) (unat s)),
       internal_offset = v - align_down v s\<rparr>
     else Inl SectorOverflow)"
proof -
  let ?e = "unat v + unat len" let ?c = "ceil_mult (unat v + unat len) (unat s)"
  have s0: "s \<noteq> 0" "0 < unat s" using valid_sector [OF s] by (simp_all add: unat_gt_0)
  have ge: "?e \<le> ?c" "floor_mult (unat v) (unat s) \<le> ?c"
    using ceil_mult_bounds(2) [OF s0(2), of ?e] floor_mult_bounds(2) [OF s0(2), of "unat v"] by linarith+
  show ?thesis
  proof (cases "?e < 2 ^ 64")
    case False
    with ge show ?thesis using s len by (simp add: sector_range_calculate_def checked_add_u64_def Let_def)
  next
    case True
    then have e: "unat (v + len) = ?e" by (simp add: unat_plus_if')
    show ?thesis
    proof (cases "?c < 2 ^ 64")
      case lt: True
      have "align_down v s \<le> of_nat ?c"
        using lt ge by (simp add: word_le_nat_alt unat_of_nat align_down_floor [OF s0(1)])
      moreover have "of_nat ?c - align_down v s = of_nat (?c - floor_mult (unat v) (unat s))"
        using ge u64_of_nat [OF floor_mult_u64, of "align_down v s" v "unat s"] align_down_floor [OF s0(1), of v]
        by (simp add: of_nat_diff)
      ultimately show ?thesis
        using s len True lt e s0(1) by (simp add: sector_range_calculate_def checked_add_u64_def Let_def
            checked_align_up_ceil checked_sub_u64_def)
    next
      case False
      then show ?thesis
        using s len True e s0(1) by (simp add: sector_range_calculate_def checked_add_u64_def Let_def
            checked_align_up_ceil)
    qed
  qed
qed

section \<open>Properties\<close>

lemma align_reference_parts:
  assumes "align \<noteq> 0"
  shows "unat (align_down val align) = floor_mult (unat val) (unat align)"
    and "checked_align_up val align =
      (if ceil_mult (unat val) (unat align) < 2 ^ 64
       then Some (of_nat (ceil_mult (unat val) (unat align))) else None)"
    and "unat (align_up val align) =
      (if ceil_mult (unat val) (unat align) < 2 ^ 64 then ceil_mult (unat val) (unat align)
       else floor_mult (2 ^ 64 - 1) (unat align))"
  by (rule align_down_floor [OF assms], rule checked_align_up_ceil [OF assms], rule align_up_ceil [OF assms])

text \<open>
  Rounding agrees with its reference on natural numbers for every alignment but zero, powers of two
  or not: down to the largest multiple, up to the least multiple, \<open>None\<close> exactly when that multiple does
  not fit in 64 bits, and the saturating version then stops at the largest multiple that fits.
\<close>

theorem align_reference:
  assumes "align \<noteq> 0"
  shows "unat (align_down val align) = floor_mult (unat val) (unat align) \<and>
    checked_align_up val align =
      (if ceil_mult (unat val) (unat align) < 2 ^ 64
       then Some (of_nat (ceil_mult (unat val) (unat align))) else None) \<and>
    unat (align_up val align) =
      (if ceil_mult (unat val) (unat align) < 2 ^ 64 then ceil_mult (unat val) (unat align)
       else floor_mult (2 ^ 64 - 1) (unat align))"
  using align_reference_parts [OF assms] by blast

theorem align_reference_witness:
  "unat (align_down 1000 24) = 984 \<and> checked_align_up 1000 24 = Some 1008 \<and> unat (align_up 1000 24) = 1008"
  using align_reference [of 24 1000] by (simp add: floor_mult_def ceil_mult_def)

lemma sector_range_covers_parts:
  assumes calc: "sector_range_calculate offset len sector_size = Inr r" and "len \<noteq> 0"
  shows "unat sector_size dvd unat (aligned_offset r)" and "unat sector_size dvd unat (aligned_len r)"
    and "unat (aligned_offset r) + unat (internal_offset r) = unat offset"
    and "unat (internal_offset r) < unat sector_size"
    and "unat (internal_offset r) + unat len \<le> unat (aligned_len r)"
    and "unat (aligned_len r) < unat (internal_offset r) + unat len + unat sector_size"
    and "unat (fst (sub_range r len)) = unat (internal_offset r)"
    and "unat (snd (sub_range r len)) = unat (internal_offset r) + unat len"
    and "unat (sector_count r sector_size) * unat sector_size = unat (aligned_len r)"
proof -
  let ?s = "unat sector_size" let ?v = "unat offset"
  let ?c = "ceil_mult (?v + unat len) ?s" let ?f = "floor_mult ?v ?s"
  have s: "is_valid_sector_size sector_size"
    using calc by (auto simp: sector_range_calculate_def split: if_splits)
  have s0: "sector_size \<noteq> 0" "0 < ?s" using valid_sector [OF s] by (simp_all add: unat_gt_0)
  have c: "?c < 2 ^ 64" and r: "r = \<lparr>aligned_offset = align_down offset sector_size,
      aligned_len = of_nat (?c - ?f), internal_offset = offset - align_down offset sector_size\<rparr>"
    using calc sector_range_cases [OF s assms(2), of offset] by (auto split: if_splits)
  have len: "unat (aligned_len r) = ?c - ?f" using c by (simp add: r unat_of_nat)
  have off: "unat (aligned_offset r) = ?f" by (simp add: r align_down_floor [OF s0(1)])
  have int: "unat (internal_offset r) = ?v mod ?s" by (simp add: r unat_internal [OF s0(1)])
  have v: "?f + ?v mod ?s = ?v" by (simp add: floor_mult_def)
  note b = floor_mult_bounds [OF s0(2), of ?v] ceil_mult_bounds [OF s0(2), of "?v + unat len"]
  show "?s dvd unat (aligned_offset r)" using b(1) by (simp add: off)
  show dl: "?s dvd unat (aligned_len r)" using b(1,4) by (simp add: len dvd_diff_nat)
  show "unat (aligned_offset r) + unat (internal_offset r) = ?v" using v by (simp add: off int)
  show "unat (internal_offset r) < ?s" using s0(2) by (simp add: int)
  show fits: "unat (internal_offset r) + unat len \<le> unat (aligned_len r)"
    and "unat (aligned_len r) < unat (internal_offset r) + unat len + ?s"
    using b v unfolding len int by linarith+
  have "unat (internal_offset r) + unat len < 2 ^ 64" using fits c unfolding len by linarith
  then show "unat (fst (sub_range r len)) = unat (internal_offset r)"
    and "unat (snd (sub_range r len)) = unat (internal_offset r) + unat len"
    by (simp_all add: sub_range_def checked_add_u64_def unat_plus_if')
  show "unat (sector_count r sector_size) * ?s = unat (aligned_len r)"
    using dl s0(1) by (simp add: sector_count_def unat_div)
qed

text \<open>
  The sector range of a non-empty byte range is made of whole sectors, contains the range at the
  internal offset, starts in the first sector, has no sector that the range does not touch, and the
  buffer slice of the range is exact (its end does not saturate).
\<close>

theorem sector_range_covers:
  assumes calc: "sector_range_calculate offset len sector_size = Inr r" and "len \<noteq> 0"
  shows "unat sector_size dvd unat (aligned_offset r) \<and>
    unat sector_size dvd unat (aligned_len r) \<and>
    unat (aligned_offset r) + unat (internal_offset r) = unat offset \<and>
    unat (internal_offset r) < unat sector_size \<and>
    unat (internal_offset r) + unat len \<le> unat (aligned_len r) \<and>
    unat (aligned_len r) < unat (internal_offset r) + unat len + unat sector_size \<and>
    unat (fst (sub_range r len)) = unat (internal_offset r) \<and>
    unat (snd (sub_range r len)) = unat (internal_offset r) + unat len \<and>
    unat (sector_count r sector_size) * unat sector_size = unat (aligned_len r)"
  using sector_range_covers_parts [OF assms] by blast

theorem sector_range_covers_witness:
  "unat (1024 :: u64) = 1024 \<and> 476 + unat (600 :: u64) \<le> (1536 :: nat) \<and>
   sector_range_calculate 988 600 512 =
     Inr \<lparr>aligned_offset = 512, aligned_len = 1536, internal_offset = 476\<rparr>"
proof -
  have "is_power_of_two 512" unfolding is_power_of_two_iff by (intro exI [of _ 9]) simp
  then have s: "is_valid_sector_size 512" by (simp add: is_valid_sector_size_def MIN_SECTOR_SIZE_def)
  have "unat (align_down 988 512) = 512" by (simp add: align_down_floor floor_mult_def)
  then have "align_down 988 512 = 512" by (simp add: word_unat_eq_iff)
  then have calc: "sector_range_calculate 988 600 512 =
      Inr \<lparr>aligned_offset = 512, aligned_len = 1536, internal_offset = 476\<rparr>"
    by (simp add: sector_range_cases [OF s] ceil_mult_def floor_mult_def)
  show ?thesis using sector_range_covers [OF calc] calc by simp
qed

end
