(* ===== verification/DirectVm.thy ===== *)
theory DirectVm
  imports Align
begin

text \<open>
  The memory of the hash index (\<open>windex/src/ram/direct_vm.rs\<close>, \<open>windex/src/ram/tracker.rs\<close>, and the
  striped counter of \<open>wbase/src/striped.rs\<close> behind the tracker). The Linux variant is modelled. The
  anonymous mapping itself belongs to the operating system: \<open>mmap_anon\<close> gives the base address of a new
  mapping of a length, or nothing, and the page size is an argument. Addresses are words; a null base
  pointer is 0.

  The lemmas show that the aligned part of a block holds the bytes that were asked for, that every
  range the block hands out lies inside the mapping, and that the tracker counts every stripe.
\<close>

section \<open>The striped counter\<close>

text \<open>The slots of \<open>StripedCounter<N>\<close>; an \<open>i64\<close> is its two's complement word.\<close>

type_synonym striped_counter = "u64 list"

definition counter_new :: "nat \<Rightarrow> striped_counter" where
  "counter_new n = replicate n 0"

definition stripe_index :: "striped_counter \<Rightarrow> nat \<Rightarrow> nat" where
  "stripe_index c i = i AND (length c - 1)"

definition counter_add :: "striped_counter \<Rightarrow> nat \<Rightarrow> u64 \<Rightarrow> striped_counter" where
  "counter_add c i delta = (let idx = stripe_index c i in c[idx := c ! idx + delta])"

definition counter_sub :: "striped_counter \<Rightarrow> nat \<Rightarrow> u64 \<Rightarrow> striped_counter" where
  "counter_sub c i delta = (let idx = stripe_index c i in c[idx := c ! idx - delta])"

definition counter_get :: "striped_counter \<Rightarrow> u64" where
  "counter_get c = sum_list c"

definition counter_get_positive :: "striped_counter \<Rightarrow> u64" where
  "counter_get_positive c = (if sint (counter_get c) < 0 then 0 else counter_get c)"

definition counter_reset :: "striped_counter \<Rightarrow> striped_counter" where
  "counter_reset c = map (\<lambda>_. 0) c"

section \<open>Blocks\<close>

datatype mem_error =
    InvalidAlignment u64 u64 | InvalidSize u64 | MemOverflow | DirectVmAllocFailed u64

record DirectVmBlock =
  base_ptr :: u64
  aligned_ptr :: u64
  reserved_length :: u64

definition block_empty :: DirectVmBlock where
  "block_empty = \<lparr>base_ptr = 0, aligned_ptr = 0, reserved_length = 0\<rparr>"

definition block_is_empty :: "DirectVmBlock \<Rightarrow> bool" where
  "block_is_empty b \<longleftrightarrow> base_ptr b = 0"

definition avail_len :: "DirectVmBlock \<Rightarrow> u64" where
  "avail_len b =
     (let offset = aligned_ptr b - base_ptr b
      in if offset \<le> reserved_length b then reserved_length b - offset else 0)"

definition check_range :: "DirectVmBlock \<Rightarrow> u64 \<Rightarrow> u64 \<Rightarrow> (mem_error, u64 \<times> u64) res" where
  "check_range b start_pos end_pos =
     (if block_is_empty b \<or> end_pos < start_pos \<or> avail_len b < end_pos then Inl MemOverflow
      else Inr (aligned_ptr b + start_pos, end_pos - start_pos))"

definition HUGE_PAGE_SIZE :: u64 where "HUGE_PAGE_SIZE = push_bit 20 2"

definition effective_alignment :: "u64 \<Rightarrow> u64 \<Rightarrow> u64" where
  "effective_alignment sz alignment =
     (if HUGE_PAGE_SIZE \<le> sz \<and> alignment < HUGE_PAGE_SIZE then HUGE_PAGE_SIZE else alignment)"

definition vm_allocate ::
  "(u64 \<Rightarrow> u64 option) \<Rightarrow> u64 \<Rightarrow> nat \<Rightarrow> striped_counter \<Rightarrow> u64 \<Rightarrow> u64 \<Rightarrow>
     (mem_error, DirectVmBlock) res \<times> striped_counter" where
  "vm_allocate mmap_anon page_size thread tracker sz alignment =
     (if sz = 0 then (Inl (InvalidSize sz), tracker)
      else if alignment = 0 \<or> \<not> is_power_of_two alignment then (Inl (InvalidAlignment alignment 1), tracker)
      else
        let eff = effective_alignment sz alignment
        in case checked_add_u64 sz eff of
             None \<Rightarrow> (Inl MemOverflow, tracker)
           | Some wanted \<Rightarrow>
               case checked_align_up wanted page_size of
                 None \<Rightarrow> (Inl MemOverflow, tracker)
               | Some reserve \<Rightarrow>
                   case mmap_anon reserve of
                     None \<Rightarrow> (Inl (DirectVmAllocFailed reserve), tracker)
                   | Some base \<Rightarrow>
                       case checked_align_up base eff of
                         None \<Rightarrow> (Inl MemOverflow, tracker)
                       | Some aligned \<Rightarrow>
                           (Inr \<lparr>base_ptr = base, aligned_ptr = aligned, reserved_length = reserve\<rparr>,
                            counter_add tracker thread reserve))"

definition vm_free :: "nat \<Rightarrow> striped_counter \<Rightarrow> DirectVmBlock \<Rightarrow> DirectVmBlock \<times> striped_counter" where
  "vm_free thread tracker b =
     (if base_ptr b = 0 \<or> reserved_length b = 0 then (b, tracker)
      else (b\<lparr>base_ptr := 0, aligned_ptr := 0, reserved_length := 0\<rparr>,
            counter_sub tracker thread (reserved_length b)))"

section \<open>Lemmas\<close>

lemma and_le_right: "(i :: nat) AND m \<le> m"
proof -
  have "int (i AND m) = int i AND int m" by (rule of_nat_and_eq)
  also have "\<dots> \<le> int m" by (rule AND_upper2) simp
  finally show ?thesis by simp
qed

lemma stripe_index_less: "c \<noteq> [] \<Longrightarrow> stripe_index c i < length c"
  using and_le_right [of i "length c - 1"] length_greater_0_conv [of c] unfolding stripe_index_def by linarith

lemma sum_list_add_at: "i < length xs \<Longrightarrow> sum_list (xs[i := xs ! i + d]) = sum_list xs + (d :: u64)"
  by (induction xs arbitrary: i) (auto simp: nth_Cons' list_update.simps split: nat.split simp: algebra_simps)

lemma counter_add_get: "c \<noteq> [] \<Longrightarrow> counter_get (counter_add c i d) = counter_get c + d"
  by (simp add: counter_get_def counter_add_def Let_def sum_list_add_at stripe_index_less)

lemma counter_sub_get: "c \<noteq> [] \<Longrightarrow> counter_get (counter_sub c i d) = counter_get c - d"
  using counter_add_get [of c i "- d"] by (simp add: counter_add_def counter_sub_def)

lemma power_dvd: "is_power_of_two a \<Longrightarrow> is_power_of_two b \<Longrightarrow> a \<le> b \<Longrightarrow> unat a dvd unat b"
proof -
  assume "is_power_of_two a" "is_power_of_two b" and le: "a \<le> b"
  then obtain j k where jk: "j < 64" "a = push_bit j 1" "k < 64" "b = push_bit k 1"
    by (auto simp: is_power_of_two_iff)
  then have "(2::nat) ^ j \<le> 2 ^ k" using le unat_power by (metis word_le_nat_alt)
  then have "(2::nat) ^ j dvd 2 ^ k" by (intro le_imp_power_dvd) simp
  then show ?thesis using jk unat_power by metis
qed

lemma huge_page_power: "is_power_of_two HUGE_PAGE_SIZE"
  unfolding is_power_of_two_iff by (intro exI [of _ 21]) (simp add: HUGE_PAGE_SIZE_def)

lemma effective_alignment_facts:
  assumes "is_power_of_two alignment" "alignment \<noteq> 0"
  shows "effective_alignment sz alignment \<noteq> 0" "unat alignment dvd unat (effective_alignment sz alignment)"
  using assms power_dvd [OF assms(1) huge_page_power]
  by (auto simp: effective_alignment_def)

lemma checked_align_up_ge: "checked_align_up v a = Some r \<Longrightarrow> v \<le> r"
proof (cases "a = 0")
  case False
  assume "checked_align_up v a = Some r"
  then show ?thesis using False ceil_mult_bounds(2) [of "unat a" "unat v"]
    by (simp add: checked_align_up_Some word_le_nat_alt unat_gt_0)
qed (simp add: checked_align_up_def)

text \<open>What a successful allocation guarantees about its block.\<close>

lemma vm_allocate_block:
  assumes "vm_allocate mmap_anon page_size thread tracker sz alignment = (Inr b, tracker')"
  shows "sz \<noteq> 0" "unat alignment dvd unat (aligned_ptr b)" "base_ptr b \<le> aligned_ptr b"
    "unat (aligned_ptr b) + unat sz \<le> unat (base_ptr b) + unat (reserved_length b)"
    "mmap_anon (reserved_length b) = Some (base_ptr b)" "tracker' = counter_add tracker thread (reserved_length b)"
proof -
  let ?e = "effective_alignment sz alignment"
  obtain wanted where c: "sz \<noteq> 0" "alignment \<noteq> 0" "is_power_of_two alignment"
    "checked_add_u64 sz ?e = Some wanted" "checked_align_up wanted page_size = Some (reserved_length b)"
    and m: "mmap_anon (reserved_length b) = Some (base_ptr b)"
    and al: "checked_align_up (base_ptr b) ?e = Some (aligned_ptr b)"
    and t: "tracker' = counter_add tracker thread (reserved_length b)"
    using assms by (auto simp: vm_allocate_def Let_def split: if_splits option.splits)
  note e = effective_alignment_facts [OF c(3,2), of sz]
  have w: "unat sz + unat ?e = unat wanted" using c(4) by (auto simp: checked_add_u64_def unat_plus_if' split: if_splits)
  have r: "unat wanted \<le> unat (reserved_length b)" using checked_align_up_ge [OF c(5)] by (simp add: word_le_nat_alt)
  have p: "unat (aligned_ptr b) = ceil_mult (unat (base_ptr b)) (unat ?e)" using checked_align_up_Some [OF e(1) al] .
  have "0 < unat ?e" using e(1) by (simp add: unat_gt_0)
  note k = ceil_mult_bounds [OF this, of "unat (base_ptr b)"]
  show "sz \<noteq> 0" "mmap_anon (reserved_length b) = Some (base_ptr b)"
    "tracker' = counter_add tracker thread (reserved_length b)" by (fact c m t)+
  show "unat alignment dvd unat (aligned_ptr b)" using k(1) e(2) p by (metis dvd_trans)
  show "base_ptr b \<le> aligned_ptr b" using k(2) by (simp add: word_le_nat_alt p)
  show "unat (aligned_ptr b) + unat sz \<le> unat (base_ptr b) + unat (reserved_length b)"
    using k(3) w r p by linarith
qed

lemma avail_len_nat:
  assumes "base_ptr b \<le> aligned_ptr b" "unat (aligned_ptr b) \<le> unat (base_ptr b) + unat (reserved_length b)"
  shows "unat (base_ptr b) + unat (reserved_length b) = unat (aligned_ptr b) + unat (avail_len b)"
proof -
  have "unat (aligned_ptr b - base_ptr b) = unat (aligned_ptr b) - unat (base_ptr b)"
    using assms(1) by (rule unat_sub)
  moreover from this have "aligned_ptr b - base_ptr b \<le> reserved_length b"
    using assms by (simp add: word_le_nat_alt)
  ultimately show ?thesis using assms by (simp add: avail_len_def Let_def unat_sub word_le_nat_alt)
qed

section \<open>Properties\<close>

lemma vm_block_fits_parts:
  assumes "vm_allocate mmap_anon page_size thread tracker sz alignment = (Inr b, tracker')"
    and "base_ptr b \<noteq> 0"
  shows "unat alignment dvd unat (aligned_ptr b)"
    and "check_range b 0 sz = Inr (aligned_ptr b, sz)"
    and "check_range b i j = Inr (ptr, n) \<Longrightarrow>
      unat (base_ptr b) \<le> unat (aligned_ptr b) + unat i \<and>
      unat (aligned_ptr b) + unat i + unat n \<le> unat (base_ptr b) + unat (reserved_length b)"
proof -
  note b = vm_allocate_block [OF assms(1)]
  have av: "unat (base_ptr b) + unat (reserved_length b) = unat (aligned_ptr b) + unat (avail_len b)"
    using b(3,4) by (intro avail_len_nat) auto
  show "unat alignment dvd unat (aligned_ptr b)" by (fact b(2))
  show "check_range b 0 sz = Inr (aligned_ptr b, sz)"
    using av b(4) assms(2) by (simp add: check_range_def block_is_empty_def word_less_nat_alt)
  show "unat (base_ptr b) \<le> unat (aligned_ptr b) + unat i \<and>
      unat (aligned_ptr b) + unat i + unat n \<le> unat (base_ptr b) + unat (reserved_length b)"
    if r: "check_range b i j = Inr (ptr, n)"
  proof -
    have ij: "i \<le> j" "j \<le> avail_len b" "n = j - i"
      using r by (auto simp: check_range_def split: if_splits)
    then have "unat i + unat n = unat j" by (simp add: unat_sub word_le_nat_alt)
    then show ?thesis using av ij(2) b(3) by (simp add: word_le_nat_alt)
  qed
qed

text \<open>
  A block that \<open>allocate\<close> returns is aligned as asked and has room for the bytes asked for: the whole
  range is accepted, and every range that is accepted lies inside the mapping the operating system
  returned, whatever address that is.
\<close>

theorem vm_block_fits:
  assumes "vm_allocate mmap_anon page_size thread tracker sz alignment = (Inr b, tracker')"
    and "base_ptr b \<noteq> 0"
  shows "unat alignment dvd unat (aligned_ptr b) \<and>
    check_range b 0 sz = Inr (aligned_ptr b, sz) \<and>
    (check_range b i j = Inr (ptr, n) \<longrightarrow>
      unat (base_ptr b) \<le> unat (aligned_ptr b) + unat i \<and>
      unat (aligned_ptr b) + unat i + unat n \<le> unat (base_ptr b) + unat (reserved_length b))"
  using vm_block_fits_parts [OF assms] by blast

lemma vm_allocate_example:
  "vm_allocate (\<lambda>_. Some 100) 4096 3 (counter_new 64) 256 64 =
     (Inr \<lparr>base_ptr = 100, aligned_ptr = 128, reserved_length = 4096\<rparr>, counter_add (counter_new 64) 3 4096)"
proof -
  have "is_power_of_two 64" unfolding is_power_of_two_iff by (intro exI [of _ 6]) simp
  moreover have "effective_alignment 256 64 = 64" by (simp add: effective_alignment_def HUGE_PAGE_SIZE_def)
  moreover have "checked_align_up 320 4096 = Some 4096" "checked_align_up 100 64 = Some 128"
    by (simp_all add: checked_align_up_ceil ceil_mult_def)
  ultimately show ?thesis by (simp add: vm_allocate_def checked_add_u64_def)
qed

theorem vm_block_fits_witness:
  "let b = \<lparr>base_ptr = 100, aligned_ptr = 128, reserved_length = 4096\<rparr>
   in check_range b 0 256 = Inr (128, 256) \<and> check_range b 8 24 = Inr (136, 16) \<and>
      unat (base_ptr b) \<le> 128 + 8 \<and> 128 + 8 + 16 \<le> unat (base_ptr b) + unat (reserved_length b)"
proof -
  let ?b = "\<lparr>base_ptr = 100, aligned_ptr = 128, reserved_length = 4096\<rparr>"
  have r: "check_range ?b 8 24 = Inr (136, 16)" by (simp add: check_range_def block_is_empty_def avail_len_def)
  show ?thesis using vm_block_fits [OF vm_allocate_example, of 8 24 136 16] r by (simp add: Let_def)
qed

lemma vm_tracker_balance_parts:
  assumes "tracker \<noteq> []"
    and "vm_allocate mmap_anon page_size thread tracker sz alignment = (Inr b, tracker')"
    and "base_ptr b \<noteq> 0"
  shows "counter_get tracker' = counter_get tracker + reserved_length b"
    and "counter_get (snd (vm_free thread' tracker' b)) = counter_get tracker"
    and "fst (vm_free thread' tracker' b) = block_empty"
proof -
  note b = vm_allocate_block [OF assms(2)]
  have t: "tracker' \<noteq> []" using assms(1) by (simp add: b(6) counter_add_def Let_def)
  show get: "counter_get tracker' = counter_get tracker + reserved_length b"
    using assms(1) by (simp add: b(6) counter_add_get)
  have "0 < unat sz" using b(1) by (simp add: unat_gt_0)
  with b(3,4) have "reserved_length b \<noteq> 0" by (auto simp: word_le_nat_alt)
  then show "counter_get (snd (vm_free thread' tracker' b)) = counter_get tracker"
    and "fst (vm_free thread' tracker' b) = block_empty"
    using assms(3) t get by (simp_all add: vm_free_def counter_sub_get block_empty_def)
qed

text \<open>
  The tracker reports the bytes of every live mapping whichever threads allocate and free: freeing a
  block, from any thread, leaves the counter at its value before the allocation, and the freed block
  is empty.
\<close>

theorem vm_tracker_balance:
  assumes "tracker \<noteq> []"
    and "vm_allocate mmap_anon page_size thread tracker sz alignment = (Inr b, tracker')"
    and "base_ptr b \<noteq> 0"
  shows "counter_get tracker' = counter_get tracker + reserved_length b \<and>
    counter_get (snd (vm_free thread' tracker' b)) = counter_get tracker \<and>
    fst (vm_free thread' tracker' b) = block_empty"
  using vm_tracker_balance_parts [OF assms] by blast

theorem vm_tracker_balance_witness:
  "counter_get (counter_add (counter_new 64) 3 4096) = counter_get (counter_new 64) + 4096 \<and>
   counter_get (snd (vm_free 5 (counter_add (counter_new 64) 3 4096)
     \<lparr>base_ptr = 100, aligned_ptr = 128, reserved_length = 4096\<rparr>)) = counter_get (counter_new 64)"
  using vm_tracker_balance [OF _ vm_allocate_example, where thread' = 5] by (simp add: counter_new_def)

end
