(* ===== verification/BucketPool.thy ===== *)
theory BucketPool
  imports BucketLatch DirectVm
begin

text \<open>
  A bucket of the hash index as a whole (\<open>windex/src/bucket.rs\<close>: seven data slots and the latch word
  of BucketLatch) and the pool of overflow buckets (\<open>windex/src/overflow_pool.rs\<close>).

  The operations run without interference: a compare-and-swap meets the word that was read. Where a
  function reads a slot twice, the model takes both reads, so that its lemmas also cover a slot that
  another thread changes in between.

  The pool's chunk pointers are a function from the chunk number, \<open>None\<close> the null pointer. Its
  invariant \<open>pool_inv\<close> says that every identifier handed out lies in an allocated chunk, that
  buckets not yet handed out are zero, and that the free stack threads through the first word of
  buckets that are zero elsewhere.
\<close>

section \<open>Buckets\<close>

definition DATA_ENTRIES :: nat where "DATA_ENTRIES = 7"
definition OVERFLOW_INDEX :: nat where "OVERFLOW_INDEX = DATA_ENTRIES"
definition ENTRIES_PER_BUCKET :: nat where "ENTRIES_PER_BUCKET = DATA_ENTRIES + 1"

record HashBucket =
  entries :: "u64 list"

definition bucket_new :: HashBucket where
  "bucket_new = \<lparr>entries = replicate ENTRIES_PER_BUCKET 0\<rparr>"

definition data_slots :: "HashBucket \<Rightarrow> (nat \<times> u64) list" where
  "data_slots b = take DATA_ENTRIES (enumerate 0 (entries b))"

text \<open>\<open>Iterator::find_map\<close>: the first result of \<open>f\<close> along a list.\<close>

fun find_map :: "('a \<Rightarrow> 'b option) \<Rightarrow> 'a list \<Rightarrow> 'b option" where
  "find_map f [] = None"
| "find_map f (x # xs) = (case f x of Some r \<Rightarrow> Some r | None \<Rightarrow> find_map f xs)"

definition tag_check_slot :: "u64 \<Rightarrow> u64 \<Rightarrow> u64 \<Rightarrow> u64 option" where
  "tag_check_slot raw synced expected_hi =
     (if raw = 0 then None
      else if drop_bit TAG_SHIFT raw = expected_hi then
        if drop_bit TAG_SHIFT synced = expected_hi then
          let addr = synced AND ADDRESS_MASK in if addr \<noteq> 0 then Some addr else None
        else None
      else None)"

definition find_tag_address :: "HashBucket \<Rightarrow> u16 \<Rightarrow> u64 option" where
  "find_tag_address b tag =
     (let expected_hi = ucast tag AND TAG_MASK
      in find_map (\<lambda>(_, item). tag_check_slot item item expected_hi) (data_slots b))"

definition entry_check_slot :: "u64 \<Rightarrow> u64 \<Rightarrow> u64 \<Rightarrow> nat \<Rightarrow> (nat \<times> HashBucketEntry) option" where
  "entry_check_slot raw synced target_raw slot =
     (if raw = 0 then None
      else if raw = target_raw then if synced = target_raw then Some (slot, synced) else None
      else None)"

definition find_entry_by_address :: "HashBucket \<Rightarrow> u16 \<Rightarrow> u64 \<Rightarrow> (nat \<times> HashBucketEntry) option" where
  "find_entry_by_address b tag address =
     (let target_raw = entry_new address tag False
      in find_map (\<lambda>(slot, item). entry_check_slot item item target_raw slot) (data_slots b))"

definition find_empty_slot :: "HashBucket \<Rightarrow> nat option" where
  "find_empty_slot b = find_map (\<lambda>(slot, item). if item = 0 then Some slot else None) (data_slots b)"

definition cas_entry :: "HashBucket \<Rightarrow> nat \<Rightarrow> u64 \<Rightarrow> u64 \<Rightarrow> bool \<times> HashBucket" where
  "cas_entry b slot expected v =
     (if entries b ! slot = expected then (True, b\<lparr>entries := (entries b)[slot := v]\<rparr>) else (False, b))"

definition try_insert :: "HashBucket \<Rightarrow> nat \<Rightarrow> u16 \<Rightarrow> u64 \<Rightarrow> bool \<times> HashBucket" where
  "try_insert b slot tag address =
     (if DATA_ENTRIES \<le> slot then (False, b) else cas_entry b slot 0 (entry_new address tag False))"

definition bucket_overflow_index :: "HashBucket \<Rightarrow> u64" where
  "bucket_overflow_index b = overflow_index (entries b ! OVERFLOW_INDEX)"

definition bucket_set_overflow_index :: "HashBucket \<Rightarrow> u64 \<Rightarrow> bool \<times> HashBucket" where
  "bucket_set_overflow_index b overflow_idx =
     (let (ok, w) = set_overflow_index (entries b ! OVERFLOW_INDEX) overflow_idx
      in (ok, b\<lparr>entries := (entries b)[OVERFLOW_INDEX := w]\<rparr>))"

section \<open>The pool of overflow buckets\<close>

datatype index_error =
    InvalidBucketCount nat | InvalidAddress u64 | AddressOverflow u64
  | OverflowPoolExhausted | OverflowCycleDetected | LockTimeout | Mem mem_error

definition CHUNK_BITS :: nat where "CHUNK_BITS = 10"
definition CHUNK_SIZE :: nat where "CHUNK_SIZE = 2 ^ CHUNK_BITS"
definition CHUNK_MASK :: nat where "CHUNK_MASK = CHUNK_SIZE - 1"
definition MAX_CHUNKS :: nat where "MAX_CHUNKS = 4096"
definition FREE_LIST_ID_MASK :: u64 where "FREE_LIST_ID_MASK = 0xFFFFFFFF"

record OverflowPool =
  chunks :: "nat \<Rightarrow> HashBucket list option"
  allocated :: u64
  free_head :: u64
  free_count :: u64

definition pool_new :: OverflowPool where
  "pool_new = \<lparr>chunks = (\<lambda>_. None), allocated = 0, free_head = 0, free_count = 0\<rparr>"

definition chunk_idx :: "nat \<Rightarrow> nat" where "chunk_idx zero_based = drop_bit CHUNK_BITS zero_based"
definition slot_idx :: "nat \<Rightarrow> nat" where "slot_idx zero_based = zero_based AND CHUNK_MASK"

text \<open>
  The unchecked access dereferences the chunk pointer; where that would be outside the pointer table, a
  null pointer or outside the chunk, the result is \<open>None\<close>.
\<close>

definition pool_get_unchecked :: "OverflowPool \<Rightarrow> u64 \<Rightarrow> HashBucket option" where
  "pool_get_unchecked p oid =
     (let zero_based = unat (oid - 1)
      in if chunk_idx zero_based < MAX_CHUNKS then
           case chunks p (chunk_idx zero_based) of
             None \<Rightarrow> None
           | Some c \<Rightarrow> if slot_idx zero_based < length c then Some (c ! slot_idx zero_based) else None
         else None)"

definition pool_get :: "OverflowPool \<Rightarrow> u64 \<Rightarrow> HashBucket option" where
  "pool_get p oid =
     (if oid = 0 \<or> allocated p < oid then None
      else let zero_based = unat (oid - 1)
           in if chunk_idx zero_based < MAX_CHUNKS then
                case chunks p (chunk_idx zero_based) of
                  None \<Rightarrow> None
                | Some c \<Rightarrow> if slot_idx zero_based < length c then Some (c ! slot_idx zero_based) else None
              else None)"

text \<open>A store through a reference to the bucket of an identifier.\<close>

definition pool_put :: "OverflowPool \<Rightarrow> u64 \<Rightarrow> HashBucket \<Rightarrow> OverflowPool" where
  "pool_put p oid b =
     (let zero_based = unat (oid - 1)
      in case chunks p (chunk_idx zero_based) of
           None \<Rightarrow> p
         | Some c \<Rightarrow> p\<lparr>chunks := (chunks p)(chunk_idx zero_based := Some (c[slot_idx zero_based := b]))\<rparr>)"

definition ensure_chunk :: "OverflowPool \<Rightarrow> nat \<Rightarrow> (index_error, unit) res \<times> OverflowPool" where
  "ensure_chunk p i =
     (if MAX_CHUNKS \<le> i then (Inl OverflowPoolExhausted, p)
      else if \<not> Option.is_none (chunks p i) then (Inr (), p)
      else (Inr (), p\<lparr>chunks := (chunks p)(i := Some (replicate CHUNK_SIZE bucket_new))\<rparr>))"

text \<open>The next value of the free head: the generation tag in the upper half steps by one and wraps.\<close>

definition next_head :: "u64 \<Rightarrow> u64 \<Rightarrow> u64" where
  "next_head head oid =
     (let tag = (ucast (drop_bit 32 head) :: u32) in push_bit 32 (ucast (tag + 1)) OR oid)"

definition allocate_fresh :: "OverflowPool \<Rightarrow> (index_error, u64) res \<times> OverflowPool" where
  "allocate_fresh p =
     (let prev = allocated p; oid = prev + 1; p1 = p\<lparr>allocated := prev + 1\<rparr>; i = chunk_idx (unat prev)
      in if MAX_CHUNKS \<le> i then (Inl OverflowPoolExhausted, p1\<lparr>allocated := allocated p1 - 1\<rparr>)
         else if Option.is_none (chunks p1 i) then
           case ensure_chunk p1 i of
             (Inl e, p2) \<Rightarrow> (Inl e, p2\<lparr>allocated := allocated p2 - 1\<rparr>)
           | (Inr _, p2) \<Rightarrow> (Inr oid, p2)
         else (Inr oid, p1))"

definition pool_allocate :: "OverflowPool \<Rightarrow> (index_error, u64) res \<times> OverflowPool" where
  "pool_allocate p =
     (let head_id = free_head p AND FREE_LIST_ID_MASK
      in if head_id \<noteq> 0 then
           case pool_get p head_id of
             Some b \<Rightarrow>
               let next_id = entries b ! 0 AND FREE_LIST_ID_MASK;
                   p1 = p\<lparr>free_head := next_head (free_head p) next_id\<rparr>;
                   p2 = pool_put p1 head_id (b\<lparr>entries := (entries b)[0 := 0]\<rparr>)
               in (Inr head_id, p2\<lparr>free_count := free_count p2 - 1\<rparr>)
           | None \<Rightarrow> allocate_fresh p
         else allocate_fresh p)"

definition pool_free :: "OverflowPool \<Rightarrow> u64 \<Rightarrow> OverflowPool" where
  "pool_free p oid =
     (if oid = 0 \<or> allocated p < oid then p
      else case pool_get p oid of
        None \<Rightarrow> p
      | Some b \<Rightarrow>
          let b1 = b\<lparr>entries := map (\<lambda>_. 0) (entries b)\<rparr>;
              head_id = free_head p AND FREE_LIST_ID_MASK;
              b2 = b1\<lparr>entries := (entries b1)[0 := head_id]\<rparr>;
              p1 = pool_put p oid b2;
              p2 = p1\<lparr>free_head := next_head (free_head p) (oid AND FREE_LIST_ID_MASK)\<rparr>
          in p2\<lparr>free_count := free_count p2 + 1\<rparr>)"

section \<open>Lemmas on buckets\<close>

definition bucket_ok :: "HashBucket \<Rightarrow> bool" where
  "bucket_ok b \<longleftrightarrow> length (entries b) = ENTRIES_PER_BUCKET"

definition data_words :: "HashBucket \<Rightarrow> u64 list" where
  "data_words b = take DATA_ENTRIES (entries b)"

lemmas bucket_consts = DATA_ENTRIES_def OVERFLOW_INDEX_def ENTRIES_PER_BUCKET_def

lemma bucket_new_ok [simp]: "bucket_ok bucket_new"
  by (simp add: bucket_ok_def bucket_new_def)

lemma bucket_new_words: "data_words bucket_new = replicate DATA_ENTRIES 0"
  by (simp add: data_words_def bucket_new_def bucket_consts)

lemma bucket_new_link: "bucket_overflow_index bucket_new = 0"
  by (simp add: bucket_overflow_index_def bucket_new_def bucket_consts overflow_index_def)

lemma length_data_words: "bucket_ok b \<Longrightarrow> length (data_words b) = DATA_ENTRIES"
  by (simp add: data_words_def bucket_ok_def ENTRIES_PER_BUCKET_def)

lemma take_enumerate: "take k (enumerate n xs) = enumerate n (take k xs)"
  by (induction xs arbitrary: n k) (simp_all add: take_Cons split: nat.split)

lemma data_slots_words: "data_slots b = enumerate 0 (data_words b)"
  by (simp add: data_slots_def data_words_def take_enumerate)

lemma find_map_enumerate:
  "find_map (\<lambda>(_, x). f x) (enumerate n xs) = find_map f xs"
  by (induction xs arbitrary: n) (simp_all split: option.split)

lemma find_map_None: "find_map f xs = None \<longleftrightarrow> (\<forall>x \<in> set xs. f x = None)"
  by (induction xs) (auto split: option.splits)

lemma find_map_Some: "find_map f xs = Some r \<Longrightarrow> \<exists>x \<in> set xs. f x = Some r"
  by (induction xs) (auto split: option.splits)

lemma find_map_append: "find_map f (xs @ ys) = (case find_map f xs of Some r \<Rightarrow> Some r | None \<Rightarrow> find_map f ys)"
  by (induction xs) (auto split: option.splits)

text \<open>A hit of the tag scan is genuine whatever happens to the slot between its two reads.\<close>

lemma tag_check_slot_Some:
  "unat tag < 2 ^ 15 \<Longrightarrow> tag_check_slot raw synced (ucast tag AND TAG_MASK) = Some a \<Longrightarrow>
     matches_tag synced tag \<and> a = entry_address synced"
  by (auto simp: tag_check_slot_def matches_tag_def entry_address_def Let_def split: if_splits)

lemma tag_check_slot_quiet:
  "tag_check_slot raw raw (ucast tag AND TAG_MASK) =
     (if matches_tag raw tag then Some (entry_address raw) else None)"
  by (auto simp: tag_check_slot_def matches_tag_def entry_address_def Let_def)

lemma find_tag_address_words:
  "find_tag_address b tag =
     find_map (\<lambda>raw. if matches_tag raw tag then Some (entry_address raw) else None) (data_words b)"
  by (simp add: find_tag_address_def data_slots_words tag_check_slot_quiet
      find_map_enumerate [where f = "\<lambda>raw. if matches_tag raw tag then Some (entry_address raw) else None"])

lemma find_slot_None:
  "find_map (\<lambda>(i, x). if P x then Some (f i x) else None) (enumerate n xs) = None \<longleftrightarrow> (\<forall>x \<in> set xs. \<not> P x)"
  by (induction xs arbitrary: n) auto

lemma find_slot_Some:
  "find_map (\<lambda>(i, x). if P x then Some (f i x) else None) (enumerate n xs) = Some r \<Longrightarrow>
     \<exists>i < length xs. P (xs ! i) \<and> r = f (n + i) (xs ! i)"
proof (induction xs arbitrary: n)
  case (Cons x xs)
  show ?case
  proof (cases "P x")
    case True
    with Cons.prems show ?thesis by force
  next
    case False
    with Cons.prems Cons.IH [of "Suc n"] obtain i where
      "i < length xs" "P (xs ! i)" "r = f (Suc n + i) (xs ! i)" by auto
    then show ?thesis by (intro exI [of _ "Suc i"]) simp
  qed
qed simp

lemma find_empty_slot_None: "find_empty_slot b = None \<longleftrightarrow> 0 \<notin> set (data_words b)"
  by (auto simp: find_empty_slot_def data_slots_words find_slot_None)

lemma find_empty_slot_Some:
  "find_empty_slot b = Some i \<Longrightarrow> i < length (data_words b) \<and> data_words b ! i = 0"
  by (auto simp: find_empty_slot_def data_slots_words
      dest!: find_slot_Some [where f = "\<lambda>i _. i" and P = "\<lambda>x. x = 0"])

lemma entry_check_slot_quiet:
  "entry_check_slot raw raw target i = (if raw = target \<and> raw \<noteq> 0 then Some (i, raw) else None)"
  by (auto simp: entry_check_slot_def)

lemma find_entry_by_address_None:
  "find_entry_by_address b tag a = None \<longleftrightarrow>
     entry_new a tag False = 0 \<or> entry_new a tag False \<notin> set (data_words b)"
  by (auto simp: find_entry_by_address_def data_slots_words entry_check_slot_quiet
      find_slot_None [where f = Pair and P = "\<lambda>x. x = entry_new a tag False \<and> x \<noteq> 0"])

lemma find_entry_by_address_Some:
  "find_entry_by_address b tag a = Some (i, e) \<Longrightarrow>
     i < length (data_words b) \<and> data_words b ! i = e \<and> e = entry_new a tag False \<and> e \<noteq> 0"
  by (auto simp: find_entry_by_address_def data_slots_words entry_check_slot_quiet
      dest!: find_slot_Some [where f = Pair and P = "\<lambda>x. x = entry_new a tag False \<and> x \<noteq> 0"])

text \<open>What a store into a data slot or into the link does to a bucket.\<close>

lemma data_words_nth: "i < DATA_ENTRIES \<Longrightarrow> data_words b ! i = entries b ! i"
  by (simp add: data_words_def)

lemma store_slot:
  fixes b v i
  assumes "bucket_ok b" and "i < DATA_ENTRIES"
  shows "bucket_ok (b\<lparr>entries := (entries b)[i := v]\<rparr>)"
    "data_words (b\<lparr>entries := (entries b)[i := v]\<rparr>) = (data_words b)[i := v]"
    "bucket_overflow_index (b\<lparr>entries := (entries b)[i := v]\<rparr>) = bucket_overflow_index b"
  using assms
  by (simp_all add: bucket_ok_def data_words_def take_update_swap bucket_overflow_index_def
      OVERFLOW_INDEX_def)

lemma overflow_index_or: "overflow_index w = 0 \<Longrightarrow> overflow_index (w OR (a AND ADDRESS_MASK)) = a AND ADDRESS_MASK"
  by (simp add: overflow_index_def bit.conj_disj_distrib2 and.assoc)

lemma set_link:
  assumes "bucket_ok b" and "bucket_overflow_index b = 0" and "a \<noteq> 0" and "a AND ADDRESS_MASK = a"
  shows "\<exists>b'. bucket_set_overflow_index b a = (True, b') \<and> bucket_ok b' \<and>
     data_words b' = data_words b \<and> bucket_overflow_index b' = a"
proof -
  have "entries b ! OVERFLOW_INDEX AND ADDRESS_MASK = 0"
    using assms(2) by (simp add: bucket_overflow_index_def overflow_index_def)
  then have "set_overflow_index (entries b ! OVERFLOW_INDEX) a = (True, entries b ! OVERFLOW_INDEX OR a)"
    using assms(3,4) by (simp add: set_overflow_index_def)
  then show ?thesis
    using assms overflow_index_or [of "entries b ! OVERFLOW_INDEX" a]
    by (simp add: bucket_set_overflow_index_def bucket_ok_def data_words_def bucket_overflow_index_def
        bucket_consts)
qed

section \<open>Lemmas on the pool\<close>

text \<open>The bucket at a zero-based position, whatever the counters say.\<close>

definition pool_at :: "OverflowPool \<Rightarrow> nat \<Rightarrow> HashBucket option" where
  "pool_at p z =
     (case chunks p (chunk_idx z) of
        None \<Rightarrow> None
      | Some c \<Rightarrow> if slot_idx z < length c then Some (c ! slot_idx z) else None)"

definition pool_capacity :: nat where
  "pool_capacity = MAX_CHUNKS * CHUNK_SIZE"

definition pool_ok :: "OverflowPool \<Rightarrow> bool" where
  "pool_ok p \<longleftrightarrow>
     unat (allocated p) \<le> pool_capacity \<and>
     (\<forall>i c. chunks p i = Some c \<longrightarrow> length c = CHUNK_SIZE) \<and>
     (\<forall>z. z < unat (allocated p) \<longrightarrow> (\<exists>b. pool_at p z = Some b \<and> bucket_ok b)) \<and>
     (\<forall>z. unat (allocated p) \<le> z \<longrightarrow> pool_at p z = None \<or> pool_at p z = Some bucket_new)"

lemma pool_ok_live: "pool_ok p \<Longrightarrow> z < unat (allocated p) \<Longrightarrow> \<exists>b. pool_at p z = Some b \<and> bucket_ok b"
  unfolding pool_ok_def by blast

lemma pool_ok_fresh:
  "pool_ok p \<Longrightarrow> unat (allocated p) \<le> z \<Longrightarrow> pool_at p z = None \<or> pool_at p z = Some bucket_new"
  unfolding pool_ok_def by blast

lemma pool_capacity_eq: "pool_capacity = 4194304"
  by (simp add: pool_capacity_def MAX_CHUNKS_def CHUNK_SIZE_def CHUNK_BITS_def)

lemma chunk_idx_div: "chunk_idx z = z div CHUNK_SIZE"
  by (simp add: chunk_idx_def CHUNK_SIZE_def drop_bit_eq_div)

lemma slot_idx_mod: "slot_idx z = z mod CHUNK_SIZE"
proof -
  have "CHUNK_MASK = mask CHUNK_BITS" by (simp add: CHUNK_MASK_def CHUNK_SIZE_def mask_eq_exp_minus_1)
  then show ?thesis unfolding slot_idx_def CHUNK_SIZE_def by (metis take_bit_eq_mask take_bit_eq_mod)
qed

lemma CHUNK_SIZE_pos [simp]: "0 < CHUNK_SIZE"
  by (simp add: CHUNK_SIZE_def)

lemma slot_idx_less [simp]: "slot_idx z < CHUNK_SIZE"
  by (simp add: slot_idx_mod)

lemma chunk_slot_eq: "chunk_idx z = chunk_idx y \<Longrightarrow> slot_idx z = slot_idx y \<Longrightarrow> z = y"
  by (metis chunk_idx_div slot_idx_mod div_mult_mod_eq)

lemma chunk_idx_less: "z < pool_capacity \<Longrightarrow> chunk_idx z < MAX_CHUNKS"
  by (simp add: chunk_idx_div pool_capacity_def less_mult_imp_div_less)

lemma chunk_idx_ge: "pool_capacity \<le> z \<Longrightarrow> MAX_CHUNKS \<le> chunk_idx z"
  by (simp add: chunk_idx_div pool_capacity_def less_eq_div_iff_mult_less_eq)

lemma unat_pred: "oid \<noteq> 0 \<Longrightarrow> unat (oid - 1 :: u64) = unat oid - 1"
  by (simp add: unat_minus_one)

lemma pool_get_at:
  assumes "pool_ok p"
  shows "pool_get p oid = (if oid = 0 \<or> allocated p < oid then None else pool_at p (unat oid - 1))"
proof (cases "oid = 0 \<or> allocated p < oid")
  case False
  then have "unat oid \<le> unat (allocated p)" by (simp add: word_le_nat_alt [symmetric] not_less)
  with False assms have "unat oid - 1 < pool_capacity"
    using unat_gt_0 [of oid] by (auto simp: pool_ok_def)
  with False show ?thesis
    by (simp add: pool_get_def Let_def unat_pred chunk_idx_less pool_at_def)
qed (simp add: pool_get_def)

lemma pool_get_unchecked_at:
  assumes "pool_ok p" and "oid \<noteq> 0" and "oid \<le> allocated p"
  shows "pool_get_unchecked p oid = pool_at p (unat oid - 1)"
proof -
  have "unat oid - 1 < pool_capacity"
    using assms unat_gt_0 [of oid] by (auto simp: pool_ok_def word_le_nat_alt)
  with assms show ?thesis by (simp add: pool_get_unchecked_def Let_def unat_pred chunk_idx_less pool_at_def)
qed

text \<open>
  What the source states next to the unchecked access: an identifier between one and the counter
  always resolves, to the bucket the checked access returns.
\<close>

lemma pool_get_unchecked_safe:
  assumes "pool_ok p" and "oid \<noteq> 0" and "oid \<le> allocated p"
  shows "\<exists>b. pool_get_unchecked p oid = Some b \<and> pool_get p oid = Some b \<and> bucket_ok b"
proof -
  have "unat oid - 1 < unat (allocated p)"
    using assms(2,3) unat_gt_0 [of oid] by (simp add: word_le_nat_alt)
  with assms show ?thesis by (simp add: pool_get_unchecked_at pool_get_at pool_ok_def not_less)
qed

lemma pool_at_put:
  assumes "pool_ok p" and "oid \<noteq> 0"
  shows "pool_at (pool_put p oid b) z =
    (if z = unat oid - 1 \<and> pool_at p z \<noteq> None then Some b else pool_at p z)"
  using assms chunk_slot_eq [of z "unat oid - 1"]
  by (auto simp: pool_put_def pool_at_def Let_def unat_pred pool_ok_def nth_list_update split: option.split)

lemma pool_put_fields [simp]:
  "allocated (pool_put p oid b) = allocated p" "free_head (pool_put p oid b) = free_head p"
  "free_count (pool_put p oid b) = free_count p"
  by (simp_all add: pool_put_def Let_def split: option.split)

lemma pool_put_ok:
  assumes "pool_ok p" and "oid \<noteq> 0" and "oid \<le> allocated p" and "bucket_ok b"
  shows "pool_ok (pool_put p oid b)"
proof -
  have "unat oid - 1 < unat (allocated p)"
    using assms(2,3) unat_gt_0 [of oid] by (simp add: word_le_nat_alt)
  moreover have "chunks (pool_put p oid b) i = Some c \<Longrightarrow> length c = CHUNK_SIZE" for i c
    using assms(1) by (auto simp: pool_put_def Let_def pool_ok_def split: option.splits if_splits)
  ultimately show ?thesis
    using assms by (auto simp: pool_ok_def pool_at_put [OF assms(1,2)])
qed

subsection \<open>The free stack\<close>

primrec free_path :: "OverflowPool \<Rightarrow> u64 \<Rightarrow> u64 list \<Rightarrow> bool" where
  "free_path p h [] \<longleftrightarrow> h = 0"
| "free_path p h (oid # fs) \<longleftrightarrow>
     h = oid \<and> oid \<noteq> 0 \<and> oid \<le> allocated p \<and>
     (\<exists>x. pool_at p (unat oid - 1) = Some \<lparr>entries = x # replicate DATA_ENTRIES 0\<rparr> \<and>
          free_path p (x AND FREE_LIST_ID_MASK) fs)"

definition pool_inv :: "OverflowPool \<Rightarrow> u64 list \<Rightarrow> bool" where
  "pool_inv p fs \<longleftrightarrow>
     pool_ok p \<and> free_path p (free_head p AND FREE_LIST_ID_MASK) fs \<and> distinct fs \<and>
     free_count p = of_nat (length fs)"

lemma free_path_live: "free_path p h fs \<Longrightarrow> oid \<in> set fs \<Longrightarrow> oid \<noteq> 0 \<and> oid \<le> allocated p"
  by (induction fs arbitrary: h) auto

lemma free_path_cong:
  "free_path p h fs \<Longrightarrow> allocated p \<le> allocated q \<Longrightarrow>
     (\<And>oid. oid \<in> set fs \<Longrightarrow> pool_at q (unat oid - 1) = pool_at p (unat oid - 1)) \<Longrightarrow> free_path q h fs"
  by (induction fs arbitrary: h) fastforce+

lemma unat_id_inj: "oid \<noteq> 0 \<Longrightarrow> oid' \<noteq> 0 \<Longrightarrow> unat oid - 1 = unat oid' - 1 \<Longrightarrow> oid = (oid' :: u64)"
  by (metis unat_pred word_unat_eq_iff diff_add_cancel)

lemma pool_new_inv [simp]: "pool_inv pool_new []"
  by (simp add: pool_inv_def pool_ok_def pool_new_def pool_at_def)

lemma FREE_LIST_ID_MASK_eq: "FREE_LIST_ID_MASK = mask 32"
  by (simp add: FREE_LIST_ID_MASK_def mask_eq_exp_minus_1)

lemma next_head_id: "next_head h i AND FREE_LIST_ID_MASK = i AND FREE_LIST_ID_MASK"
  by (rule bit_word_eqI) (auto simp: next_head_def FREE_LIST_ID_MASK_eq bit_simps)

lemma small_id: "pool_ok p \<Longrightarrow> oid \<le> allocated p \<Longrightarrow> oid AND FREE_LIST_ID_MASK = oid"
  by (rule iffD2 [OF and_mask_idem [of oid 32, folded FREE_LIST_ID_MASK_eq]])
    (auto simp: pool_ok_def word_le_nat_alt pool_capacity_eq)

lemma pool_at_upd [simp]:
  "pool_at (p\<lparr>free_head := h\<rparr>) = pool_at p" "pool_at (p\<lparr>free_count := n\<rparr>) = pool_at p"
  "pool_at (p\<lparr>allocated := a\<rparr>) = pool_at p"
  by (simp_all add: pool_at_def fun_eq_iff)

lemma pool_ok_upd [simp]:
  "pool_ok (p\<lparr>free_head := h\<rparr>) = pool_ok p" "pool_ok (p\<lparr>free_count := n\<rparr>) = pool_ok p"
  by (simp_all add: pool_ok_def)

lemma free_path_upd [simp]:
  "free_path (p\<lparr>free_head := h\<rparr>) x fs = free_path p x fs"
  "free_path (p\<lparr>free_count := n\<rparr>) x fs = free_path p x fs"
  by (induction fs arbitrary: x) simp_all

lemma pool_inv_put:
  assumes inv: "pool_inv p fs" and oid: "oid \<noteq> 0" "oid \<le> allocated p" "oid \<notin> set fs" and b: "bucket_ok b"
  shows "pool_inv (pool_put p oid b) fs"
proof -
  have p: "pool_ok p" and fp: "free_path p (free_head p AND FREE_LIST_ID_MASK) fs"
    using inv by (auto simp: pool_inv_def)
  have "free_path (pool_put p oid b) (free_head p AND FREE_LIST_ID_MASK) fs"
  proof (rule free_path_cong [OF fp])
    fix i assume "i \<in> set fs"
    then have "unat i - 1 \<noteq> unat oid - 1"
      using oid(1,3) free_path_live [OF fp] unat_id_inj [of i oid] by blast
    then show "pool_at (pool_put p oid b) (unat i - 1) = pool_at p (unat i - 1)"
      by (simp add: pool_at_put [OF p oid(1)])
  qed simp
  then show ?thesis using inv pool_put_ok [OF p oid(1,2) b] by (simp add: pool_inv_def)
qed

text \<open>Allocation pops the free stack when it is not empty; the bucket is zero again.\<close>

lemma allocate_pop:
  assumes inv: "pool_inv p (oid # fs)"
  shows "\<exists>p'. pool_allocate p = (Inr oid, p') \<and> pool_inv p' fs \<and> allocated p' = allocated p \<and>
    (\<forall>z. pool_at p' z = (if z = unat oid - 1 then Some bucket_new else pool_at p z))"
proof -
  obtain x where p: "pool_ok p" and h: "free_head p AND FREE_LIST_ID_MASK = oid"
    and oid: "oid \<noteq> 0" "oid \<le> allocated p"
    and x: "pool_at p (unat oid - 1) = Some \<lparr>entries = x # replicate DATA_ENTRIES 0\<rparr>"
    and fs: "free_path p (x AND FREE_LIST_ID_MASK) fs" "oid \<notin> set fs" "distinct fs"
    and n: "free_count p = of_nat (length fs) + 1"
    using inv by (auto simp: pool_inv_def)
  define p1 where "p1 = p\<lparr>free_head := next_head (free_head p) (x AND FREE_LIST_ID_MASK)\<rparr>"
  define p2 where "p2 = pool_put p1 oid bucket_new"
  define p' where "p' = p2\<lparr>free_count := free_count p2 - 1\<rparr>"
  have p1: "pool_ok p1" "allocated p1 = allocated p" using p by (simp_all add: p1_def)
  have at: "pool_at p' z = (if z = unat oid - 1 then Some bucket_new else pool_at p z)" for z
    using x pool_at_put [OF p1(1) oid(1)] by (auto simp: p'_def p2_def p1_def)
  have "\<lparr>entries = x # replicate DATA_ENTRIES 0\<rparr>\<lparr>entries := (x # replicate DATA_ENTRIES 0)[0 := 0]\<rparr> = bucket_new"
    by (simp add: bucket_new_def ENTRIES_PER_BUCKET_def)
  then have alloc: "pool_allocate p = (Inr oid, p')"
    using x oid p leD [OF oid(2)] by (simp add: pool_allocate_def h pool_get_at Let_def p'_def p2_def p1_def)
  have fp: "free_path p' (x AND FREE_LIST_ID_MASK) fs"
  proof (rule free_path_cong [OF fs(1)])
    show "allocated p \<le> allocated p'" by (simp add: p'_def p2_def p1_def)
    show "pool_at p' (unat i - 1) = pool_at p (unat i - 1)" if "i \<in> set fs" for i
      using that fs(2) free_path_live [OF fs(1) that] unat_id_inj [of i oid] oid(1) by (auto simp: at)
  qed
  have "pool_inv p' fs"
    using pool_put_ok [OF p1(1) oid(1), of bucket_new] oid(2) p1(2) fp fs(3) n
    by (simp add: pool_inv_def p'_def p2_def) (simp add: p1_def next_head_id and.assoc)
  then show ?thesis using alloc at by (auto simp: p'_def p2_def p1_def)
qed

text \<open>With an empty stack the counter moves on, into a chunk that exists afterwards.\<close>

lemma pool_at_ensure:
  "ensure_chunk p i = (Inr u, p') \<Longrightarrow> chunks p i = None \<Longrightarrow>
     pool_at p' z = (if chunk_idx z = i then Some bucket_new else pool_at p z)"
  by (auto simp: ensure_chunk_def pool_at_def split: if_splits)

lemma allocate_bump:
  assumes inv: "pool_inv p []" and room: "unat (allocated p) < pool_capacity"
  shows "\<exists>p'. pool_allocate p = (Inr (allocated p + 1), p') \<and> pool_inv p' [] \<and>
    unat (allocated p') = unat (allocated p) + 1 \<and> allocated p' = allocated p + 1 \<and>
    (\<forall>z < unat (allocated p). pool_at p' z = pool_at p z) \<and> pool_at p' (unat (allocated p)) = Some bucket_new"
proof -
  define n where "n = unat (allocated p)"
  have p: "pool_ok p" and h: "free_head p AND FREE_LIST_ID_MASK = 0" and c: "free_count p = 0"
    using inv by (auto simp: pool_inv_def)
  have n1: "unat (allocated p + 1) = n + 1"
    using room by (simp add: n_def unat_plus_if' pool_capacity_eq)
  have i: "chunk_idx n < MAX_CHUNKS" using room by (simp add: n_def chunk_idx_less)
  define p1 where "p1 = p\<lparr>allocated := allocated p + 1\<rparr>"
  define p' where "p' = (if chunks p (chunk_idx n) = None
    then p1\<lparr>chunks := (chunks p1)(chunk_idx n := Some (replicate CHUNK_SIZE bucket_new))\<rparr> else p1)"
  have alloc: "pool_allocate p = (Inr (allocated p + 1), p')"
    using i by (simp add: pool_allocate_def h allocate_fresh_def Let_def n_def [symmetric] ensure_chunk_def
        p'_def p1_def Option.is_none_def)
  have none: "n \<le> z" if "chunks p (chunk_idx n) = None" and "chunk_idx z = chunk_idx n" for z
  proof (rule ccontr)
    assume "\<not> n \<le> z"
    then have "pool_at p z \<noteq> None" using pool_ok_live [OF p, of z] by (auto simp: n_def)
    with that show False by (simp add: pool_at_def)
  qed
  have at: "pool_at p' z = (if chunks p (chunk_idx n) = None \<and> chunk_idx z = chunk_idx n
      then Some bucket_new else pool_at p z)" for z
    by (simp add: p'_def p1_def pool_at_def)
  have before: "pool_at p' z = pool_at p z" if "z < n" for z using none that by (force simp: at)
  have new: "pool_at p' n = Some bucket_new"
  proof (cases "chunks p (chunk_idx n)")
    case (Some c)
    with p have "pool_at p n \<noteq> None" by (auto simp: pool_at_def pool_ok_def)
    with pool_ok_fresh [OF p, of n] Some show ?thesis by (auto simp: at n_def)
  qed (simp add: at)
  have alloc': "allocated p' = allocated p + 1" by (simp add: p'_def p1_def)
  have after: "pool_at p' z = None \<or> pool_at p' z = Some bucket_new" if "n \<le> z" for z
    using pool_ok_fresh [OF p, of z] that by (simp add: at n_def)
  have len: "chunks p' j = Some c \<Longrightarrow> length c = CHUNK_SIZE" for j c
    using p by (auto simp: p'_def p1_def pool_ok_def split: if_splits)
  have "\<exists>b. pool_at p' z = Some b \<and> bucket_ok b" if "z < n + 1" for z
    using pool_ok_live [OF p, of z] that before [of z] new by (cases "z = n") (simp_all add: n_def)
  then have "pool_ok p'"
    using len after room by (auto simp: pool_ok_def alloc' n1 n_def)
  then have "pool_inv p' []"
    using h c by (simp add: pool_inv_def p'_def p1_def)
  then show ?thesis using alloc before new n1 alloc' by (auto simp: n_def)
qed

lemma allocate_exhausted:
  assumes "pool_inv p []" and "unat (allocated p) = pool_capacity"
  shows "pool_allocate p = (Inl OverflowPoolExhausted, p)"
  using assms chunk_idx_ge [of pool_capacity]
  by (simp add: pool_inv_def pool_allocate_def allocate_fresh_def Let_def)

text \<open>Freeing a bucket that is handed out pushes it.\<close>

lemma free_push:
  assumes inv: "pool_inv p fs" and oid: "oid \<noteq> 0" "oid \<le> allocated p" "oid \<notin> set fs"
  shows "pool_inv (pool_free p oid) (oid # fs)" "allocated (pool_free p oid) = allocated p"
    "\<forall>z. z \<noteq> unat oid - 1 \<longrightarrow> pool_at (pool_free p oid) z = pool_at p z"
proof -
  have p: "pool_ok p" using inv by (simp add: pool_inv_def)
  obtain b where b: "pool_get p oid = Some b" "pool_at p (unat oid - 1) = Some b" "bucket_ok b"
    using pool_get_unchecked_safe [OF p oid(1,2)] p oid by (auto simp: pool_get_at split: if_splits)
  define head where "head = free_head p AND FREE_LIST_ID_MASK"
  define b2 where "b2 = \<lparr>entries = head # replicate DATA_ENTRIES 0\<rparr>"
  define p1 where "p1 = pool_put p oid b2"
  have "map (\<lambda>_. 0 :: u64) (entries b) = 0 # replicate DATA_ENTRIES 0"
    using b(3) by (simp add: bucket_ok_def ENTRIES_PER_BUCKET_def map_replicate_const)
  then have free: "pool_free p oid = p1\<lparr>free_head := next_head (free_head p) oid, free_count := free_count p + 1\<rparr>"
    using b oid leD [OF oid(2)] small_id [OF p oid(2)]
    by (cases b) (simp add: pool_free_def Let_def head_def [symmetric] p1_def b2_def)
  have b2: "bucket_ok b2" by (simp add: b2_def bucket_ok_def ENTRIES_PER_BUCKET_def)
  have at: "pool_at p1 z = (if z = unat oid - 1 then Some b2 else pool_at p z)" for z
    using b(2) by (auto simp: p1_def pool_at_put [OF p oid(1)])
  have fs: "free_path p head fs" using inv by (simp add: pool_inv_def head_def)
  have "free_path p1 head fs"
  proof (rule free_path_cong [OF fs])
    show "pool_at p1 (unat i - 1) = pool_at p (unat i - 1)" if "i \<in> set fs" for i
      using that oid(1,3) free_path_live [OF fs that] unat_id_inj [of i oid] by (auto simp: at)
  qed (simp add: p1_def)
  moreover have "head AND FREE_LIST_ID_MASK = head" by (simp add: head_def and.assoc)
  ultimately show "pool_inv (pool_free p oid) (oid # fs)"
    using inv oid pool_put_ok [OF p oid(1,2) b2] small_id [OF p oid(2)]
    by (simp add: pool_inv_def free next_head_id at) (simp add: p1_def b2_def)
  show "allocated (pool_free p oid) = allocated p" by (simp add: free p1_def)
  show "\<forall>z. z \<noteq> unat oid - 1 \<longrightarrow> pool_at (pool_free p oid) z = pool_at p z" by (simp add: free at)
qed

section \<open>Runs of the pool\<close>

text \<open>
  The identifiers that are handed out and not freed. A holder may write its bucket; it frees only what
  it holds.
\<close>

inductive pool_run :: "OverflowPool \<Rightarrow> u64 set \<Rightarrow> bool" where
  run_new: "pool_run pool_new {}"
| run_allocate: "pool_run p out \<Longrightarrow> pool_allocate p = (Inr oid, p') \<Longrightarrow> pool_run p' (insert oid out)"
| run_exhausted: "pool_run p out \<Longrightarrow> pool_allocate p = (Inl e, p') \<Longrightarrow> pool_run p' out"
| run_free: "pool_run p out \<Longrightarrow> oid \<in> out \<Longrightarrow> pool_run (pool_free p oid) (out - {oid})"
| run_write: "pool_run p out \<Longrightarrow> oid \<in> out \<Longrightarrow> bucket_ok b \<Longrightarrow> pool_run (pool_put p oid b) out"

definition handed_out :: "OverflowPool \<Rightarrow> u64 list \<Rightarrow> u64 set" where
  "handed_out p fs = {oid. oid \<noteq> 0 \<and> oid \<le> allocated p} - set fs"

lemma allocate_cases:
  assumes "pool_inv p fs"
  obtains (pop) oid fs' where "fs = oid # fs'" | (bump) "fs = []" "unat (allocated p) < pool_capacity"
  | (full) "fs = []" "unat (allocated p) = pool_capacity"
  using assms by (cases fs) (auto simp: pool_inv_def pool_ok_def le_less)

lemma le_succ_iff: "unat (a + 1) = unat a + 1 \<Longrightarrow> oid \<le> a + 1 \<longleftrightarrow> oid \<le> a \<or> oid = (a + 1 :: u64)"
  unfolding word_le_nat_alt word_unat_eq_iff by auto

lemma allocate_handed_out:
  assumes inv: "pool_inv p fs" and a: "pool_allocate p = (r, p')"
  shows "\<exists>fs'. pool_inv p' fs' \<and> allocated p \<le> allocated p' \<and>
    (case r of Inl e \<Rightarrow> e = OverflowPoolExhausted \<and> p' = p \<and> fs' = fs \<and> unat (allocated p) = pool_capacity
     | Inr oid \<Rightarrow> oid \<notin> handed_out p fs \<and> oid \<noteq> 0 \<and> oid \<le> allocated p' \<and>
         handed_out p' fs' = insert oid (handed_out p fs) \<and> pool_at p' (unat oid - 1) = Some bucket_new \<and>
         (\<forall>j \<in> handed_out p fs. pool_at p' (unat j - 1) = pool_at p (unat j - 1)))"
  using inv
proof (cases rule: allocate_cases)
  case (pop oid fs')
  then have "oid \<noteq> 0" "oid \<le> allocated p" "oid \<notin> set fs'"
    using inv by (auto simp: pool_inv_def)
  moreover obtain "r = Inr oid" "pool_inv p' fs'" "allocated p' = allocated p"
    "\<forall>z. pool_at p' z = (if z = unat oid - 1 then Some bucket_new else pool_at p z)"
    using allocate_pop [OF inv [unfolded pop]] a by auto
  ultimately show ?thesis
    using unat_id_inj [of _ oid] by (intro exI [of _ fs']) (auto simp: pop handed_out_def)
next
  case bump
  have succ: "unat (allocated p + 1) = unat (allocated p) + 1"
    using bump(2) by (simp add: unat_plus_if' pool_capacity_eq)
  obtain "r = Inr (allocated p + 1)" "pool_inv p' []" "allocated p' = allocated p + 1"
    "\<forall>z < unat (allocated p). pool_at p' z = pool_at p z" "pool_at p' (unat (allocated p)) = Some bucket_new"
    using allocate_bump [OF inv [unfolded bump(1)] bump(2)] a by auto
  moreover have "unat j - 1 < unat (allocated p)" if "j \<noteq> 0" "j \<le> allocated p" for j
    using that unat_gt_0 [of j] by (simp add: word_le_nat_alt)
  moreover have nz: "allocated p + 1 \<noteq> 0" "allocated p \<le> allocated p + 1"
    using succ by (auto simp: word_le_nat_alt word_unat_eq_iff)
  moreover have nle: "allocated p + 1 \<le> allocated p \<Longrightarrow> False"
    using succ unfolding word_le_nat_alt by linarith
  ultimately show ?thesis
    using succ le_succ_iff [OF succ] by (intro exI [of _ "[]"]) (auto simp: bump handed_out_def dest: nle)
next
  case full
  then show ?thesis using allocate_exhausted inv a by (intro exI [of _ fs]) auto
qed

lemma run_inv: "pool_run p out \<Longrightarrow> \<exists>fs. pool_inv p fs \<and> out = handed_out p fs"
proof (induction rule: pool_run.induct)
  case run_new
  have "handed_out pool_new [] = {}" by (auto simp: handed_out_def pool_new_def)
  then show ?case using pool_new_inv by blast
next
  case (run_allocate p out oid p')
  then show ?case using allocate_handed_out by fastforce
next
  case (run_exhausted p out e p')
  then show ?case using allocate_handed_out by fastforce
next
  case (run_free p out oid)
  then obtain fs where fs: "pool_inv p fs" "out = handed_out p fs" by blast
  then show ?case using run_free.hyps(2) free_push [OF fs(1), of oid]
    by (intro exI [of _ "oid # fs"]) (auto simp: handed_out_def)
next
  case (run_write p out oid b)
  then obtain fs where fs: "pool_inv p fs" "out = handed_out p fs" by blast
  then have oid: "pool_ok p" "oid \<noteq> 0" "oid \<le> allocated p" "oid \<notin> set fs"
    using run_write.hyps(2) by (auto simp: handed_out_def pool_inv_def)
  then show ?case using fs(2) pool_inv_put [OF fs(1) oid(2-4) run_write.hyps(3)]
    by (intro exI [of _ fs]) (simp add: handed_out_def)
qed

lemma card_ids: "card {oid :: u64. oid \<noteq> 0 \<and> oid \<le> a} = unat a"
proof -
  let ?ids = "{oid. oid \<noteq> 0 \<and> oid \<le> a}"
  have "unat ` ?ids = {1..unat a}"
  proof (intro equalityI subsetI)
    fix n assume "n \<in> {1..unat a}"
    moreover have "unat (word_of_nat n :: u64) = n" if "n \<le> unat a" for n
      unfolding unat_of_nat by (rule mod_less [OF le_less_trans [OF that unsigned_less]])
    ultimately show "n \<in> unat ` ?ids"
      by (intro image_eqI [of _ _ "word_of_nat n"]) (auto simp: word_le_nat_alt word_unat_eq_iff)
  qed (auto simp: word_le_nat_alt Suc_le_eq unat_gt_0)
  then show ?thesis
    using card_image [of unat ?ids] by (simp add: inj_on_def word_unat_eq_iff)
qed

lemma free_stack_length:
  assumes "pool_inv p fs"
  shows "length fs \<le> unat (allocated p)" "unat (allocated p) \<le> pool_capacity"
    "unat (free_count p) = length fs" "card (handed_out p fs) + length fs = unat (allocated p)"
proof -
  have sub: "set fs \<subseteq> {oid. oid \<noteq> 0 \<and> oid \<le> allocated p}"
    using assms free_path_live by (auto simp: pool_inv_def)
  have len: "card (set fs) = length fs" using assms by (simp add: pool_inv_def distinct_card)
  show le: "length fs \<le> unat (allocated p)"
    using card_mono [OF _ sub] by (simp add: card_ids len)
  show cap: "unat (allocated p) \<le> pool_capacity" using assms by (simp add: pool_inv_def pool_ok_def)
  show "unat (free_count p) = length fs"
    using assms le cap by (simp add: pool_inv_def unat_of_nat pool_capacity_eq)
  show "card (handed_out p fs) + length fs = unat (allocated p)"
    using sub le by (simp add: handed_out_def card_Diff_subset card_ids len)
qed

section \<open>Properties\<close>

lemma pool_hands_out_fresh_parts:
  assumes "pool_run p out" and "pool_allocate p = (Inr oid, p')"
  shows "oid \<notin> out" and "pool_get_unchecked p' oid = Some bucket_new"
    and "\<forall>j \<in> out. pool_get_unchecked p' j = pool_get_unchecked p j"
proof -
  obtain fs where fs: "pool_inv p fs" "out = handed_out p fs" using run_inv [OF assms(1)] by blast
  from allocate_handed_out [OF fs(1) assms(2)] obtain fs' where
    p': "pool_inv p' fs'" "allocated p \<le> allocated p'" and oid: "oid \<notin> out" "oid \<noteq> 0" "oid \<le> allocated p'"
    and at: "pool_at p' (unat oid - 1) = Some bucket_new"
      "\<forall>j \<in> out. pool_at p' (unat j - 1) = pool_at p (unat j - 1)"
    using fs(2) by auto
  show "oid \<notin> out" by (rule oid(1))
  have ok: "pool_ok p" "pool_ok p'" using fs p' by (simp_all add: pool_inv_def)
  show "pool_get_unchecked p' oid = Some bucket_new"
    using at(1) pool_get_unchecked_at [OF ok(2) oid(2,3)] by simp
  show "\<forall>j \<in> out. pool_get_unchecked p' j = pool_get_unchecked p j"
    using at(2) p'(2) fs(2) ok by (auto simp: pool_get_unchecked_at handed_out_def)
qed

text \<open>
  C20: Whatever has been allocated, freed and written before, an allocation that succeeds hands out an
  identifier nobody holds; its bucket resolves through the unchecked access and is zero; and no bucket
  that is held changes.
\<close>

theorem pool_hands_out_fresh:
  assumes "pool_run p out" and "pool_allocate p = (Inr oid, p')"
  shows "oid \<notin> out \<and>
    pool_get_unchecked p' oid = Some bucket_new \<and>
    (\<forall>j \<in> out. pool_get_unchecked p' j = pool_get_unchecked p j)"
  using pool_hands_out_fresh_parts [OF assms] by blast

lemma pool_conservation_parts:
  assumes "pool_run p out"
  shows "unat (allocated p) = card out + unat (free_count p)"
    and "isl (fst (pool_allocate p)) \<longleftrightarrow> card out = MAX_CHUNKS * CHUNK_SIZE"
    and "fst (pool_allocate p) = Inl OverflowPoolExhausted \<longleftrightarrow> card out = MAX_CHUNKS * CHUNK_SIZE"
proof -
  obtain fs where fs: "pool_inv p fs" and out: "out = handed_out p fs" using run_inv [OF assms] by blast
  note len = free_stack_length [OF fs]
  show "unat (allocated p) = card out + unat (free_count p)" using len out by simp
  have "(isl (fst (pool_allocate p)) \<longleftrightarrow> card out = pool_capacity) \<and>
      (fst (pool_allocate p) = Inl OverflowPoolExhausted \<longleftrightarrow> card out = pool_capacity)"
    using fs
  proof (cases rule: allocate_cases)
    case (pop oid fs')
    then have "card out \<noteq> pool_capacity" using len out by auto
    then show ?thesis using allocate_pop [OF fs [unfolded pop]] by auto
  next
    case bump
    then show ?thesis using allocate_bump [of p] fs len out by auto
  next
    case full
    then show ?thesis using allocate_exhausted [of p] fs len out by auto
  qed
  then show "isl (fst (pool_allocate p)) \<longleftrightarrow> card out = MAX_CHUNKS * CHUNK_SIZE"
    and "fst (pool_allocate p) = Inl OverflowPoolExhausted \<longleftrightarrow> card out = MAX_CHUNKS * CHUNK_SIZE"
    by (simp_all add: pool_capacity_def)
qed

text \<open>
  The conservation law stated next to \<open>free_count\<close>: in every quiescent state the number of
  identifiers ever allocated is the number held plus the length of the free stack; and allocation
  fails only with the pool at its capacity and every bucket held.
\<close>

theorem pool_conservation:
  assumes "pool_run p out"
  shows "unat (allocated p) = card out + unat (free_count p) \<and>
    (isl (fst (pool_allocate p)) \<longleftrightarrow> card out = MAX_CHUNKS * CHUNK_SIZE) \<and>
    (fst (pool_allocate p) = Inl OverflowPoolExhausted \<longleftrightarrow> card out = MAX_CHUNKS * CHUNK_SIZE)"
  using pool_conservation_parts [OF assms] by blast

section \<open>Witnesses\<close>

text \<open>Two allocations, then the first bucket is freed and handed out again.\<close>

lemma pool_run_example:
  fixes p1 p2 p3
  defines "p1 \<equiv> snd (pool_allocate pool_new)" and "p2 \<equiv> snd (pool_allocate p1)"
    and "p3 \<equiv> pool_free p2 1"
  shows "pool_run p3 {2}" "pool_allocate p3 = (Inr 1, snd (pool_allocate p3))"
proof -
  have "pool_allocate pool_new = (Inr 1, p1)" and p1: "pool_inv p1 []" "allocated p1 = 1"
    using allocate_bump [OF pool_new_inv] by (auto simp: p1_def pool_new_def pool_capacity_eq)
  then have r1: "pool_run p1 {1}" using run_allocate [OF run_new] by simp
  have "pool_allocate p1 = (Inr 2, p2)" and p2: "pool_inv p2 []" "allocated p2 = 2"
    using allocate_bump [OF p1(1)] p1(2) by (auto simp: p2_def pool_capacity_eq)
  then have r2: "pool_run p2 {2, 1}" using run_allocate [OF r1] by simp
  show "pool_run p3 {2}" using run_free [OF r2, of 1] by (simp add: p3_def insert_Diff_if)
  have "pool_inv p3 [1]" using free_push [OF p2(1), of 1] p2(2) by (simp add: p3_def)
  then show "pool_allocate p3 = (Inr 1, snd (pool_allocate p3))" using allocate_pop by fastforce
qed

theorem pool_hands_out_fresh_witness:
  "let p = pool_free (snd (pool_allocate (snd (pool_allocate pool_new)))) 1; p' = snd (pool_allocate p)
   in (1 :: u64) \<notin> {2} \<and> pool_get_unchecked p' 1 = Some bucket_new \<and>
      pool_get_unchecked p' 2 = pool_get_unchecked p 2"
  using pool_hands_out_fresh [OF pool_run_example] by (simp add: Let_def)

theorem pool_conservation_witness:
  "let p = pool_free (snd (pool_allocate (snd (pool_allocate pool_new)))) 1
   in unat (allocated p) = card {2 :: u64} + unat (free_count p) \<and> \<not> isl (fst (pool_allocate p))"
  using pool_conservation [OF pool_run_example(1)]
  by (simp add: Let_def MAX_CHUNKS_def CHUNK_SIZE_def CHUNK_BITS_def)

end
