(* ===== verification/Candidates.thy ===== *)
theory Candidates
  imports Wedb_Prelude "HOL-Library.Multiset"
begin

text \<open>
  The small vector of candidate addresses (\<open>windex/src/candidate.rs\<close>): eight inline slots and a heap
  list for the rest. The abstraction \<open>cand_list\<close> is the sequence its iterator yields; every operation is
  the list operation on it.
\<close>

section \<open>Model\<close>

record CandidateAddresses =
  cand_buf :: "u64 list"
  cand_len :: u8
  cand_extra :: "u64 list"

definition cand_new :: CandidateAddresses where
  "cand_new = \<lparr>cand_buf = replicate 8 0, cand_len = 0, cand_extra = []\<rparr>"

definition cand_push :: "CandidateAddresses \<Rightarrow> u64 \<Rightarrow> CandidateAddresses" where
  "cand_push c addr =
     (if unat (cand_len c) < length (cand_buf c)
      then c\<lparr>cand_buf := (cand_buf c)[unat (cand_len c) := addr], cand_len := cand_len c + 1\<rparr>
      else c\<lparr>cand_extra := cand_extra c @ [addr]\<rparr>)"

definition cand_is_empty :: "CandidateAddresses \<Rightarrow> bool" where
  "cand_is_empty c \<longleftrightarrow> cand_len c = 0"

definition cand_length :: "CandidateAddresses \<Rightarrow> nat" where
  "cand_length c = unat (cand_len c) + length (cand_extra c)"

definition cand_iter :: "CandidateAddresses \<Rightarrow> u64 list" where
  "cand_iter c = take (unat (cand_len c)) (cand_buf c) @ cand_extra c"

definition cand_contains :: "CandidateAddresses \<Rightarrow> u64 \<Rightarrow> bool" where
  "cand_contains c addr \<longleftrightarrow>
     addr \<in> set (take (unat (cand_len c)) (cand_buf c)) \<or> addr \<in> set (cand_extra c)"

text \<open>\<open>sort_unstable_by(|a, b| b.cmp(a))\<close> on plain integers.\<close>

definition sort_desc :: "u64 list \<Rightarrow> u64 list" where
  "sort_desc xs = rev (sort xs)"

definition swap_01 :: "u64 list \<Rightarrow> u64 list" where
  "swap_01 xs = xs[0 := xs ! 1, 1 := xs ! 0]"

definition sort_descending :: "CandidateAddresses \<Rightarrow> CandidateAddresses" where
  "sort_descending c =
     (let n = unat (cand_len c)
      in if cand_extra c = [] then
           if n = 0 \<or> n = 1 then c
           else if n = 2 then
             if cand_buf c ! 0 < cand_buf c ! 1 then c\<lparr>cand_buf := swap_01 (cand_buf c)\<rparr> else c
           else c\<lparr>cand_buf := sort_desc (take n (cand_buf c)) @ drop n (cand_buf c)\<rparr>
         else
           let extra = sort_desc (cand_extra c @ take n (cand_buf c));
               main_len = min (length (cand_buf c)) (length extra)
           in c\<lparr>cand_buf := take main_len extra @ drop main_len (cand_buf c),
                cand_extra := drop main_len extra, cand_len := of_nat main_len\<rparr>)"

text \<open>Indexing panics outside the vector; the panic is \<open>None\<close>.\<close>

definition cand_index :: "CandidateAddresses \<Rightarrow> nat \<Rightarrow> u64 option" where
  "cand_index c i =
     (let n = unat (cand_len c)
      in if i < n then if i < length (cand_buf c) then Some (cand_buf c ! i) else None
         else if i - n < length (cand_extra c) then Some (cand_extra c ! (i - n)) else None)"

definition cand_eq :: "CandidateAddresses \<Rightarrow> CandidateAddresses \<Rightarrow> bool" where
  "cand_eq c d \<longleftrightarrow>
     cand_length c = cand_length d \<and> list_all (\<lambda>(a, b). a = b) (zip (cand_iter c) (cand_iter d))"

text \<open>The owning iterator: it remembers the next position and the end.\<close>

record CandidateIntoIter =
  ci_candidates :: CandidateAddresses
  ci_start :: nat
  ci_end :: nat

definition cand_into_iter :: "CandidateAddresses \<Rightarrow> CandidateIntoIter" where
  "cand_into_iter c = \<lparr>ci_candidates = c, ci_start = 0, ci_end = cand_length c\<rparr>"

definition ci_next :: "CandidateIntoIter \<Rightarrow> (u64 option \<times> CandidateIntoIter) option" where
  "ci_next it =
     (if ci_end it \<le> ci_start it then Some (None, it)
      else case cand_index (ci_candidates it) (ci_start it) of
        None \<Rightarrow> None
      | Some val \<Rightarrow> Some (Some val, it\<lparr>ci_start := ci_start it + 1\<rparr>))"

function ci_collect :: "CandidateIntoIter \<Rightarrow> u64 list option" where
  "ci_collect it =
     (case ci_next it of
        None \<Rightarrow> None
      | Some (None, _) \<Rightarrow> Some []
      | Some (Some v, it') \<Rightarrow> map_option ((#) v) (ci_collect it'))"
  by pat_completeness auto
termination
  by (relation "measure (\<lambda>it. ci_end it - ci_start it)")
    (auto simp: ci_next_def split: if_splits option.splits)

declare ci_collect.simps [simp del]

section \<open>Lemmas\<close>

definition cand_ok :: "CandidateAddresses \<Rightarrow> bool" where
  "cand_ok c \<longleftrightarrow>
     length (cand_buf c) = 8 \<and> unat (cand_len c) \<le> 8 \<and> (cand_extra c \<noteq> [] \<longrightarrow> unat (cand_len c) = 8)"

lemma cand_new_ok [simp]: "cand_ok cand_new" "cand_iter cand_new = []"
  by (simp_all add: cand_ok_def cand_iter_def cand_new_def)

lemma unat_succ_len: "unat (n :: u8) < 8 \<Longrightarrow> unat (n + 1) = unat n + 1"
  by (simp add: unat_plus_if')

lemma cand_push_ok: "cand_ok c \<Longrightarrow> cand_ok (cand_push c a)"
  by (auto simp: cand_ok_def cand_push_def unat_succ_len)

lemma cand_push_iter: "cand_ok c \<Longrightarrow> cand_iter (cand_push c a) = cand_iter c @ [a]"
  by (auto simp: cand_ok_def cand_push_def cand_iter_def unat_succ_len take_Suc_conv_app_nth
      nth_list_update)

lemma cand_length_iter: "cand_ok c \<Longrightarrow> cand_length c = length (cand_iter c)"
  by (simp add: cand_ok_def cand_length_def cand_iter_def)

lemma cand_is_empty_iter: "cand_ok c \<Longrightarrow> cand_is_empty c \<longleftrightarrow> cand_iter c = []"
  by (auto simp: cand_ok_def cand_is_empty_def cand_iter_def unat_eq_zero)

lemma cand_contains_iter: "cand_contains c a \<longleftrightarrow> a \<in> set (cand_iter c)"
  by (simp add: cand_contains_def cand_iter_def)

lemma cand_index_iter:
  "cand_ok c \<Longrightarrow> cand_index c i = (if i < length (cand_iter c) then Some (cand_iter c ! i) else None)"
  by (auto simp: cand_ok_def cand_index_def cand_iter_def nth_append)

lemma cand_eq_iter: "cand_ok c \<Longrightarrow> cand_ok d \<Longrightarrow> cand_eq c d \<longleftrightarrow> cand_iter c = cand_iter d"
  by (auto simp: cand_eq_def cand_length_iter list_all_iff list_eq_iff_zip_eq)

lemma cand_fold: "cand_ok c \<Longrightarrow> cand_ok (fold (\<lambda>a c. cand_push c a) as c) \<and>
    cand_iter (fold (\<lambda>a c. cand_push c a) as c) = cand_iter c @ as"
  by (induction as arbitrary: c) (simp_all add: cand_push_ok cand_push_iter)

lemma sort_desc_unique: "sorted (rev ys) \<Longrightarrow> mset ys = mset xs \<Longrightarrow> ys = sort_desc xs"
  unfolding sort_desc_def by (metis properties_for_sort mset_rev rev_rev_ident)

lemma ci_collect_from:
  "cand_ok c \<Longrightarrow> ci_collect \<lparr>ci_candidates = c, ci_start = k, ci_end = cand_length c\<rparr> = Some (drop k (cand_iter c))"
proof (induction "cand_length c - k" arbitrary: k)
  case 0
  then show ?case by (subst ci_collect.simps) (simp add: ci_next_def cand_length_iter)
next
  case (Suc n)
  then have k: "k < length (cand_iter c)" using cand_length_iter [OF Suc.prems] by simp
  have "ci_collect \<lparr>ci_candidates = c, ci_start = k + 1, ci_end = cand_length c\<rparr> = Some (drop (k + 1) (cand_iter c))"
    using Suc by (intro Suc.hyps) simp_all
  then show ?case
    using k Suc.prems by (subst ci_collect.simps)
      (simp add: ci_next_def cand_length_iter cand_index_iter Cons_nth_drop_Suc)
qed

lemma sort_descending_iter:
  assumes "cand_ok c"
  shows "cand_ok (sort_descending c) \<and> cand_iter (sort_descending c) = sort_desc (cand_iter c)"
proof -
  define n where "n = unat (cand_len c)"
  have c: "length (cand_buf c) = 8" "n \<le> 8" using assms by (auto simp: cand_ok_def n_def)
  consider (extra) "cand_extra c \<noteq> []" | (small) "cand_extra c = []" "n \<le> 1"
    | (two) "cand_extra c = []" "n = 2" | (many) "cand_extra c = []" "2 < n" by linarith
  then show ?thesis
  proof cases
    case extra
    then have n: "n = 8" using assms by (auto simp: cand_ok_def n_def)
    let ?e = "sort_desc (cand_extra c @ take n (cand_buf c))"
    have len: "8 \<le> length ?e" using c n by (simp add: sort_desc_def)
    then have s: "sort_descending c = c\<lparr>cand_buf := take 8 ?e, cand_extra := drop 8 ?e, cand_len := 8\<rparr>"
      using extra c by (simp add: sort_descending_def Let_def n_def [symmetric])
    have "?e = sort_desc (cand_iter c)"
      by (rule sort_desc_unique) (simp_all add: sort_desc_def cand_iter_def n_def union_commute)
    then show ?thesis using len by (simp add: s cand_ok_def) (simp add: cand_iter_def)
  next
    case small
    then have "length (cand_iter c) \<le> 1" by (simp add: cand_iter_def n_def)
    then have "cand_iter c = sort_desc (cand_iter c)"
      by (intro sort_desc_unique) (auto simp: le_Suc_eq length_Suc_conv)
    then show ?thesis using small assms by (auto simp: sort_descending_def Let_def n_def)
  next
    case two
    obtain x y r where buf: "cand_buf c = x # y # r" 
      using c(1) by (cases "cand_buf c"; cases "tl (cand_buf c)") auto
    show ?thesis
      using two assms buf sort_desc_unique [of "[x, y]" "[x, y]"] sort_desc_unique [of "[y, x]" "[x, y]"]
      by (auto simp: sort_descending_def Let_def n_def cand_iter_def cand_ok_def swap_01_def add_mset_commute
          numeral_2_eq_2)
  next
    case many
    then have "sort_descending c = c\<lparr>cand_buf := sort_desc (take n (cand_buf c)) @ drop n (cand_buf c)\<rparr>"
      by (simp add: sort_descending_def Let_def n_def)
    then show ?thesis using many c assms
      by (simp add: cand_ok_def cand_iter_def n_def sort_desc_def)
  qed
qed

section \<open>Properties\<close>

text \<open>
  The candidate vector behaves as the list its iterator yields, across the spill from the inline
  buffer to the heap: push appends, length, membership, indexing (a panic exactly outside the
  list) and equality are those of the list, the owning iterator yields it, and sorting leaves it in
  descending order with the same elements.
\<close>

theorem candidates_refine_list:
  assumes "cand_ok c" and "cand_ok d"
  shows "cand_ok (cand_push c a) \<and> cand_iter (cand_push c a) = cand_iter c @ [a] \<and>
    cand_length c = length (cand_iter c) \<and> (cand_is_empty c \<longleftrightarrow> cand_iter c = []) \<and>
    (cand_contains c a \<longleftrightarrow> a \<in> set (cand_iter c)) \<and>
    cand_index c i = (if i < length (cand_iter c) then Some (cand_iter c ! i) else None) \<and>
    (cand_eq c d \<longleftrightarrow> cand_iter c = cand_iter d) \<and>
    ci_collect (cand_into_iter c) = Some (cand_iter c) \<and>
    cand_ok (sort_descending c) \<and> cand_iter (sort_descending c) = rev (sort (cand_iter c))"
  using assms ci_collect_from [of c 0] sort_descending_iter [OF assms(1)]
  by (simp add: cand_push_ok cand_push_iter cand_length_iter cand_is_empty_iter cand_contains_iter
      cand_index_iter cand_eq_iter cand_into_iter_def sort_desc_def)

theorem candidates_refine_list_witness:
  "let c = fold (\<lambda>a c. cand_push c a) [5, 9, 2, 7, 1, 8, 3, 6, 4, 10] cand_new
   in cand_iter (sort_descending c) = [10, 9, 8, 7, 6, 5, 4, 3, 2, 1] \<and> cand_index c 9 = Some 10 \<and>
      cand_index c 10 = None \<and> ci_collect (cand_into_iter c) = Some [5, 9, 2, 7, 1, 8, 3, 6, 4, 10]"
proof -
  let ?xs = "[5, 9, 2, 7, 1, 8, 3, 6, 4, 10] :: u64 list"
  define c where "c = fold (\<lambda>a c. cand_push c a) ?xs cand_new"
  have c: "cand_ok c" "cand_iter c = ?xs" using cand_fold [of cand_new ?xs] by (simp_all only: c_def cand_new_ok) simp
  have "rev (sort ?xs) = [10, 9, 8, 7, 6, 5, 4, 3, 2, 1]" by (simp add: word_le_nat_alt)
  then show ?thesis
    using candidates_refine_list [OF c(1) c(1), of 0 9] candidates_refine_list [OF c(1) c(1), of 0 10]
    unfolding c_def [symmetric] Let_def c(2) by simp
qed

end
