(* ===== verification/IndexTable.thy ===== *)
theory IndexTable
  imports BucketPool Candidates
begin

text \<open>
  The hash index (\<open>windex/src/table.rs\<close>, \<open>buckets.rs\<close>, \<open>chain.rs\<close>, \<open>find.rs\<close>, \<open>insert.rs\<close>,
  \<open>entry_info.rs\<close>): the table of main buckets, the overflow chains, lookup, insertion, update and
  deletion.

  A reference to a bucket is a position in the main table or an identifier of the pool. Operations
  thread the index and run without interference; a handle (\<open>HashEntryInfo\<close>) may be used after other
  operations have run, and its compare-and-swap then fails if the slot has changed. An operation that
  would dereference a bucket that does not exist gives \<open>None\<close>; the lemmas show that this never happens
  to a well-formed index. A loop along a chain ends because the walker counts its steps.
\<close>

section \<open>The table\<close>

record HashBuckets =
  hb_block :: DirectVmBlock
  hb_len :: nat
  hb_mem :: "HashBucket list"

definition HASH_BUCKET_SIZE :: nat where "HASH_BUCKET_SIZE = 64"

definition checked_mul_usize :: "nat \<Rightarrow> nat \<Rightarrow> nat option" where
  "checked_mul_usize a b = (if a * b \<le> usize_max then Some (a * b) else None)"

text \<open>The pages of a new anonymous mapping read as zero.\<close>

definition buckets_new ::
  "(u64 \<Rightarrow> u64 option) \<Rightarrow> u64 \<Rightarrow> nat \<Rightarrow> striped_counter \<Rightarrow> nat \<Rightarrow>
     (index_error, HashBuckets) res \<times> striped_counter" where
  "buckets_new mmap_anon page_size thread tracker len =
     (if len = 0 then (Inl (InvalidBucketCount 0), tracker)
      else case checked_mul_usize len HASH_BUCKET_SIZE of
        None \<Rightarrow> (Inl (InvalidBucketCount len), tracker)
      | Some size_bytes \<Rightarrow>
          case vm_allocate mmap_anon page_size thread tracker (of_nat size_bytes) 64 of
            (Inl e, tracker') \<Rightarrow> (Inl (Mem e), tracker')
          | (Inr b, tracker') \<Rightarrow>
              (Inr \<lparr>hb_block = b, hb_len = len, hb_mem = replicate len bucket_new\<rparr>, tracker'))"

definition buckets_get_unchecked :: "HashBuckets \<Rightarrow> nat \<Rightarrow> HashBucket option" where
  "buckets_get_unchecked hb i = (if i < hb_len hb then Some (hb_mem hb ! i) else None)"

record HashIndex =
  buckets :: HashBuckets
  overflow_pool :: OverflowPool
  ix_size :: nat
  ix_mask :: nat

definition is_power_of_two_usize :: "nat \<Rightarrow> bool" where
  "is_power_of_two_usize n \<longleftrightarrow> list_ex (\<lambda>k. n = 2 ^ k) [0..<64]"

definition index_new ::
  "(u64 \<Rightarrow> u64 option) \<Rightarrow> u64 \<Rightarrow> nat \<Rightarrow> striped_counter \<Rightarrow> nat \<Rightarrow>
     (index_error, HashIndex) res \<times> striped_counter" where
  "index_new mmap_anon page_size thread tracker num_buckets =
     (if num_buckets = 0 \<or> \<not> is_power_of_two_usize num_buckets
      then (Inl (InvalidBucketCount num_buckets), tracker)
      else case buckets_new mmap_anon page_size thread tracker num_buckets of
        (Inl e, tracker') \<Rightarrow> (Inl e, tracker')
      | (Inr hb, tracker') \<Rightarrow>
          (Inr \<lparr>buckets = hb, overflow_pool = pool_new, ix_size = num_buckets, ix_mask = num_buckets - 1\<rparr>,
           tracker'))"

section \<open>References and chains\<close>

datatype bucket_ref = MainRef nat | OverRef u64

fun load_bucket :: "HashIndex \<Rightarrow> bucket_ref \<Rightarrow> HashBucket option" where
  "load_bucket ix (MainRef i) = buckets_get_unchecked (buckets ix) i"
| "load_bucket ix (OverRef oid) = pool_get_unchecked (overflow_pool ix) oid"

fun store_bucket :: "HashIndex \<Rightarrow> bucket_ref \<Rightarrow> HashBucket \<Rightarrow> HashIndex" where
  "store_bucket ix (MainRef i) b =
     ix\<lparr>buckets := (buckets ix)\<lparr>hb_mem := (hb_mem (buckets ix))[i := b]\<rparr>\<rparr>"
| "store_bucket ix (OverRef oid) b = ix\<lparr>overflow_pool := pool_put (overflow_pool ix) oid b\<rparr>"

definition get_bucket :: "HashIndex \<Rightarrow> nat \<Rightarrow> bucket_ref" where
  "get_bucket ix bucket_idx = MainRef (bucket_idx AND ix_mask ix)"

definition bucket_index_for_hash :: "HashIndex \<Rightarrow> u64 \<Rightarrow> nat" where
  "bucket_index_for_hash ix hash = unat hash AND ix_mask ix"

datatype ChainStep = Next | End | Cycle

definition MAX_CHAIN_STEPS :: nat where "MAX_CHAIN_STEPS = 2 ^ 22"

datatype SlotScan = Hit u64 | Free | Occupied

record ChainWalker =
  cw_curr :: bucket_ref
  cw_step :: nat

definition walker_new :: "bucket_ref \<Rightarrow> ChainWalker" where
  "walker_new start = \<lparr>cw_curr = start, cw_step = 0\<rparr>"

definition advance :: "HashIndex \<Rightarrow> ChainWalker \<Rightarrow> (ChainStep \<times> ChainWalker) option" where
  "advance ix w =
     (case load_bucket ix (cw_curr w) of
        None \<Rightarrow> None
      | Some b \<Rightarrow>
          let overflow_idx = bucket_overflow_index b
          in if overflow_idx = 0 then Some (End, w)
             else case pool_get_unchecked (overflow_pool ix) overflow_idx of
               None \<Rightarrow> None
             | Some _ \<Rightarrow>
                 let w' = \<lparr>cw_curr = OverRef overflow_idx, cw_step = cw_step w + 1\<rparr>
                 in Some (if MAX_CHAIN_STEPS \<le> cw_step w' then Cycle else Next, w'))"

definition step_result :: "ChainStep \<Rightarrow> (index_error, unit) res" where
  "step_result st =
     (case st of Next \<Rightarrow> Inr () | Cycle \<Rightarrow> Inl OverflowCycleDetected | End \<Rightarrow> Inl OverflowPoolExhausted)"

text \<open>The link that is set at the end of a chain, or given back when another thread was first.\<close>

definition extend_chain :: "HashIndex \<Rightarrow> bucket_ref \<Rightarrow> ((index_error, unit) res \<times> HashIndex) option" where
  "extend_chain ix r =
     (case load_bucket ix r of
        None \<Rightarrow> None
      | Some b \<Rightarrow>
          if bucket_overflow_index b = 0 then
            case pool_allocate (overflow_pool ix) of
              (Inl e, p') \<Rightarrow> Some (Inl e, ix\<lparr>overflow_pool := p'\<rparr>)
            | (Inr new_idx, p') \<Rightarrow>
                let ix1 = ix\<lparr>overflow_pool := p'\<rparr>
                in case load_bucket ix1 r of
                     None \<Rightarrow> None
                   | Some b1 \<Rightarrow>
                       case bucket_set_overflow_index b1 new_idx of
                         (True, b2) \<Rightarrow> Some (Inr (), store_bucket ix1 r b2)
                       | (False, _) \<Rightarrow> Some (Inr (), ix1\<lparr>overflow_pool := pool_free p' new_idx\<rparr>)
          else Some (Inr (), ix))"

definition advance_or_extend ::
  "HashIndex \<Rightarrow> ChainWalker \<Rightarrow> ((index_error, ChainWalker) res \<times> HashIndex) option" where
  "advance_or_extend ix w =
     (case advance ix w of
        None \<Rightarrow> None
      | Some (st, w1) \<Rightarrow>
          if st \<noteq> End then
            Some (case step_result st of Inl e \<Rightarrow> Inl e | Inr _ \<Rightarrow> Inr w1, ix)
          else case extend_chain ix (cw_curr w1) of
            None \<Rightarrow> None
          | Some (Inl e, ix1) \<Rightarrow> Some (Inl e, ix1)
          | Some (Inr _, ix1) \<Rightarrow>
              case advance ix1 w1 of
                None \<Rightarrow> None
              | Some (st2, w2) \<Rightarrow> Some (case step_result st2 of Inl e \<Rightarrow> Inl e | Inr _ \<Rightarrow> Inr w2, ix1))"

lemma advance_Next: "advance ix w = Some (Next, w') \<Longrightarrow> cw_step w' = cw_step w + 1 \<and> cw_step w' < MAX_CHAIN_STEPS"
  by (auto simp: advance_def Let_def split: option.splits if_splits)

lemma advance_or_extend_Inr:
  "advance_or_extend ix w = Some (Inr w', ix') \<Longrightarrow> cw_step w' = cw_step w + 1 \<and> cw_step w' < MAX_CHAIN_STEPS"
  by (auto simp: advance_or_extend_def step_result_def advance_def Let_def
      split: option.splits if_splits prod.splits sum.splits ChainStep.splits)

section \<open>Lookup\<close>

function find_tag_loop :: "HashIndex \<Rightarrow> u16 \<Rightarrow> ChainWalker \<Rightarrow> u64 option option" where
  "find_tag_loop ix tag w =
     (case load_bucket ix (cw_curr w) of
        None \<Rightarrow> None
      | Some b \<Rightarrow>
          case find_tag_address b tag of
            Some addr \<Rightarrow> Some (Some addr)
          | None \<Rightarrow>
              case advance ix w of
                None \<Rightarrow> None
              | Some (Next, w') \<Rightarrow> find_tag_loop ix tag w'
              | Some (_, _) \<Rightarrow> Some None)"
  by pat_completeness auto
termination
  by (relation "measure (\<lambda>(_, _, w). MAX_CHAIN_STEPS - cw_step w)") (auto dest!: advance_Next)

definition find_tag_by_hash :: "HashIndex \<Rightarrow> u64 \<Rightarrow> u64 option option" where
  "find_tag_by_hash ix hash =
     find_tag_loop ix (tag_from_hash hash) (walker_new (get_bucket ix (bucket_index_for_hash ix hash)))"

definition find_tag :: "(bytes \<Rightarrow> u64) \<Rightarrow> HashIndex \<Rightarrow> bytes \<Rightarrow> u64 option option" where
  "find_tag fast_hash ix key = find_tag_by_hash ix (fast_hash key)"

definition cand_check_slot :: "u64 \<Rightarrow> u64 \<Rightarrow> CandidateAddresses \<Rightarrow> CandidateAddresses" where
  "cand_check_slot raw expected_hi results =
     (if raw = 0 then results
      else if drop_bit TAG_SHIFT raw = expected_hi then
        let addr = raw AND ADDRESS_MASK in if addr \<noteq> 0 then cand_push results addr else results
      else results)"

function candidates_loop ::
  "HashIndex \<Rightarrow> u64 \<Rightarrow> CandidateAddresses \<Rightarrow> ChainWalker \<Rightarrow> CandidateAddresses option" where
  "candidates_loop ix expected_hi results w =
     (case load_bucket ix (cw_curr w) of
        None \<Rightarrow> None
      | Some b \<Rightarrow>
          let results' = fold (\<lambda>(_, item). cand_check_slot item expected_hi) (data_slots b) results
          in case advance ix w of
               None \<Rightarrow> None
             | Some (Next, w') \<Rightarrow> candidates_loop ix expected_hi results' w'
             | Some (_, _) \<Rightarrow> Some results')"
  by pat_completeness auto
termination
  by (relation "measure (\<lambda>(_, _, _, w). MAX_CHAIN_STEPS - cw_step w)") (auto dest!: advance_Next)

definition lookup_candidates_by_hash :: "HashIndex \<Rightarrow> u64 \<Rightarrow> CandidateAddresses option" where
  "lookup_candidates_by_hash ix hash =
     candidates_loop ix (ucast (tag_from_hash hash) AND TAG_MASK) cand_new
       (walker_new (get_bucket ix (bucket_index_for_hash ix hash)))"

definition lookup_candidates :: "(bytes \<Rightarrow> u64) \<Rightarrow> HashIndex \<Rightarrow> bytes \<Rightarrow> CandidateAddresses option" where
  "lookup_candidates fast_hash ix key = lookup_candidates_by_hash ix (fast_hash key)"

text \<open>
  One slot: the word of the first read, the word at the second access (the compare-and-swap, or the
  acquiring read), and the word left behind.
\<close>

definition classify_slot :: "u64 \<Rightarrow> u64 \<Rightarrow> u16 \<Rightarrow> u64 \<Rightarrow> SlotScan \<times> u64" where
  "classify_slot raw actual tag min_valid_addr =
     (if raw = 0 then (Free, actual)
      else if 0 < min_valid_addr \<and> \<not> is_tentative raw \<and> \<not> entry_is_read_cache raw \<and>
              entry_address raw < min_valid_addr then
        if actual = raw then (Free, 0)
        else if actual = 0 then (Free, actual)
        else if matches_tag actual tag \<and>
                (entry_is_read_cache actual \<or> min_valid_addr \<le> entry_address actual)
        then (Hit actual, actual)
        else (Occupied, actual)
      else if matches_tag raw tag then
        if matches_tag actual tag then (Hit actual, actual)
        else if actual = 0 then (Free, actual)
        else (Occupied, actual)
      else (Occupied, actual))"

record HashEntryInfo =
  hei_first_bucket :: bucket_ref
  hei_bucket :: bucket_ref
  hei_slot :: nat
  hei_raw :: u64
  hei_tag :: u16

fun scan_hit :: "u16 \<Rightarrow> u64 \<Rightarrow> nat \<Rightarrow> u64 list \<Rightarrow> (nat \<times> u64) option \<times> u64 list" where
  "scan_hit tag min_valid_addr slot [] = (None, [])"
| "scan_hit tag min_valid_addr slot (item # items) =
     (case classify_slot item item tag min_valid_addr of
        (Hit raw, item') \<Rightarrow> (Some (slot, raw), item' # items)
      | (_, item') \<Rightarrow>
          let (r, items') = scan_hit tag min_valid_addr (slot + 1) items in (r, item' # items'))"

definition set_data_words :: "HashBucket \<Rightarrow> u64 list \<Rightarrow> HashBucket" where
  "set_data_words b ws = b\<lparr>entries := ws @ drop DATA_ENTRIES (entries b)\<rparr>"

function find_entry_loop ::
  "HashIndex \<Rightarrow> bucket_ref \<Rightarrow> u16 \<Rightarrow> u64 \<Rightarrow> ChainWalker \<Rightarrow> (HashEntryInfo option \<times> HashIndex) option" where
  "find_entry_loop ix first_bucket tag min_valid_addr w =
     (case load_bucket ix (cw_curr w) of
        None \<Rightarrow> None
      | Some b \<Rightarrow>
          let (r, ws) = scan_hit tag min_valid_addr 0 (data_words b);
              ix1 = store_bucket ix (cw_curr w) (set_data_words b ws)
          in case r of
               Some (slot, raw) \<Rightarrow>
                 Some (Some \<lparr>hei_first_bucket = first_bucket, hei_bucket = cw_curr w, hei_slot = slot,
                             hei_raw = raw, hei_tag = tag\<rparr>, ix1)
             | None \<Rightarrow>
                 case advance ix1 w of
                   None \<Rightarrow> None
                 | Some (Next, w') \<Rightarrow> find_entry_loop ix1 first_bucket tag min_valid_addr w'
                 | Some (_, _) \<Rightarrow> Some (None, ix1))"
  by pat_completeness auto
termination
  by (relation "measure (\<lambda>(_, _, _, _, w). MAX_CHAIN_STEPS - cw_step w)") (auto dest!: advance_Next)

definition find_tag_entry_by_hash_with_min_addr ::
  "HashIndex \<Rightarrow> u64 \<Rightarrow> u64 \<Rightarrow> (HashEntryInfo option \<times> HashIndex) option" where
  "find_tag_entry_by_hash_with_min_addr ix hash min_valid_addr =
     (let first_bucket = get_bucket ix (bucket_index_for_hash ix hash)
      in find_entry_loop ix first_bucket (tag_from_hash hash) min_valid_addr (walker_new first_bucket))"

function find_exact_loop ::
  "HashIndex \<Rightarrow> bucket_ref \<Rightarrow> u16 \<Rightarrow> u64 \<Rightarrow> ChainWalker \<Rightarrow> HashEntryInfo option option" where
  "find_exact_loop ix first_bucket tag address w =
     (case load_bucket ix (cw_curr w) of
        None \<Rightarrow> None
      | Some b \<Rightarrow>
          case find_entry_by_address b tag address of
            Some (slot, entry) \<Rightarrow>
              Some (Some \<lparr>hei_first_bucket = first_bucket, hei_bucket = cw_curr w, hei_slot = slot,
                          hei_raw = entry, hei_tag = tag\<rparr>)
          | None \<Rightarrow>
              case advance ix w of
                None \<Rightarrow> None
              | Some (Next, w') \<Rightarrow> find_exact_loop ix first_bucket tag address w'
              | Some (_, _) \<Rightarrow> Some None)"
  by pat_completeness auto
termination
  by (relation "measure (\<lambda>(_, _, _, _, w). MAX_CHAIN_STEPS - cw_step w)") (auto dest!: advance_Next)

definition find_exact_entry_by_hash :: "HashIndex \<Rightarrow> u64 \<Rightarrow> u64 \<Rightarrow> HashEntryInfo option option" where
  "find_exact_entry_by_hash ix hash address =
     (let first_bucket = get_bucket ix (bucket_index_for_hash ix hash)
      in find_exact_loop ix first_bucket (tag_from_hash hash) address (walker_new first_bucket))"

section \<open>Handles\<close>

definition hei_is_found :: "HashEntryInfo \<Rightarrow> bool" where
  "hei_is_found hei \<longleftrightarrow> hei_raw hei \<noteq> 0"

definition hei_address :: "HashEntryInfo \<Rightarrow> u64" where
  "hei_address hei = entry_address (hei_raw hei)"

text \<open>The compare-and-swap of a handle on its slot.\<close>

definition hei_cas :: "HashIndex \<Rightarrow> HashEntryInfo \<Rightarrow> u64 \<Rightarrow> (bool \<times> HashEntryInfo \<times> HashIndex) option" where
  "hei_cas ix hei new_raw =
     (case load_bucket ix (hei_bucket hei) of
        None \<Rightarrow> None
      | Some b \<Rightarrow>
          case cas_entry b (hei_slot hei) (hei_raw hei) new_raw of
            (True, b') \<Rightarrow> Some (True, hei\<lparr>hei_raw := new_raw\<rparr>, store_bucket ix (hei_bucket hei) b')
          | (False, _) \<Rightarrow> Some (False, hei, ix))"

definition try_cas :: "HashIndex \<Rightarrow> HashEntryInfo \<Rightarrow> u64 \<Rightarrow> (bool \<times> HashEntryInfo \<times> HashIndex) option" where
  "try_cas ix hei new_address =
     (if new_address = INVALID_ADDRESS \<or> ADDRESS_MASK < new_address then Some (False, hei, ix)
      else hei_cas ix hei (entry_new new_address (hei_tag hei) False))"

definition cas_to_zero :: "HashIndex \<Rightarrow> HashEntryInfo \<Rightarrow> bool \<Rightarrow> (bool \<times> HashEntryInfo \<times> HashIndex) option" where
  "cas_to_zero ix hei found_only =
     (if hei_raw hei = 0 then Some (\<not> found_only, hei, ix) else hei_cas ix hei 0)"

definition try_set_invalid :: "HashIndex \<Rightarrow> HashEntryInfo \<Rightarrow> (bool \<times> HashEntryInfo \<times> HashIndex) option" where
  "try_set_invalid ix hei = cas_to_zero ix hei False"

definition try_elide :: "HashIndex \<Rightarrow> HashEntryInfo \<Rightarrow> (bool \<times> HashEntryInfo \<times> HashIndex) option" where
  "try_elide ix hei = cas_to_zero ix hei True"

definition owns_slot :: "HashEntryInfo \<Rightarrow> u64 \<Rightarrow> bool" where
  "owns_slot hei raw \<longleftrightarrow> raw = 0 \<or> entry_tag raw = hei_tag hei"

definition set_to_current :: "HashIndex \<Rightarrow> HashEntryInfo \<Rightarrow> HashEntryInfo option" where
  "set_to_current ix hei =
     (case load_bucket ix (hei_bucket hei) of
        None \<Rightarrow> None
      | Some b \<Rightarrow>
          let raw = entries b ! hei_slot hei
          in Some (if owns_slot hei raw then hei\<lparr>hei_raw := raw\<rparr> else hei))"

section \<open>Insertion, update and deletion\<close>

function insert_loop ::
  "HashIndex \<Rightarrow> u16 \<Rightarrow> u64 \<Rightarrow> ChainWalker \<Rightarrow> ((index_error, bool) res \<times> HashIndex) option" where
  "insert_loop ix tag address w =
     (case load_bucket ix (cw_curr w) of
        None \<Rightarrow> None
      | Some b \<Rightarrow>
          case find_empty_slot b of
            Some slot \<Rightarrow>
              (let (ok, b') = try_insert b slot tag address
               in Some (Inr ok, store_bucket ix (cw_curr w) b'))
          | None \<Rightarrow>
              case advance_or_extend ix w of
                None \<Rightarrow> None
              | Some (Inl e, ix1) \<Rightarrow> Some (Inl e, ix1)
              | Some (Inr w', ix1) \<Rightarrow> insert_loop ix1 tag address w')"
  by pat_completeness auto
termination
  by (relation "measure (\<lambda>(_, _, _, w). MAX_CHAIN_STEPS - cw_step w)")
    (auto dest!: advance_or_extend_Inr)

text \<open>The retry from the head of the chain; it runs again only after a lost compare-and-swap.\<close>

partial_function (option) insert_retry ::
  "HashIndex \<Rightarrow> nat \<Rightarrow> u16 \<Rightarrow> u64 \<Rightarrow> ((index_error, unit) res \<times> HashIndex) option" where
  "insert_retry ix idx tag address =
     (case insert_loop ix tag address (walker_new (get_bucket ix idx)) of
        None \<Rightarrow> None
      | Some (Inl e, ix1) \<Rightarrow> Some (Inl e, ix1)
      | Some (Inr ok, ix1) \<Rightarrow> if ok then Some (Inr (), ix1) else insert_retry ix1 idx tag address)"

declare insert_retry.simps [code]

definition insert_to_bucket ::
  "HashIndex \<Rightarrow> nat \<Rightarrow> u16 \<Rightarrow> u64 \<Rightarrow> ((index_error, unit) res \<times> HashIndex) option" where
  "insert_to_bucket ix bucket_idx tag address =
     (if address = INVALID_ADDRESS then Some (Inl (InvalidAddress address), ix)
      else if ADDRESS_MASK < address then Some (Inl (AddressOverflow address), ix)
      else insert_retry ix (bucket_idx AND ix_mask ix) tag address)"

fun scan_create ::
  "u16 \<Rightarrow> u64 \<Rightarrow> bucket_ref \<Rightarrow> nat \<Rightarrow> (bucket_ref \<times> nat) option \<Rightarrow> u64 list \<Rightarrow>
     (nat \<times> u64) option \<times> (bucket_ref \<times> nat) option \<times> u64 list" where
  "scan_create tag min_valid_addr r slot first_free [] = (None, first_free, [])"
| "scan_create tag min_valid_addr r slot first_free (item # items) =
     (case classify_slot item item tag min_valid_addr of
        (Hit raw, item') \<Rightarrow> (Some (slot, raw), first_free, item' # items)
      | (Free, item') \<Rightarrow>
          let first_free' = (case first_free of None \<Rightarrow> Some (r, slot) | Some q \<Rightarrow> Some q);
              (h, ff, items') = scan_create tag min_valid_addr r (slot + 1) first_free' items
          in (h, ff, item' # items')
      | (Occupied, item') \<Rightarrow>
          let (h, ff, items') = scan_create tag min_valid_addr r (slot + 1) first_free items
          in (h, ff, item' # items'))"

function create_loop ::
  "HashIndex \<Rightarrow> bucket_ref \<Rightarrow> u16 \<Rightarrow> u64 \<Rightarrow> (bucket_ref \<times> nat) option \<Rightarrow> ChainWalker \<Rightarrow>
     ((index_error, HashEntryInfo) res \<times> HashIndex) option" where
  "create_loop ix first_bucket tag min_valid_addr first_free w =
     (case load_bucket ix (cw_curr w) of
        None \<Rightarrow> None
      | Some b \<Rightarrow>
          let (h, ff, ws) = scan_create tag min_valid_addr (cw_curr w) 0 first_free (data_words b);
              ix1 = store_bucket ix (cw_curr w) (set_data_words b ws)
          in case h of
               Some (slot, raw) \<Rightarrow>
                 Some (Inr \<lparr>hei_first_bucket = first_bucket, hei_bucket = cw_curr w, hei_slot = slot,
                            hei_raw = raw, hei_tag = tag\<rparr>, ix1)
             | None \<Rightarrow>
                 if ff \<noteq> None \<and> bucket_overflow_index b = 0 then
                   Some (Inr \<lparr>hei_first_bucket = first_bucket, hei_bucket = fst (the ff),
                              hei_slot = snd (the ff), hei_raw = 0, hei_tag = tag\<rparr>, ix1)
                 else case advance_or_extend ix1 w of
                   None \<Rightarrow> None
                 | Some (Inl e, ix2) \<Rightarrow> Some (Inl e, ix2)
                 | Some (Inr w', ix2) \<Rightarrow> create_loop ix2 first_bucket tag min_valid_addr ff w')"
  by pat_completeness auto
termination
  by (relation "measure (\<lambda>(_, _, _, _, _, w). MAX_CHAIN_STEPS - cw_step w)")
    (auto dest!: advance_or_extend_Inr)

definition find_or_create_tag_by_hash_with_min_addr ::
  "HashIndex \<Rightarrow> u64 \<Rightarrow> u64 \<Rightarrow> ((index_error, HashEntryInfo) res \<times> HashIndex) option" where
  "find_or_create_tag_by_hash_with_min_addr ix hash min_valid_addr =
     (let first_bucket = get_bucket ix (bucket_index_for_hash ix hash)
      in create_loop ix first_bucket (tag_from_hash hash) min_valid_addr None (walker_new first_bucket))"

definition update_address_by_hash :: "HashIndex \<Rightarrow> u64 \<Rightarrow> u64 \<Rightarrow> u64 \<Rightarrow> (bool \<times> HashIndex) option" where
  "update_address_by_hash ix hash old_address new_address =
     (if new_address = INVALID_ADDRESS \<or> ADDRESS_MASK < new_address \<or> old_address = INVALID_ADDRESS
      then Some (False, ix)
      else case find_exact_entry_by_hash ix hash old_address of
        None \<Rightarrow> None
      | Some None \<Rightarrow> Some (False, ix)
      | Some (Some hei) \<Rightarrow> map_option (\<lambda>(ok, _, ix'). (ok, ix')) (try_cas ix hei new_address))"

definition update_address ::
  "(bytes \<Rightarrow> u64) \<Rightarrow> HashIndex \<Rightarrow> bytes \<Rightarrow> u64 \<Rightarrow> u64 \<Rightarrow> (bool \<times> HashIndex) option" where
  "update_address fast_hash ix key old_address new_address =
     update_address_by_hash ix (fast_hash key) old_address new_address"

definition delete_by_hash :: "HashIndex \<Rightarrow> u64 \<Rightarrow> u64 \<Rightarrow> (bool \<times> HashIndex) option" where
  "delete_by_hash ix hash address =
     (if address = INVALID_ADDRESS then Some (False, ix)
      else case find_exact_entry_by_hash ix hash address of
        None \<Rightarrow> None
      | Some None \<Rightarrow> Some (False, ix)
      | Some (Some hei) \<Rightarrow> map_option (\<lambda>(ok, _, ix'). (ok, ix')) (try_elide ix hei))"

definition index_delete :: "(bytes \<Rightarrow> u64) \<Rightarrow> HashIndex \<Rightarrow> bytes \<Rightarrow> u64 \<Rightarrow> (bool \<times> HashIndex) option" where
  "index_delete fast_hash ix key address = delete_by_hash ix (fast_hash key) address"

section \<open>The latch of a key's bucket\<close>

definition bucket_latch_word :: "HashBucket \<Rightarrow> u64" where
  "bucket_latch_word b = entries b ! OVERFLOW_INDEX"

definition set_latch_word :: "HashBucket \<Rightarrow> u64 \<Rightarrow> HashBucket" where
  "set_latch_word b w = b\<lparr>entries := (entries b)[OVERFLOW_INDEX := w]\<rparr>"

definition lock_exclusive_guard :: "HashIndex \<Rightarrow> bucket_ref \<Rightarrow> (bool \<times> HashIndex) option" where
  "lock_exclusive_guard ix r =
     (case load_bucket ix r of
        None \<Rightarrow> None
      | Some b \<Rightarrow>
          let (ok, w) = try_lock_exclusive (bucket_latch_word b)
          in Some (ok, store_bucket ix r (set_latch_word b w)))"

definition drop_exclusive_guard :: "HashIndex \<Rightarrow> bucket_ref \<Rightarrow> HashIndex option" where
  "drop_exclusive_guard ix r =
     (case load_bucket ix r of
        None \<Rightarrow> None
      | Some b \<Rightarrow> Some (store_bucket ix r (set_latch_word b (unlock_exclusive (bucket_latch_word b)))))"

definition lock_shared_guard :: "HashIndex \<Rightarrow> bucket_ref \<Rightarrow> (bool \<times> HashIndex) option" where
  "lock_shared_guard ix r =
     (case load_bucket ix r of
        None \<Rightarrow> None
      | Some b \<Rightarrow>
          let (ok, w) = try_lock_shared (bucket_latch_word b)
          in Some (ok, store_bucket ix r (set_latch_word b w)))"

definition drop_shared_guard :: "HashIndex \<Rightarrow> bucket_ref \<Rightarrow> HashIndex option" where
  "drop_shared_guard ix r =
     (case load_bucket ix r of
        None \<Rightarrow> None
      | Some b \<Rightarrow> Some (store_bucket ix r (set_latch_word b (unlock_shared (bucket_latch_word b)))))"

definition hei_lock_exclusive_guard :: "HashIndex \<Rightarrow> HashEntryInfo \<Rightarrow> (bool \<times> HashIndex) option" where
  "hei_lock_exclusive_guard ix hei = lock_exclusive_guard ix (hei_first_bucket hei)"

definition try_lock_key_hash_exclusive :: "HashIndex \<Rightarrow> u64 \<Rightarrow> (bool \<times> HashIndex) option" where
  "try_lock_key_hash_exclusive ix hash = lock_exclusive_guard ix (get_bucket ix (bucket_index_for_hash ix hash))"

declare find_tag_loop.simps [simp del] candidates_loop.simps [simp del] find_entry_loop.simps [simp del]
  find_exact_loop.simps [simp del] insert_loop.simps [simp del] create_loop.simps [simp del]

end
