(* ===== verification/IndexCorrect.thy ===== *)
theory IndexCorrect
  imports IndexTable
begin

text \<open>
  Correctness of the hash index. The contents of a main bucket are the multiset \<open>index_entries\<close> of the
  non-zero words of its chain, as far as a walker sees it. \<open>index_wf\<close> is the invariant: the chains are
  acyclic, disjoint, and made of buckets the pool has handed out. The lemmas show that every operation
  is defined on a well-formed index, keeps it well-formed, and what it does to the contents.
\<close>

section \<open>Contents and invariant\<close>

definition ref_words :: "HashIndex \<Rightarrow> bucket_ref \<Rightarrow> u64 list" where
  "ref_words ix r = (case load_bucket ix r of Some b \<Rightarrow> data_words b | None \<Rightarrow> [])"

primrec chain_refs :: "HashIndex \<Rightarrow> nat \<Rightarrow> bucket_ref \<Rightarrow> bucket_ref list" where
  "chain_refs ix 0 r = []"
| "chain_refs ix (Suc n) r =
     r # (case load_bucket ix r of
            None \<Rightarrow> []
          | Some b \<Rightarrow> if bucket_overflow_index b = 0 then [] else chain_refs ix n (OverRef (bucket_overflow_index b)))"

definition index_words :: "HashIndex \<Rightarrow> nat \<Rightarrow> u64 list" where
  "index_words ix i = concat (map (ref_words ix) (chain_refs ix MAX_CHAIN_STEPS (MainRef i)))"

definition nonzero :: "u64 multiset \<Rightarrow> u64 multiset" where
  "nonzero = filter_mset (\<lambda>w. w \<noteq> 0)"

definition index_entries :: "HashIndex \<Rightarrow> nat \<Rightarrow> u64 multiset" where
  "index_entries ix i = nonzero (mset (index_words ix i))"

primrec links :: "HashIndex \<Rightarrow> bucket_ref \<Rightarrow> u64 list \<Rightarrow> bool" where
  "links ix r [] \<longleftrightarrow> (\<exists>b. load_bucket ix r = Some b \<and> bucket_overflow_index b = 0)"
| "links ix r (oid # os) \<longleftrightarrow>
     (\<exists>b. load_bucket ix r = Some b \<and> bucket_overflow_index b = oid \<and> oid \<noteq> 0 \<and> links ix (OverRef oid) os)"

definition table_ok :: "HashIndex \<Rightarrow> bool" where
  "table_ok ix \<longleftrightarrow>
     hb_len (buckets ix) = ix_size ix \<and> length (hb_mem (buckets ix)) = ix_size ix \<and>
     (\<exists>k. ix_size ix = 2 ^ k) \<and> ix_mask ix = ix_size ix - 1 \<and>
     (\<forall>b \<in> set (hb_mem (buckets ix)). bucket_ok b)"

definition chains_ok :: "HashIndex \<Rightarrow> (nat \<Rightarrow> u64 list) \<Rightarrow> u64 set \<Rightarrow> bool" where
  "chains_ok ix ch out \<longleftrightarrow>
     (\<forall>i < ix_size ix. links ix (MainRef i) (ch i) \<and> distinct (ch i) \<and> set (ch i) \<subseteq> out) \<and>
     (\<forall>i < ix_size ix. \<forall>j < ix_size ix. i \<noteq> j \<longrightarrow> set (ch i) \<inter> set (ch j) = {})"

definition index_inv :: "HashIndex \<Rightarrow> (nat \<Rightarrow> u64 list) \<Rightarrow> u64 list \<Rightarrow> bool" where
  "index_inv ix ch fs \<longleftrightarrow>
     table_ok ix \<and> pool_inv (overflow_pool ix) fs \<and> chains_ok ix ch (handed_out (overflow_pool ix) fs)"

definition index_wf :: "HashIndex \<Rightarrow> bool" where
  "index_wf ix \<longleftrightarrow> (\<exists>ch fs. index_inv ix ch fs)"

section \<open>Loads and stores\<close>

definition ref_live :: "HashIndex \<Rightarrow> bucket_ref \<Rightarrow> bool" where
  "ref_live ix r \<longleftrightarrow>
     (case r of MainRef i \<Rightarrow> i < ix_size ix | OverRef oid \<Rightarrow> oid \<noteq> 0 \<and> oid \<le> allocated (overflow_pool ix))"

lemma pool_get_unchecked_def2:
  "pool_get_unchecked p oid = (if chunk_idx (unat (oid - 1)) < MAX_CHUNKS then pool_at p (unat (oid - 1)) else None)"
  by (simp add: pool_get_unchecked_def pool_at_def Let_def)

lemma pool_get_unchecked_put:
  assumes "pool_ok p" "oid \<noteq> 0" "oid \<le> allocated p"
  shows "pool_get_unchecked (pool_put p oid b) q = (if q = oid then Some b else pool_get_unchecked p q)"
proof -
  obtain b0 where b0: "pool_get_unchecked p oid = Some b0" using pool_get_unchecked_safe [OF assms] by blast
  have "unat (q - 1) = unat oid - 1 \<longleftrightarrow> q = oid"
    using unat_pred [OF assms(2)] by (metis word_unat_eq_iff diff_add_cancel)
  then show ?thesis
    using b0 unat_pred [OF assms(2)]
    by (auto simp: pool_get_unchecked_def2 pool_at_put [OF assms(1,2)] split: if_splits)
qed

lemma load_live:
  assumes "table_ok ix" "pool_ok (overflow_pool ix)" "ref_live ix r"
  shows "\<exists>b. load_bucket ix r = Some b \<and> bucket_ok b"
  using assms pool_get_unchecked_safe [of "overflow_pool ix"]
  by (cases r) (auto simp: ref_live_def table_ok_def buckets_get_unchecked_def)

lemma load_store:
  assumes "table_ok ix" "pool_ok (overflow_pool ix)" "ref_live ix r"
  shows "load_bucket (store_bucket ix r b) q = (if q = r then Some b else load_bucket ix q)"
  using assms pool_get_unchecked_put [OF assms(2)]
  by (cases r; cases q) (auto simp: ref_live_def table_ok_def buckets_get_unchecked_def nth_list_update)

lemma store_fields [simp]:
  "ix_size (store_bucket ix r b) = ix_size ix" "ix_mask (store_bucket ix r b) = ix_mask ix"
  "allocated (overflow_pool (store_bucket ix r b)) = allocated (overflow_pool ix)"
  by (cases r; simp)+

lemma store_table_ok: "table_ok ix \<Longrightarrow> bucket_ok b \<Longrightarrow> table_ok (store_bucket ix r b)"
  by (cases r) (auto simp: table_ok_def dest: set_update_subset_insert [THEN subsetD])

lemma links_cong:
  "links ix r os \<Longrightarrow> (\<And>q. q = r \<or> q \<in> OverRef ` set os \<Longrightarrow> load_bucket ix' q = load_bucket ix q) \<Longrightarrow> links ix' r os"
  by (induction os arbitrary: r) auto

lemma links_store:
  assumes "table_ok ix" "pool_ok (overflow_pool ix)" "ref_live ix r"
    and "load_bucket ix r = Some b" "bucket_overflow_index b' = bucket_overflow_index b"
  shows "links (store_bucket ix r b') q os \<longleftrightarrow> links ix q os"
  using assms(4,5) by (induction os arbitrary: q) (auto simp: load_store [OF assms(1-3)])

definition ref_owned :: "HashIndex \<Rightarrow> u64 list \<Rightarrow> bucket_ref \<Rightarrow> bool" where
  "ref_owned ix fs r \<longleftrightarrow>
     (case r of MainRef i \<Rightarrow> i < ix_size ix | OverRef oid \<Rightarrow> oid \<in> handed_out (overflow_pool ix) fs)"

lemma ref_owned_live: "ref_owned ix fs r \<Longrightarrow> ref_live ix r"
  by (auto simp: ref_owned_def ref_live_def handed_out_def split: bucket_ref.splits)

lemma index_inv_parts:
  assumes "index_inv ix ch fs"
  shows "table_ok ix" "pool_ok (overflow_pool ix)" "pool_inv (overflow_pool ix) fs"
    "chains_ok ix ch (handed_out (overflow_pool ix) fs)"
  using assms by (auto simp: index_inv_def pool_inv_def)

lemma handed_out_put [simp]: "handed_out (pool_put p oid b) fs = handed_out p fs"
  by (simp add: handed_out_def)

lemma handed_out_store [simp]: "handed_out (overflow_pool (store_bucket ix r b)) fs = handed_out (overflow_pool ix) fs"
  by (cases r) simp_all

lemma store_inv:
  assumes inv: "index_inv ix ch fs" and r: "ref_owned ix fs r"
    and b: "load_bucket ix r = Some b" "bucket_ok b'" "bucket_overflow_index b' = bucket_overflow_index b"
  shows "index_inv (store_bucket ix r b') ch fs"
proof -
  note i = index_inv_parts [OF inv]
  have "pool_inv (overflow_pool (store_bucket ix r b')) fs"
    using i(3) r pool_inv_put [OF i(3) _ _ _ b(2)]
    by (cases r) (auto simp: ref_owned_def handed_out_def)
  moreover have "chains_ok (store_bucket ix r b') ch (handed_out (overflow_pool ix) fs)"
    using i(4) links_store [OF i(1,2) ref_owned_live [OF r] b(1,3)] by (simp add: chains_ok_def)
  ultimately show ?thesis using store_table_ok [OF i(1) b(2)] by (simp add: index_inv_def)
qed

section \<open>Chains\<close>

abbreviation refs_of :: "nat \<Rightarrow> u64 list \<Rightarrow> bucket_ref list" where
  "refs_of i os \<equiv> MainRef i # map OverRef os"

lemma chain_refs_links: "links ix r os \<Longrightarrow> chain_refs ix n r = take n (r # map OverRef os)"
proof (induction os arbitrary: r n)
  case Nil
  then show ?case by (cases n) auto
next
  case (Cons oid os)
  then show ?case by (cases n) auto
qed

lemma links_append: "links ix r (xs @ os) \<Longrightarrow> links ix (last (r # map OverRef xs)) os"
  by (induction xs arbitrary: r) auto

lemma inv_chain:
  assumes "index_inv ix ch fs" "i < ix_size ix"
  shows "links ix (MainRef i) (ch i)" "distinct (ch i)" "set (ch i) \<subseteq> handed_out (overflow_pool ix) fs"
    "j < ix_size ix \<Longrightarrow> i \<noteq> j \<Longrightarrow> set (ch i) \<inter> set (ch j) = {}"
  using assms by (auto simp: index_inv_def chains_ok_def)

lemma inv_words:
  assumes "index_inv ix ch fs" "i < ix_size ix"
  shows "index_words ix i = concat (map (ref_words ix) (take MAX_CHAIN_STEPS (refs_of i (ch i))))"
  using chain_refs_links [OF inv_chain(1) [OF assms]] by (simp add: index_words_def)

lemma inv_owned:
  assumes "index_inv ix ch fs" "i < ix_size ix" "r \<in> set (refs_of i (ch i))"
  shows "ref_owned ix fs r"
  using assms inv_chain(3) [OF assms(1,2)] by (auto simp: ref_owned_def)

lemma refs_distinct: "distinct os \<Longrightarrow> distinct (refs_of i os)"
  by (auto simp: distinct_map inj_on_def)

lemma nonzero_simps [simp]:
  "nonzero {#} = {#}" "nonzero (A + B) = nonzero A + nonzero B" "nonzero (add_mset 0 A) = nonzero A"
  "w \<noteq> 0 \<Longrightarrow> nonzero (add_mset w A) = add_mset w (nonzero A)"
  by (simp_all add: nonzero_def)

lemma nonzero_zeros [simp]: "nonzero (replicate_mset n 0) = {#}"
  by (induction n) simp_all

lemma concat_update:
  assumes "distinct rs" "r \<in> set rs" "\<And>q. q \<in> set rs \<Longrightarrow> q \<noteq> r \<Longrightarrow> f' q = f q"
  shows "mset (concat (map f' rs)) + mset (f r) = mset (concat (map f rs)) + mset (f' r)"
proof -
  obtain xs ys where rs: "rs = xs @ r # ys" using assms(2) by (meson split_list)
  with assms(1,3) have "map f' xs = map f xs" "map f' ys = map f ys" by auto
  then have "concat (map f' xs) = concat (map f xs)" "concat (map f' ys) = concat (map f ys)" by (simp_all only:)
  then show ?thesis by (simp add: rs)
qed

text \<open>What a store into one bucket of a chain does to the contents.\<close>

lemma store_entries:
  assumes inv: "index_inv ix ch fs" and i: "i < ix_size ix" and r: "r \<in> set (take MAX_CHAIN_STEPS (refs_of i (ch i)))"
    and b: "load_bucket ix r = Some b" "bucket_ok b'" "bucket_overflow_index b' = bucket_overflow_index b"
  shows "index_entries (store_bucket ix r b') i + nonzero (mset (data_words b)) =
      index_entries ix i + nonzero (mset (data_words b'))"
    and "j < ix_size ix \<Longrightarrow> j \<noteq> i \<Longrightarrow> index_entries (store_bucket ix r b') j = index_entries ix j"
proof -
  let ?ix = "store_bucket ix r b'"
  note p = index_inv_parts [OF inv]
  have own: "ref_owned ix fs r" using inv_owned [OF inv i] r by (meson in_set_takeD)
  note inv' = store_inv [OF inv own b]
  have ld: "load_bucket ?ix q = (if q = r then Some b' else load_bucket ix q)" for q
    by (rule load_store [OF p(1,2) ref_owned_live [OF own]])
  then have w: "ref_words ?ix q = (if q = r then data_words b' else ref_words ix q)" for q
    by (simp add: ref_words_def)
  have "mset (index_words ?ix i) + mset (ref_words ix r) = mset (index_words ix i) + mset (ref_words ?ix r)"
    using inv_words [OF inv i] inv_words [OF inv'] i
      concat_update [OF _ r, of "ref_words ?ix" "ref_words ix"] refs_distinct [OF inv_chain(2) [OF inv i]]
    by (simp add: w distinct_take)
  then have "nonzero (mset (index_words ?ix i) + mset (data_words b)) = nonzero (mset (index_words ix i) + mset (data_words b'))"
    using b(1) ld by (simp add: ref_words_def)
  then show "index_entries ?ix i + nonzero (mset (data_words b)) = index_entries ix i + nonzero (mset (data_words b'))"
    by (simp add: index_entries_def)
  assume j: "j < ix_size ix" "j \<noteq> i"
  have "r \<notin> set (refs_of j (ch j))"
    using r j inv_chain(4) [OF inv i j(1)] by (auto dest!: in_set_takeD)
  then have "map (ref_words ?ix) (take n (refs_of j (ch j))) = map (ref_words ix) (take n (refs_of j (ch j)))" for n
    by (intro map_cong refl) (metis w in_set_takeD)
  then have "index_words ?ix j = index_words ix j"
    unfolding inv_words [OF inv j(1)] inv_words [OF inv' j(1) [folded store_fields(1) [of ix r b']]] by (rule arg_cong)
  then show "index_entries ?ix j = index_entries ix j" by (simp add: index_entries_def)
qed

section \<open>Walking\<close>

lemma live_in_pool:
  assumes "index_inv ix ch fs" "i < ix_size ix" "r \<in> set (refs_of i (ch i))"
  shows "\<exists>b. load_bucket ix r = Some b \<and> bucket_ok b"
  using load_live [OF index_inv_parts(1,2) [OF assms(1)] ref_owned_live [OF inv_owned [OF assms]]] .

text \<open>
  A position of a walker on chain \<open>i\<close>: the identifiers already passed, and those ahead.
\<close>

definition walker_at :: "(nat \<Rightarrow> u64 list) \<Rightarrow> nat \<Rightarrow> u64 list \<Rightarrow> u64 list \<Rightarrow> ChainWalker \<Rightarrow> bool" where
  "walker_at ch i xs os w \<longleftrightarrow>
     ch i = xs @ os \<and> w = \<lparr>cw_curr = last (refs_of i xs), cw_step = length xs\<rparr> \<and> length xs < MAX_CHAIN_STEPS"

lemma walker_start: "walker_at ch i [] (ch i) (walker_new (MainRef i))"
  by (simp add: walker_at_def walker_new_def MAX_CHAIN_STEPS_def)

lemma walker_visible:
  assumes "walker_at ch i xs os w"
  shows "cw_curr w \<in> set (take MAX_CHAIN_STEPS (refs_of i (ch i)))" "cw_curr w \<in> set (refs_of i (ch i))"
proof -
  have "refs_of i (ch i) = refs_of i xs @ map OverRef os" using assms by (simp add: walker_at_def)
  moreover have "length (refs_of i xs) \<le> MAX_CHAIN_STEPS" using assms by (auto simp: walker_at_def)
  ultimately have "take MAX_CHAIN_STEPS (refs_of i (ch i)) =
      refs_of i xs @ take (MAX_CHAIN_STEPS - length (refs_of i xs)) (map OverRef os)"
    by (simp only: take_append take_all)
  moreover have "cw_curr w \<in> set (refs_of i xs)"
    using assms last_in_set [of "refs_of i xs"] by (simp add: walker_at_def)
  ultimately show "cw_curr w \<in> set (take MAX_CHAIN_STEPS (refs_of i (ch i)))"
    by (simp only: set_append Un_iff simp_thms)
  then show "cw_curr w \<in> set (refs_of i (ch i))" by (meson in_set_takeD)
qed

lemma walker_load:
  assumes "index_inv ix ch fs" "i < ix_size ix" "walker_at ch i xs os w"
  shows "\<exists>b. load_bucket ix (cw_curr w) = Some b \<and> bucket_ok b \<and> bucket_overflow_index b = (case os of [] \<Rightarrow> 0 | oid # _ \<Rightarrow> oid)"
proof -
  obtain b where b: "load_bucket ix (cw_curr w) = Some b" "bucket_ok b"
    using live_in_pool [OF assms(1,2) walker_visible(2) [OF assms(3)]] by blast
  have "links ix (cw_curr w) os"
    using inv_chain(1) [OF assms(1,2)] links_append [of ix "MainRef i" xs os] assms(3) by (simp add: walker_at_def)
  with b show ?thesis by (cases os) auto
qed

lemma advance_end:
  assumes "index_inv ix ch fs" "i < ix_size ix" "walker_at ch i xs [] w"
  shows "advance ix w = Some (End, w)"
  using walker_load [OF assms] by (auto simp: advance_def)

lemma advance_step:
  assumes "index_inv ix ch fs" "i < ix_size ix" "walker_at ch i xs (oid # os) w"
  defines "w' \<equiv> \<lparr>cw_curr = OverRef oid, cw_step = length xs + 1\<rparr>"
  shows "advance ix w = Some (if MAX_CHAIN_STEPS \<le> length xs + 1 then Cycle else Next, w')"
    and "\<not> MAX_CHAIN_STEPS \<le> length xs + 1 \<Longrightarrow> walker_at ch i (xs @ [oid]) os w'"
proof -
  have c: "ch i = xs @ oid # os" "w = \<lparr>cw_curr = last (refs_of i xs), cw_step = length xs\<rparr>"
    using assms(3) by (simp_all add: walker_at_def)
  have "links ix (MainRef i) (xs @ oid # os)" using inv_chain(1) [OF assms(1,2)] c(1) by simp
  then have "oid \<noteq> 0" using links_append [of ix "MainRef i" xs "oid # os"] by auto
  moreover obtain b' where "load_bucket ix (OverRef oid) = Some b'"
    using live_in_pool [OF assms(1,2), of "OverRef oid"] c(1) by auto
  ultimately show "advance ix w = Some (if MAX_CHAIN_STEPS \<le> length xs + 1 then Cycle else Next, w')"
    using walker_load [OF assms(1-3)] c(2) by (auto simp: advance_def w'_def)
  show "\<not> MAX_CHAIN_STEPS \<le> length xs + 1 \<Longrightarrow> walker_at ch i (xs @ [oid]) os w'"
    using c by (simp add: walker_at_def w'_def)
qed

text \<open>
  The read-only loops share a shape: visit the bucket, stop with a result or carry on with a state,
  and finish at the end of the chain.
\<close>

primrec visit_all ::
  "HashIndex \<Rightarrow> ('s \<Rightarrow> bucket_ref \<Rightarrow> HashBucket \<Rightarrow> 'r + 's) \<Rightarrow> ('s \<Rightarrow> 'r) \<Rightarrow> 's \<Rightarrow> bucket_ref list \<Rightarrow> 'r" where
  "visit_all ix visit finish st [] = finish st"
| "visit_all ix visit finish st (r # rs) =
     (case visit st r (the (load_bucket ix r)) of Inl res \<Rightarrow> res | Inr st' \<Rightarrow> visit_all ix visit finish st' rs)"

locale read_walk =
  fixes ix :: HashIndex
    and visit :: "'s \<Rightarrow> bucket_ref \<Rightarrow> HashBucket \<Rightarrow> 'r + 's"
    and finish :: "'s \<Rightarrow> 'r"
    and loop :: "'s \<Rightarrow> ChainWalker \<Rightarrow> 'r option"
  assumes loop_unfold: "loop st w =
    (case load_bucket ix (cw_curr w) of
       None \<Rightarrow> None
     | Some b \<Rightarrow>
         case visit st (cw_curr w) b of
           Inl r \<Rightarrow> Some r
         | Inr st' \<Rightarrow>
             case advance ix w of
               None \<Rightarrow> None
             | Some (cs, w') \<Rightarrow> if cs = Next then loop st' w' else Some (finish st'))"
begin

lemma loop_visits:
  "index_inv ix ch fs \<Longrightarrow> i < ix_size ix \<Longrightarrow> walker_at ch i xs os w \<Longrightarrow>
     loop st w = Some (visit_all ix visit finish st
       (take (MAX_CHAIN_STEPS - cw_step w) (cw_curr w # map OverRef os)))"
proof (induction os arbitrary: xs w st)
  case Nil
  from walker_load [OF Nil] obtain b where b: "load_bucket ix (cw_curr w) = Some b" by blast
  have "cw_step w < MAX_CHAIN_STEPS" using Nil(3) by (simp add: walker_at_def)
  then show ?case using advance_end [OF Nil] b
    by (subst loop_unfold) (simp add: take_Cons' split: sum.split)
next
  case (Cons oid os)
  from walker_load [OF Cons.prems] obtain b where b: "load_bucket ix (cw_curr w) = Some b" by blast
  note st = advance_step [OF Cons.prems]
  have w: "cw_step w = length xs" "cw_step w < MAX_CHAIN_STEPS" using Cons.prems(3) by (simp_all add: walker_at_def)
  show ?case
  proof (cases "MAX_CHAIN_STEPS \<le> length xs + 1")
    case True
    then have "MAX_CHAIN_STEPS - cw_step w = 1" using w by linarith
    then show ?thesis using st(1) b True by (subst loop_unfold) (simp split: sum.split)
  next
    case False
    then have "MAX_CHAIN_STEPS - cw_step w = Suc (MAX_CHAIN_STEPS - (cw_step w + 1))" using w by linarith
    then show ?thesis using st(1) b False w Cons.IH [OF Cons.prems(1,2) st(2)]
      by (subst loop_unfold) (simp split: sum.split)
  qed
qed

lemma loop_start:
  assumes "index_inv ix ch fs" "i < ix_size ix"
  shows "loop st (walker_new (MainRef i)) =
    Some (visit_all ix visit finish st (take MAX_CHAIN_STEPS (refs_of i (ch i))))"
  using loop_visits [OF assms walker_start] by (simp add: walker_new_def)

end

interpretation find_tag_walk: read_walk ix
  "\<lambda>_ _ b. case find_tag_address b tag of Some a \<Rightarrow> Inl (Some a) | None \<Rightarrow> Inr ()" "\<lambda>_. None"
  "\<lambda>_. find_tag_loop ix tag" for ix tag
  by unfold_locales (subst find_tag_loop.simps, auto split: option.split ChainStep.split)

interpretation find_exact_walk: read_walk ix
  "\<lambda>_ r b. case find_entry_by_address b tag address of
     Some (slot, entry) \<Rightarrow> Inl (Some \<lparr>hei_first_bucket = first_bucket, hei_bucket = r, hei_slot = slot,
                                      hei_raw = entry, hei_tag = tag\<rparr>)
   | None \<Rightarrow> Inr ()" "\<lambda>_. None"
  "\<lambda>_. find_exact_loop ix first_bucket tag address" for ix first_bucket tag address
  by unfold_locales (subst find_exact_loop.simps, auto split: option.split ChainStep.split)

interpretation candidates_walk: read_walk ix
  "\<lambda>c _ b. Inr (fold (\<lambda>(_, item). cand_check_slot item expected_hi) (data_slots b) c)" "\<lambda>c. c"
  "candidates_loop ix expected_hi" for ix expected_hi
  by unfold_locales (subst candidates_loop.simps, auto simp: Let_def split: option.split ChainStep.split)

section \<open>Lookups\<close>

lemma nat_mask_idem: "((n :: nat) AND m) AND m = n AND m"
  by (simp add: and.assoc)

lemma bucket_index_less: "table_ok ix \<Longrightarrow> n AND ix_mask ix < ix_size ix"
proof -
  assume "table_ok ix"
  then have "ix_mask ix = ix_size ix - 1" "0 < ix_size ix" by (auto simp: table_ok_def)
  then show ?thesis using and_le_right [of n "ix_mask ix"] by linarith
qed

lemma get_bucket_hash: "get_bucket ix (bucket_index_for_hash ix hash) = MainRef (bucket_index_for_hash ix hash)"
  by (simp add: get_bucket_def bucket_index_for_hash_def nat_mask_idem)

lemma hash_bucket_less: "index_inv ix ch fs \<Longrightarrow> bucket_index_for_hash ix hash < ix_size ix"
  using bucket_index_less [OF index_inv_parts(1)] by (simp add: bucket_index_for_hash_def)

definition tag_hit :: "u16 \<Rightarrow> u64 \<Rightarrow> u64 option" where
  "tag_hit tag raw = (if matches_tag raw tag then Some (entry_address raw) else None)"

lemma visit_find_tag:
  "(\<And>r. r \<in> set rs \<Longrightarrow> load_bucket ix r \<noteq> None) \<Longrightarrow>
     visit_all ix (\<lambda>_ _ b. case find_tag_address b tag of Some a \<Rightarrow> Inl (Some a) | None \<Rightarrow> Inr ()) (\<lambda>_. None) u rs =
     find_map (tag_hit tag) (concat (map (ref_words ix) rs))"
proof (induction rs)
  case (Cons r rs)
  from Cons.prems [of r] obtain b where "load_bucket ix r = Some b" by auto
  then show ?case using Cons
    by (simp add: ref_words_def find_map_append find_tag_address_words tag_hit_def [abs_def] split: option.split)
qed simp

lemma cand_check_slot_eq:
  "cand_check_slot raw (ucast tag AND TAG_MASK) c = (if matches_tag raw tag then cand_push c (entry_address raw) else c)"
  by (auto simp: cand_check_slot_def matches_tag_def entry_address_def Let_def)

lemma fold_check_slots:
  "cand_ok c \<Longrightarrow> cand_ok (fold (\<lambda>(_, item). cand_check_slot item (ucast tag AND TAG_MASK)) (enumerate n ws) c) \<and>
     cand_iter (fold (\<lambda>(_, item). cand_check_slot item (ucast tag AND TAG_MASK)) (enumerate n ws) c) =
     cand_iter c @ map entry_address (filter (\<lambda>raw. matches_tag raw tag) ws)"
  by (induction ws arbitrary: n c) (simp_all add: cand_check_slot_eq cand_push_ok cand_push_iter)

lemma visit_candidates:
  "cand_ok c \<Longrightarrow> (\<And>r. r \<in> set rs \<Longrightarrow> load_bucket ix r \<noteq> None) \<Longrightarrow>
     cand_iter (visit_all ix (\<lambda>c _ b. Inr (fold (\<lambda>(_, item). cand_check_slot item (ucast tag AND TAG_MASK))
         (data_slots b) c)) (\<lambda>c. c) c rs) =
     cand_iter c @ map entry_address (filter (\<lambda>raw. matches_tag raw tag) (concat (map (ref_words ix) rs)))"
proof (induction rs arbitrary: c)
  case (Cons r rs)
  from Cons.prems(2) [of r] obtain b where "load_bucket ix r = Some b" by auto
  then show ?case using Cons fold_check_slots [OF Cons.prems(1), of tag 0 "data_words b"]
    by (simp add: ref_words_def data_slots_words)
qed simp

lemma visible_loads:
  assumes "index_inv ix ch fs" "i < ix_size ix" "r \<in> set (take n (refs_of i (ch i)))"
  shows "load_bucket ix r \<noteq> None"
  using live_in_pool [OF assms(1,2) in_set_takeD [OF assms(3)]] by auto

lemma find_tag_by_hash_eq:
  assumes "index_inv ix ch fs"
  shows "find_tag_by_hash ix hash =
    Some (find_map (tag_hit (tag_from_hash hash)) (index_words ix (bucket_index_for_hash ix hash)))"
  using find_tag_walk.loop_start [OF assms hash_bucket_less [OF assms]]
    visit_find_tag [OF visible_loads [OF assms hash_bucket_less [OF assms]]]
  by (simp add: find_tag_by_hash_def get_bucket_hash inv_words [OF assms hash_bucket_less [OF assms]])

lemma lookup_candidates_eq:
  assumes "index_inv ix ch fs"
  shows "\<exists>c. lookup_candidates_by_hash ix hash = Some c \<and> cand_iter c =
    map entry_address (filter (\<lambda>raw. matches_tag raw (tag_from_hash hash)) (index_words ix (bucket_index_for_hash ix hash)))"
  using candidates_walk.loop_start [OF assms hash_bucket_less [OF assms]]
    visit_candidates [OF cand_new_ok(1) visible_loads [OF assms hash_bucket_less [OF assms]]]
  by (simp add: lookup_candidates_by_hash_def get_bucket_hash inv_words [OF assms hash_bucket_less [OF assms]])

definition holds_at :: "HashIndex \<Rightarrow> bucket_ref \<Rightarrow> nat \<Rightarrow> u64 \<Rightarrow> bool" where
  "holds_at ix r slot raw \<longleftrightarrow>
     (\<exists>b. load_bucket ix r = Some b \<and> bucket_ok b \<and> slot < DATA_ENTRIES \<and> entries b ! slot = raw)"

lemma visit_exact:
  fixes tag address
  defines "e \<equiv> entry_new address tag False"
  shows "(\<And>r. r \<in> set rs \<Longrightarrow> \<exists>b. load_bucket ix r = Some b \<and> bucket_ok b) \<Longrightarrow> e \<noteq> 0 \<Longrightarrow>
     (case visit_all ix (\<lambda>_ r b. case find_entry_by_address b tag address of
         Some (slot, entry) \<Rightarrow> Inl (Some \<lparr>hei_first_bucket = fb, hei_bucket = r, hei_slot = slot,
                                          hei_raw = entry, hei_tag = tag\<rparr>)
       | None \<Rightarrow> Inr ()) (\<lambda>_. None) u rs of
        None \<Rightarrow> e \<notin> set (concat (map (ref_words ix) rs))
      | Some hei \<Rightarrow> e \<in> set (concat (map (ref_words ix) rs)) \<and> hei_bucket hei \<in> set rs \<and> hei_raw hei = e \<and>
          hei_tag hei = tag \<and> hei_first_bucket hei = fb \<and> holds_at ix (hei_bucket hei) (hei_slot hei) e)"
proof (induction rs)
  case (Cons r rs)
  from Cons.prems(1) [of r] obtain b where b: "load_bucket ix r = Some b" "bucket_ok b" by auto
  show ?case
  proof (cases "find_entry_by_address b tag address")
    case None
    then show ?thesis using Cons b find_entry_by_address_None [of b tag address]
      by (auto simp: ref_words_def e_def split: option.split)
  next
    case (Some se)
    obtain slot entry where se: "se = (slot, entry)" by (cases se)
    have h: "slot < length (data_words b)" "data_words b ! slot = entry" "entry = e" "entry \<noteq> 0"
      using find_entry_by_address_Some [of b tag address slot entry] Some se by (auto simp: e_def)
    then have "slot < DATA_ENTRIES" "e \<in> set (data_words b)"
      using b(2) length_data_words nth_mem [OF h(1)] by auto
    then show ?thesis using b h Some se by (auto simp: ref_words_def holds_at_def data_words_nth)
  qed
qed simp

lemma entry_new_nonzero:
  "0 < a \<Longrightarrow> a \<le> ADDRESS_MASK \<Longrightarrow> entry_new a tag tn \<noteq> 0 \<and> entry_address (entry_new a tag tn) = a"
proof -
  assume a: "0 < a" "a \<le> ADDRESS_MASK"
  have "unat (mask 48 :: u64) < 2 ^ 48" by (simp add: mask_eq_exp_minus_1)
  then have "unat a < 2 ^ 48" using a(2) by (simp add: field_defs word_le_nat_alt)
  then have "a AND mask 48 = a" by (rule iffD2 [OF and_mask_idem])
  then have "entry_address (entry_new a tag tn) = a"
    by (simp add: entry_new_fields clean_address_def field_defs)
  moreover have "entry_address 0 = 0" by (simp add: entry_address_def)
  ultimately show ?thesis using a(1) by auto
qed

lemma find_exact_eq:
  assumes inv: "index_inv ix ch fs" and e: "entry_new address (tag_from_hash hash) False \<noteq> 0"
  defines "i \<equiv> bucket_index_for_hash ix hash"
  shows "find_exact_entry_by_hash ix hash address = Some None \<and>
      entry_new address (tag_from_hash hash) False \<notin># index_entries ix i \<or>
    (\<exists>hei. find_exact_entry_by_hash ix hash address = Some (Some hei) \<and>
      entry_new address (tag_from_hash hash) False \<in># index_entries ix i \<and>
      hei_bucket hei \<in> set (take MAX_CHAIN_STEPS (refs_of i (ch i))) \<and>
      hei_raw hei = entry_new address (tag_from_hash hash) False \<and> hei_tag hei = tag_from_hash hash \<and>
      holds_at ix (hei_bucket hei) (hei_slot hei) (hei_raw hei))"
proof -
  have i: "i < ix_size ix" using hash_bucket_less [OF inv] by (simp add: i_def)
  let ?rs = "take MAX_CHAIN_STEPS (refs_of i (ch i))"
  have ld: "\<exists>b. load_bucket ix r = Some b \<and> bucket_ok b" if "r \<in> set ?rs" for r
    using live_in_pool [OF inv i in_set_takeD [OF that]] .
  have g: "get_bucket ix i = MainRef i" using get_bucket_hash [of ix hash] by (simp add: i_def)
  obtain r0 where r0: "find_exact_entry_by_hash ix hash address = Some r0" and
    v: "case r0 of
        None \<Rightarrow> entry_new address (tag_from_hash hash) False \<notin> set (concat (map (ref_words ix) ?rs))
      | Some hei \<Rightarrow> entry_new address (tag_from_hash hash) False \<in> set (concat (map (ref_words ix) ?rs)) \<and>
          hei_bucket hei \<in> set ?rs \<and> hei_raw hei = entry_new address (tag_from_hash hash) False \<and>
          hei_tag hei = tag_from_hash hash \<and> hei_first_bucket hei = MainRef i \<and>
          holds_at ix (hei_bucket hei) (hei_slot hei) (entry_new address (tag_from_hash hash) False)"
    using visit_exact [where rs = ?rs and fb = "MainRef i" and u = "()", OF ld e]
      find_exact_walk.loop_start [OF inv i, of "MainRef i" "tag_from_hash hash" address "()"]
    by (simp add: find_exact_entry_by_hash_def Let_def i_def [symmetric] g)
  then show ?thesis
    using e by (cases r0) (simp_all add: index_entries_def nonzero_def inv_words [OF inv i])
qed

section \<open>Handles\<close>

text \<open>Storing a word into a data slot of a visible bucket.\<close>

lemma store_slot_entries:
  fixes v :: u64
  assumes inv: "index_inv ix ch fs" and i: "i < ix_size ix" and r: "r \<in> set (take MAX_CHAIN_STEPS (refs_of i (ch i)))"
    and b: "load_bucket ix r = Some b" "bucket_ok b" "slot < DATA_ENTRIES"
  defines "ix' \<equiv> store_bucket ix r (b\<lparr>entries := (entries b)[slot := v]\<rparr>)"
  shows "index_inv ix' ch fs"
    and "index_entries ix' i + nonzero {#entries b ! slot#} = index_entries ix i + nonzero {#v#}"
    and "j < ix_size ix \<Longrightarrow> j \<noteq> i \<Longrightarrow> index_entries ix' j = index_entries ix j"
proof -
  note st = store_slot [OF b(2,3), of v]
  have own: "ref_owned ix fs r" using inv_owned [OF inv i in_set_takeD [OF r]] .
  show "index_inv ix' ch fs" unfolding ix'_def by (rule store_inv [OF inv own b(1) st(1,3)])
  have len: "slot < length (data_words b)" using b(2,3) by (simp add: length_data_words)
  then have "mset (data_words b) = add_mset (data_words b ! slot) (mset (data_words b) - {#data_words b ! slot#})"
    by (simp add: insert_DiffM)
  moreover have "mset ((data_words b)[slot := v]) = add_mset v (mset (data_words b) - {#data_words b ! slot#})"
    using len by (simp add: mset_update)
  ultimately obtain M where M: "mset (data_words b) = {#entries b ! slot#} + M"
    "mset ((data_words b)[slot := v]) = {#v#} + M"
    using b(3) by (auto simp: data_words_nth)
  show "index_entries ix' i + nonzero {#entries b ! slot#} = index_entries ix i + nonzero {#v#}"
    using store_entries(1) [OF inv i r b(1) st(1,3)] unfolding ix'_def st(2) M
    by (simp only: nonzero_simps(2)) (metis (no_types, lifting) add_right_cancel union_assoc)
  show "j < ix_size ix \<Longrightarrow> j \<noteq> i \<Longrightarrow> index_entries ix' j = index_entries ix j"
    unfolding ix'_def by (rule store_entries(2) [OF inv i r b(1) st(1,3)])
qed

text \<open>
  A handle of chain \<open>i\<close>. Its compare-and-swap succeeds exactly when the slot still holds the word the
  handle remembers.
\<close>

definition handle_ok :: "HashIndex \<Rightarrow> (nat \<Rightarrow> u64 list) \<Rightarrow> nat \<Rightarrow> HashEntryInfo \<Rightarrow> bool" where
  "handle_ok ix ch i hei \<longleftrightarrow>
     i < ix_size ix \<and> hei_bucket hei \<in> set (take MAX_CHAIN_STEPS (refs_of i (ch i))) \<and> hei_slot hei < DATA_ENTRIES"

lemma hei_cas_correct:
  assumes inv: "index_inv ix ch fs" and h: "handle_ok ix ch i hei"
  shows "\<exists>cur. holds_at ix (hei_bucket hei) (hei_slot hei) cur \<and>
    (if cur = hei_raw hei
     then \<exists>ix'. hei_cas ix hei v = Some (True, hei\<lparr>hei_raw := v\<rparr>, ix') \<and> index_inv ix' ch fs \<and>
       ix_size ix' = ix_size ix \<and> ix_mask ix' = ix_mask ix \<and>
       index_entries ix' i + nonzero {#hei_raw hei#} = index_entries ix i + nonzero {#v#} \<and>
       (\<forall>j < ix_size ix. j \<noteq> i \<longrightarrow> index_entries ix' j = index_entries ix j)
     else hei_cas ix hei v = Some (False, hei, ix))"
proof -
  have i: "i < ix_size ix" and r: "hei_bucket hei \<in> set (take MAX_CHAIN_STEPS (refs_of i (ch i)))"
    and slot: "hei_slot hei < DATA_ENTRIES" using h by (auto simp: handle_ok_def)
  obtain b where b: "load_bucket ix (hei_bucket hei) = Some b" "bucket_ok b"
    using live_in_pool [OF inv i in_set_takeD [OF r]] by blast
  show ?thesis
  proof (cases "entries b ! hei_slot hei = hei_raw hei")
    case True
    then show ?thesis using store_slot_entries [OF inv i r b slot, where v = v] b slot
      by (intro exI [of _ "hei_raw hei"]) (simp add: holds_at_def hei_cas_def cas_entry_def)
  next
    case False
    then show ?thesis using b slot
      by (intro exI [of _ "entries b ! hei_slot hei"]) (simp add: holds_at_def hei_cas_def cas_entry_def)
  qed
qed

section \<open>Extending a chain\<close>

lemma links_snoc:
  "links ix r os \<Longrightarrow> distinct (r # map OverRef os) \<Longrightarrow>
     (\<And>q. q \<in> set (butlast (r # map OverRef os)) \<Longrightarrow> load_bucket ix' q = load_bucket ix q) \<Longrightarrow>
     load_bucket ix' (last (r # map OverRef os)) = Some b2 \<Longrightarrow> bucket_overflow_index b2 = oid \<Longrightarrow> oid \<noteq> 0 \<Longrightarrow>
     links ix' (OverRef oid) [] \<Longrightarrow> links ix' r (os @ [oid])"
  by (induction os arbitrary: r) auto

lemma concat_take_snoc:
  "nonzero (mset (concat (map f (take n (rs @ [r]))))) =
     nonzero (mset (concat (map f (take n rs)))) + (if length rs < n then nonzero (mset (f r)) else {#})"
  by (simp add: take_append min_def)

lemma small_link: "pool_ok p \<Longrightarrow> oid \<le> allocated p \<Longrightarrow> oid AND ADDRESS_MASK = oid"
  by (simp add: field_defs) (rule iffD2 [OF and_mask_idem [of oid 48]],
      auto simp: pool_ok_def word_le_nat_alt pool_capacity_eq)

lemma load_after_allocate:
  assumes inv: "pool_inv p fs" and a: "pool_allocate p = (Inr oid, p')"
  obtains fs' where "pool_inv p' fs'" "oid \<notin> handed_out p fs" "oid \<noteq> 0" "oid \<le> allocated p'"
    "handed_out p' fs' = insert oid (handed_out p fs)" "pool_get_unchecked p' oid = Some bucket_new"
    "\<And>q. q \<in> handed_out p fs \<Longrightarrow> pool_get_unchecked p' q = pool_get_unchecked p q"
proof -
  from allocate_handed_out [OF inv a] obtain fs' where p': "pool_inv p' fs'" "allocated p \<le> allocated p'"
    and o: "oid \<notin> handed_out p fs" "oid \<noteq> 0" "oid \<le> allocated p'"
      "handed_out p' fs' = insert oid (handed_out p fs)" "pool_at p' (unat oid - 1) = Some bucket_new"
      "\<forall>j \<in> handed_out p fs. pool_at p' (unat j - 1) = pool_at p (unat j - 1)"
    by auto
  have ok: "pool_ok p" "pool_ok p'" using inv p' by (simp_all add: pool_inv_def)
  have "pool_get_unchecked p' q = pool_get_unchecked p q" if "q \<in> handed_out p fs" for q
    using that o(6) p'(2) ok by (auto simp: pool_get_unchecked_at handed_out_def)
  then show ?thesis using that p'(1) o ok(2) by (auto simp: pool_get_unchecked_at)
qed

lemma grow_chain:
  assumes ch: "chains_ok ix ch out" and i: "i < ix_size ix" and sz: "ix_size ix' = ix_size ix"
    and oid: "oid \<notin> out" "oid \<noteq> 0" and r: "r = last (refs_of i (ch i))"
    and b: "load_bucket ix r = Some b" "load_bucket ix' r = Some b2" "data_words b2 = data_words b"
      "bucket_overflow_index b2 = oid"
    and new: "load_bucket ix' (OverRef oid) = Some bucket_new"
    and old: "\<And>q. q \<noteq> r \<Longrightarrow> q \<in> MainRef ` {..<ix_size ix} \<union> OverRef ` out \<Longrightarrow> load_bucket ix' q = load_bucket ix q"
  shows "chains_ok ix' (ch(i := ch i @ [oid])) (insert oid out)"
    and "j < ix_size ix \<Longrightarrow> index_entries ix' j = index_entries ix j"
    and "q \<in> set (refs_of i (ch i)) \<Longrightarrow> ref_words ix' q = ref_words ix q"
proof -
  have c: "links ix (MainRef k) (ch k)" "distinct (ch k)" "set (ch k) \<subseteq> out" if "k < ix_size ix" for k
    using ch that by (auto simp: chains_ok_def)
  have dj: "set (ch k) \<inter> set (ch l) = {}" if "k < ix_size ix" "l < ix_size ix" "k \<noteq> l" for k l
    using ch that by (auto simp: chains_ok_def)
  have rin: "r \<in> set (refs_of i (ch i))" unfolding r by (rule last_in_set) simp
  have own: "q \<in> MainRef ` {..<ix_size ix} \<union> OverRef ` out" if "q \<in> set (refs_of k (ch k))" "k < ix_size ix" for q k
    using that c(3) [of k] by auto
  have nr: "r \<notin> set (refs_of k (ch k))" if "k < ix_size ix" "k \<noteq> i" for k
    using rin dj [OF i that(1)] that(2) by auto
  have other: "links ix' (MainRef k) (ch k)" if k: "k < ix_size ix" "k \<noteq> i" for k
  proof (rule links_cong [OF c(1) [OF k(1)]])
    fix q assume "q = MainRef k \<or> q \<in> OverRef ` set (ch k)"
    then have "q \<in> set (refs_of k (ch k))" by auto
    with nr [OF k] own [OF _ k(1)] show "load_bucket ix' q = load_bucket ix q" by (metis old)
  qed
  note d = refs_distinct [OF c(2) [OF i], of i]
  have same: "links ix' (MainRef i) (ch i @ [oid])"
  proof (rule links_snoc [OF c(1) [OF i] d _ b(2) [unfolded r] b(4) oid(2)])
    fix q assume q: "q \<in> set (butlast (refs_of i (ch i)))"
    then have "q \<noteq> r" using d unfolding r by (metis append_butlast_last_id distinct_butlast not_distinct_conv_prefix list.distinct(1))
    then show "load_bucket ix' q = load_bucket ix q" using own [OF in_set_butlastD [OF q] i] by (rule old)
  qed (use new bucket_new_link in simp)
  show "chains_ok ix' (ch(i := ch i @ [oid])) (insert oid out)"
    unfolding chains_ok_def sz
  proof (intro conjI allI impI)
    fix k assume k: "k < ix_size ix"
    show "links ix' (MainRef k) ((ch(i := ch i @ [oid])) k)" using other [OF k] same by (cases "k = i") simp_all
    have "oid \<notin> set (ch k)" using c(3) [OF k] oid(1) by blast
    then show "distinct ((ch(i := ch i @ [oid])) k)" using c(2) [OF k] by (cases "k = i") simp_all
    show "set ((ch(i := ch i @ [oid])) k) \<subseteq> insert oid out" using c(3) [OF k] by (cases "k = i") auto
    fix l assume l: "l < ix_size ix" "k \<noteq> l"
    have "oid \<notin> set (ch l)" using c(3) [OF l(1)] oid(1) by blast
    then show "set ((ch(i := ch i @ [oid])) k) \<inter> set ((ch(i := ch i @ [oid])) l) = {}"
      using dj [OF k l] \<open>oid \<notin> set (ch k)\<close> l(2) by (cases "k = i"; cases "l = i") simp_all
  qed
  have w: "ref_words ix' q = ref_words ix q" if "q \<in> set (refs_of k (ch k))" "k < ix_size ix" for q k
    using old [OF _ own [OF that]] b by (cases "q = r") (simp_all add: ref_words_def)
  show "q \<in> set (refs_of i (ch i)) \<Longrightarrow> ref_words ix' q = ref_words ix q" using w i by blast
  have wt: "map (ref_words ix') (take n (refs_of k (ch k))) = map (ref_words ix) (take n (refs_of k (ch k)))"
    if "k < ix_size ix" for k n using w that by (intro map_cong refl) (blast dest: in_set_takeD)
  assume j: "j < ix_size ix"
  show "index_entries ix' j = index_entries ix j"
  proof (cases "j = i")
    case False
    then show ?thesis
      using chain_refs_links [OF other [OF j]] chain_refs_links [OF c(1) [OF j]] wt [OF j]
      by (simp only: index_entries_def index_words_def not_False_eq_True)
  next
    case True
    have "refs_of i (ch i @ [oid]) = refs_of i (ch i) @ [OverRef oid]" by simp
    then show ?thesis
      using chain_refs_links [OF same] chain_refs_links [OF c(1) [OF i]] wt [OF i] new bucket_new_words
      unfolding index_entries_def index_words_def True
      by (simp only: concat_take_snoc) (simp add: ref_words_def)
  qed
qed

lemma extend_correct:
  assumes inv: "index_inv ix ch fs" and i: "i < ix_size ix" and w: "walker_at ch i xs [] w"
  shows "extend_chain ix (cw_curr w) = Some (Inl OverflowPoolExhausted, ix) \<or>
    (\<exists>ix' oid fs'. extend_chain ix (cw_curr w) = Some (Inr (), ix') \<and> index_inv ix' (ch(i := ch i @ [oid])) fs' \<and>
      ix_size ix' = ix_size ix \<and> ix_mask ix' = ix_mask ix \<and>
      load_bucket ix' (OverRef oid) = Some bucket_new \<and>
      (\<forall>j < ix_size ix. index_entries ix' j = index_entries ix j) \<and>
      (\<forall>q \<in> set (refs_of i (ch i)). ref_words ix' q = ref_words ix q))"
proof (cases "pool_allocate (overflow_pool ix)")
  case (Pair res p')
  note pt = index_inv_parts [OF inv]
  define r where "r = cw_curr w"
  have ci: "ch i = xs" "r = last (refs_of i (ch i))" using w by (simp_all add: walker_at_def r_def)
  obtain b where b: "load_bucket ix r = Some b" "bucket_ok b" "bucket_overflow_index b = 0"
    using walker_load [OF inv i w] by (auto simp: r_def)
  show ?thesis
  proof (cases res)
    case (Inl e)
    then show ?thesis using allocate_handed_out [OF pt(3) Pair] Pair b by (auto simp: extend_chain_def r_def [symmetric])
  next
    case (Inr oid)
    from load_after_allocate [OF pt(3) Pair [unfolded Inr]] obtain fs' where
      p': "pool_inv p' fs'" and oid: "oid \<notin> handed_out (overflow_pool ix) fs" "oid \<noteq> 0" "oid \<le> allocated p'"
      and ho: "handed_out p' fs' = insert oid (handed_out (overflow_pool ix) fs)"
      and new: "pool_get_unchecked p' oid = Some bucket_new"
      and old: "\<And>q. q \<in> handed_out (overflow_pool ix) fs \<Longrightarrow> pool_get_unchecked p' q = pool_get_unchecked (overflow_pool ix) q"
      by blast
    define ix1 where "ix1 = ix\<lparr>overflow_pool := p'\<rparr>"
    have own: "ref_owned ix fs r" using inv_owned [OF inv i walker_visible(2) [OF w]] by (simp add: r_def)
    have ld1: "load_bucket ix1 q = load_bucket ix q" if "ref_owned ix fs q" for q
      using that old by (cases q) (simp_all add: ix1_def ref_owned_def)
    have ok1: "table_ok ix1" "pool_ok p'" using pt(1) p' by (simp_all add: ix1_def table_ok_def pool_inv_def)
    have own1: "ref_owned ix1 fs' r" using own ho by (cases r) (simp_all add: ref_owned_def ix1_def)
    obtain b2 where b2: "bucket_set_overflow_index b oid = (True, b2)" "bucket_ok b2" "data_words b2 = data_words b"
      "bucket_overflow_index b2 = oid"
      using set_link [OF b(2,3) oid(2) small_link [OF ok1(2) oid(3)]] by blast
    define ix' where "ix' = store_bucket ix1 r b2"
    have ext: "extend_chain ix r = Some (Inr (), ix')"
      using b Pair Inr ld1 [OF own] b2(1) by (simp add: extend_chain_def ix1_def ix'_def Let_def)
    have ld: "load_bucket ix' q = (if q = r then Some b2 else load_bucket ix1 q)" for q
      unfolding ix'_def using load_store [OF ok1(1) _ ref_owned_live [OF own1]] ok1(2) by (simp add: ix1_def)
    note new' = grow_chain [OF pt(4) i _ oid(1,2) ci(2) b(1) _ b2(3,4)]
    have "r \<noteq> OverRef oid" using own oid(1) by (auto simp: ref_owned_def)
    then have l2: "load_bucket ix' (OverRef oid) = Some bucket_new" using new ld [of "OverRef oid"] by (simp add: ix1_def)
    have l3: "load_bucket ix' q = load_bucket ix q"
      if "q \<noteq> r" "q \<in> MainRef ` {..<ix_size ix} \<union> OverRef ` handed_out (overflow_pool ix) fs" for q
      using that ld1 [of q] by (auto simp: ld ref_owned_def)
    have sz: "ix_size ix' = ix_size ix" "ix_mask ix' = ix_mask ix" by (simp_all add: ix'_def ix1_def)
    have "pool_inv (overflow_pool ix') fs'"
      using p' own1 pool_inv_put [OF p' _ _ _ b2(2)] by (cases r) (auto simp: ix'_def ix1_def ref_owned_def handed_out_def)
    moreover have "table_ok ix'" using store_table_ok [OF ok1(1) b2(2)] by (simp add: ix'_def)
    moreover have "handed_out (overflow_pool ix') fs' = insert oid (handed_out (overflow_pool ix) fs)"
      by (simp add: ix'_def) (simp add: ix1_def ho)
    ultimately have "index_inv ix' (ch(i := ch i @ [oid])) fs'"
      using new'(1) [of ix', OF sz(1) _ l2 l3] by (simp add: index_inv_def ld)
    moreover have "\<forall>j < ix_size ix. index_entries ix' j = index_entries ix j"
      using new'(2) [of ix', OF sz(1) _ l2 l3] by (simp add: ld)
    moreover have "\<forall>q \<in> set (refs_of i (ch i)). ref_words ix' q = ref_words ix q"
      using new'(3) [of ix', OF sz(1) _ l2 l3] by (simp add: ld)
    ultimately show ?thesis using ext l2 sz unfolding r_def by blast
  qed
qed

text \<open>
  What one call of \<open>advance_or_extend\<close> does on a well-formed index: it moves on, possibly after adding
  a zero bucket, or it fails with the contents unchanged.
\<close>

definition same_entries :: "HashIndex \<Rightarrow> HashIndex \<Rightarrow> bool" where
  "same_entries ix ix' \<longleftrightarrow>
     ix_size ix' = ix_size ix \<and> ix_mask ix' = ix_mask ix \<and>
     (\<forall>j < ix_size ix. index_entries ix' j = index_entries ix j)"

lemma same_entries_refl [simp]: "same_entries ix ix"
  by (simp add: same_entries_def)

lemma advance_or_extend_correct:
  assumes inv: "index_inv ix ch fs" and i: "i < ix_size ix" and w: "walker_at ch i xs os w"
  shows "(\<exists>e ix' ch' fs'. advance_or_extend ix w = Some (Inl e, ix') \<and>
      e \<in> {OverflowPoolExhausted, OverflowCycleDetected} \<and> index_inv ix' ch' fs' \<and> same_entries ix ix') \<or>
    (\<exists>w' ix' ch' fs' oid os'. advance_or_extend ix w = Some (Inr w', ix') \<and> index_inv ix' ch' fs' \<and>
      same_entries ix ix' \<and> walker_at ch' i (xs @ [oid]) os' w' \<and> ch' = ch(i := xs @ oid # os') \<and>
      os' = tl os \<and> (os \<noteq> [] \<longrightarrow> hd os = oid) \<and> (\<forall>q \<in> set (refs_of i (ch i)). ref_words ix' q = ref_words ix q))"
proof (cases os)
  case (Cons oid os')
  note st = advance_step [OF inv i w [unfolded Cons]]
  have c: "ch i = xs @ oid # os'" using w by (simp add: walker_at_def Cons)
  show ?thesis
  proof (cases "MAX_CHAIN_STEPS \<le> length xs + 1")
    case True
    with st inv show ?thesis by (auto simp: advance_or_extend_def step_result_def)
  next
    case False
    then show ?thesis using st inv Cons c
      by (intro disjI2 exI [of _ "\<lparr>cw_curr = OverRef oid, cw_step = length xs + 1\<rparr>"] exI [of _ ix] exI [of _ ch]
          exI [of _ fs] exI [of _ oid] exI [of _ os']) (simp add: advance_or_extend_def step_result_def fun_upd_idem)
  qed
next
  case Nil
  note w0 = w [unfolded Nil]
  have e: "advance ix w = Some (End, w)" by (rule advance_end [OF inv i w0])
  have xs: "ch i = xs" using w0 by (simp add: walker_at_def)
  from extend_correct [OF inv i w0] show ?thesis
  proof (elim disjE exE conjE)
    assume "extend_chain ix (cw_curr w) = Some (Inl OverflowPoolExhausted, ix)"
    then show ?thesis using e inv by (auto simp: advance_or_extend_def)
  next
    fix ix' oid fs'
    assume x: "extend_chain ix (cw_curr w) = Some (Inr (), ix')" and inv': "index_inv ix' (ch(i := ch i @ [oid])) fs'"
      and sz: "ix_size ix' = ix_size ix" "ix_mask ix' = ix_mask ix"
      and en: "\<forall>j < ix_size ix. index_entries ix' j = index_entries ix j"
      and rw: "\<forall>q \<in> set (refs_of i (ch i)). ref_words ix' q = ref_words ix q"
    have w1: "walker_at (ch(i := ch i @ [oid])) i xs [oid] w" using w0 by (simp add: walker_at_def)
    note st = advance_step [OF inv' _ w1, unfolded sz(1), OF i]
    have same: "same_entries ix ix'" using sz en by (simp add: same_entries_def)
    show ?thesis
    proof (cases "MAX_CHAIN_STEPS \<le> length xs + 1")
      case True
      with st x e inv' same show ?thesis by (auto simp: advance_or_extend_def step_result_def)
    next
      case False
      then show ?thesis using st x e inv' same Nil xs rw
        by (intro disjI2 exI [of _ "\<lparr>cw_curr = OverRef oid, cw_step = length xs + 1\<rparr>"] exI [of _ ix']
            exI [of _ "ch(i := ch i @ [oid])"] exI [of _ fs'] exI [of _ oid] exI [of _ "[]"])
          (simp add: advance_or_extend_def step_result_def)
    qed
  qed
qed

section \<open>Insertion\<close>

lemma same_entries_trans: "same_entries ix ix1 \<Longrightarrow> same_entries ix1 ix2 \<Longrightarrow> same_entries ix ix2"
  by (simp add: same_entries_def)

definition entry_added :: "HashIndex \<Rightarrow> HashIndex \<Rightarrow> nat \<Rightarrow> u64 \<Rightarrow> bool" where
  "entry_added ix ix' i e \<longleftrightarrow>
     ix_size ix' = ix_size ix \<and> ix_mask ix' = ix_mask ix \<and>
     (\<forall>j < ix_size ix. index_entries ix' j = (if j = i then add_mset e (index_entries ix j) else index_entries ix j))"

lemma entry_added_trans: "same_entries ix ix1 \<Longrightarrow> entry_added ix1 ix2 i e \<Longrightarrow> entry_added ix ix2 i e"
  by (simp add: same_entries_def entry_added_def)

lemma insert_loop_correct:
  "index_inv ix ch fs \<Longrightarrow> i < ix_size ix \<Longrightarrow> walker_at ch i xs os w \<Longrightarrow> entry_new a tag False \<noteq> 0 \<Longrightarrow>
    (\<exists>e ix' ch' fs'. insert_loop ix tag a w = Some (Inl e, ix') \<and>
       e \<in> {OverflowPoolExhausted, OverflowCycleDetected} \<and> index_inv ix' ch' fs' \<and> same_entries ix ix') \<or>
    (\<exists>ix' ch' fs'. insert_loop ix tag a w = Some (Inr True, ix') \<and> index_inv ix' ch' fs' \<and>
       entry_added ix ix' i (entry_new a tag False))"
proof (induction ix tag a w arbitrary: ch fs xs os rule: insert_loop.induct)
  case (1 ix tag a w)
  note inv = "1.prems"(1) and i = "1.prems"(2) and w = "1.prems"(3)
  obtain b where b: "load_bucket ix (cw_curr w) = Some b" "bucket_ok b" using walker_load [OF inv i w] by blast
  show ?case
  proof (cases "find_empty_slot b")
    case (Some slot)
    then have s: "slot < DATA_ENTRIES" "entries b ! slot = 0"
      using find_empty_slot_Some [OF Some] b(2) by (auto simp: length_data_words data_words_nth)
    note st = store_slot_entries [OF inv i walker_visible(1) [OF w] b s(1), where v = "entry_new a tag False"]
    have "insert_loop ix tag a w = Some (Inr True, store_bucket ix (cw_curr w) (b\<lparr>entries := (entries b)[slot := entry_new a tag False]\<rparr>))"
      using b Some s by (subst insert_loop.simps) (simp add: try_insert_def cas_entry_def)
    then show ?thesis using st s(2) "1.prems"(4) by (auto simp: entry_added_def)
  next
    case None
    from advance_or_extend_correct [OF inv i w] show ?thesis
    proof (elim disjE exE conjE)
      fix e ix' ch' fs'
      assume "advance_or_extend ix w = Some (Inl e, ix')" "e \<in> {OverflowPoolExhausted, OverflowCycleDetected}"
        "index_inv ix' ch' fs'" "same_entries ix ix'"
      moreover from this(1) have "insert_loop ix tag a w = Some (Inl e, ix')"
        using b None by (subst insert_loop.simps) simp
      ultimately show ?thesis by blast
    next
      fix w' ix' ch' fs' oid os'
      assume a: "advance_or_extend ix w = Some (Inr w', ix')" "index_inv ix' ch' fs'" "same_entries ix ix'"
        "walker_at ch' i (xs @ [oid]) os' w'"
      have step: "insert_loop ix tag a w = insert_loop ix' tag a w'"
        using b None a(1) by (subst insert_loop.simps) simp
      have i': "i < ix_size ix'" using a(3) i by (simp add: same_entries_def)
      from "1.IH" [OF b(1) None a(1) refl refl a(2) i' a(4) "1.prems"(4)] show ?thesis
        unfolding step using a(3) same_entries_trans entry_added_trans by blast
    qed
  qed
qed

lemma get_bucket_idem: "get_bucket ix (n AND ix_mask ix) = MainRef (n AND ix_mask ix)"
  by (simp add: get_bucket_def nat_mask_idem)

lemma address_bound: "\<not> ADDRESS_MASK < a \<Longrightarrow> a \<noteq> INVALID_ADDRESS \<Longrightarrow> 0 < a \<and> a \<le> ADDRESS_MASK"
  by (simp add: INVALID_ADDRESS_def word_neq_0_conv not_less)

lemma insert_to_bucket_cases:
  fixes bucket_idx :: nat
  assumes inv: "index_inv ix ch fs"
  defines "i \<equiv> bucket_idx AND ix_mask ix"
  shows "(a = INVALID_ADDRESS \<and> insert_to_bucket ix bucket_idx tag a = Some (Inl (InvalidAddress a), ix)) \<or>
    (ADDRESS_MASK < a \<and> insert_to_bucket ix bucket_idx tag a = Some (Inl (AddressOverflow a), ix)) \<or>
    (\<exists>e ix' ch' fs'. insert_to_bucket ix bucket_idx tag a = Some (Inl e, ix') \<and>
       e \<in> {OverflowPoolExhausted, OverflowCycleDetected} \<and> index_inv ix' ch' fs' \<and> same_entries ix ix') \<or>
    (\<exists>ix' ch' fs'. insert_to_bucket ix bucket_idx tag a = Some (Inr (), ix') \<and> index_inv ix' ch' fs' \<and>
       0 < a \<and> a \<le> ADDRESS_MASK \<and> entry_added ix ix' i (entry_new a tag False))"
proof (cases "a = INVALID_ADDRESS \<or> ADDRESS_MASK < a")
  case True
  then show ?thesis by (auto simp: insert_to_bucket_def)
next
  case False
  then have a: "0 < a" "a \<le> ADDRESS_MASK" using address_bound by blast+
  have i: "i < ix_size ix" using bucket_index_less [OF index_inv_parts(1) [OF inv]] by (simp add: i_def)
  have g: "get_bucket ix i = MainRef i" by (simp add: i_def get_bucket_idem)
  have "insert_to_bucket ix bucket_idx tag a = insert_retry ix i tag a"
    using False by (simp add: insert_to_bucket_def i_def)
  also have "\<dots> = (case insert_loop ix tag a (walker_new (MainRef i)) of
        None \<Rightarrow> None
      | Some (Inl e, ix1) \<Rightarrow> Some (Inl e, ix1)
      | Some (Inr ok, ix1) \<Rightarrow> if ok then Some (Inr (), ix1) else insert_retry ix1 i tag a)"
    by (subst insert_retry.simps) (simp add: g)
  finally show ?thesis
    using insert_loop_correct [OF inv i walker_start, of a tag] entry_new_nonzero [OF a, of tag False] a by auto
qed

end
