(* ===== verification/IndexScan.thy ===== *)
theory IndexScan
  imports IndexCorrect
begin

text \<open>
  The lookups that clear stale slots on their way: \<open>find_tag_entry_by_hash_with_min_addr\<close> and
  \<open>find_or_create_tag_by_hash_with_min_addr\<close>. A slot is stale when its address lies below the start of
  the log; its entry is dead. The lemmas show that these operations leave the live entries of every
  bucket alone, that a handle they return points at a live entry of the tag or at a free slot, and
  that a free slot is returned only when the chain has no live entry of the tag.
\<close>

section \<open>Slots\<close>

definition stale :: "u64 \<Rightarrow> u64 \<Rightarrow> bool" where
  "stale min_addr raw \<longleftrightarrow>
     0 < min_addr \<and> \<not> is_tentative raw \<and> \<not> entry_is_read_cache raw \<and> entry_address raw < min_addr"

definition live :: "u64 \<Rightarrow> u64 \<Rightarrow> bool" where
  "live min_addr raw \<longleftrightarrow> raw \<noteq> 0 \<and> \<not> stale min_addr raw"

definition clear_stale :: "u64 \<Rightarrow> u64 \<Rightarrow> u64" where
  "clear_stale min_addr raw = (if stale min_addr raw then 0 else raw)"

lemma matches_nonzero: "matches_tag raw tag \<Longrightarrow> raw \<noteq> 0"
  by (auto simp: matches_tag_def)

lemma classify_quiet:
  "classify_slot raw raw tag min_addr =
     (if raw = 0 then Free else if stale min_addr raw then Free
      else if matches_tag raw tag then Hit raw else Occupied, clear_stale min_addr raw)"
  by (auto simp: classify_slot_def stale_def clear_stale_def matches_nonzero)

text \<open>
  Under interference a hit is still an entry of the tag that was in the slot at the second access, and
  the call changes the slot only by clearing a stale word.
\<close>

lemma classify_hit:
  assumes "classify_slot raw actual tag min_addr = (Hit r, after)"
  shows "r = actual \<and> after = actual \<and> matches_tag r tag"
  using assms by (auto simp: classify_slot_def split: if_splits)

lemma classify_after:
  assumes "classify_slot raw actual tag min_addr = (s, after)"
  shows "after = actual \<or> after = 0 \<and> actual = raw \<and> stale min_addr raw"
  using assms by (auto simp: classify_slot_def stale_def split: if_splits)

lemma scan_hit_spec:
  assumes "scan_hit tag min_addr n ws = (r, ws')"
  shows "length ws' = length ws \<and> filter (live min_addr) ws' = filter (live min_addr) ws \<and>
    (case r of
       None \<Rightarrow> (\<forall>raw \<in> set ws'. live min_addr raw \<longrightarrow> \<not> matches_tag raw tag)
     | Some (slot, raw) \<Rightarrow> n \<le> slot \<and> slot < n + length ws \<and> ws' ! (slot - n) = raw \<and>
         matches_tag raw tag \<and> live min_addr raw)"
  using assms
proof (induction ws arbitrary: n r ws')
  case (Cons x xs)
  show ?case
  proof (cases "live min_addr x \<and> matches_tag x tag")
    case True
    then show ?thesis using Cons.prems by (auto simp: classify_quiet live_def clear_stale_def)
  next
    case False
    obtain r0 xs' where rec: "scan_hit tag min_addr (n + 1) xs = (r0, xs')" by fastforce
    then have "r = r0" "ws' = clear_stale min_addr x # xs'"
      using Cons.prems False by (auto simp: classify_quiet live_def split: if_splits)
    moreover have "live min_addr (clear_stale min_addr x) = live min_addr x"
      by (auto simp: live_def clear_stale_def stale_def)
    moreover have "live min_addr x \<Longrightarrow> clear_stale min_addr x = x" by (auto simp: live_def clear_stale_def)
    ultimately show ?thesis using Cons.IH [OF rec] False
      by (auto simp: nth_Cons' split: option.splits)
  qed
qed simp

lemma scan_create_spec:
  assumes "scan_create tag min_addr r n ff ws = (h, ff', ws')"
  shows "length ws' = length ws \<and> filter (live min_addr) ws' = filter (live min_addr) ws \<and>
    (case h of
       None \<Rightarrow> (\<forall>raw \<in> set ws'. live min_addr raw \<longrightarrow> \<not> matches_tag raw tag)
     | Some (slot, raw) \<Rightarrow> n \<le> slot \<and> slot < n + length ws \<and> ws' ! (slot - n) = raw \<and>
         matches_tag raw tag \<and> live min_addr raw) \<and>
    (ff' = ff \<or> ff = None \<and> (case ff' of None \<Rightarrow> False
       | Some (q, slot) \<Rightarrow> q = r \<and> n \<le> slot \<and> slot < n + length ws \<and> ws' ! (slot - n) = 0)) \<and>
    (ff' = None \<and> h = None \<longrightarrow> (\<forall>raw \<in> set ws. raw \<noteq> 0))"
  using assms
proof (induction ws arbitrary: n ff h ff' ws')
  case (Cons x xs)
  have c: "live min_addr (clear_stale min_addr x) = live min_addr x"
    "live min_addr x \<Longrightarrow> clear_stale min_addr x = x" "\<not> live min_addr x \<Longrightarrow> clear_stale min_addr x = 0"
    by (auto simp: live_def clear_stale_def stale_def)
  consider (hit) "live min_addr x" "matches_tag x tag" | (free) "\<not> live min_addr x"
    | (occupied) "live min_addr x" "\<not> matches_tag x tag" by blast
  then show ?case
  proof cases
    case hit
    then show ?thesis using Cons.prems by (auto simp: classify_quiet live_def clear_stale_def)
  next
    case free
    define ff1 where "ff1 = (case ff of None \<Rightarrow> Some (r, n) | Some q \<Rightarrow> Some q)"
    obtain h0 f0 xs' where rec: "scan_create tag min_addr r (n + 1) ff1 xs = (h0, f0, xs')" by (metis prod_cases3)
    then have "h = h0" "ff' = f0" "ws' = clear_stale min_addr x # xs'"
      using Cons.prems free by (auto simp: classify_quiet live_def ff1_def Let_def split: if_splits)
    moreover have "ff1 \<noteq> None" by (simp add: ff1_def split: option.split)
    ultimately show ?thesis using Cons.IH [OF rec] free c
      by (cases ff) (auto simp: nth_Cons' ff1_def split: option.splits)
  next
    case occupied
    obtain h0 f0 xs' where rec: "scan_create tag min_addr r (n + 1) ff xs = (h0, f0, xs')" by (metis prod_cases3)
    then have "h = h0" "ff' = f0" "ws' = clear_stale min_addr x # xs'"
      using Cons.prems occupied by (auto simp: classify_quiet live_def Let_def split: if_splits)
    moreover have "x \<noteq> 0" using occupied by (simp add: live_def)
    ultimately show ?thesis using Cons.IH [OF rec] occupied c
      by (auto simp: nth_Cons' split: option.splits)
  qed
qed simp

section \<open>A scanned bucket\<close>

definition live_entries :: "u64 \<Rightarrow> HashIndex \<Rightarrow> nat \<Rightarrow> u64 multiset" where
  "live_entries min_addr ix i = filter_mset (live min_addr) (index_entries ix i)"

definition same_live :: "u64 \<Rightarrow> HashIndex \<Rightarrow> HashIndex \<Rightarrow> bool" where
  "same_live min_addr ix ix' \<longleftrightarrow>
     ix_size ix' = ix_size ix \<and> ix_mask ix' = ix_mask ix \<and>
     (\<forall>j < ix_size ix. live_entries min_addr ix' j = live_entries min_addr ix j)"

lemma same_live_trans: "same_live m ix ix1 \<Longrightarrow> same_live m ix1 ix2 \<Longrightarrow> same_live m ix ix2"
  by (simp add: same_live_def)

lemma same_entries_live: "same_entries ix ix' \<Longrightarrow> same_live m ix ix'"
  by (simp add: same_entries_def same_live_def live_entries_def)

lemma set_data_words_facts:
  assumes "bucket_ok b" "length ws = DATA_ENTRIES"
  shows "bucket_ok (set_data_words b ws)" "data_words (set_data_words b ws) = ws"
    "bucket_overflow_index (set_data_words b ws) = bucket_overflow_index b"
  using assms by (auto simp: set_data_words_def bucket_ok_def data_words_def bucket_overflow_index_def
      bucket_consts nth_append)

definition clean_refs :: "u64 \<Rightarrow> u16 \<Rightarrow> HashIndex \<Rightarrow> bucket_ref set \<Rightarrow> bool" where
  "clean_refs min_addr tag ix R \<longleftrightarrow>
     (\<forall>r \<in> R. \<forall>raw \<in> set (ref_words ix r). live min_addr raw \<longrightarrow> \<not> matches_tag raw tag)"

lemma clean_refs_insert:
  assumes "clean_refs m tag ix R" "q \<notin> R" "\<And>p. p \<noteq> q \<Longrightarrow> ref_words ix1 p = ref_words ix p"
    and "\<forall>raw \<in> set (ref_words ix1 q). live m raw \<longrightarrow> \<not> matches_tag raw tag"
  shows "clean_refs m tag ix1 (insert q R)"
  using assms unfolding clean_refs_def by (metis insert_iff)

text \<open>Rewriting the slots of the bucket under the walker without touching a live word.\<close>

lemma rewrite_bucket:
  assumes inv: "index_inv ix ch fs" and i: "i < ix_size ix" and w: "walker_at ch i xs os w"
    and b: "load_bucket ix (cw_curr w) = Some b" "bucket_ok b"
    and ws: "length ws = DATA_ENTRIES" "filter (live m) ws = filter (live m) (data_words b)"
  defines "ix1 \<equiv> store_bucket ix (cw_curr w) (set_data_words b ws)"
  shows "index_inv ix1 ch fs" "same_live m ix ix1" "ref_words ix1 (cw_curr w) = ws"
    "q \<noteq> cw_curr w \<Longrightarrow> ref_words ix1 q = ref_words ix q"
    "load_bucket ix1 (cw_curr w) = Some (set_data_words b ws)"
proof -
  note f = set_data_words_facts [OF b(2) ws(1)]
  note vis = walker_visible [OF w]
  have own: "ref_owned ix fs (cw_curr w)" by (rule inv_owned [OF inv i vis(2)])
  show "index_inv ix1 ch fs" unfolding ix1_def by (rule store_inv [OF inv own b(1) f(1,3)])
  have ld: "load_bucket ix1 q = (if q = cw_curr w then Some (set_data_words b ws) else load_bucket ix q)" for q
    unfolding ix1_def by (rule load_store [OF index_inv_parts(1,2) [OF inv] ref_owned_live [OF own]])
  then show "ref_words ix1 (cw_curr w) = ws" "q \<noteq> cw_curr w \<Longrightarrow> ref_words ix1 q = ref_words ix q"
    "load_bucket ix1 (cw_curr w) = Some (set_data_words b ws)"
    by (simp_all add: ref_words_def f(2))
  have nz: "filter_mset (live m) (nonzero M) = filter_mset (live m) M" for M
    by (simp add: nonzero_def filter_filter_mset) (rule filter_mset_cong, auto simp: live_def)
  have "mset (filter (live m) ws) = mset (filter (live m) (data_words b))" by (simp only: ws(2))
  then have l: "filter_mset (live m) (mset ws) = filter_mset (live m) (mset (data_words b))" by (simp only: mset_filter)
  have "filter_mset (live m) (index_entries ix1 i + nonzero (mset (data_words b))) =
      filter_mset (live m) (index_entries ix i + nonzero (mset ws))"
    using store_entries(1) [OF inv i vis(1) b(1) f(1,3)] by (simp add: f(2) ix1_def)
  then have "live_entries m ix1 i = live_entries m ix i" by (simp add: live_entries_def nz l)
  then have "live_entries m ix1 j = live_entries m ix j" if "j < ix_size ix" for j
    using store_entries(2) [OF inv i vis(1) b(1) f(1,3) that]
    by (cases "j = i") (simp_all add: live_entries_def ix1_def)
  then show "same_live m ix ix1" by (simp add: same_live_def ix1_def)
qed

lemma walker_not_passed:
  assumes "index_inv ix ch fs" "i < ix_size ix" "walker_at ch i xs os w"
  shows "cw_curr w \<notin> set (butlast (refs_of i xs))"
proof -
  have d: "distinct (refs_of i xs)"
    using refs_distinct [of xs] inv_chain(2) [OF assms(1,2)] assms(3) by (simp add: walker_at_def)
  have "refs_of i xs = butlast (refs_of i xs) @ [cw_curr w]"
    using assms(3) by (simp add: walker_at_def del: last.simps butlast.simps list.map)
  then show ?thesis using d by (metis distinct_append disjoint_insert(1) list.simps(15) empty_set)
qed

lemma passed_snoc:
  "walker_at ch i xs os w \<Longrightarrow> set (butlast (refs_of i (xs @ [oid]))) = insert (cw_curr w) (set (butlast (refs_of i xs)))"
proof -
  assume "walker_at ch i xs os w"
  then have "refs_of i xs = butlast (refs_of i xs) @ [cw_curr w]"
    by (simp add: walker_at_def del: last.simps butlast.simps list.map)
  moreover have "butlast (refs_of i (xs @ [oid])) = refs_of i xs" by (simp add: butlast_append)
  ultimately show ?thesis by (metis set_append insert_is_Un list.simps(15) empty_set Un_commute)
qed

section \<open>The scanning loops\<close>

text \<open>What a handle that points at a live entry of the tag promises.\<close>

definition entry_handle :: "u64 \<Rightarrow> u16 \<Rightarrow> HashIndex \<Rightarrow> (nat \<Rightarrow> u64 list) \<Rightarrow> nat \<Rightarrow> HashEntryInfo \<Rightarrow> bool" where
  "entry_handle m tag ix ch i hei \<longleftrightarrow>
     handle_ok ix ch i hei \<and> hei_tag hei = tag \<and> matches_tag (hei_raw hei) tag \<and> live m (hei_raw hei) \<and>
     holds_at ix (hei_bucket hei) (hei_slot hei) (hei_raw hei)"

lemma hit_handle:
  assumes "index_inv ix ch fs" "i < ix_size ix" "walker_at ch i xs os w"
    and "load_bucket ix (cw_curr w) = Some b" "bucket_ok b" "slot < DATA_ENTRIES" "data_words b ! slot = raw"
    and "matches_tag raw tag" "live m raw"
  shows "entry_handle m tag ix ch i
    \<lparr>hei_first_bucket = fb, hei_bucket = cw_curr w, hei_slot = slot, hei_raw = raw, hei_tag = tag\<rparr>"
  using assms walker_visible(1) [OF assms(3)]
  by (auto simp: entry_handle_def handle_ok_def holds_at_def data_words_nth)

lemma all_passed:
  assumes "walker_at ch i xs os w" "os = [] \<or> MAX_CHAIN_STEPS \<le> length xs + 1"
  shows "set (take MAX_CHAIN_STEPS (refs_of i (ch i))) \<subseteq> insert (cw_curr w) (set (butlast (refs_of i xs)))"
proof -
  have "refs_of i xs = butlast (refs_of i xs) @ [cw_curr w]"
    using assms(1) by (simp add: walker_at_def del: last.simps butlast.simps list.map)
  then have s: "set (refs_of i xs) = insert (cw_curr w) (set (butlast (refs_of i xs)))"
    by (metis set_append insert_is_Un list.simps(15) empty_set Un_commute)
  have "refs_of i (ch i) = refs_of i xs @ map OverRef os" "length xs < MAX_CHAIN_STEPS"
    using assms(1) by (simp_all add: walker_at_def)
  moreover from this have "MAX_CHAIN_STEPS = length (refs_of i xs)" if "MAX_CHAIN_STEPS \<le> length xs + 1" using that by simp
  ultimately have "set (take MAX_CHAIN_STEPS (refs_of i (ch i))) \<subseteq> set (refs_of i xs)"
    using assms(2) set_take_subset [of MAX_CHAIN_STEPS "refs_of i xs"] by (elim disjE) (simp_all only: list.map append_Nil2 append_eq_conv_conj [THEN iffD1, OF refl] take_append take_all order_refl diff_self_eq_0 take0 subset_refl)
  then show ?thesis unfolding s .
qed

lemma find_entry_loop_correct:
  "index_inv ix ch fs \<Longrightarrow> i < ix_size ix \<Longrightarrow> walker_at ch i xs os w \<Longrightarrow>
   clean_refs m tag ix (set (butlast (refs_of i xs))) \<Longrightarrow>
   \<exists>res ix'. find_entry_loop ix fb tag m w = Some (res, ix') \<and> index_inv ix' ch fs \<and> same_live m ix ix' \<and>
     (case res of
        None \<Rightarrow> clean_refs m tag ix' (set (take MAX_CHAIN_STEPS (refs_of i (ch i))))
      | Some hei \<Rightarrow> entry_handle m tag ix' ch i hei)"
proof (induction ix fb tag m w arbitrary: xs os rule: find_entry_loop.induct)
  case (1 ix fb tag m w)
  note inv = "1.prems"(1) and i = "1.prems"(2) and w = "1.prems"(3) and clean = "1.prems"(4)
  obtain b where b: "load_bucket ix (cw_curr w) = Some b" "bucket_ok b" using walker_load [OF inv i w] by blast
  obtain r ws where scan: "scan_hit tag m 0 (data_words b) = (r, ws)" by fastforce
  note sc = scan_hit_spec [OF scan]
  have ws: "length ws = DATA_ENTRIES" using sc b(2) by (simp add: length_data_words)
  define ix1 where "ix1 = store_bucket ix (cw_curr w) (set_data_words b ws)"
  note rw = rewrite_bucket [OF inv i w b ws conjunct1 [OF conjunct2 [OF sc]], folded ix1_def]
  have i1: "i < ix_size ix1" using rw(2) i by (simp add: same_live_def)
  note f = set_data_words_facts [OF b(2) ws]
  show ?case
  proof (cases r)
    case (Some sr)
    obtain slot raw where sr: "sr = (slot, raw)" by (cases sr)
    have "entry_handle m tag ix1 ch i
      \<lparr>hei_first_bucket = fb, hei_bucket = cw_curr w, hei_slot = slot, hei_raw = raw, hei_tag = tag\<rparr>"
      using sc Some sr ws f b(2) by (intro hit_handle [OF rw(1) i1 w rw(5) f(1)]) (auto simp: length_data_words)
    moreover have "find_entry_loop ix fb tag m w = Some (Some \<lparr>hei_first_bucket = fb, hei_bucket = cw_curr w,
        hei_slot = slot, hei_raw = raw, hei_tag = tag\<rparr>, ix1)"
      using b scan Some sr by (subst find_entry_loop.simps) (simp add: ix1_def)
    ultimately show ?thesis using rw(1,2) by (intro exI conjI) (assumption | simp)+
  next
    case None
    have clean1: "clean_refs m tag ix1 (insert (cw_curr w) (set (butlast (refs_of i xs))))"
      using sc None rw(3) by (intro clean_refs_insert [OF clean walker_not_passed [OF inv i w] rw(4)]) simp_all
    have loop: "find_entry_loop ix fb tag m w = (case advance ix1 w of
        None \<Rightarrow> None
      | Some (Next, w') \<Rightarrow> find_entry_loop ix1 fb tag m w'
      | Some (_, _) \<Rightarrow> Some (None, ix1))"
      unfolding ix1_def using b scan None by (subst find_entry_loop.simps) (simp add: Let_def)
    show ?thesis
    proof (cases "os = [] \<or> MAX_CHAIN_STEPS \<le> length xs + 1")
      case True
      then have "find_entry_loop ix fb tag m w = Some (None, ix1)"
        using advance_end [OF rw(1) i1] advance_step(1) [OF rw(1) i1] w loop by (cases os) auto
      then show ?thesis using rw(1,2) clean1 all_passed [OF w True] by (auto simp: clean_refs_def)
    next
      case False
      then obtain oid os' where os: "os = oid # os'" by (cases os) auto
      note st = advance_step [OF rw(1) i1 w [unfolded os]]
      define w' where "w' = \<lparr>cw_curr = OverRef oid, cw_step = length xs + 1\<rparr>"
      have adv: "advance ix1 w = Some (Next, w')" and w1: "walker_at ch i (xs @ [oid]) os' w'"
        using st False by (simp_all add: w'_def)
      then have "find_entry_loop ix fb tag m w = find_entry_loop ix1 fb tag m w'" using loop by simp
      moreover note "1.IH" [OF b(1) scan [symmetric] refl ix1_def None adv refl refl rw(1) i1 w1
          clean1 [folded passed_snoc [OF w, of oid]]]
      ultimately show ?thesis using same_live_trans [OF rw(2)] by auto
    qed
  qed
qed

definition free_slot_ok :: "HashIndex \<Rightarrow> bucket_ref set \<Rightarrow> (bucket_ref \<times> nat) option \<Rightarrow> bool" where
  "free_slot_ok ix R ff \<longleftrightarrow>
     (case ff of None \<Rightarrow> True | Some (q, s) \<Rightarrow> q \<in> R \<and> s < DATA_ENTRIES \<and> ref_words ix q ! s = 0)"

definition free_handle :: "u64 \<Rightarrow> u16 \<Rightarrow> HashIndex \<Rightarrow> (nat \<Rightarrow> u64 list) \<Rightarrow> nat \<Rightarrow> HashEntryInfo \<Rightarrow> bool" where
  "free_handle m tag ix ch i hei \<longleftrightarrow>
     handle_ok ix ch i hei \<and> hei_tag hei = tag \<and> hei_raw hei = 0 \<and>
     holds_at ix (hei_bucket hei) (hei_slot hei) 0 \<and>
     clean_refs m tag ix (set (take MAX_CHAIN_STEPS (refs_of i (ch i))))"

lemma passed_visible:
  assumes "walker_at ch i xs os w"
  shows "insert (cw_curr w) (set (butlast (refs_of i xs))) \<subseteq> set (take MAX_CHAIN_STEPS (refs_of i (ch i)))"
    and "insert (cw_curr w) (set (butlast (refs_of i xs))) \<subseteq> set (refs_of i (ch i))"
proof -
  have "refs_of i xs = butlast (refs_of i xs) @ [cw_curr w]"
    using assms(1) by (simp add: walker_at_def del: last.simps butlast.simps list.map)
  then have s: "insert (cw_curr w) (set (butlast (refs_of i xs))) = set (refs_of i xs)"
    by (metis set_append insert_is_Un list.simps(15) empty_set Un_commute)
  have r: "refs_of i (ch i) = refs_of i xs @ map OverRef os" using assms by (simp add: walker_at_def)
  have l: "length (refs_of i xs) \<le> MAX_CHAIN_STEPS" using assms by (auto simp: walker_at_def)
  show "insert (cw_curr w) (set (butlast (refs_of i xs))) \<subseteq> set (take MAX_CHAIN_STEPS (refs_of i (ch i)))"
    unfolding s r using take_all [OF l] by (simp only: take_append set_append Un_upper1)
  show "insert (cw_curr w) (set (butlast (refs_of i xs))) \<subseteq> set (refs_of i (ch i))"
    unfolding s r by (simp only: set_append Un_upper1)
qed

lemma free_handleI:
  assumes inv: "index_inv ix ch fs" and i: "i < ix_size ix" and w: "walker_at ch i xs [] w"
    and ff: "free_slot_ok ix (insert (cw_curr w) (set (butlast (refs_of i xs)))) (Some (q, s))"
    and clean: "clean_refs m tag ix (insert (cw_curr w) (set (butlast (refs_of i xs))))"
  shows "free_handle m tag ix ch i
    \<lparr>hei_first_bucket = fb, hei_bucket = q, hei_slot = s, hei_raw = 0, hei_tag = tag\<rparr>"
proof -
  have q: "q \<in> set (take MAX_CHAIN_STEPS (refs_of i (ch i)))" "s < DATA_ENTRIES" "ref_words ix q ! s = 0"
    using ff passed_visible(1) [OF w] by (auto simp: free_slot_ok_def)
  obtain b where "load_bucket ix q = Some b" "bucket_ok b"
    using live_in_pool [OF inv i in_set_takeD [OF q(1)]] by blast
  moreover have "clean_refs m tag ix (set (take MAX_CHAIN_STEPS (refs_of i (ch i))))"
    using clean all_passed [OF w] unfolding clean_refs_def by blast
  ultimately show ?thesis
    using q i by (simp add: free_handle_def handle_ok_def holds_at_def ref_words_def data_words_nth)
qed

lemma same_words_moves:
  assumes "\<forall>q \<in> S. ref_words ix' q = ref_words ix q" "R \<subseteq> S"
  shows "clean_refs m tag ix R \<Longrightarrow> clean_refs m tag ix' R" "free_slot_ok ix R ff \<Longrightarrow> free_slot_ok ix' R ff"
  using assms by (auto simp: clean_refs_def free_slot_ok_def subset_iff split: option.splits)

lemma scan_create_bucket:
  assumes ff: "free_slot_ok ix R ff" and q: "q \<notin> R" and scan: "scan_create tag m q 0 ff (data_words b) = (h, ff', ws)"
    and ws: "length (data_words b) = DATA_ENTRIES"
    and rw: "ref_words ix1 q = ws" "\<And>p. p \<noteq> q \<Longrightarrow> ref_words ix1 p = ref_words ix p"
  shows "free_slot_ok ix1 (insert q R) ff'"
proof -
  from scan_create_spec [OF scan] have
    "ff' = ff \<or> ff = None \<and> (case ff' of None \<Rightarrow> False | Some (p, slot) \<Rightarrow> p = q \<and> slot < DATA_ENTRIES \<and> ws ! slot = 0)"
    using ws by (auto split: option.splits)
  then show ?thesis
  proof (elim disjE conjE)
    assume "ff' = ff"
    moreover have "p \<in> R \<Longrightarrow> ref_words ix1 p = ref_words ix p" for p using rw(2) [of p] q by blast
    ultimately show ?thesis using ff by (auto simp: free_slot_ok_def split: option.splits)
  qed (auto simp: free_slot_ok_def rw(1) split: option.splits)
qed

lemma create_loop_correct:
  "index_inv ix ch fs \<Longrightarrow> i < ix_size ix \<Longrightarrow> walker_at ch i xs os w \<Longrightarrow>
   clean_refs m tag ix (set (butlast (refs_of i xs))) \<Longrightarrow> free_slot_ok ix (set (butlast (refs_of i xs))) ff \<Longrightarrow>
   \<exists>res ix' ch' fs'. create_loop ix fb tag m ff w = Some (res, ix') \<and> index_inv ix' ch' fs' \<and> same_live m ix ix' \<and>
     (case res of
        Inl e \<Rightarrow> e \<in> {OverflowPoolExhausted, OverflowCycleDetected}
      | Inr hei \<Rightarrow> entry_handle m tag ix' ch' i hei \<or> free_handle m tag ix' ch' i hei)"
proof (induction ix fb tag m ff w arbitrary: ch fs xs os rule: create_loop.induct)
  case (1 ix fb tag m ff w)
  note inv = "1.prems"(1) and i = "1.prems"(2) and w = "1.prems"(3) and clean = "1.prems"(4)
  obtain b where b: "load_bucket ix (cw_curr w) = Some b" "bucket_ok b"
    and link: "bucket_overflow_index b = (case os of [] \<Rightarrow> 0 | oid # _ \<Rightarrow> oid)" using walker_load [OF inv i w] by blast
  obtain h ff' ws where scan: "scan_create tag m (cw_curr w) 0 ff (data_words b) = (h, ff', ws)" by (metis prod_cases3)
  note sc = scan_create_spec [OF scan]
  have ws: "length ws = DATA_ENTRIES" using sc b(2) by (simp add: length_data_words)
  define ix1 where "ix1 = store_bucket ix (cw_curr w) (set_data_words b ws)"
  note rw = rewrite_bucket [OF inv i w b ws conjunct1 [OF conjunct2 [OF sc]], folded ix1_def]
  have i1: "i < ix_size ix1" using rw(2) i by (simp add: same_live_def)
  note f = set_data_words_facts [OF b(2) ws]
  note np = walker_not_passed [OF inv i w]
  have free1: "free_slot_ok ix1 (insert (cw_curr w) (set (butlast (refs_of i xs)))) ff'"
    using scan_create_bucket [OF "1.prems"(5) np scan length_data_words [OF b(2)] rw(3,4)] .
  show ?case
  proof (cases h)
    case (Some sr)
    obtain slot raw where sr: "sr = (slot, raw)" by (cases sr)
    have "entry_handle m tag ix1 ch i
      \<lparr>hei_first_bucket = fb, hei_bucket = cw_curr w, hei_slot = slot, hei_raw = raw, hei_tag = tag\<rparr>"
      using sc Some sr ws f b(2) by (intro hit_handle [OF rw(1) i1 w rw(5) f(1)]) (auto simp: length_data_words)
    moreover have "create_loop ix fb tag m ff w = Some (Inr \<lparr>hei_first_bucket = fb, hei_bucket = cw_curr w,
        hei_slot = slot, hei_raw = raw, hei_tag = tag\<rparr>, ix1)"
      using b scan Some sr by (subst create_loop.simps) (simp add: ix1_def)
    ultimately show ?thesis using rw(1,2) by (intro exI conjI) (assumption | simp)+
  next
    case None
    have clean1: "clean_refs m tag ix1 (insert (cw_curr w) (set (butlast (refs_of i xs))))"
      using sc None rw(3) by (intro clean_refs_insert [OF clean np rw(4)]) simp_all
    show ?thesis
    proof (cases "ff' \<noteq> None \<and> bucket_overflow_index b = 0")
      case True
      then obtain q s where ff': "ff' = Some (q, s)" by auto
      have loop: "create_loop ix fb tag m ff w = Some (Inr \<lparr>hei_first_bucket = fb, hei_bucket = q,
          hei_slot = s, hei_raw = 0, hei_tag = tag\<rparr>, ix1)"
        using b scan None True ff' by (subst create_loop.simps) (simp add: ix1_def)
      have "os = []"
      proof (cases os)
        case (Cons oid os')
        then have "links ix (cw_curr w) (oid # os')"
          using inv_chain(1) [OF inv i] links_append [of ix "MainRef i" xs os] w by (simp add: walker_at_def)
        then show ?thesis using True b(1) by auto
      qed
      then show ?thesis
        using loop rw(1,2) free_handleI [OF rw(1) i1 _ free1 [unfolded ff'] clean1, where fb = fb] w
        by (intro exI conjI) (assumption | simp)+
    next
      case False
      have loop: "create_loop ix fb tag m ff w = (case advance_or_extend ix1 w of
          None \<Rightarrow> None
        | Some (Inl e, ix2) \<Rightarrow> Some (Inl e, ix2)
        | Some (Inr w', ix2) \<Rightarrow> create_loop ix2 fb tag m ff' w')"
        unfolding ix1_def using b scan None by (subst create_loop.simps) (simp add: Let_def if_not_P [OF False] del: not_None_eq)
      from advance_or_extend_correct [OF rw(1) i1 w] show ?thesis
      proof (elim disjE exE conjE)
        fix e ix' ch' fs'
        assume "advance_or_extend ix1 w = Some (Inl e, ix')" "e \<in> {OverflowPoolExhausted, OverflowCycleDetected}"
          "index_inv ix' ch' fs'" "same_entries ix1 ix'"
        then show ?thesis using loop same_live_trans [OF rw(2) same_entries_live] by (auto intro!: exI)
      next
        fix w' ix2 ch' fs' oid os'
        assume a: "advance_or_extend ix1 w = Some (Inr w', ix2)" "index_inv ix2 ch' fs'" "same_entries ix1 ix2"
          "walker_at ch' i (xs @ [oid]) os' w'" and words: "\<forall>q \<in> set (refs_of i (ch i)). ref_words ix2 q = ref_words ix1 q"
        note mv = same_words_moves [OF words passed_visible(2) [OF w]]
        have i2: "i < ix_size ix2" using a(3) i1 by (simp add: same_entries_def)
        have step: "create_loop ix fb tag m ff w = create_loop ix2 fb tag m ff' w'" using loop a(1) by simp
        from "1.IH" [OF b(1) scan [symmetric] refl refl ix1_def None False a(1) refl refl a(2) i2 a(4)
            mv(1) [OF clean1, folded passed_snoc [OF w, of oid]] mv(2) [OF free1, folded passed_snoc [OF w, of oid]]]
        show ?thesis unfolding step using same_live_trans [OF same_live_trans [OF rw(2) same_entries_live [OF a(3)]]] by blast
      qed
    qed
  qed
qed

end
