(* ===== verification/IndexProps.thy ===== *)
theory IndexProps
  imports IndexScan
begin

text \<open>
  The properties of the hash index: a new index, insertion, lookup after insertion, deletion and
  update, the create-or-update protocol of a handle, and the guard against a cyclic chain.
\<close>

section \<open>A new index\<close>

lemma usize_power: "is_power_of_two_usize n \<Longrightarrow> \<exists>k. n = 2 ^ k"
  by (auto simp: is_power_of_two_usize_def list_ex_iff)

lemma buckets_new_cases:
  assumes "buckets_new mmap_anon page_size thread tracker len = (Inr hb, tracker')"
  shows "0 < len" "hb_len hb = len" "hb_mem hb = replicate len bucket_new"
    "vm_allocate mmap_anon page_size thread tracker (of_nat (len * HASH_BUCKET_SIZE)) 64 = (Inr (hb_block hb), tracker')"
    "len * HASH_BUCKET_SIZE \<le> usize_max"
  using assms by (auto simp: buckets_new_def checked_mul_usize_def split: if_splits option.splits prod.splits sum.splits)

lemma index_new_cases:
  assumes "index_new mmap_anon page_size thread tracker n = (Inr ix, tracker')"
  shows "\<exists>k. n = 2 ^ k" "buckets_new mmap_anon page_size thread tracker n = (Inr (buckets ix), tracker')"
    "overflow_pool ix = pool_new" "ix_size ix = n" "ix_mask ix = n - 1"
  using assms usize_power [of n] by (auto simp: index_new_def split: if_splits prod.splits sum.splits)

definition empty_index :: "DirectVmBlock \<Rightarrow> nat \<Rightarrow> HashIndex" where
  "empty_index blk n =
     \<lparr>buckets = \<lparr>hb_block = blk, hb_len = n, hb_mem = replicate n bucket_new\<rparr>,
      overflow_pool = pool_new, ix_size = n, ix_mask = n - 1\<rparr>"

lemma empty_index_inv:
  assumes "n = 2 ^ k"
  shows "index_inv (empty_index blk n) (\<lambda>_. []) []" "i < n \<Longrightarrow> index_entries (empty_index blk n) i = {#}"
proof -
  let ?ix = "empty_index blk n"
  have ld: "i < n \<Longrightarrow> load_bucket ?ix (MainRef i) = Some bucket_new" for i
    by (simp add: empty_index_def buckets_get_unchecked_def)
  have sz: "ix_size ?ix = n" by (simp add: empty_index_def)
  show inv: "index_inv ?ix (\<lambda>_. []) []"
    using ld assms by (auto simp: index_inv_def table_ok_def chains_ok_def bucket_new_link empty_index_def)
  show "i < n \<Longrightarrow> index_entries ?ix i = {#}"
    using inv_words [OF inv, of i] ld [of i] sz
    by (auto simp: index_entries_def ref_words_def bucket_new_words take_Cons')
qed

lemma empty_index_wf: "n = 2 ^ k \<Longrightarrow> index_wf (empty_index blk n)"
  unfolding index_wf_def by (intro exI, rule empty_index_inv(1))

lemma index_new_empty:
  assumes "index_new mmap_anon page_size thread tracker n = (Inr ix, tracker')"
  shows "ix = empty_index (hb_block (buckets ix)) n"
  using index_new_cases [OF assms] buckets_new_cases [OF index_new_cases(2) [OF assms]]
  by (simp add: empty_index_def)

text \<open>
  A new index is well-formed and empty, and each of its buckets lies inside the mapping the
  operating system returned, aligned to a cache line.
\<close>

theorem index_new_ok:
  assumes "index_new mmap_anon page_size thread tracker n = (Inr ix, tracker')"
  shows "index_wf ix \<and> ix_size ix = n \<and> (\<forall>i < n. index_entries ix i = {#} \<and>
    64 dvd unat (aligned_ptr (hb_block (buckets ix))) + 64 * i \<and>
    unat (base_ptr (hb_block (buckets ix))) \<le> unat (aligned_ptr (hb_block (buckets ix))) + 64 * i \<and>
    unat (aligned_ptr (hb_block (buckets ix))) + 64 * i + 64 \<le>
      unat (base_ptr (hb_block (buckets ix))) + unat (reserved_length (hb_block (buckets ix))))"
proof -
  note c = index_new_cases [OF assms] and b = buckets_new_cases [OF index_new_cases(2) [OF assms]]
  note v = vm_allocate_block [OF b(4)]
  have sz: "unat (of_nat (n * HASH_BUCKET_SIZE) :: u64) = n * 64"
    unfolding unat_of_nat using b(5) by (simp add: HASH_BUCKET_SIZE_def usize_max_def)
  obtain k where k: "n = 2 ^ k" using c(1) by blast
  note e = index_new_empty [OF assms]
  have "index_wf ix" using empty_index_wf [OF k] e by metis
  moreover have "64 dvd unat (aligned_ptr (hb_block (buckets ix)))" using v(2) by simp
  moreover have "unat (aligned_ptr (hb_block (buckets ix))) + 64 * i + 64 \<le>
      unat (base_ptr (hb_block (buckets ix))) + unat (reserved_length (hb_block (buckets ix)))" if "i < n" for i
    using v(4) that unfolding sz by linarith
  moreover have "unat (base_ptr (hb_block (buckets ix))) \<le> unat (aligned_ptr (hb_block (buckets ix)))"
    using v(3) by (simp add: word_le_nat_alt)
  moreover have "\<forall>i < n. index_entries ix i = {#}" using empty_index_inv(2) [OF k] e by metis
  ultimately show ?thesis using c(4) by (auto intro: trans_le_add1)
qed

text \<open>An empty index with four buckets, for the examples.\<close>

definition index_example :: HashIndex where
  "index_example = empty_index \<lparr>base_ptr = 100, aligned_ptr = 128, reserved_length = 4096\<rparr> 4"

lemma index_example_new:
  "index_new (\<lambda>_. Some 100) 4096 3 (counter_new 64) 4 = (Inr index_example, counter_add (counter_new 64) 3 4096)"
proof -
  have "is_power_of_two_usize 4" by code_simp
  then show ?thesis
    by (simp add: index_new_def buckets_new_def checked_mul_usize_def HASH_BUCKET_SIZE_def usize_max_def
        vm_allocate_example index_example_def empty_index_def)
qed

lemma index_example_wf: "index_wf index_example"
  unfolding index_example_def by (rule empty_index_wf [of 4 2]) simp

theorem index_new_ok_witness:
  "index_wf index_example \<and> index_entries index_example 3 = {#} \<and>
   64 dvd unat (aligned_ptr (hb_block (buckets index_example))) + 64 * 3"
  using index_new_ok [OF index_example_new] by (simp add: index_example_def empty_index_def)

section \<open>The table as a store of entries\<close>

text \<open>
  What a client of \<open>insert_to_bucket\<close> relies on: the index is a well-formed family of multisets, an
  insertion is always defined, and it either adds its entry to its bucket or leaves everything.
\<close>

locale entry_store =
  fixes wf :: "'ix \<Rightarrow> bool"
    and contents :: "'ix \<Rightarrow> nat \<Rightarrow> u64 multiset"
    and buckets_of :: "'ix \<Rightarrow> nat"
    and home :: "'ix \<Rightarrow> nat \<Rightarrow> nat"
    and insert :: "'ix \<Rightarrow> nat \<Rightarrow> u16 \<Rightarrow> u64 \<Rightarrow> ((index_error, unit) res \<times> 'ix) option"
  assumes insert_defined: "wf ix \<Longrightarrow> \<exists>r ix'. insert ix k tag a = Some (r, ix')"
    and insert_wf: "wf ix \<Longrightarrow> insert ix k tag a = Some (r, ix') \<Longrightarrow>
      wf ix' \<and> buckets_of ix' = buckets_of ix \<and> home ix' = home ix"
    and insert_ok: "wf ix \<Longrightarrow> insert ix k tag a = Some (Inr u, ix') \<Longrightarrow> j < buckets_of ix \<Longrightarrow>
      contents ix' j = contents ix j + (if j = home ix k then {#entry_new a tag False#} else {#})"
    and insert_err: "wf ix \<Longrightarrow> insert ix k tag a = Some (Inl e, ix') \<Longrightarrow> j < buckets_of ix \<Longrightarrow>
      contents ix' j = contents ix j"
    and insert_valid: "wf ix \<Longrightarrow> insert ix k tag a = Some (Inr u, ix') \<Longrightarrow> 0 < a \<and> a \<le> ADDRESS_MASK"
begin

text \<open>Inserting a list of entries, stopping at the first error.\<close>

fun insert_list :: "'ix \<Rightarrow> (nat \<times> u16 \<times> u64) list \<Rightarrow> ((index_error, unit) res \<times> 'ix) option" where
  "insert_list ix [] = Some (Inr (), ix)"
| "insert_list ix ((k, tag, a) # xs) =
     (case insert ix k tag a of
        None \<Rightarrow> None
      | Some (Inl e, ix') \<Rightarrow> Some (Inl e, ix')
      | Some (Inr _, ix') \<Rightarrow> insert_list ix' xs)"

definition added :: "'ix \<Rightarrow> (nat \<times> u16 \<times> u64) list \<Rightarrow> nat \<Rightarrow> u64 multiset" where
  "added ix xs j = {#entry_new a tag False. (k, tag, a) \<in># filter_mset (\<lambda>(k, _, _). home ix k = j) (mset xs)#}"

lemma insert_list_append:
  "insert_list ix (xs @ ys) =
     (case insert_list ix xs of
        None \<Rightarrow> None
      | Some (Inl e, ix') \<Rightarrow> Some (Inl e, ix')
      | Some (Inr _, ix') \<Rightarrow> insert_list ix' ys)"
  by (induction ix xs rule: insert_list.induct) (auto split: option.split sum.split prod.split)

lemma insert_list_valid:
  "wf ix \<Longrightarrow> insert_list ix xs = Some (Inr u, ix') \<Longrightarrow> (k, tag, a) \<in> set xs \<Longrightarrow> 0 < a \<and> a \<le> ADDRESS_MASK"
proof (induction ix xs rule: insert_list.induct)
  case (2 ix k' tag' a' xs)
  then obtain u' ix1 where "insert ix k' tag' a' = Some (Inr u', ix1)" "insert_list ix1 xs = Some (Inr u, ix')"
    by (auto split: option.splits prod.splits sum.splits)
  then show ?case using 2 insert_valid insert_wf by fastforce
qed simp

lemma insert_list_correct:
  "wf ix \<Longrightarrow> \<exists>r ix'. insert_list ix xs = Some (r, ix') \<and> wf ix' \<and> buckets_of ix' = buckets_of ix \<and> home ix' = home ix \<and>
     (case r of
        Inr _ \<Rightarrow> \<forall>j < buckets_of ix. contents ix' j = contents ix j + added ix xs j
      | Inl e \<Rightarrow> \<exists>n < length xs. \<forall>j < buckets_of ix. contents ix' j = contents ix j + added ix (take n xs) j)"
proof (induction ix xs rule: insert_list.induct)
  case (1 ix)
  then show ?case by (simp add: added_def)
next
  case (2 ix k tag a xs)
  obtain r ix1 where i: "insert ix k tag a = Some (r, ix1)" using insert_defined [OF "2.prems"] by blast
  note w = insert_wf [OF "2.prems" i]
  show ?case
  proof (cases r)
    case (Inl e)
    then show ?thesis using i w insert_err [OF "2.prems", of k tag a e ix1]
      by (auto simp: added_def intro!: exI [of _ 0])
  next
    case (Inr u)
    have c: "\<forall>j < buckets_of ix. contents ix1 j = contents ix j + added ix [(k, tag, a)] j"
      using insert_ok [OF "2.prems" i [unfolded Inr]] by (auto simp: added_def)
    have a: "added ix1 ys j = added ix ys j" for ys j using w by (simp add: added_def)
    have cons: "added ix ((k, tag, a) # ys) j = added ix [(k, tag, a)] j + added ix ys j" for ys j
      by (simp add: added_def)
    have bs: "wf ix1" "buckets_of ix1 = buckets_of ix" "home ix1 = home ix" using w by auto
    from "2.IH" [OF i [unfolded Inr] refl refl bs(1), unfolded bs(2,3) a] obtain r' ix' where
      r': "insert_list ix1 xs = Some (r', ix')" "wf ix'" "buckets_of ix' = buckets_of ix" "home ix' = home ix"
      "case r' of
        Inr _ \<Rightarrow> \<forall>j < buckets_of ix. contents ix' j = contents ix1 j + added ix xs j
      | Inl e \<Rightarrow> \<exists>n < length xs. \<forall>j < buckets_of ix. contents ix' j = contents ix1 j + added ix (take n xs) j"
      by blast
    show ?thesis
    proof (cases r')
      case inl: (Inl e)
      then obtain n where "n < length xs" "\<forall>j < buckets_of ix. contents ix' j = contents ix1 j + added ix (take n xs) j"
        using r'(5) by auto
      then show ?thesis using i Inr inl r' c cons [of "take n xs"]
        by (auto simp: add.assoc intro!: exI [of _ "Suc n"])
    next
      case (Inr v)
      then show ?thesis using i \<open>r = Inr u\<close> r' c cons [of xs] by (auto simp: add.assoc)
    qed
  qed
qed

end

lemma insert_wf_cases:
  assumes "index_wf ix"
  obtains
    (err) e ix' where "insert_to_bucket ix k tag a = Some (Inl e, ix')" "index_wf ix'" "same_entries ix ix'"
  | (ok) ix' where "insert_to_bucket ix k tag a = Some (Inr (), ix')" "index_wf ix'" "0 < a" "a \<le> ADDRESS_MASK"
      "entry_added ix ix' (k AND ix_mask ix) (entry_new a tag False)"
proof -
  obtain ch fs where inv: "index_inv ix ch fs" using assms by (auto simp: index_wf_def)
  from insert_to_bucket_cases [OF inv, where bucket_idx = k and a = a and tag = tag] show thesis
  proof (elim disjE exE conjE)
    fix ix' ch' fs'
    assume "insert_to_bucket ix k tag a = Some (Inr (), ix')" "index_inv ix' ch' fs'" "0 < a" "a \<le> ADDRESS_MASK"
      "entry_added ix ix' (k AND ix_mask ix) (entry_new a tag False)"
    then show thesis using ok unfolding index_wf_def by blast
  next
    fix e ix' ch' fs'
    assume "insert_to_bucket ix k tag a = Some (Inl e, ix')" "index_inv ix' ch' fs'" "same_entries ix ix'"
    then show thesis using err unfolding index_wf_def by blast
  qed (use assms err in simp_all)
qed

interpretation ixs: entry_store index_wf index_entries ix_size "\<lambda>ix k. k AND ix_mask ix" insert_to_bucket
proof unfold_locales
  fix ix k tag a
  assume wf: "index_wf ix"
  show "\<exists>r ix'. insert_to_bucket ix k tag a = Some (r, ix')"
    by (rule insert_wf_cases [OF wf, of k tag a]) simp_all
next
  fix ix k tag a r ix'
  assume wf: "index_wf ix" and i: "insert_to_bucket ix k tag a = Some (r, ix')"
  show "index_wf ix' \<and> ix_size ix' = ix_size ix \<and> (\<lambda>k. k AND ix_mask ix') = (\<lambda>k. k AND ix_mask ix)"
    by (rule insert_wf_cases [OF wf, of k tag a]) (use i in \<open>simp_all add: same_entries_def entry_added_def\<close>)
next
  fix ix k tag a u ix' j
  assume wf: "index_wf ix" and i: "insert_to_bucket ix k tag a = Some (Inr u, ix')" and j: "j < ix_size ix"
  show "index_entries ix' j = index_entries ix j + (if j = k AND ix_mask ix then {#entry_new a tag False#} else {#})"
    by (rule insert_wf_cases [OF wf, of k tag a]) (use i j in \<open>simp_all add: entry_added_def\<close>)
next
  fix ix k tag a e ix' j
  assume wf: "index_wf ix" and i: "insert_to_bucket ix k tag a = Some (Inl e, ix')" and j: "j < ix_size ix"
  show "index_entries ix' j = index_entries ix j"
    by (rule insert_wf_cases [OF wf, of k tag a]) (use i j in \<open>simp_all add: same_entries_def\<close>)
next
  fix ix k tag a u ix'
  assume wf: "index_wf ix" and i: "insert_to_bucket ix k tag a = Some (Inr u, ix')"
  show "0 < a \<and> a \<le> ADDRESS_MASK"
    by (rule insert_wf_cases [OF wf, of k tag a]) (use i in simp_all)
qed

section \<open>Insertion and lookup\<close>

text \<open>The example after one insertion.\<close>

definition index_example1 :: HashIndex where
  "index_example1 = snd (the (insert_to_bucket index_example 1 (tag_from_hash 5) 64))"

lemma index_example1_insert: "insert_to_bucket index_example 1 (tag_from_hash 5) 64 = Some (Inr (), index_example1)"
proof -
  have "map_option fst (insert_to_bucket index_example 1 (tag_from_hash 5) 64) = Some (Inr ())" by code_simp
  then show ?thesis by (auto simp: index_example1_def)
qed

lemma index_example1_wf: "index_wf index_example1"
  using ixs.insert_wf [OF index_example_wf index_example1_insert] by blast

text \<open>The reference: the addresses under a hash, as a multiset.\<close>

definition addresses_of :: "HashIndex \<Rightarrow> u64 \<Rightarrow> u64 multiset" where
  "addresses_of ix hash =
     image_mset entry_address (filter_mset (\<lambda>e. matches_tag e (tag_from_hash hash))
       (index_entries ix (bucket_index_for_hash ix hash)))"

definition same_slot :: "HashIndex \<Rightarrow> u64 \<Rightarrow> u64 \<Rightarrow> bool" where
  "same_slot ix hash hash' \<longleftrightarrow>
     bucket_index_for_hash ix hash = bucket_index_for_hash ix hash' \<and> tag_from_hash hash = tag_from_hash hash'"

lemma filter_matches_nonzero:
  "filter_mset (\<lambda>e. matches_tag e tag) (nonzero M) = filter_mset (\<lambda>e. matches_tag e tag) M"
  by (auto simp: nonzero_def filter_filter_mset intro!: filter_mset_cong dest: matches_nonzero)

lemma candidates_addresses:
  assumes "index_wf ix"
  shows "\<exists>c. lookup_candidates_by_hash ix hash = Some c \<and> mset (cand_iter c) = addresses_of ix hash"
proof -
  obtain ch fs where "index_inv ix ch fs" using assms by (auto simp: index_wf_def)
  from lookup_candidates_eq [OF this, of hash] show ?thesis
    by (auto simp: addresses_of_def index_entries_def filter_matches_nonzero mset_map mset_filter)
qed

text \<open>Every candidate lookup succeeds before and after, and the addresses change as given.\<close>

definition lookups_change :: "HashIndex \<Rightarrow> HashIndex \<Rightarrow> (u64 \<Rightarrow> u64 multiset \<Rightarrow> u64 multiset) \<Rightarrow> bool" where
  "lookups_change ix ix' f \<longleftrightarrow>
     (\<forall>h. \<exists>c c'. lookup_candidates_by_hash ix h = Some c \<and> lookup_candidates_by_hash ix' h = Some c' \<and>
        mset (cand_iter c') = f h (mset (cand_iter c)))"

lemma lookups_changeI:
  assumes "index_wf ix" "index_wf ix'" "\<And>h. addresses_of ix' h = f h (addresses_of ix h)"
  shows "lookups_change ix ix' f"
  unfolding lookups_change_def using candidates_addresses [OF assms(1)] candidates_addresses [OF assms(2)] assms(3) by metis

lemma entry_new_matches:
  assumes "0 < a" "a \<le> ADDRESS_MASK"
  shows "matches_tag (entry_new a (tag_from_hash h) False) (tag_from_hash h') \<longleftrightarrow> tag_from_hash h = tag_from_hash h'"
  using assms entry_new_nonzero [OF assms, of "tag_from_hash h" False]
  by (auto simp: matches_tag_iff [OF tag_from_hash_bound] entry_new_tag [OF tag_from_hash_bound] entry_new_fields)

lemma bucket_index_cong: "ix_mask ix' = ix_mask ix \<Longrightarrow> bucket_index_for_hash ix' h = bucket_index_for_hash ix h"
  by (simp add: bucket_index_for_hash_def)

lemma wf_bucket_less: "index_wf ix \<Longrightarrow> bucket_index_for_hash ix hash < ix_size ix"
  using hash_bucket_less by (auto simp: index_wf_def)

lemma addresses_added:
  assumes "index_wf ix" "0 < a" "a \<le> ADDRESS_MASK"
    and "entry_added ix ix' (bucket_index_for_hash ix hash) (entry_new a (tag_from_hash hash) False)"
  shows "addresses_of ix' h = addresses_of ix h + (if same_slot ix h hash then {#a#} else {#})"
  using assms wf_bucket_less [OF assms(1), of h] entry_new_nonzero [OF assms(2,3), of "tag_from_hash hash" False]
  by (auto simp: entry_added_def addresses_of_def same_slot_def bucket_index_cong [of ix' ix] entry_new_matches)

lemma bucket_index_mask: "bucket_index_for_hash ix h AND ix_mask ix = bucket_index_for_hash ix h"
  by (simp add: bucket_index_for_hash_def nat_mask_idem)

text \<open>
  C8: Inserting an address under a hash always returns. On success the index is well-formed, every
  candidate lookup returns what it returned before, and the lookups of that bucket and tag return the
  new address in addition. On an error every lookup returns the same addresses.
\<close>

theorem insert_then_lookup:
  assumes "index_wf ix"
  shows "\<exists>r ix'. insert_to_bucket ix (bucket_index_for_hash ix hash) (tag_from_hash hash) a = Some (r, ix') \<and>
    index_wf ix' \<and> (r = Inr () \<longrightarrow> 0 < a \<and> a \<le> ADDRESS_MASK) \<and>
    lookups_change ix ix' (\<lambda>h M. M + (if r = Inr () \<and> same_slot ix h hash then {#a#} else {#}))"
proof -
  let ?k = "bucket_index_for_hash ix hash" and ?tag = "tag_from_hash hash"
  show ?thesis
  proof (rule insert_wf_cases [OF assms, of ?k ?tag a, unfolded bucket_index_mask])
    fix e ix'
    assume i: "insert_to_bucket ix ?k ?tag a = Some (Inl e, ix')" "index_wf ix'" "same_entries ix ix'"
    have "addresses_of ix' h = addresses_of ix h" for h
      using i(3) wf_bucket_less [OF assms, of h] by (simp add: same_entries_def addresses_of_def bucket_index_cong [of ix' ix])
    then have "lookups_change ix ix' (\<lambda>h M. M)" by (intro lookups_changeI [OF assms i(2)])
    then show ?thesis using i by simp
  next
    fix ix'
    assume i: "insert_to_bucket ix ?k ?tag a = Some (Inr (), ix')" "index_wf ix'" "0 < a" "a \<le> ADDRESS_MASK"
      and added: "entry_added ix ix' ?k (entry_new a ?tag False)"
    have "lookups_change ix ix' (\<lambda>h M. M + (if same_slot ix h hash then {#a#} else {#}))"
      by (rule lookups_changeI [OF assms i(2)]) (rule addresses_added [OF assms i(3,4) added])
    then show ?thesis using i by simp
  qed
qed

theorem insert_then_lookup_witness:
  "insert_to_bucket index_example 1 (tag_from_hash 5) 64 = Some (Inr (), index_example1) \<and>
   lookups_change index_example index_example1 (\<lambda>h M. M + (if same_slot index_example h 5 then {#64#} else {#})) \<and>
   map_option cand_iter (lookup_candidates_by_hash index_example1 5) = Some [64]"
proof -
  have b: "bucket_index_for_hash index_example 5 = 1" by (simp add: bucket_index_for_hash_def index_example_def empty_index_def)
  have "map_option cand_iter (lookup_candidates_by_hash index_example1 5) = Some [64]" by code_simp
  then show ?thesis using insert_then_lookup [OF index_example_wf, of 5 64] index_example1_insert unfolding b by simp
qed

section \<open>Deletion and update\<close>

lemma mset_swap: "M + {#e#} = N + V \<Longrightarrow> e \<in># N \<Longrightarrow> M = N - {#e#} + V"
  by (auto dest!: multi_member_split)

lemma holds_at_unique: "holds_at ix r slot x \<Longrightarrow> holds_at ix r slot y \<Longrightarrow> x = y"
  by (auto simp: holds_at_def)

lemma cas_holding:
  assumes "index_inv ix ch fs" "handle_ok ix ch i hei" "holds_at ix (hei_bucket hei) (hei_slot hei) (hei_raw hei)"
  obtains ix' where "hei_cas ix hei v = Some (True, hei\<lparr>hei_raw := v\<rparr>, ix')" "index_inv ix' ch fs"
    "ix_size ix' = ix_size ix" "ix_mask ix' = ix_mask ix"
    "index_entries ix' i + nonzero {#hei_raw hei#} = index_entries ix i + nonzero {#v#}"
    "\<forall>j < ix_size ix. j \<noteq> i \<longrightarrow> index_entries ix' j = index_entries ix j"
proof -
  obtain cur where "holds_at ix (hei_bucket hei) (hei_slot hei) cur" and
    c: "if cur = hei_raw hei
        then \<exists>ix'. hei_cas ix hei v = Some (True, hei\<lparr>hei_raw := v\<rparr>, ix') \<and> index_inv ix' ch fs \<and>
          ix_size ix' = ix_size ix \<and> ix_mask ix' = ix_mask ix \<and>
          index_entries ix' i + nonzero {#hei_raw hei#} = index_entries ix i + nonzero {#v#} \<and>
          (\<forall>j < ix_size ix. j \<noteq> i \<longrightarrow> index_entries ix' j = index_entries ix j)
        else hei_cas ix hei v = Some (False, hei, ix)"
    using hei_cas_correct [OF assms(1,2), of v] by (elim exE conjE)
  then have "cur = hei_raw hei" using holds_at_unique [OF assms(3)] by blast
  from c [unfolded this if_P [OF refl]] show thesis using that by (elim exE conjE)
qed

lemma exact_entry_cas:
  fixes hash :: u64
  assumes wf: "index_wf ix" and a: "0 < a" "a \<le> ADDRESS_MASK"
  defines "i \<equiv> bucket_index_for_hash ix hash" and "e \<equiv> entry_new a (tag_from_hash hash) False"
  obtains
    (absent) "find_exact_entry_by_hash ix hash a = Some None" "e \<notin># index_entries ix i"
  | (present) hei ix' where "find_exact_entry_by_hash ix hash a = Some (Some hei)" "e \<in># index_entries ix i"
      "hei_raw hei = e" "hei_tag hei = tag_from_hash hash"
      "hei_cas ix hei v = Some (True, hei\<lparr>hei_raw := v\<rparr>, ix')" "index_wf ix'" "ix_mask ix' = ix_mask ix"
      "\<forall>j < ix_size ix. index_entries ix' j =
         (if j = i then index_entries ix j - {#e#} + nonzero {#v#} else index_entries ix j)"
proof -
  obtain ch fs where inv: "index_inv ix ch fs" using wf by (auto simp: index_wf_def)
  have e0: "entry_new a (tag_from_hash hash) False \<noteq> 0" using entry_new_nonzero [OF a] by blast
  have i: "i < ix_size ix" using wf_bucket_less [OF wf] by (simp add: i_def)
  from find_exact_eq [OF inv e0, folded i_def e_def] show thesis
  proof (elim disjE exE conjE)
    fix hei
    assume h: "find_exact_entry_by_hash ix hash a = Some (Some hei)" "e \<in># index_entries ix i"
      "hei_bucket hei \<in> set (take MAX_CHAIN_STEPS (refs_of i (ch i)))"
      "hei_raw hei = e" "hei_tag hei = tag_from_hash hash" "holds_at ix (hei_bucket hei) (hei_slot hei) (hei_raw hei)"
    have ok: "handle_ok ix ch i hei" using h i by (auto simp: handle_ok_def holds_at_def)
    obtain ix' where c: "hei_cas ix hei v = Some (True, hei\<lparr>hei_raw := v\<rparr>, ix')" "index_inv ix' ch fs"
        "ix_size ix' = ix_size ix" "ix_mask ix' = ix_mask ix"
        "index_entries ix' i + nonzero {#e#} = index_entries ix i + nonzero {#v#}"
        "\<forall>j < ix_size ix. j \<noteq> i \<longrightarrow> index_entries ix' j = index_entries ix j"
      by (rule cas_holding [OF inv ok h(6), of v, unfolded h(4)]) (rule that)
    have "index_entries ix' i = index_entries ix i - {#e#} + nonzero {#v#}"
      using mset_swap [OF _ h(2), of _ "nonzero {#v#}"] c(5) e0 by (simp add: e_def)
    then have "\<forall>j < ix_size ix. index_entries ix' j =
         (if j = i then index_entries ix j - {#e#} + nonzero {#v#} else index_entries ix j)" using c(6) by simp
    moreover have "index_wf ix'" using c(2) by (auto simp: index_wf_def)
    ultimately show thesis using present [OF h(1,2,4,5) c(1) _ c(4)] by blast
  qed (rule absent)
qed

lemma entry_of_address:
  assumes "matches_tag w (tag_from_hash h)"
  shows "w = entry_new (entry_address w) (tag_from_hash h) False"
  using assms entry_of_fields [of w] by (auto simp: matches_tag_iff [OF tag_from_hash_bound])

lemma address_entry_iff:
  assumes "0 < a" "a \<le> ADDRESS_MASK"
  shows "a \<in># addresses_of ix hash \<longleftrightarrow>
    entry_new a (tag_from_hash hash) False \<in># index_entries ix (bucket_index_for_hash ix hash)"
proof
  assume "a \<in># addresses_of ix hash"
  then obtain w where w: "w \<in># index_entries ix (bucket_index_for_hash ix hash)" "matches_tag w (tag_from_hash hash)"
    "a = entry_address w" by (auto simp: addresses_of_def)
  then show "entry_new a (tag_from_hash hash) False \<in># index_entries ix (bucket_index_for_hash ix hash)"
    using entry_of_address [OF w(2)] by simp
next
  assume "entry_new a (tag_from_hash hash) False \<in># index_entries ix (bucket_index_for_hash ix hash)"
  moreover have "a = entry_address (entry_new a (tag_from_hash hash) False)"
    using entry_new_nonzero [OF assms, of "tag_from_hash hash" False] by simp
  ultimately show "a \<in># addresses_of ix hash"
    using entry_new_matches [OF assms, of hash hash] by (auto simp: addresses_of_def intro!: image_eqI)
qed

lemma addresses_removed:
  assumes wf: "index_wf ix" and a: "0 < a" "a \<le> ADDRESS_MASK"
    and e: "entry_new a (tag_from_hash hash) False \<in># index_entries ix (bucket_index_for_hash ix hash)"
    and ix': "ix_mask ix' = ix_mask ix"
      "\<forall>j < ix_size ix. index_entries ix' j =
         (if j = bucket_index_for_hash ix hash
          then index_entries ix j - {#entry_new a (tag_from_hash hash) False#} + M else index_entries ix j)"
  shows "addresses_of ix' h = addresses_of ix h - (if same_slot ix h hash then {#a#} else {#}) +
    (if bucket_index_for_hash ix h = bucket_index_for_hash ix hash
     then image_mset entry_address (filter_mset (\<lambda>e. matches_tag e (tag_from_hash h)) M) else {#})"
proof -
  obtain N where N: "index_entries ix (bucket_index_for_hash ix hash) = add_mset (entry_new a (tag_from_hash hash) False) N"
    using multi_member_split [OF e] by blast
  show ?thesis
    using N ix' wf_bucket_less [OF wf, of h] entry_new_nonzero [OF a, of "tag_from_hash hash" False]
    by (auto simp: addresses_of_def same_slot_def bucket_index_cong [of ix' ix] entry_new_matches [OF a])
qed

text \<open>
  C27: Deleting an address under a hash always returns. It answers whether a candidate lookup would have
  found the address, removes one occurrence of it from the lookups of that bucket and tag, and changes no
  other lookup.
\<close>

theorem delete_then_lookup:
  assumes "index_wf ix" "0 < a" "a \<le> ADDRESS_MASK"
  shows "\<exists>c ix'. lookup_candidates_by_hash ix hash = Some c \<and>
    delete_by_hash ix hash a = Some (a \<in> set (cand_iter c), ix') \<and> index_wf ix' \<and>
    lookups_change ix ix' (\<lambda>h M. M - (if same_slot ix h hash then {#a#} else {#}))"
proof -
  have a0: "a \<noteq> INVALID_ADDRESS" using assms(2) by (auto simp: INVALID_ADDRESS_def)
  obtain c where c: "lookup_candidates_by_hash ix hash = Some c" "mset (cand_iter c) = addresses_of ix hash"
    using candidates_addresses [OF assms(1)] by blast
  have c_iff: "a \<in> set (cand_iter c) \<longleftrightarrow>
      entry_new a (tag_from_hash hash) False \<in># index_entries ix (bucket_index_for_hash ix hash)"
    using address_entry_iff [OF assms(2,3), of ix hash] c(2) by (metis set_mset_mset)
  have "\<exists>ix'. delete_by_hash ix hash a = Some (a \<in> set (cand_iter c), ix') \<and> index_wf ix' \<and>
    lookups_change ix ix' (\<lambda>h M. M - (if same_slot ix h hash then {#a#} else {#}))"
  proof (rule exact_entry_cas [OF assms, where hash = hash and v = 0])
    assume f: "find_exact_entry_by_hash ix hash a = Some None"
      "entry_new a (tag_from_hash hash) False \<notin># index_entries ix (bucket_index_for_hash ix hash)"
    have n: "a \<notin># addresses_of ix hash" using f(2) address_entry_iff [OF assms(2,3)] by blast
    have "addresses_of ix h = addresses_of ix h - (if same_slot ix h hash then {#a#} else {#})" for h
      using n by (auto simp: same_slot_def addresses_of_def)
    then have "lookups_change ix ix (\<lambda>h M. M - (if same_slot ix h hash then {#a#} else {#}))"
      by (rule lookups_changeI [OF assms(1,1)])
    then show ?thesis
      using f c_iff assms(1) a0 by (simp add: delete_by_hash_def)
  next
    fix hei ix'
    assume f: "find_exact_entry_by_hash ix hash a = Some (Some hei)"
      and e: "entry_new a (tag_from_hash hash) False \<in># index_entries ix (bucket_index_for_hash ix hash)"
      and raw: "hei_raw hei = entry_new a (tag_from_hash hash) False"
      and cas: "hei_cas ix hei 0 = Some (True, hei\<lparr>hei_raw := 0\<rparr>, ix')" "index_wf ix'"
      and m: "ix_mask ix' = ix_mask ix" and ent: "\<forall>j < ix_size ix. index_entries ix' j =
             (if j = bucket_index_for_hash ix hash
              then index_entries ix j - {#entry_new a (tag_from_hash hash) False#} + nonzero {#0#} else index_entries ix j)"
    have "addresses_of ix' h = addresses_of ix h - (if same_slot ix h hash then {#a#} else {#})" for h
      using addresses_removed [OF assms e m ent, of h] by simp
    then have "lookups_change ix ix' (\<lambda>h M. M - (if same_slot ix h hash then {#a#} else {#}))"
      by (rule lookups_changeI [OF assms(1) cas(2)])
    then show ?thesis
      using f cas raw a0 e c_iff entry_new_nonzero [OF assms(2,3), of "tag_from_hash hash" False]
      by (simp add: delete_by_hash_def try_elide_def cas_to_zero_def)
  qed
  then show ?thesis using c by blast
qed

theorem delete_then_lookup_witness:
  "index_wf index_example1 \<and> (0 :: u64) < 64 \<and> 64 \<le> ADDRESS_MASK \<and>
   (\<exists>ix'. delete_by_hash index_example1 5 64 = Some (True, ix') \<and> index_wf ix' \<and>
     lookups_change index_example1 ix' (\<lambda>h M. M - (if same_slot index_example1 h 5 then {#64#} else {#})))"
proof -
  have l: "map_option cand_iter (lookup_candidates_by_hash index_example1 5) = Some [64]" by code_simp
  have m: "(64 :: u64) \<le> ADDRESS_MASK" by code_simp
  show ?thesis using delete_then_lookup [OF index_example1_wf _ m, of 5] l m index_example1_wf by auto
qed

text \<open>
  C30: Updating an address under a hash always returns. It answers whether a candidate lookup would have
  found the old address, and then the lookups of that bucket and tag have one occurrence of the old
  address replaced by the new one; otherwise nothing changes.
\<close>

theorem update_then_lookup:
  assumes "index_wf ix" "0 < a" "a \<le> ADDRESS_MASK" "0 < b" "b \<le> ADDRESS_MASK"
  shows "\<exists>c ix'. lookup_candidates_by_hash ix hash = Some c \<and>
    update_address_by_hash ix hash a b = Some (a \<in> set (cand_iter c), ix') \<and> index_wf ix' \<and>
    lookups_change ix ix' (\<lambda>h M. if a \<in> set (cand_iter c) \<and> same_slot ix h hash then M - {#a#} + {#b#} else M)"
proof -
  have ok: "a \<noteq> INVALID_ADDRESS" "b \<noteq> INVALID_ADDRESS" "\<not> ADDRESS_MASK < b"
    using assms(2,4,5) by (auto simp: INVALID_ADDRESS_def)
  obtain c where c: "lookup_candidates_by_hash ix hash = Some c" "mset (cand_iter c) = addresses_of ix hash"
    using candidates_addresses [OF assms(1)] by blast
  have c_iff: "a \<in> set (cand_iter c) \<longleftrightarrow>
      entry_new a (tag_from_hash hash) False \<in># index_entries ix (bucket_index_for_hash ix hash)"
    using address_entry_iff [OF assms(2,3), of ix hash] c(2) by (metis set_mset_mset)
  have "\<exists>ix'. update_address_by_hash ix hash a b = Some (a \<in> set (cand_iter c), ix') \<and> index_wf ix' \<and>
    lookups_change ix ix' (\<lambda>h M. if a \<in> set (cand_iter c) \<and> same_slot ix h hash then M - {#a#} + {#b#} else M)"
  proof (rule exact_entry_cas [OF assms(1-3), where hash = hash and v = "entry_new b (tag_from_hash hash) False"])
    assume f: "find_exact_entry_by_hash ix hash a = Some None"
      "entry_new a (tag_from_hash hash) False \<notin># index_entries ix (bucket_index_for_hash ix hash)"
    have "lookups_change ix ix (\<lambda>h M. M)" by (rule lookups_changeI [OF assms(1,1)]) simp
    then show ?thesis using f c_iff assms(1) ok by (simp add: update_address_by_hash_def)
  next
    fix hei ix'
    assume f: "find_exact_entry_by_hash ix hash a = Some (Some hei)"
      and e: "entry_new a (tag_from_hash hash) False \<in># index_entries ix (bucket_index_for_hash ix hash)"
      and tag: "hei_tag hei = tag_from_hash hash"
      and cas: "hei_cas ix hei (entry_new b (tag_from_hash hash) False) =
        Some (True, hei\<lparr>hei_raw := entry_new b (tag_from_hash hash) False\<rparr>, ix')" "index_wf ix'"
      and m: "ix_mask ix' = ix_mask ix" and ent: "\<forall>j < ix_size ix. index_entries ix' j =
             (if j = bucket_index_for_hash ix hash
              then index_entries ix j - {#entry_new a (tag_from_hash hash) False#}
                + nonzero {#entry_new b (tag_from_hash hash) False#} else index_entries ix j)"
    have "addresses_of ix' h = (if same_slot ix h hash then addresses_of ix h - {#a#} + {#b#} else addresses_of ix h)" for h
      using addresses_removed [OF assms(1-3) e m ent, of h] entry_new_nonzero [OF assms(4,5), of "tag_from_hash hash" False]
      by (auto simp: entry_new_matches [OF assms(4,5)] same_slot_def)
    then have "lookups_change ix ix' (\<lambda>h M. if same_slot ix h hash then M - {#a#} + {#b#} else M)"
      by (rule lookups_changeI [OF assms(1) cas(2)])
    then show ?thesis
      using f cas ok e c_iff tag by (simp add: update_address_by_hash_def try_cas_def)
  qed
  then show ?thesis using c by blast
qed

theorem update_then_lookup_witness:
  "index_wf index_example1 \<and> (0 :: u64) < 64 \<and> 128 \<le> ADDRESS_MASK \<and>
   (\<exists>ix'. update_address_by_hash index_example1 5 64 128 = Some (True, ix') \<and> index_wf ix' \<and>
     map_option cand_iter (lookup_candidates_by_hash ix' 5) = Some [128])"
proof -
  have l: "map_option cand_iter (lookup_candidates_by_hash index_example1 5) = Some [64]" by code_simp
  have m: "(64 :: u64) \<le> ADDRESS_MASK" "(128 :: u64) \<le> ADDRESS_MASK" by code_simp+
  obtain ix' where u: "update_address_by_hash index_example1 5 64 128 = Some (True, ix')" "index_wf ix'"
    and c: "lookups_change index_example1 ix' (\<lambda>h M. if same_slot index_example1 h 5 then M - {#64#} + {#128#} else M)"
    using update_then_lookup [OF index_example1_wf _ m(1) _ m(2), of 5] l by auto
  from spec [OF c [unfolded lookups_change_def], of 5] l have "map_option cand_iter (lookup_candidates_by_hash ix' 5) = Some [128]"
    by (auto simp: same_slot_def)
  then show ?thesis using u m index_example1_wf by simp
qed

section \<open>Create or update\<close>

text \<open>The live entries of a tag in its bucket.\<close>

definition tag_entries :: "u64 \<Rightarrow> HashIndex \<Rightarrow> u64 \<Rightarrow> u64 multiset" where
  "tag_entries min_addr ix hash =
     filter_mset (\<lambda>e. matches_tag e (tag_from_hash hash)) (live_entries min_addr ix (bucket_index_for_hash ix hash))"

lemma index_example1_tag: "tag_entries 0 index_example1 5 = {#entry_new 64 (tag_from_hash 5) False#}"
proof -
  have b: "1 < ix_size index_example" "1 AND ix_mask index_example = 1" by (simp_all add: index_example_def empty_index_def)
  have "index_entries index_example 1 = {#}" unfolding index_example_def by (rule empty_index_inv(2) [of 4 2]) simp_all
  then have "index_entries index_example1 1 = {#entry_new 64 (tag_from_hash 5) False#}"
    using ixs.insert_ok [OF index_example_wf index_example1_insert b(1)] b(2) by simp
  moreover have "bucket_index_for_hash index_example1 5 = 1" by code_simp
  moreover have "matches_tag (entry_new 64 (tag_from_hash 5) False) (tag_from_hash 5)"
    "live 0 (entry_new 64 (tag_from_hash 5) False)" by code_simp+
  ultimately show ?thesis by (simp add: tag_entries_def live_entries_def)
qed

lemma same_live_tag:
  assumes "same_live m ix ix'" "bucket_index_for_hash ix hash < ix_size ix"
  shows "bucket_index_for_hash ix' hash = bucket_index_for_hash ix hash" "tag_entries m ix' hash = tag_entries m ix hash"
  using assms by (simp_all add: same_live_def tag_entries_def bucket_index_for_hash_def)

lemma handle_entry_member:
  assumes "index_inv ix ch fs" "handle_ok ix ch i hei" "holds_at ix (hei_bucket hei) (hei_slot hei) raw" "raw \<noteq> 0"
  shows "raw \<in># index_entries ix i"
proof -
  obtain b where b: "load_bucket ix (hei_bucket hei) = Some b" "bucket_ok b" "hei_slot hei < DATA_ENTRIES"
    "entries b ! hei_slot hei = raw" using assms(3) by (auto simp: holds_at_def)
  have "raw \<in> set (data_words b)"
    using b nth_mem [of "hei_slot hei" "data_words b"] by (simp add: length_data_words data_words_nth)
  then have "raw \<in> set (ref_words ix (hei_bucket hei))" using b(1) by (simp add: ref_words_def)
  moreover have "i < ix_size ix" "hei_bucket hei \<in> set (take MAX_CHAIN_STEPS (refs_of i (ch i)))"
    using assms(2) by (auto simp: handle_ok_def)
  ultimately have "raw \<in> set (index_words ix i)" using inv_words [OF assms(1), of i] by auto
  then show ?thesis using assms(4) by (simp add: index_entries_def nonzero_def)
qed

lemma clean_no_entries:
  assumes "index_inv ix ch fs" "i < ix_size ix" "clean_refs m tag ix (set (take MAX_CHAIN_STEPS (refs_of i (ch i))))"
  shows "filter_mset (\<lambda>e. matches_tag e tag) (live_entries m ix i) = {#}"
proof -
  have "live m raw \<longrightarrow> \<not> matches_tag raw tag" if "raw \<in> set (index_words ix i)" for raw
    using assms(3) that unfolding inv_words [OF assms(1,2)] clean_refs_def by auto
  then show ?thesis
    by (subst set_mset_eq_empty_iff [symmetric]) (auto simp: live_entries_def index_entries_def nonzero_def)
qed

lemma find_or_create_cases:
  fixes hash :: u64
  assumes wf: "index_wf ix"
  defines "i \<equiv> bucket_index_for_hash ix hash" and "tag \<equiv> tag_from_hash hash"
  obtains
    (err) e ix1 where "find_or_create_tag_by_hash_with_min_addr ix hash m = Some (Inl e, ix1)"
      "e \<in> {OverflowPoolExhausted, OverflowCycleDetected}" "index_wf ix1" "same_live m ix ix1"
  | (ok) hei ix1 ch fs where "find_or_create_tag_by_hash_with_min_addr ix hash m = Some (Inr hei, ix1)"
      "index_inv ix1 ch fs" "same_live m ix ix1" "handle_ok ix1 ch i hei" "hei_tag hei = tag"
      "holds_at ix1 (hei_bucket hei) (hei_slot hei) (hei_raw hei)"
      "hei_is_found hei \<longrightarrow> hei_raw hei \<in># tag_entries m ix hash"
      "\<not> hei_is_found hei \<longrightarrow> tag_entries m ix hash = {#}"
proof -
  obtain ch fs where inv: "index_inv ix ch fs" using wf by (auto simp: index_wf_def)
  have i: "i < ix_size ix" using wf_bucket_less [OF wf] by (simp add: i_def)
  have g: "get_bucket ix i = MainRef i" using get_bucket_hash [of ix hash] by (simp add: i_def)
  have c0: "clean_refs m tag ix (set (butlast (refs_of i [])))" "free_slot_ok ix (set (butlast (refs_of i []))) None"
    by (simp_all add: clean_refs_def free_slot_ok_def)
  obtain res ix1 ch' fs' where r: "find_or_create_tag_by_hash_with_min_addr ix hash m = Some (res, ix1)"
    "index_inv ix1 ch' fs'" "same_live m ix ix1"
    "case res of
        Inl e \<Rightarrow> e \<in> {OverflowPoolExhausted, OverflowCycleDetected}
      | Inr hei \<Rightarrow> entry_handle m tag ix1 ch' i hei \<or> free_handle m tag ix1 ch' i hei"
    using create_loop_correct [OF inv i walker_start c0, where fb = "MainRef i"]
    unfolding find_or_create_tag_by_hash_with_min_addr_def Let_def i_def [symmetric] tag_def [symmetric] g
    by (elim exE conjE)
  note tl = same_live_tag [OF r(3), of hash, folded i_def, OF i]
  have i1: "i < ix_size ix1" using i r(3) by (simp add: same_live_def)
  show thesis
  proof (cases res)
    case (Inl e)
    then show thesis using err r by (auto simp: index_wf_def)
  next
    case (Inr hei)
    from r(4) [unfolded Inr sum.case] show thesis
    proof
      assume h: "entry_handle m tag ix1 ch' i hei"
      then have "hei_raw hei \<in># index_entries ix1 i" "hei_is_found hei"
        using handle_entry_member [OF r(2)] by (auto simp: entry_handle_def live_def hei_is_found_def)
      then have "hei_raw hei \<in># tag_entries m ix1 hash"
        using h tl(1) by (simp add: entry_handle_def tag_entries_def live_entries_def tag_def)
      then have "hei_raw hei \<in># tag_entries m ix hash" using tl(2) by simp
      then show thesis using ok [OF r(1) [unfolded Inr] r(2,3)] h \<open>hei_is_found hei\<close>
        by (simp add: entry_handle_def)
    next
      assume h: "free_handle m tag ix1 ch' i hei"
      then have "clean_refs m tag ix1 (set (take MAX_CHAIN_STEPS (refs_of i (ch' i))))" by (simp add: free_handle_def)
      from clean_no_entries [OF r(2) i1 this] have "tag_entries m ix1 hash = {#}"
        unfolding tag_entries_def tl(1) tag_def .
      then have "tag_entries m ix hash = {#}" using tl(2) by simp
      then show thesis using ok [OF r(1) [unfolded Inr] r(2,3)] h
        by (simp add: free_handle_def hei_is_found_def)
    qed
  qed
qed

lemma tag_entries_cas:
  assumes "index_entries ix' i + nonzero {#old#} = index_entries ix i + nonzero {#new#}"
    and "i = bucket_index_for_hash ix hash" "ix_mask ix' = ix_mask ix" "new \<noteq> 0"
    and "matches_tag new (tag_from_hash hash)" "live m new"
    and "old = 0 \<or> old \<in># tag_entries m ix hash"
  shows "tag_entries m ix' hash = tag_entries m ix hash - nonzero {#old#} + {#new#}"
    and "filter_mset (\<lambda>e. \<not> matches_tag e (tag_from_hash hash)) (live_entries m ix' i) =
      filter_mset (\<lambda>e. \<not> matches_tag e (tag_from_hash hash)) (live_entries m ix i)"
proof -
  have old: "old \<noteq> 0 \<Longrightarrow> matches_tag old (tag_from_hash hash) \<and> live m old \<and> old \<in># index_entries ix i"
    using assms(2,7) by (auto simp: tag_entries_def live_entries_def)
  have "index_entries ix' i = index_entries ix i - nonzero {#old#} + {#new#}"
    using assms(1,4) old mset_swap [of "index_entries ix' i" old "index_entries ix i" "{#new#}"] by (cases "old = 0") simp_all
  then have l: "live_entries m ix' i = live_entries m ix i - nonzero {#old#} + {#new#}"
    using old assms(6) by (cases "old = 0") (simp_all add: live_entries_def)
  show "tag_entries m ix' hash = tag_entries m ix hash - nonzero {#old#} + {#new#}"
    using l old assms(2,3,5) unfolding tag_entries_def bucket_index_cong [of ix' ix, OF assms(3)] assms(2) [symmetric]
    by (cases "old = 0") simp_all
  show "filter_mset (\<lambda>e. \<not> matches_tag e (tag_from_hash hash)) (live_entries m ix' i) =
      filter_mset (\<lambda>e. \<not> matches_tag e (tag_from_hash hash)) (live_entries m ix i)"
    using l old assms(5) by (cases "old = 0") simp_all
qed

lemma upsert_unique_parts:
  assumes wf: "index_wf ix" and a: "0 < a" "a \<le> ADDRESS_MASK" "m \<le> a"
    and fc: "find_or_create_tag_by_hash_with_min_addr ix hash m = Some (Inr hei, ix1)"
  shows "\<exists>hei' ix2. try_cas ix1 hei a = Some (True, hei', ix2) \<and> index_wf ix2 \<and>
     hei_is_found hei = (tag_entries m ix hash \<noteq> {#}) \<and>
     tag_entries m ix2 hash =
       tag_entries m ix hash - nonzero {#hei_raw hei#} + {#entry_new a (tag_from_hash hash) False#} \<and>
     (\<forall>j < ix_size ix. filter_mset (\<lambda>e. \<not> (j = bucket_index_for_hash ix hash \<and> matches_tag e (tag_from_hash hash))) (live_entries m ix2 j) =
        filter_mset (\<lambda>e. \<not> (j = bucket_index_for_hash ix hash \<and> matches_tag e (tag_from_hash hash))) (live_entries m ix j))"
proof (rule find_or_create_cases [OF wf, of hash m])
  let ?i = "bucket_index_for_hash ix hash" and ?e = "entry_new a (tag_from_hash hash) False"
  fix hei1 ix1' ch fs
  assume c: "find_or_create_tag_by_hash_with_min_addr ix hash m = Some (Inr hei1, ix1')"
    "index_inv ix1' ch fs" "same_live m ix ix1'" "handle_ok ix1' ch ?i hei1" "hei_tag hei1 = tag_from_hash hash"
    "holds_at ix1' (hei_bucket hei1) (hei_slot hei1) (hei_raw hei1)"
    "hei_is_found hei1 \<longrightarrow> hei_raw hei1 \<in># tag_entries m ix hash"
    "\<not> hei_is_found hei1 \<longrightarrow> tag_entries m ix hash = {#}"
  have eq: "hei1 = hei" "ix1' = ix1" using c(1) fc by simp_all
  note c = c [unfolded eq]
  note e0 = entry_new_nonzero [OF a(1,2), of "tag_from_hash hash" False]
  have lv: "live m ?e" using a(3) e0 by (auto simp: live_def stale_def)
  note tl = same_live_tag [OF c(3) wf_bucket_less [OF wf]]
  obtain ix2 where s: "hei_cas ix1 hei ?e = Some (True, hei\<lparr>hei_raw := ?e\<rparr>, ix2)" "index_inv ix2 ch fs"
    "ix_size ix2 = ix_size ix1" "ix_mask ix2 = ix_mask ix1"
    "index_entries ix2 ?i + nonzero {#hei_raw hei#} = index_entries ix1 ?i + nonzero {#?e#}"
    "\<forall>j < ix_size ix1. j \<noteq> ?i \<longrightarrow> index_entries ix2 j = index_entries ix1 j"
    by (rule cas_holding [OF c(2,4,6), of ?e])
  have old: "hei_raw hei = 0 \<or> hei_raw hei \<in># tag_entries m ix1 hash"
    using c(7) tl by (auto simp: hei_is_found_def)
  note t = tag_entries_cas [OF s(5) tl(1) [symmetric] s(4) _ _ lv old]
  have "try_cas ix1 hei a = Some (True, hei\<lparr>hei_raw := ?e\<rparr>, ix2)"
    using s(1) c(5) a by (auto simp: try_cas_def INVALID_ADDRESS_def)
  moreover have "hei_is_found hei = (tag_entries m ix hash \<noteq> {#})" using c(7,8) by auto
  moreover have "filter_mset (\<lambda>e. \<not> (j = ?i \<and> matches_tag e (tag_from_hash hash))) (live_entries m ix2 j) =
      filter_mset (\<lambda>e. \<not> (j = ?i \<and> matches_tag e (tag_from_hash hash))) (live_entries m ix j)" if "j < ix_size ix" for j
    using t(2) e0 entry_new_matches [OF a(1,2), of hash hash] s(6) c(3) that
    by (cases "j = ?i") (simp_all add: same_live_def live_entries_def)
  ultimately show ?thesis using s(2) t(1) e0 entry_new_matches [OF a(1,2), of hash hash] tl
    by (auto simp: index_wf_def)
qed (use fc in simp)

text \<open>
  C11: The create-or-update protocol keeps one live entry per tag: after
  \<open>find_or_create_tag_by_hash_with_min_addr\<close> has returned a handle and \<open>try_cas\<close> has published a valid address
  that is not below the minimum, a tag that had at most one live entry has exactly the new one, whether
  the entry was found or created. No live entry of another tag or bucket changes, and no
  compare-and-swap fails without interference.
\<close>

theorem upsert_unique:
  assumes "index_wf ix" "0 < a" "a \<le> ADDRESS_MASK" "m \<le> a"
    and "find_or_create_tag_by_hash_with_min_addr ix hash m = Some (Inr hei, ix1)"
    and "size (tag_entries m ix hash) \<le> 1"
  shows "\<exists>hei' ix2. try_cas ix1 hei a = Some (True, hei', ix2) \<and> index_wf ix2 \<and>
     hei_is_found hei = (tag_entries m ix hash \<noteq> {#}) \<and>
     tag_entries m ix2 hash = {#entry_new a (tag_from_hash hash) False#} \<and>
     (\<forall>j < ix_size ix. filter_mset (\<lambda>e. \<not> (j = bucket_index_for_hash ix hash \<and> matches_tag e (tag_from_hash hash))) (live_entries m ix2 j) =
        filter_mset (\<lambda>e. \<not> (j = bucket_index_for_hash ix hash \<and> matches_tag e (tag_from_hash hash))) (live_entries m ix j))"
proof -
  have raw: "hei_is_found hei \<longrightarrow> hei_raw hei \<in># tag_entries m ix hash"
  proof (rule find_or_create_cases [OF assms(1), of hash m])
    fix hei1 ix1'
    assume "find_or_create_tag_by_hash_with_min_addr ix hash m = Some (Inr hei1, ix1')"
      "hei_is_found hei1 \<longrightarrow> hei_raw hei1 \<in># tag_entries m ix hash"
    then show ?thesis using assms(5) by simp
  qed (use assms(5) in simp)
  have e: "tag_entries m ix hash - nonzero {#hei_raw hei#} = {#}" if "hei_is_found hei = (tag_entries m ix hash \<noteq> {#})"
  proof (cases "hei_is_found hei")
    case True
    then obtain N where "tag_entries m ix hash = add_mset (hei_raw hei) N"
      using multi_member_split [OF mp [OF raw]] by blast
    then show ?thesis using assms(6) True by (simp add: hei_is_found_def)
  qed (use that in simp)
  from upsert_unique_parts [OF assms(1-5)] show ?thesis
    by (elim exE conjE) (intro exI conjI, assumption+, simp only: e add_0, assumption)
qed

theorem upsert_unique_witness:
  "\<exists>hei ix1 hei' ix2. find_or_create_tag_by_hash_with_min_addr index_example1 5 0 = Some (Inr hei, ix1) \<and>
     hei_address hei = 64 \<and> try_cas ix1 hei 128 = Some (True, hei', ix2) \<and> index_wf ix2 \<and>
     tag_entries 0 ix2 5 = {#entry_new 128 (tag_from_hash 5) False#}"
proof -
  have m: "(128 :: u64) \<le> ADDRESS_MASK" by code_simp
  have "case find_or_create_tag_by_hash_with_min_addr index_example1 5 0 of
      Some (Inr hei, ix1) \<Rightarrow> hei_address hei = 64 | _ \<Rightarrow> False" by code_simp
  then obtain hei ix1 where f: "find_or_create_tag_by_hash_with_min_addr index_example1 5 0 = Some (Inr hei, ix1)"
    "hei_address hei = 64" by (auto split: option.splits prod.splits sum.splits)
  have "size (tag_entries 0 index_example1 5) \<le> 1" by (simp add: index_example1_tag)
  from upsert_unique [OF index_example1_wf _ m _ f(1) this] show ?thesis using f by auto
qed

section \<open>A cyclic chain\<close>

text \<open>
  A corrupted table can have a chain that comes back to itself. \<open>full_cycle\<close> is a set of full buckets whose
  links stay in the set.
\<close>

definition full_cycle :: "HashIndex \<Rightarrow> bucket_ref set \<Rightarrow> bool" where
  "full_cycle ix R \<longleftrightarrow>
     (\<forall>r \<in> R. case load_bucket ix r of
        None \<Rightarrow> False
      | Some b \<Rightarrow> find_empty_slot b = None \<and> bucket_overflow_index b \<noteq> 0 \<and> OverRef (bucket_overflow_index b) \<in> R)"

lemma full_cycle_advance:
  assumes "full_cycle ix R" "cw_curr w \<in> R"
  obtains b w' where "load_bucket ix (cw_curr w) = Some b" "find_empty_slot b = None"
    "advance ix w = Some (if MAX_CHAIN_STEPS \<le> cw_step w + 1 then Cycle else Next, w')"
    "cw_curr w' \<in> R" "cw_step w' = cw_step w + 1"
proof -
  have "case load_bucket ix (cw_curr w) of
        None \<Rightarrow> False
      | Some b \<Rightarrow> find_empty_slot b = None \<and> bucket_overflow_index b \<noteq> 0 \<and> OverRef (bucket_overflow_index b) \<in> R"
    using assms by (auto simp: full_cycle_def)
  then obtain b where b: "load_bucket ix (cw_curr w) = Some b" "find_empty_slot b = None"
    "bucket_overflow_index b \<noteq> 0" "OverRef (bucket_overflow_index b) \<in> R" by (auto split: option.splits)
  moreover from assms(1) b(4) obtain b' where "load_bucket ix (OverRef (bucket_overflow_index b)) = Some b'"
    by (fastforce simp: full_cycle_def split: option.splits)
  ultimately show thesis
    using that [of b "\<lparr>cw_curr = OverRef (bucket_overflow_index b), cw_step = cw_step w + 1\<rparr>"]
    by (simp add: advance_def Let_def)
qed

lemma insert_loop_cycle:
  "full_cycle ix R \<Longrightarrow> cw_curr w \<in> R \<Longrightarrow> cw_step w < MAX_CHAIN_STEPS \<Longrightarrow>
     insert_loop ix tag a w = Some (Inl OverflowCycleDetected, ix)"
proof (induction "MAX_CHAIN_STEPS - cw_step w" arbitrary: w rule: less_induct)
  case less
  obtain b w' where s: "load_bucket ix (cw_curr w) = Some b" "find_empty_slot b = None"
    "advance ix w = Some (if MAX_CHAIN_STEPS \<le> cw_step w + 1 then Cycle else Next, w')"
    "cw_curr w' \<in> R" "cw_step w' = cw_step w + 1" by (rule full_cycle_advance [OF less.prems(1,2)])
  show ?case
  proof (cases "MAX_CHAIN_STEPS \<le> cw_step w + 1")
    case True
    then show ?thesis using s by (subst insert_loop.simps) (simp add: advance_or_extend_def step_result_def)
  next
    case False
    then have "insert_loop ix tag a w' = Some (Inl OverflowCycleDetected, ix)"
      using less.hyps [of w'] less.prems s by simp
    then show ?thesis using s False by (subst insert_loop.simps) (simp add: advance_or_extend_def step_result_def)
  qed
qed

lemma find_tag_loop_cycle:
  "full_cycle ix R \<Longrightarrow> cw_curr w \<in> R \<Longrightarrow> cw_step w < MAX_CHAIN_STEPS \<Longrightarrow> \<exists>res. find_tag_loop ix tag w = Some res"
proof (induction "MAX_CHAIN_STEPS - cw_step w" arbitrary: w rule: less_induct)
  case less
  obtain b w' where s: "load_bucket ix (cw_curr w) = Some b" "find_empty_slot b = None"
    "advance ix w = Some (if MAX_CHAIN_STEPS \<le> cw_step w + 1 then Cycle else Next, w')"
    "cw_curr w' \<in> R" "cw_step w' = cw_step w + 1" by (rule full_cycle_advance [OF less.prems(1,2)])
  show ?case
  proof (cases "MAX_CHAIN_STEPS \<le> cw_step w + 1")
    case True
    then show ?thesis using s by (subst find_tag_loop.simps) (simp split: option.split)
  next
    case False
    then have "\<exists>res. find_tag_loop ix tag w' = Some res" using less.hyps [of w'] less.prems s by simp
    then show ?thesis using s False by (subst find_tag_loop.simps) (simp split: option.split)
  qed
qed

text \<open>
  C31: A chain that runs in a cycle of full buckets does not hang an operation: a lookup returns, and an
  insertion reports the cycle and leaves the index as it was.
\<close>

theorem cyclic_chain_stops:
  assumes "full_cycle ix R" "MainRef (bucket_index_for_hash ix hash) \<in> R" "0 < a" "a \<le> ADDRESS_MASK"
  shows "(\<exists>res. find_tag_by_hash ix hash = Some res) \<and>
    insert_to_bucket ix (bucket_index_for_hash ix hash) (tag_from_hash hash) a = Some (Inl OverflowCycleDetected, ix)"
proof -
  let ?w = "walker_new (MainRef (bucket_index_for_hash ix hash))"
  have w: "cw_curr ?w \<in> R" "cw_step ?w < MAX_CHAIN_STEPS" using assms(2) by (simp_all add: walker_new_def MAX_CHAIN_STEPS_def)
  have "a \<noteq> INVALID_ADDRESS" "\<not> ADDRESS_MASK < a" using assms(3,4) by (auto simp: INVALID_ADDRESS_def)
  then have "insert_to_bucket ix (bucket_index_for_hash ix hash) (tag_from_hash hash) a =
      insert_retry ix (bucket_index_for_hash ix hash) (tag_from_hash hash) a"
    by (simp add: insert_to_bucket_def bucket_index_mask)
  also have "\<dots> = Some (Inl OverflowCycleDetected, ix)"
    by (subst insert_retry.simps) (simp add: get_bucket_hash insert_loop_cycle [OF assms(1) w])
  finally show ?thesis using find_tag_loop_cycle [OF assms(1) w] by (simp add: find_tag_by_hash_def get_bucket_hash)
qed

definition cycle_bucket :: HashBucket where
  "cycle_bucket = \<lparr>entries = replicate 7 64 @ [1]\<rparr>"

definition cycle_index :: HashIndex where
  "cycle_index =
     \<lparr>buckets = \<lparr>hb_block = block_empty, hb_len = 1, hb_mem = [cycle_bucket]\<rparr>,
      overflow_pool = \<lparr>chunks = (\<lambda>i. if i = 0 then Some (cycle_bucket # replicate (CHUNK_SIZE - 1) bucket_new) else None),
        allocated = 1, free_head = 0, free_count = 0\<rparr>,
      ix_size = 1, ix_mask = 0\<rparr>"

theorem cyclic_chain_stops_witness:
  "full_cycle cycle_index {MainRef 0, OverRef 1} \<and>
   insert_to_bucket cycle_index 0 (tag_from_hash 5) 64 = Some (Inl OverflowCycleDetected, cycle_index)"
proof -
  have b: "find_empty_slot cycle_bucket = None" "bucket_overflow_index cycle_bucket = 1" by code_simp+
  have l: "load_bucket cycle_index (MainRef 0) = Some cycle_bucket" "load_bucket cycle_index (OverRef 1) = Some cycle_bucket"
    by (simp_all add: cycle_index_def buckets_get_unchecked_def pool_get_unchecked_def chunk_idx_def slot_idx_def MAX_CHUNKS_def)
  have f: "full_cycle cycle_index {MainRef 0, OverRef 1}" using b l by (simp add: full_cycle_def)
  have i: "bucket_index_for_hash cycle_index 5 = 0" by (simp add: bucket_index_for_hash_def cycle_index_def)
  have m: "(64 :: u64) \<le> ADDRESS_MASK" by code_simp
  show ?thesis using cyclic_chain_stops [OF f _ _ m, of 5] f i by simp
qed

end
