(* ===== verification/IndexSplit.thy ===== *)
theory IndexSplit
  imports IndexProps
begin

text \<open>
  Growing the index (\<open>windex/src/split.rs\<close>): the buckets of the old table are distributed over a table
  of twice the size, chunk by chunk. The closures that read the log (\<open>record_locator\<close>, \<open>trace_back\<close>)
  are parameters: functions from an address to what the log holds there.
\<close>

section \<open>Model\<close>

definition SPLIT_CHUNK_BITS :: nat where "SPLIT_CHUNK_BITS = 14"
definition SPLIT_CHUNK_SIZE :: nat where "SPLIT_CHUNK_SIZE = push_bit SPLIT_CHUNK_BITS 1"

definition chunk_count :: "nat \<Rightarrow> nat" where
  "chunk_count old_index_size =
     (let count = old_index_size div SPLIT_CHUNK_SIZE in if count = 0 then 1 else count)"

definition chunk_offset_for_hash :: "u64 \<Rightarrow> nat \<Rightarrow> nat" where
  "chunk_offset_for_hash hash old_mask = drop_bit SPLIT_CHUNK_BITS (unat hash AND old_mask)"

definition trailing_zeros :: "nat \<Rightarrow> nat" where
  "trailing_zeros n = length (takeWhile (\<lambda>i. \<not> bit n i) [0..<64])"

text \<open>The operator \<open>?\<close> on a step that threads the new index.\<close>

definition try_then ::
  "(('e, unit) res \<times> 's) option \<Rightarrow> ('s \<Rightarrow> (('e, unit) res \<times> 's) option) \<Rightarrow> (('e, unit) res \<times> 's) option" where
  "try_then x k =
     (case x of
        None \<Rightarrow> None
      | Some (Inl e, s) \<Rightarrow> Some (Inl e, s)
      | Some (Inr _, s) \<Rightarrow> k s)"

type_synonym locator = "u64 \<Rightarrow> (u64 \<times> u64) option"
type_synonym tracer = "u64 \<Rightarrow> nat \<Rightarrow> u64 option"

definition split_slot ::
  "locator \<Rightarrow> tracer \<Rightarrow> nat \<Rightarrow> u64 \<Rightarrow> nat \<Rightarrow> u64 \<Rightarrow> HashIndex \<Rightarrow> ((index_error, unit) res \<times> HashIndex) option" where
  "split_slot record_locator trace_back old_size min_valid_addr left_bucket_idx raw new_index =
     (if raw = 0 then Some (Inr (), new_index)
      else if \<not> entry_is_valid raw then Some (Inr (), new_index)
      else
        let addr = entry_address raw
        in if addr = 0 then Some (Inr (), new_index)
           else if 0 < min_valid_addr \<and> \<not> entry_is_read_cache raw \<and> addr < min_valid_addr
           then Some (Inr (), new_index)
           else
             let tag = entry_tag raw;
                 right_bucket_idx = left_bucket_idx + old_size
             in case record_locator addr of
                  Some (hash, prev_addr) \<Rightarrow>
                    let b = drop_bit (trailing_zeros old_size) hash AND 1;
                        (primary_idx, other_idx, target_bit) =
                          (if b = 0 then (left_bucket_idx, right_bucket_idx, 1)
                           else (right_bucket_idx, left_bucket_idx, 0))
                    in try_then (insert_to_bucket new_index primary_idx tag addr) (\<lambda>ix1.
                         if prev_addr \<noteq> 0 then
                           case trace_back prev_addr target_bit of
                             Some other_addr \<Rightarrow> insert_to_bucket ix1 other_idx tag other_addr
                           | None \<Rightarrow> Some (Inr (), ix1)
                         else Some (Inr (), ix1))
                | None \<Rightarrow>
                    try_then (insert_to_bucket new_index left_bucket_idx tag addr) (\<lambda>ix1.
                      insert_to_bucket ix1 right_bucket_idx tag addr))"

primrec split_slots ::
  "locator \<Rightarrow> tracer \<Rightarrow> nat \<Rightarrow> u64 \<Rightarrow> nat \<Rightarrow> u64 list \<Rightarrow> HashIndex \<Rightarrow> ((index_error, unit) res \<times> HashIndex) option" where
  "split_slots loc tr old_size m left [] new_index = Some (Inr (), new_index)"
| "split_slots loc tr old_size m left (raw # raws) new_index =
     try_then (split_slot loc tr old_size m left raw new_index) (split_slots loc tr old_size m left raws)"

function split_loop ::
  "locator \<Rightarrow> tracer \<Rightarrow> HashIndex \<Rightarrow> u64 \<Rightarrow> nat \<Rightarrow> ChainWalker \<Rightarrow> HashIndex \<Rightarrow> ((index_error, unit) res \<times> HashIndex) option" where
  "split_loop loc tr old_index m left w new_index =
     (case load_bucket old_index (cw_curr w) of
        None \<Rightarrow> None
      | Some b \<Rightarrow>
          try_then (split_slots loc tr (ix_size old_index) m left (data_words b) new_index) (\<lambda>ix1.
            case advance old_index w of
              None \<Rightarrow> None
            | Some (Next, w') \<Rightarrow> split_loop loc tr old_index m left w' ix1
            | Some (End, _) \<Rightarrow> Some (Inr (), ix1)
            | Some (Cycle, _) \<Rightarrow> Some (Inl OverflowCycleDetected, ix1)))"
  by pat_completeness auto
termination
  by (relation "measure (\<lambda>(_, _, _, _, _, w, _). MAX_CHAIN_STEPS - cw_step w)") (auto dest!: advance_Next)

definition split_single_bucket ::
  "HashIndex \<Rightarrow> HashIndex \<Rightarrow> nat \<Rightarrow> u64 \<Rightarrow> locator \<Rightarrow> tracer \<Rightarrow> ((index_error, unit) res \<times> HashIndex) option" where
  "split_single_bucket old_index new_index bucket_idx min_valid_addr record_locator trace_back =
     (let left_bucket_idx = bucket_idx AND ix_mask old_index
      in split_loop record_locator trace_back old_index min_valid_addr left_bucket_idx
           (walker_new (get_bucket old_index left_bucket_idx)) new_index)"

primrec split_buckets ::
  "HashIndex \<Rightarrow> u64 \<Rightarrow> locator \<Rightarrow> tracer \<Rightarrow> nat list \<Rightarrow> HashIndex \<Rightarrow> ((index_error, unit) res \<times> HashIndex) option" where
  "split_buckets old_index m loc tr [] new_index = Some (Inr (), new_index)"
| "split_buckets old_index m loc tr (b # bs) new_index =
     try_then (split_single_bucket old_index new_index b m loc tr) (split_buckets old_index m loc tr bs)"

text \<open>The division panics for no chunks.\<close>

definition split_chunk ::
  "HashIndex \<Rightarrow> HashIndex \<Rightarrow> nat \<Rightarrow> nat \<Rightarrow> u64 \<Rightarrow> locator \<Rightarrow> tracer \<Rightarrow> ((index_error, unit) res \<times> HashIndex) option" where
  "split_chunk old_index new_index chunk num_chunks min_valid_addr record_locator trace_back =
     (if num_chunks = 0 then None
      else
        let chunk_size = ix_size old_index div num_chunks;
            start_bucket = chunk_size * (chunk AND (num_chunks - 1));
            end_bucket = start_bucket + chunk_size
        in split_buckets old_index min_valid_addr record_locator trace_back [start_bucket..<end_bucket] new_index)"

declare split_loop.simps [simp del]

section \<open>A split as a list of insertions\<close>

definition split_inserts ::
  "locator \<Rightarrow> tracer \<Rightarrow> nat \<Rightarrow> u64 \<Rightarrow> nat \<Rightarrow> u64 \<Rightarrow> (nat \<times> u16 \<times> u64) list" where
  "split_inserts loc tr old_size m left raw =
     (if raw = 0 \<or> is_tentative raw \<or> entry_address raw = 0 \<or> stale m raw then []
      else case loc (entry_address raw) of
        None \<Rightarrow> [(left, entry_tag raw, entry_address raw), (left + old_size, entry_tag raw, entry_address raw)]
      | Some (hash, prev) \<Rightarrow>
          let right = bit hash (trailing_zeros old_size)
          in (if right then left + old_size else left, entry_tag raw, entry_address raw) #
             (if prev = 0 then []
              else case tr prev (if right then 0 else 1) of
                None \<Rightarrow> []
              | Some other \<Rightarrow> [(if right then left else left + old_size, entry_tag raw, other)]))"

lemma try_then_simps [simp]:
  "try_then None k = None" "try_then (Some (Inl e, s)) k = Some (Inl e, s)" "try_then (Some (Inr u, s)) k = k s"
  by (simp_all add: try_then_def)

lemma try_then_return [simp]: "try_then x (\<lambda>s. Some (Inr (), s)) = x"
  by (auto simp: try_then_def split: option.split prod.split sum.split)

lemma insert_list_Cons: "ixs.insert_list ix ((k, tag, a) # xs) =
    try_then (insert_to_bucket ix k tag a) (\<lambda>ix'. ixs.insert_list ix' xs)"
  by (simp add: try_then_def)

lemma insert_list_append_then: "ixs.insert_list ix (xs @ ys) =
    try_then (ixs.insert_list ix xs) (\<lambda>ix'. ixs.insert_list ix' ys)"
  by (simp add: ixs.insert_list_append try_then_def)

lemma and_one_bit: "drop_bit k (w :: u64) AND 1 = 0 \<longleftrightarrow> \<not> bit w k"
  by (simp add: and_one_eq bit_iff_odd_drop_bit even_iff_mod_2_eq_zero)

lemma split_slot_inserts:
  "split_slot loc tr old_size m left raw ix = ixs.insert_list ix (split_inserts loc tr old_size m left raw)"
proof (cases "raw = 0 \<or> is_tentative raw \<or> entry_address raw = 0 \<or> stale m raw")
  case True
  then show ?thesis by (auto simp: split_slot_def split_inserts_def entry_is_valid_def stale_def Let_def)
next
  case False
  then have "split_slot loc tr old_size m left raw ix =
     (case loc (entry_address raw) of
        Some (hash, prev) \<Rightarrow>
          try_then (insert_to_bucket ix (if bit hash (trailing_zeros old_size) then left + old_size else left)
              (entry_tag raw) (entry_address raw)) (\<lambda>ix1.
            if prev \<noteq> 0 then
              case tr prev (if bit hash (trailing_zeros old_size) then 0 else 1) of
                Some other \<Rightarrow> insert_to_bucket ix1 (if bit hash (trailing_zeros old_size) then left else left + old_size)
                    (entry_tag raw) other
              | None \<Rightarrow> Some (Inr (), ix1)
            else Some (Inr (), ix1))
      | None \<Rightarrow>
          try_then (insert_to_bucket ix left (entry_tag raw) (entry_address raw)) (\<lambda>ix1.
            insert_to_bucket ix1 (left + old_size) (entry_tag raw) (entry_address raw)))"
    by (auto simp: split_slot_def entry_is_valid_def stale_def and_one_bit Let_def simp del: One_nat_def split: option.split)
  also have "\<dots> = ixs.insert_list ix (split_inserts loc tr old_size m left raw)"
    using False by (auto simp: split_inserts_def Let_def insert_list_Cons simp del: ixs.insert_list.simps(2) One_nat_def split: option.split)
  finally show ?thesis .
qed

lemma split_slots_inserts:
  "split_slots loc tr old_size m left raws =
     (\<lambda>ix. ixs.insert_list ix (concat (map (split_inserts loc tr old_size m left) raws)))"
proof (induction raws)
  case (Cons raw raws)
  show ?case by (rule ext) (simp add: Cons split_slot_inserts insert_list_append_then)
qed (simp add: fun_eq_iff)

text \<open>The insertions of a bucket of the old table, and of a list of buckets.\<close>

definition bucket_inserts :: "locator \<Rightarrow> tracer \<Rightarrow> HashIndex \<Rightarrow> u64 \<Rightarrow> nat \<Rightarrow> (nat \<times> u16 \<times> u64) list" where
  "bucket_inserts loc tr old m i = concat (map (split_inserts loc tr (ix_size old) m i) (index_words old i))"

lemma insert_list_wf:
  assumes "index_wf ix"
  obtains (err) e ix' where "ixs.insert_list ix xs = Some (Inl e, ix')" "index_wf ix'" "ix_size ix' = ix_size ix"
      "ix_mask ix' = ix_mask ix"
  | (ok) ix' where "ixs.insert_list ix xs = Some (Inr (), ix')" "index_wf ix'" "ix_size ix' = ix_size ix"
      "ix_mask ix' = ix_mask ix"
proof -
  obtain r ix' where "ixs.insert_list ix xs = Some (r, ix')" "index_wf ix'" "ix_size ix' = ix_size ix"
    "(\<lambda>k. k AND ix_mask ix') = (\<lambda>k. k AND ix_mask ix)"
    using ixs.insert_list_correct [OF assms, of xs] by blast
  moreover from this(4) have "ix_mask ix' = ix_mask ix" by (metis and.commute and.idem)
  ultimately show thesis using err ok by (cases r) auto
qed

lemma concat_map_concat: "concat (map f (concat xss)) = concat (map (\<lambda>xs. concat (map f xs)) xss)"
  by (induction xss) simp_all

lemma split_loop_inserts:
  "index_inv old ch fs \<Longrightarrow> i < ix_size old \<Longrightarrow> walker_at ch i xs os w \<Longrightarrow> index_wf new \<Longrightarrow>
   \<exists>r new'. split_loop loc tr old m i w new = Some (r, new') \<and> index_wf new' \<and>
     ix_size new' = ix_size new \<and> ix_mask new' = ix_mask new \<and>
     (r = Inr () \<longrightarrow> length xs + length os < MAX_CHAIN_STEPS \<and>
        ixs.insert_list new (concat (map (split_inserts loc tr (ix_size old) m i)
          (concat (map (ref_words old) (cw_curr w # map OverRef os))))) = Some (Inr (), new'))"
proof (induction os arbitrary: xs w new)
  case Nil
  obtain b where b: "load_bucket old (cw_curr w) = Some b" using walker_load [OF Nil(1-3)] by blast
  have l: "length xs < MAX_CHAIN_STEPS" using Nil(3) by (simp add: walker_at_def)
  show ?case
    by (rule insert_list_wf [OF Nil(4), of "concat (map (split_inserts loc tr (ix_size old) m i) (data_words b))"])
      (use b l advance_end [OF Nil(1-3)] in \<open>subst split_loop.simps, simp add: split_slots_inserts ref_words_def\<close>)+
next
  case (Cons oid os)
  obtain b where b: "load_bucket old (cw_curr w) = Some b" using walker_load [OF Cons.prems(1-3)] by blast
  note st = advance_step [OF Cons.prems(1-3)]
  show ?case
  proof (rule insert_list_wf [OF Cons.prems(4), of "concat (map (split_inserts loc tr (ix_size old) m i) (data_words b))"])
    fix ix1
    assume i: "ixs.insert_list new (concat (map (split_inserts loc tr (ix_size old) m i) (data_words b))) = Some (Inr (), ix1)"
      "index_wf ix1" "ix_size ix1 = ix_size new" "ix_mask ix1 = ix_mask new"
    show ?thesis
    proof (cases "MAX_CHAIN_STEPS \<le> length xs + 1")
      case True
      then show ?thesis using b i st(1) by (subst split_loop.simps) (simp add: split_slots_inserts)
    next
      case False
      have "ref_words old (cw_curr w) = data_words b" using b by (simp add: ref_words_def)
      then show ?thesis using b i st(1) False Cons.IH [OF Cons.prems(1,2) st(2) i(2)]
        by (subst split_loop.simps) (auto simp: split_slots_inserts insert_list_append_then)
    qed
  qed (use b in \<open>subst split_loop.simps, simp add: split_slots_inserts\<close>)
qed

lemma split_single_inserts:
  assumes "index_wf old" "index_wf new" "i < ix_size old"
  shows "\<exists>r new'. split_single_bucket old new i m loc tr = Some (r, new') \<and> index_wf new' \<and>
     ix_size new' = ix_size new \<and> ix_mask new' = ix_mask new \<and>
     (r = Inr () \<longrightarrow> ixs.insert_list new (bucket_inserts loc tr old m i) = Some (Inr (), new'))"
proof -
  obtain ch fs where inv: "index_inv old ch fs" using assms(1) by (auto simp: index_wf_def)
  obtain k where k: "ix_size old = 2 ^ k" "ix_mask old = 2 ^ k - 1"
    using index_inv_parts(1) [OF inv] by (auto simp: table_ok_def)
  have "i AND ix_mask old = i" using assms(3) k by (metis mask_eq_exp_minus_1 take_bit_eq_mask take_bit_nat_eq_self)
  then have s: "split_single_bucket old new i m loc tr = split_loop loc tr old m i (walker_new (MainRef i)) new"
    by (simp add: split_single_bucket_def get_bucket_def)
  have w: "bucket_inserts loc tr old m i = concat (map (split_inserts loc tr (ix_size old) m i)
      (concat (map (ref_words old) (MainRef i # map OverRef (ch i)))))" if "length (ch i) < MAX_CHAIN_STEPS"
  proof -
    have "length (refs_of i (ch i)) \<le> MAX_CHAIN_STEPS" using that by simp
    from take_all [OF this] show ?thesis unfolding bucket_inserts_def inv_words [OF inv assms(3)] by (simp only:)
  qed
  have c: "cw_curr (walker_new (MainRef i)) = MainRef i" by (simp add: walker_new_def)
  from split_loop_inserts [OF inv assms(3) walker_start assms(2), of loc tr m, unfolded c] show ?thesis
    unfolding s using w by (metis add_0 list.size(3))
qed

lemma split_buckets_inserts:
  "index_wf old \<Longrightarrow> index_wf new \<Longrightarrow> set bs \<subseteq> {..<ix_size old} \<Longrightarrow>
   \<exists>r new'. split_buckets old m loc tr bs new = Some (r, new') \<and> index_wf new' \<and>
     ix_size new' = ix_size new \<and> ix_mask new' = ix_mask new \<and>
     (r = Inr () \<longrightarrow> ixs.insert_list new (concat (map (bucket_inserts loc tr old m) bs)) = Some (Inr (), new'))"
proof (induction bs arbitrary: new)
  case (Cons b bs)
  then have b: "b < ix_size old" "set bs \<subseteq> {..<ix_size old}" by auto
  obtain r1 ix1 where s: "split_single_bucket old new b m loc tr = Some (r1, ix1)" "index_wf ix1"
    "ix_size ix1 = ix_size new" "ix_mask ix1 = ix_mask new"
    "r1 = Inr () \<longrightarrow> ixs.insert_list new (bucket_inserts loc tr old m b) = Some (Inr (), ix1)"
    using split_single_inserts [OF Cons.prems(1,2) b(1), of m loc tr] by blast
  show ?case
  proof (cases r1)
    case (Inl e)
    then show ?thesis using s by simp
  next
    case (Inr u)
    then show ?thesis using s Cons.IH [OF Cons.prems(1) s(2) b(2)] by (auto simp: insert_list_append_then)
  qed
qed simp

section \<open>Lookups after a split\<close>

text \<open>The insertions that a lookup of the hash sees.\<close>

definition hash_inserts :: "HashIndex \<Rightarrow> u64 \<Rightarrow> (nat \<times> u16 \<times> u64) list \<Rightarrow> u64 list" where
  "hash_inserts ix h xs =
     map (\<lambda>(_, _, a). a)
       (filter (\<lambda>(k, tag, _). k AND ix_mask ix = bucket_index_for_hash ix h \<and> tag = tag_from_hash h) xs)"

lemma hash_inserts_simps [simp]:
  "hash_inserts ix h [] = []" "hash_inserts ix h (xs @ ys) = hash_inserts ix h xs @ hash_inserts ix h ys"
  by (simp_all add: hash_inserts_def)

lemma hash_inserts_concat: "hash_inserts ix h (concat xss) = concat (map (hash_inserts ix h) xss)"
  by (induction xss) simp_all

lemma entry_new_matches_tag:
  assumes "0 < a" "a \<le> ADDRESS_MASK" "unat tag < 2 ^ 15"
  shows "matches_tag (entry_new a tag False) (tag_from_hash h) \<longleftrightarrow> tag = tag_from_hash h"
  using entry_new_nonzero [OF assms(1,2), of tag False] assms(1) entry_new_tag [OF assms(3)]
  by (auto simp: matches_tag_iff [OF tag_from_hash_bound] entry_new_fields)

lemma added_addresses:
  assumes "\<forall>(k, tag, a) \<in> set xs. 0 < a \<and> a \<le> ADDRESS_MASK \<and> unat tag < 2 ^ 15"
  shows "image_mset entry_address (filter_mset (\<lambda>e. matches_tag e (tag_from_hash h)) (ixs.added ix xs (bucket_index_for_hash ix h)))
    = mset (hash_inserts ix h xs)"
  using assms
proof (induction xs)
  case (Cons x xs)
  obtain k tag a where x: "x = (k, tag, a)" by (metis prod_cases3)
  then have v: "0 < a" "a \<le> ADDRESS_MASK" "unat tag < 2 ^ 15" using Cons.prems by auto
  show ?case using Cons entry_new_nonzero [OF v(1,2), of tag False] entry_new_matches_tag [OF v, of h]
    by (auto simp: x ixs.added_def hash_inserts_def)
qed (simp add: ixs.added_def hash_inserts_def)

lemma insert_list_addresses:
  assumes "index_wf ix" "ixs.insert_list ix xs = Some (Inr (), ix')" "\<forall>(k, tag, a) \<in> set xs. unat tag < 2 ^ 15"
  shows "addresses_of ix' h = addresses_of ix h + mset (hash_inserts ix h xs)"
proof -
  have v: "\<forall>(k, tag, a) \<in> set xs. 0 < a \<and> a \<le> ADDRESS_MASK \<and> unat tag < 2 ^ 15"
    using ixs.insert_list_valid [OF assms(1,2)] assms(3) by blast
  have "ix_mask ix' = ix_mask ix"
    by (rule insert_list_wf [OF assms(1), of xs]) (use assms(2) in simp_all)
  note b = bucket_index_cong [OF this]
  have "index_entries ix' (bucket_index_for_hash ix h) =
      index_entries ix (bucket_index_for_hash ix h) + ixs.added ix xs (bucket_index_for_hash ix h)"
    using ixs.insert_list_correct [OF assms(1), of xs] assms(2) wf_bucket_less [OF assms(1)] by auto
  then show ?thesis using added_addresses [OF v, of h ix] by (simp add: addresses_of_def b)
qed

text \<open>The reference: where a candidate of the old table is found, for a hash.\<close>

definition split_reach :: "locator \<Rightarrow> tracer \<Rightarrow> HashIndex \<Rightarrow> u64 \<Rightarrow> u64 \<Rightarrow> u64 list" where
  "split_reach loc tr old h a =
     (let side = (\<lambda>x. bit x (trailing_zeros (ix_size old)))
      in case loc a of
           None \<Rightarrow> [a]
         | Some (hash, prev) \<Rightarrow>
             if side hash = side h then [a]
             else if prev = 0 then []
             else case tr prev (of_bool (side h)) of None \<Rightarrow> [] | Some a' \<Rightarrow> [a'])"

lemma bit_trailing_zeros: "bit (w :: u64) (trailing_zeros (2 ^ k)) = bit w k"
proof (cases "k < 64")
  case True
  have "[0..<64] = [0..<k] @ k # [Suc k..<64]" 
    using upt_add_eq_append [of 0 k "64 - k"] True by (simp add: upt_conv_Cons del: upt_Suc)
  moreover have "takeWhile (\<lambda>i. \<not> bit ((2 :: nat) ^ k) i) ([0..<k] @ k # [Suc k..<64]) = [0..<k]"
    by (subst takeWhile_append2) (auto simp: bit_exp_iff)
  ultimately show ?thesis by (simp add: trailing_zeros_def)
next
  case False
  then have "takeWhile (\<lambda>i. \<not> bit ((2 :: nat) ^ k) i) [0..<64] = [0..<64]"
    by (subst takeWhile_eq_all_conv) (auto simp: bit_exp_iff)
  then have "trailing_zeros (2 ^ k) = 64" by (simp only: trailing_zeros_def length_upt)
  then show ?thesis using False by (auto dest: bit_imp_le_length)
qed

lemma entry_tag_bound: "unat (entry_tag e) < 2 ^ 15"
proof -
  have "entry_tag e AND mask 15 = entry_tag e" by (auto simp: word_bits_eq bit_entry_tag bit_fields)
  then show ?thesis by (simp add: and_mask_idem)
qed

text \<open>The two tables: \<open>2 ^ k\<close> buckets and twice as many.\<close>

lemma table_power:
  assumes "index_wf ix"
  obtains k where "ix_size ix = 2 ^ k" "ix_mask ix = 2 ^ k - 1"
  using assms by (auto simp: index_wf_def index_inv_def table_ok_def)

lemma double_bucket:
  assumes old: "ix_size old = 2 ^ k" "ix_mask old = 2 ^ k - 1" and new: "ix_mask new = 2 ^ Suc k - 1"
  shows "bucket_index_for_hash new h = bucket_index_for_hash old h + (if bit h k then ix_size old else 0)"
    and "i < ix_size old \<Longrightarrow> i AND ix_mask new = i"
    and "i < ix_size old \<Longrightarrow> (i + ix_size old) AND ix_mask new = i + ix_size old"
proof -
  have m: "n AND ix_mask new = take_bit (Suc k) n" "n AND ix_mask old = take_bit k n" for n :: nat
    using old new by (metis mask_eq_exp_minus_1 take_bit_eq_mask)+
  have b: "bit (unat h) k = bit h k" by (simp add: bit_unsigned_iff)
  show "bucket_index_for_hash new h = bucket_index_for_hash old h + (if bit h k then ix_size old else 0)"
    unfolding bucket_index_for_hash_def m take_bit_Suc_from_most b by (simp add: old(1))
  show "i < ix_size old \<Longrightarrow> i AND ix_mask new = i"
    "i < ix_size old \<Longrightarrow> (i + ix_size old) AND ix_mask new = i + ix_size old"
    unfolding m old by (auto intro!: take_bit_nat_eq_self)
qed

lemma hash_inserts_word:
  assumes old: "ix_size old = 2 ^ k" "ix_mask old = 2 ^ k - 1" and new: "ix_mask new = 2 ^ Suc k - 1"
    and i: "i < ix_size old"
  shows "hash_inserts new h (split_inserts loc tr (ix_size old) m i raw) =
    (if i = bucket_index_for_hash old h \<and> matches_tag raw (tag_from_hash h) \<and> live m raw
     then split_reach loc tr old h (entry_address raw) else [])"
proof -
  note d = double_bucket [OF old new]
  have j: "bucket_index_for_hash old h < ix_size old"
    using old unfolding bucket_index_for_hash_def by (metis mask_eq_exp_minus_1 take_bit_eq_mask take_bit_nat_less_exp)
  have l: "i AND ix_mask new = bucket_index_for_hash new h \<longleftrightarrow> i = bucket_index_for_hash old h \<and> \<not> bit h k"
    "(i + ix_size old) AND ix_mask new = bucket_index_for_hash new h \<longleftrightarrow> i = bucket_index_for_hash old h \<and> bit h k"
    using d(2,3) [OF i] d(1) [of h] i j by auto
  have s: "bit x (trailing_zeros (ix_size old)) = bit x k" for x :: u64 unfolding old by (rule bit_trailing_zeros)
  have t: "matches_tag raw (tag_from_hash h) \<and> live m raw \<longleftrightarrow>
      \<not> (raw = 0 \<or> is_tentative raw \<or> entry_address raw = 0 \<or> stale m raw) \<and> entry_tag raw = tag_from_hash h"
    by (auto simp: matches_tag_iff [OF tag_from_hash_bound] live_def)
  show ?thesis
  proof (cases "i = bucket_index_for_hash old h")
    case True
    then have "(i = bucket_index_for_hash old h) = True"
      "(i AND ix_mask new = bucket_index_for_hash new h) = (\<not> bit h k)"
      "((i + ix_size old) AND ix_mask new = bucket_index_for_hash new h) = bit h k" using l by simp_all
    then show ?thesis unfolding t split_inserts_def split_reach_def hash_inserts_def Let_def s
      by (simp split: option.split)
  next
    case False
    then have "i AND ix_mask new \<noteq> bucket_index_for_hash new h"
      "(i + ix_size old) AND ix_mask new \<noteq> bucket_index_for_hash new h" using l by simp_all
    then show ?thesis using False by (simp add: split_inserts_def hash_inserts_def Let_def split: option.split)
  qed
qed

lemma concat_map_if: "concat (map (\<lambda>x. if P x then f x else []) xs) = concat (map f (filter P xs))"
  by (induction xs) simp_all

lemma mset_concat_map: "mset (concat (map f xs)) = \<Sum>\<^sub># (image_mset (\<lambda>x. mset (f x)) (mset xs))"
  by (induction xs) simp_all

lemma hash_inserts_bucket:
  assumes old: "ix_size old = 2 ^ k" "ix_mask old = 2 ^ k - 1" and new: "ix_mask new = 2 ^ Suc k - 1"
    and i: "i < ix_size old"
  shows "mset (hash_inserts new h (bucket_inserts loc tr old m i)) =
    (if i = bucket_index_for_hash old h
     then \<Sum>\<^sub># (image_mset (\<lambda>e. mset (split_reach loc tr old h (entry_address e))) (tag_entries m old h)) else {#})"
proof -
  have "hash_inserts new h (bucket_inserts loc tr old m i) =
      concat (map (split_reach loc tr old h \<circ> entry_address)
        (filter (\<lambda>raw. i = bucket_index_for_hash old h \<and> matches_tag raw (tag_from_hash h) \<and> live m raw) (index_words old i)))"
    unfolding bucket_inserts_def hash_inserts_concat map_map comp_def hash_inserts_word [OF assms] concat_map_if ..
  moreover have "filter_mset (\<lambda>raw. matches_tag raw (tag_from_hash h) \<and> live m raw) (mset (index_words old (bucket_index_for_hash old h)))
      = tag_entries m old h"
    by (auto simp: tag_entries_def live_entries_def index_entries_def nonzero_def filter_filter_mset live_def intro!: filter_mset_cong)
  ultimately show ?thesis by (simp add: mset_concat_map mset_filter comp_def)
qed

lemma split_tags: "(k, tag, a) \<in> set (bucket_inserts loc tr old m i) \<Longrightarrow> unat tag < 2 ^ 15"
  using entry_tag_bound
  by (auto simp: bucket_inserts_def split_inserts_def Let_def split: if_splits option.splits)

lemma hash_inserts_buckets:
  assumes old: "ix_size old = 2 ^ k" "ix_mask old = 2 ^ k - 1" and new: "ix_mask new = 2 ^ Suc k - 1"
    and "distinct bs" "set bs \<subseteq> {..<ix_size old}"
  shows "mset (hash_inserts new h (concat (map (bucket_inserts loc tr old m) bs))) =
    (if bucket_index_for_hash old h \<in> set bs
     then \<Sum>\<^sub># (image_mset (\<lambda>e. mset (split_reach loc tr old h (entry_address e))) (tag_entries m old h)) else {#})"
  using assms(4,5)
proof (induction bs)
  case (Cons b bs)
  then show ?case using hash_inserts_bucket [OF old new, of b h loc tr m] by auto
qed simp

section \<open>Chunks\<close>

lemma chunk_buckets:
  assumes old: "ix_size old = 2 ^ k" "ix_mask old = 2 ^ k - 1" and c: "chunk < chunk_count (ix_size old)"
  defines "cs \<equiv> ix_size old div chunk_count (ix_size old)"
  defines "bs \<equiv> [cs * (chunk AND (chunk_count (ix_size old) - 1))..<cs * (chunk AND (chunk_count (ix_size old) - 1)) + cs]"
  shows "set bs \<subseteq> {..<ix_size old}"
    and "bucket_index_for_hash old h \<in> set bs \<longleftrightarrow> chunk_offset_for_hash h (ix_mask old) = chunk"
proof -
  have j: "bucket_index_for_hash old h < ix_size old"
    using old unfolding bucket_index_for_hash_def by (metis mask_eq_exp_minus_1 take_bit_eq_mask take_bit_nat_less_exp)
  have o: "chunk_offset_for_hash h (ix_mask old) = bucket_index_for_hash old h div 2 ^ 14"
    by (simp add: chunk_offset_for_hash_def bucket_index_for_hash_def SPLIT_CHUNK_BITS_def drop_bit_eq_div)
  have sz: "SPLIT_CHUNK_SIZE = 2 ^ 14" by (simp add: SPLIT_CHUNK_SIZE_def SPLIT_CHUNK_BITS_def)
  show "set bs \<subseteq> {..<ix_size old}"
    "bucket_index_for_hash old h \<in> set bs \<longleftrightarrow> chunk_offset_for_hash h (ix_mask old) = chunk"
  proof (atomize (full), cases "k < 14")
    case True
    then have lt: "ix_size old < 2 ^ 14" using old power_strict_increasing [of k 14 "2 :: nat"] by simp
    then have "chunk_count (ix_size old) = 1" by (simp add: chunk_count_def sz)
    then show "set bs \<subseteq> {..<ix_size old} \<and>
        (bucket_index_for_hash old h \<in> set bs \<longleftrightarrow> chunk_offset_for_hash h (ix_mask old) = chunk)"
      using c j lt unfolding o bs_def cs_def by auto
  next
    case False
    have e: "ix_size old = 2 ^ (k - 14) * 2 ^ 14" 
      using False unfolding old(1) by (metis le_add_diff_inverse2 not_less power_add)
    then have "ix_size old div 2 ^ 14 = 2 ^ (k - 14)" by simp
    then have "chunk_count (ix_size old) = 2 ^ (k - 14)" by (simp add: chunk_count_def sz)
    moreover from this have "chunk AND (chunk_count (ix_size old) - 1) = chunk"
      using c by (metis mask_eq_exp_minus_1 take_bit_eq_mask take_bit_nat_eq_self)
    moreover note e
    ultimately have b: "bs = [2 ^ 14 * chunk..<2 ^ 14 * chunk + 2 ^ 14]" "chunk < 2 ^ (k - 14)" "ix_size old = 2 ^ (k - 14) * 2 ^ 14"
      using c by (simp_all add: bs_def cs_def)
    have "2 ^ 14 * chunk + 2 ^ 14 \<le> ix_size old"
      using b(2) mult_le_mono2 [of "Suc chunk" "2 ^ (k - 14)" "2 ^ 14"] unfolding b(3) by (simp add: mult.commute)
    moreover have "bucket_index_for_hash old h div 2 ^ 14 = chunk \<longleftrightarrow>
        2 ^ 14 * chunk \<le> bucket_index_for_hash old h \<and> bucket_index_for_hash old h < 2 ^ 14 * chunk + 2 ^ 14" by auto
    ultimately show "set bs \<subseteq> {..<ix_size old} \<and>
        (bucket_index_for_hash old h \<in> set bs \<longleftrightarrow> chunk_offset_for_hash h (ix_mask old) = chunk)"
      unfolding o b(1) by auto
  qed
qed

text \<open>
  C14: Splitting a chunk into a table of twice the size always returns. If it succeeds, a lookup of a hash
  of that chunk in the new table finds, besides what was there, every live candidate the old table had
  for it: the address itself when the record is on the side of the hash or cannot be read, and otherwise
  the address that tracing the record's chain gives for that side. Lookups of other chunks are unchanged.
\<close>

theorem split_chunk_lookup:
  assumes wf: "index_wf old" "index_wf new" and sz: "ix_size new = 2 * ix_size old"
    and c: "chunk < chunk_count (ix_size old)"
  shows "\<exists>r new'. split_chunk old new chunk (chunk_count (ix_size old)) m loc tr = Some (r, new') \<and> index_wf new' \<and>
    (r = Inr () \<longrightarrow> lookups_change new new' (\<lambda>h M. M +
       (if chunk_offset_for_hash h (ix_mask old) = chunk
        then \<Sum>\<^sub># (image_mset (\<lambda>e. mset (split_reach loc tr old h (entry_address e))) (tag_entries m old h))
        else {#})))"
proof -
  obtain k where old: "ix_size old = 2 ^ k" "ix_mask old = 2 ^ k - 1" by (rule table_power [OF wf(1)])
  obtain k' where "ix_size new = 2 ^ k'" "ix_mask new = 2 ^ k' - 1" by (rule table_power [OF wf(2)])
  then have new: "ix_mask new = 2 ^ Suc k - 1" using sz old by simp
  let ?cs = "ix_size old div chunk_count (ix_size old)"
  let ?s = "?cs * (chunk AND (chunk_count (ix_size old) - 1))"
  note bs = chunk_buckets [OF old c]
  have n0: "chunk_count (ix_size old) \<noteq> 0" by (simp add: chunk_count_def Let_def)
  then have sc: "split_chunk old new chunk (chunk_count (ix_size old)) m loc tr =
      split_buckets old m loc tr [?s..<?s + ?cs] new" by (simp add: split_chunk_def Let_def)
  obtain r new' where r: "split_buckets old m loc tr [?s..<?s + ?cs] new = Some (r, new')" "index_wf new'"
    "r = Inr () \<longrightarrow> ixs.insert_list new (concat (map (bucket_inserts loc tr old m) [?s..<?s + ?cs])) = Some (Inr (), new')"
    using split_buckets_inserts [OF wf bs(1), of m loc tr] by blast
  have "lookups_change new new' (\<lambda>h M. M +
       (if chunk_offset_for_hash h (ix_mask old) = chunk
        then \<Sum>\<^sub># (image_mset (\<lambda>e. mset (split_reach loc tr old h (entry_address e))) (tag_entries m old h))
        else {#}))" if "r = Inr ()"
  proof (rule lookups_changeI [OF wf(2) r(2)])
    fix h
    have "addresses_of new' h = addresses_of new h +
        mset (hash_inserts new h (concat (map (bucket_inserts loc tr old m) [?s..<?s + ?cs])))"
      using insert_list_addresses [OF wf(2) mp [OF r(3) that]] split_tags [of _ _ _ loc tr old m] by fastforce
    then show "addresses_of new' h = addresses_of new h +
       (if chunk_offset_for_hash h (ix_mask old) = chunk
        then \<Sum>\<^sub># (image_mset (\<lambda>e. mset (split_reach loc tr old h (entry_address e))) (tag_entries m old h))
        else {#})"
      unfolding hash_inserts_buckets [OF old new distinct_upt bs(1)] bs(2) .
  qed
  then show ?thesis unfolding sc using r(1,2) by blast
qed

text \<open>The example: the record at address 64 is on disk, so that both sides get it.\<close>

theorem split_chunk_lookup_witness:
  "\<exists>new'. split_chunk index_example1 (empty_index block_empty 8) 0 1 0 (\<lambda>_. None) (\<lambda>_ _. None) = Some (Inr (), new') \<and>
     index_wf new' \<and> map_option (mset \<circ> cand_iter) (lookup_candidates_by_hash new' 5) = Some {#64#}"
proof -
  let ?new = "empty_index block_empty 8" and ?loc = "\<lambda>_ :: u64. None :: (u64 \<times> u64) option" and ?tr = "\<lambda>(_ :: u64) (_ :: nat). None :: u64 option"
  have wf: "index_wf ?new" by (rule empty_index_wf [of 8 3]) simp
  have sz: "ix_size ?new = 2 * ix_size index_example1" "ix_size index_example1 = 4" "ix_mask index_example1 = 3" by code_simp+
  then have c: "chunk_count (ix_size index_example1) = 1" by (simp add: chunk_count_def SPLIT_CHUNK_SIZE_def SPLIT_CHUNK_BITS_def)
  have "map_option fst (split_chunk index_example1 ?new 0 1 0 ?loc ?tr) = Some (Inr ())" by code_simp
  then obtain new' where s: "split_chunk index_example1 ?new 0 1 0 ?loc ?tr = Some (Inr (), new')" by auto
  have o: "chunk_offset_for_hash 5 3 = 0" by code_simp
  have w: "index_wf new'" and l: "lookups_change ?new new' (\<lambda>h M. M +
       (if chunk_offset_for_hash h 3 = 0
        then \<Sum>\<^sub># (image_mset (\<lambda>e. mset (split_reach ?loc ?tr index_example1 h (entry_address e))) (tag_entries 0 index_example1 h))
        else {#}))"
    using split_chunk_lookup [OF index_example1_wf wf sz(1), of 0 0 ?loc ?tr] s unfolding c sz(3) by simp_all
  have e: "tag_entries 0 index_example1 5 = {#entry_new 64 (tag_from_hash 5) False#}" by (rule index_example1_tag)
  have a: "entry_address (entry_new 64 (tag_from_hash 5) False) = 64" by code_simp
  obtain c0 c1 where "lookup_candidates_by_hash ?new 5 = Some c0" "lookup_candidates_by_hash new' 5 = Some c1"
    "mset (cand_iter c1) = mset (cand_iter c0) + {#64#}"
    using spec [OF l [unfolded lookups_change_def], of 5] e a o by (auto simp: split_reach_def)
  moreover have "map_option cand_iter (lookup_candidates_by_hash ?new 5) = Some []" by code_simp
  ultimately show ?thesis using s w by auto
qed

end
