(* ===== verification/TxnLocks.thy ===== *)
theory TxnLocks
  imports IndexProps "HOL-Library.Product_Lexorder"
begin

text \<open>
  The key locks of a transaction (\<open>wtxn/src/txn_key_entry.rs\<close>, \<open>txn_key_entry_comparison.rs\<close>,
  \<open>txn_keys_buffer.rs\<close>): the keys are sorted by bucket and merged into a plan, the latches of the plan
  are taken in ascending order, and a failure gives back what was taken. The latches are those of the
  hash index. A transaction pins one version of the index; the versions live in a store addressed by
  number, and the lock table names the current one.

  The operations here run without interference; \<open>TxnSystem\<close> interleaves them. The unstable sort of the
  source is a stable one: entries that compare equal differ at most in the routing hash, which no plan
  reads.
\<close>

section \<open>Keys\<close>

datatype LockType = Exclusive | Shared

primrec lock_rank :: "LockType \<Rightarrow> nat" where
  "lock_rank Exclusive = 1"
| "lock_rank Shared = 2"

instantiation LockType :: linorder
begin

definition less_eq_LockType :: "LockType \<Rightarrow> LockType \<Rightarrow> bool" where
  "less_eq_LockType a b \<longleftrightarrow> lock_rank a \<le> lock_rank b"

definition less_LockType :: "LockType \<Rightarrow> LockType \<Rightarrow> bool" where
  "less_LockType a b \<longleftrightarrow> lock_rank a < lock_rank b"

instance
proof
  fix a b :: LockType
  show "a \<le> b \<Longrightarrow> b \<le> a \<Longrightarrow> a = b" by (cases a; cases b) (simp_all add: less_eq_LockType_def)
qed (auto simp: less_eq_LockType_def less_LockType_def)

end

text \<open>The hashes are 64-bit words; the key hash compares as a signed number.\<close>

record TxnKeyEntry =
  key_hash :: u64
  routing_hash :: u64
  lock_type :: LockType

definition txn_key_entry_new :: "u64 \<Rightarrow> u64 \<Rightarrow> LockType \<Rightarrow> TxnKeyEntry" where
  "txn_key_entry_new h r t = \<lparr>key_hash = h, routing_hash = r, lock_type = t\<rparr>"

datatype ordering = OLess | OEqual | OGreater

definition ord_cmp :: "'a::linorder \<Rightarrow> 'a \<Rightarrow> ordering" where
  "ord_cmp a b = (if a < b then OLess else if a = b then OEqual else OGreater)"

definition then_with :: "ordering \<Rightarrow> ordering \<Rightarrow> ordering" where
  "then_with o1 o2 = (if o1 = OEqual then o2 else o1)"

definition txn_compare :: "HashIndex \<Rightarrow> TxnKeyEntry \<Rightarrow> TxnKeyEntry \<Rightarrow> ordering" where
  "txn_compare index key1 key2 =
     then_with (then_with
       (ord_cmp (bucket_index_for_hash index (key_hash key1)) (bucket_index_for_hash index (key_hash key2)))
       (ord_cmp (sint (key_hash key1)) (sint (key_hash key2))))
       (ord_cmp (lock_type key1) (lock_type key2))"

definition sort_fields :: "HashIndex \<Rightarrow> TxnKeyEntry \<Rightarrow> nat \<times> int \<times> LockType" where
  "sort_fields index e = (bucket_index_for_hash index (key_hash e), sint (key_hash e), lock_type e)"

text \<open>The comparison is the lexicographic order of these fields.\<close>

lemma txn_compare_fields: "txn_compare index a b = ord_cmp (sort_fields index a) (sort_fields index b)"
  by (auto simp: txn_compare_def then_with_def ord_cmp_def sort_fields_def)

section \<open>The buffer of queued keys\<close>

record TxnKeysBuffer =
  tk_bytes :: bytes
  tk_offsets :: "u32 list"
  tk_lock_types :: "LockType list"

definition keys_new :: TxnKeysBuffer where
  "keys_new = \<lparr>tk_bytes = [], tk_offsets = [], tk_lock_types = []\<rparr>"

definition keys_is_empty :: "TxnKeysBuffer \<Rightarrow> bool" where
  "keys_is_empty b \<longleftrightarrow> tk_offsets b = []"

definition keys_push :: "TxnKeysBuffer \<Rightarrow> bytes \<Rightarrow> LockType \<Rightarrow> TxnKeysBuffer" where
  "keys_push b key t =
     (let bs = tk_bytes b @ key
      in \<lparr>tk_bytes = bs, tk_offsets = tk_offsets b @ [of_nat (length bs)], tk_lock_types = tk_lock_types b @ [t]\<rparr>)"

definition keys_clear :: "TxnKeysBuffer \<Rightarrow> TxnKeysBuffer" where
  "keys_clear b = b\<lparr>tk_bytes := [], tk_offsets := [], tk_lock_types := []\<rparr>"

definition keys_is_read_only :: "TxnKeysBuffer \<Rightarrow> bool" where
  "keys_is_read_only b \<longleftrightarrow> Exclusive \<notin> set (tk_lock_types b)"

text \<open>The iterator cuts the buffer at the offsets; a cut outside the buffer would read foreign memory.\<close>

fun keys_iter :: "bytes \<Rightarrow> nat \<Rightarrow> u32 list \<Rightarrow> bytes list option" where
  "keys_iter bs prev [] = Some []"
| "keys_iter bs prev (end_off # offs) =
     (let e = unat end_off
      in if prev \<le> e \<and> e \<le> length bs
         then map_option (Cons (take (e - prev) (drop prev bs))) (keys_iter bs e offs)
         else None)"

definition keys_iter_with_lock :: "TxnKeysBuffer \<Rightarrow> (bytes \<times> LockType) list option" where
  "keys_iter_with_lock b = map_option (\<lambda>ks. zip ks (tk_lock_types b)) (keys_iter (tk_bytes b) 0 (tk_offsets b))"

section \<open>The lock plan\<close>

record LockPlanSlot =
  lps_bucket :: nat
  lps_exclusive :: bool

definition push_slot :: "LockPlanSlot list \<Rightarrow> LockPlanSlot \<Rightarrow> LockPlanSlot list" where
  "push_slot plan slot =
     (if plan \<noteq> [] \<and> lps_bucket (last plan) = lps_bucket slot
      then butlast plan @ [(last plan)\<lparr>lps_exclusive := lps_exclusive (last plan) \<or> lps_exclusive slot\<rparr>]
      else plan @ [slot])"

definition entry_slot :: "HashIndex \<Rightarrow> TxnKeyEntry \<Rightarrow> LockPlanSlot" where
  "entry_slot index e =
     \<lparr>lps_bucket = bucket_index_for_hash index (key_hash e), lps_exclusive = (lock_type e = Exclusive)\<rparr>"

definition lock_plan :: "HashIndex \<Rightarrow> TxnKeyEntry list \<Rightarrow> TxnKeyEntry list \<times> LockPlanSlot list" where
  "lock_plan index keys =
     (if keys = [] then (keys, [])
      else let sorted_keys = sort_key (sort_fields index) keys
           in (sorted_keys, fold (\<lambda>e plan. push_slot plan (entry_slot index e)) sorted_keys []))"

section \<open>Taking and giving back latches\<close>

definition bucket_try_lock :: "HashIndex \<Rightarrow> LockPlanSlot \<Rightarrow> (bool \<times> HashIndex) option" where
  "bucket_try_lock index slot =
     (let r = get_bucket index (lps_bucket slot)
      in if lps_exclusive slot then lock_exclusive_guard index r else lock_shared_guard index r)"

definition bucket_unlock :: "HashIndex \<Rightarrow> LockPlanSlot \<Rightarrow> HashIndex option" where
  "bucket_unlock index slot =
     (let r = get_bucket index (lps_bucket slot)
      in if lps_exclusive slot then drop_exclusive_guard index r else drop_shared_guard index r)"

fun release_slots :: "HashIndex \<Rightarrow> LockPlanSlot list \<Rightarrow> HashIndex option" where
  "release_slots index [] = Some index"
| "release_slots index (slot # slots) =
     (case bucket_unlock index slot of None \<Rightarrow> None | Some index' \<Rightarrow> release_slots index' slots)"

text \<open>The slots taken so far are given back in reverse order when one fails.\<close>

fun acquire_slots ::
  "HashIndex \<Rightarrow> LockPlanSlot list \<Rightarrow> LockPlanSlot list \<Rightarrow> (bool \<times> LockPlanSlot list \<times> HashIndex) option" where
  "acquire_slots index held [] = Some (True, held, index)"
| "acquire_slots index held (slot # plan) =
     (case bucket_try_lock index slot of
        None \<Rightarrow> None
      | Some (taken, index1) \<Rightarrow>
          if taken then acquire_slots index1 (held @ [slot]) plan
          else case release_slots index1 (rev held) of
            None \<Rightarrow> None
          | Some index2 \<Rightarrow> Some (False, [], index2))"

section \<open>The lock set of a transaction\<close>

text \<open>The versions of the index, and the current one.\<close>

record LockWorld =
  lw_index :: "nat \<Rightarrow> HashIndex"
  lw_current :: nat

record TxnKeyEntries =
  te_keys :: "TxnKeyEntry list"
  te_locked :: bool
  te_held :: "LockPlanSlot list"
  te_latch :: "nat option"
  te_plan :: "LockPlanSlot list option"

definition entries_new :: TxnKeyEntries where
  "entries_new = \<lparr>te_keys = [], te_locked = False, te_held = [], te_latch = None, te_plan = None\<rparr>"

definition te_is_read_only :: "TxnKeyEntries \<Rightarrow> bool" where
  "te_is_read_only te \<longleftrightarrow> (\<forall>k \<in> set (te_keys te). lock_type k \<noteq> Exclusive)"

definition te_count :: "TxnKeyEntries \<Rightarrow> nat" where
  "te_count te = length (te_keys te)"

definition routing_hashes :: "TxnKeyEntries \<Rightarrow> u64 list" where
  "routing_hashes te = map routing_hash (te_keys te)"

definition add_key :: "TxnKeyEntries \<Rightarrow> u64 \<Rightarrow> u64 \<Rightarrow> LockType \<Rightarrow> TxnKeyEntries" where
  "add_key te h r t = te\<lparr>te_keys := te_keys te @ [txn_key_entry_new h r t]\<rparr>"

definition put_index :: "LockWorld \<Rightarrow> nat \<Rightarrow> HashIndex \<Rightarrow> LockWorld" where
  "put_index w v index = w\<lparr>lw_index := (lw_index w)(v := index)\<rparr>"

definition release_held :: "TxnKeyEntries \<Rightarrow> LockWorld \<Rightarrow> (TxnKeyEntries \<times> LockWorld) option" where
  "release_held te w =
     (case te_latch te of
        None \<Rightarrow> Some (te\<lparr>te_held := []\<rparr>, w)
      | Some v \<Rightarrow>
          map_option (\<lambda>index. (te\<lparr>te_held := []\<rparr>, put_index w v index))
            (release_slots (lw_index w v) (rev (te_held te))))"

text \<open>Without a pinned index the source panics.\<close>

definition acquire_plan ::
  "TxnKeyEntries \<Rightarrow> LockPlanSlot list \<Rightarrow> LockWorld \<Rightarrow> (bool \<times> TxnKeyEntries \<times> LockWorld) option" where
  "acquire_plan te plan w =
     (case te_latch te of
        None \<Rightarrow> None
      | Some v \<Rightarrow>
          map_option (\<lambda>(ok, held, index). (ok, te\<lparr>te_held := held\<rparr>, put_index w v index))
            (acquire_slots (lw_index w v) [] plan))"

definition ensure_plan :: "TxnKeyEntries \<Rightarrow> LockWorld \<Rightarrow> TxnKeyEntries" where
  "ensure_plan te w =
     (if te_plan te \<noteq> None then te
      else let v = lw_current w;
               (keys, plan) = lock_plan (lw_index w v) (te_keys te);
               te1 = te\<lparr>te_keys := keys\<rparr>;
               te2 = (if plan \<noteq> [] then te1\<lparr>te_latch := Some v\<rparr> else te1)
           in te2\<lparr>te_plan := Some plan\<rparr>)"

definition try_lock_all_keys_once ::
  "TxnKeyEntries \<Rightarrow> LockWorld \<Rightarrow> (bool \<times> TxnKeyEntries \<times> LockWorld) option" where
  "try_lock_all_keys_once te0 w =
     (let te = ensure_plan te0 w;
          plan = te_plan te;
          nonempty = (case plan of Some (_ # _) \<Rightarrow> True | _ \<Rightarrow> False)
      in case (if nonempty then acquire_plan te (the plan) w else Some (True, te, w)) of
           None \<Rightarrow> None
         | Some (acquired, te1, w1) \<Rightarrow>
             Some (acquired, if acquired \<and> nonempty then te1\<lparr>te_locked := True\<rparr> else te1, w1))"

text \<open>The retry loops. Between two attempts other threads change the world: the argument \<open>env\<close>.\<close>

partial_function (option) lock_all_keys ::
  "(nat \<Rightarrow> LockWorld \<Rightarrow> LockWorld) \<Rightarrow> nat \<Rightarrow> TxnKeyEntries \<Rightarrow> LockWorld \<Rightarrow> (TxnKeyEntries \<times> LockWorld) option" where
  "lock_all_keys env n te w =
     (case try_lock_all_keys_once te w of
        None \<Rightarrow> None
      | Some (ok, te', w') \<Rightarrow>
          if ok then Some (te', w') else lock_all_keys env (n + 1) te' (env n w'))"

text \<open>The clock: whether the timeout has passed when it is read after the \<open>n\<close>-th attempt.\<close>

partial_function (option) try_lock_all_keys ::
  "(nat \<Rightarrow> LockWorld \<Rightarrow> LockWorld) \<Rightarrow> (nat \<Rightarrow> bool) \<Rightarrow> nat \<Rightarrow> TxnKeyEntries \<Rightarrow> LockWorld \<Rightarrow>
     (bool \<times> TxnKeyEntries \<times> LockWorld) option" where
  "try_lock_all_keys env elapsed n te w =
     (case try_lock_all_keys_once te w of
        None \<Rightarrow> None
      | Some (ok, te', w') \<Rightarrow>
          if ok then Some (True, te', w')
          else if elapsed n then Some (False, te'\<lparr>te_latch := None, te_plan := None, te_locked := False\<rparr>, w')
          else try_lock_all_keys env elapsed (n + 1) te' (env n w'))"

declare lock_all_keys.simps [code] try_lock_all_keys.simps [code]

definition unlock_all_keys :: "TxnKeyEntries \<Rightarrow> LockWorld \<Rightarrow> (TxnKeyEntries \<times> LockWorld) option" where
  "unlock_all_keys te w =
     map_option (\<lambda>(te1, w1).
         (te1\<lparr>te_held := [], te_keys := [], te_latch := None, te_plan := None, te_locked := False\<rparr>, w1))
       (if te_locked te then release_held te w else Some (te, w))"

section \<open>Covering and adding keys\<close>

text \<open>
  The binary search of the source. The held slots are strictly ascending by bucket, where it finds the
  slot of the bucket if there is one.
\<close>

fun held_search :: "LockPlanSlot list \<Rightarrow> nat \<Rightarrow> nat option" where
  "held_search [] b = None"
| "held_search (slot # held) b = (if lps_bucket slot = b then Some 0 else map_option Suc (held_search held b))"

definition covers_user_keys ::
  "(bytes \<Rightarrow> bytes \<Rightarrow> u64) \<Rightarrow> TxnKeyEntries \<Rightarrow> LockWorld \<Rightarrow> bytes \<Rightarrow> bytes list \<Rightarrow> bool \<Rightarrow> bool" where
  "covers_user_keys scoped_hash te w prefix keys require_exclusive =
     (if keys = [] then True
      else case te_latch te of
        None \<Rightarrow> False
      | Some v \<Rightarrow>
          list_all (\<lambda>key.
            case held_search (te_held te) (bucket_index_for_hash (lw_index w v) (scoped_hash prefix key)) of
              Some pos \<Rightarrow> \<not> require_exclusive \<or> lps_exclusive (te_held te ! pos)
            | None \<Rightarrow> False) keys)"

definition held_bucket_exclusive :: "TxnKeyEntries \<Rightarrow> nat \<Rightarrow> bool option" where
  "held_bucket_exclusive te b = map_option (\<lambda>i. lps_exclusive (te_held te ! i)) (held_search (te_held te) b)"

datatype IncrementalStep = IAcquire LockPlanSlot | IUpgrade nat nat

definition shared_slot :: "nat \<Rightarrow> LockPlanSlot" where
  "shared_slot b = \<lparr>lps_bucket = b, lps_exclusive = False\<rparr>"

definition exclusive_slot :: "nat \<Rightarrow> LockPlanSlot" where
  "exclusive_slot b = \<lparr>lps_bucket = b, lps_exclusive = True\<rparr>"

definition merge_slots :: "LockPlanSlot list \<Rightarrow> LockPlanSlot list" where
  "merge_slots plan = fold (\<lambda>slot merged. push_slot merged slot) (sort_key lps_bucket plan) []"

definition incremental_step :: "LockPlanSlot list \<Rightarrow> LockPlanSlot \<Rightarrow> IncrementalStep list" where
  "incremental_step held slot =
     (case held_search held (lps_bucket slot) of
        Some held_pos \<Rightarrow>
          if lps_exclusive slot \<and> \<not> lps_exclusive (held ! held_pos)
          then [IUpgrade (lps_bucket slot) held_pos] else []
      | None \<Rightarrow> [IAcquire slot])"

definition incremental_steps :: "LockPlanSlot list \<Rightarrow> LockPlanSlot list \<Rightarrow> IncrementalStep list" where
  "incremental_steps held merged = concat (map (incremental_step held) merged)"

fun step_take :: "HashIndex \<Rightarrow> IncrementalStep \<Rightarrow> (bool \<times> HashIndex) option" where
  "step_take index (IAcquire slot) = bucket_try_lock index slot"
| "step_take index (IUpgrade b _) =
     (case bucket_unlock index (shared_slot b) of
        None \<Rightarrow> None
      | Some index1 \<Rightarrow> bucket_try_lock index1 (exclusive_slot b))"

text \<open>Taking a shared latch back; a bucket where that fails is lost.\<close>

definition retake_shared :: "HashIndex \<Rightarrow> nat \<Rightarrow> nat list \<Rightarrow> (nat list \<times> HashIndex) option" where
  "retake_shared index b lost =
     (case bucket_try_lock index (shared_slot b) of
        None \<Rightarrow> None
      | Some (ok, index1) \<Rightarrow> Some (if ok then lost else lost @ [b], index1))"

fun step_failed :: "HashIndex \<Rightarrow> IncrementalStep \<Rightarrow> (nat list \<times> HashIndex) option" where
  "step_failed index (IAcquire _) = Some ([], index)"
| "step_failed index (IUpgrade b _) = retake_shared index b []"

fun undo_steps :: "HashIndex \<Rightarrow> IncrementalStep list \<Rightarrow> nat list \<Rightarrow> (nat list \<times> HashIndex) option" where
  "undo_steps index [] lost = Some (lost, index)"
| "undo_steps index (IAcquire slot # steps) lost =
     (case bucket_unlock index slot of
        None \<Rightarrow> None
      | Some index1 \<Rightarrow> undo_steps index1 steps lost)"
| "undo_steps index (IUpgrade b _ # steps) lost =
     (case bucket_unlock index (exclusive_slot b) of
        None \<Rightarrow> None
      | Some index1 \<Rightarrow>
          case retake_shared index1 b lost of
            None \<Rightarrow> None
          | Some (lost', index2) \<Rightarrow> undo_steps index2 steps lost')"

text \<open>\<open>None\<close> inside the pair is success; otherwise the buckets that were lost. Completed steps are kept latest first.\<close>

fun run_steps ::
  "HashIndex \<Rightarrow> IncrementalStep list \<Rightarrow> IncrementalStep list \<Rightarrow> (nat list option \<times> HashIndex) option" where
  "run_steps index completed [] = Some (None, index)"
| "run_steps index completed (step # steps) =
     (case step_take index step of
        None \<Rightarrow> None
      | Some (taken, index1) \<Rightarrow>
          if taken then run_steps index1 (step # completed) steps
          else case step_failed index1 step of
            None \<Rightarrow> None
          | Some (lost, index2) \<Rightarrow>
              map_option (\<lambda>(lost', index3). (Some lost', index3)) (undo_steps index2 completed lost))"

definition drop_bucket :: "nat \<Rightarrow> LockPlanSlot list \<Rightarrow> LockPlanSlot list" where
  "drop_bucket b held =
     (case held_search held b of
        Some pos \<Rightarrow> take pos held @ drop (Suc pos) held
      | None \<Rightarrow> held)"

fun commit_step :: "IncrementalStep \<Rightarrow> LockPlanSlot list \<Rightarrow> LockPlanSlot list" where
  "commit_step (IAcquire slot) held = held @ [slot]"
| "commit_step (IUpgrade _ held_pos) held = held[held_pos := (held ! held_pos)\<lparr>lps_exclusive := True\<rparr>]"

definition try_lock_incremental_entries ::
  "TxnKeyEntries \<Rightarrow> TxnKeyEntry list \<Rightarrow> LockWorld \<Rightarrow> (bool \<times> TxnKeyEntries \<times> LockWorld) option" where
  "try_lock_incremental_entries te new_entries w =
     (if new_entries = [] then Some (True, te, w)
      else
        let v = (case te_latch te of Some v \<Rightarrow> v | None \<Rightarrow> lw_current w);
            te = te\<lparr>te_latch := Some v\<rparr>;
            index = lw_index w v;
            merged = merge_slots (map (entry_slot index) new_entries);
            steps = incremental_steps (te_held te) merged
        in if steps = [] then Some (True, te\<lparr>te_keys := te_keys te @ new_entries, te_plan := None\<rparr>, w)
           else case run_steps index [] steps of
             None \<Rightarrow> None
           | Some (Some lost, index1) \<Rightarrow>
               Some (False, te\<lparr>te_held := fold drop_bucket lost (te_held te)\<rparr>, put_index w v index1)
           | Some (None, index1) \<Rightarrow>
               Some (True,
                 te\<lparr>te_held := sort_key lps_bucket (fold commit_step steps (te_held te)),
                    te_keys := te_keys te @ new_entries, te_plan := None, te_locked := True\<rparr>,
                 put_index w v index1))"

end
