(* ===== verification/TxnLocksCorrect.thy ===== *)
theory TxnLocksCorrect
  imports TxnLocks
begin

text \<open>
  Correctness of the key locks run by one transaction at a time: the plan is strictly ascending and
  takes the strongest lock of each bucket, an attempt takes all latches or none, and the index entries
  are never touched. The latches are used through the interface \<open>latch_bank\<close>.
\<close>

section \<open>The plan\<close>

definition merges :: "LockPlanSlot list \<Rightarrow> LockPlanSlot list \<Rightarrow> bool" where
  "merges xs plan \<longleftrightarrow>
     sorted_wrt (<) (map lps_bucket plan) \<and> lps_bucket ` set plan = lps_bucket ` set xs \<and>
     (\<forall>slot \<in> set plan. lps_exclusive slot \<longleftrightarrow> (\<exists>x \<in> set xs. lps_bucket x = lps_bucket slot \<and> lps_exclusive x))"

lemma mergesI:
  assumes "sorted_wrt (<) (map lps_bucket plan)" "lps_bucket ` set plan = lps_bucket ` set xs"
    and "\<And>slot. slot \<in> set plan \<Longrightarrow>
      lps_exclusive slot \<longleftrightarrow> (\<exists>x \<in> set xs. lps_bucket x = lps_bucket slot \<and> lps_exclusive x)"
  shows "merges xs plan"
  using assms by (simp add: merges_def)

lemma merges_bucket: "merges xs plan \<Longrightarrow> slot \<in> set plan \<Longrightarrow> \<exists>x \<in> set xs. lps_bucket x = lps_bucket slot"
  unfolding merges_def by (metis image_iff)

lemma merges_new:
  assumes "merges xs plan" "\<forall>y \<in> set xs. lps_bucket y < lps_bucket x"
  shows "merges (xs @ [x]) (plan @ [x])"
proof (rule mergesI)
  have lt: "lps_bucket s < lps_bucket x" if "s \<in> set plan" for s
    using merges_bucket [OF assms(1) that] assms(2) by force
  then show "sorted_wrt (<) (map lps_bucket (plan @ [x]))"
    using assms by (simp add: merges_def sorted_wrt_append)
  show "lps_bucket ` set (plan @ [x]) = lps_bucket ` set (xs @ [x])" using assms(1) by (simp add: merges_def)
  fix s assume s: "s \<in> set (plan @ [x])"
  show "lps_exclusive s \<longleftrightarrow> (\<exists>y \<in> set (xs @ [x]). lps_bucket y = lps_bucket s \<and> lps_exclusive y)"
  proof (cases "s \<in> set plan")
    case True
    then have "lps_exclusive s \<longleftrightarrow> (\<exists>y \<in> set xs. lps_bucket y = lps_bucket s \<and> lps_exclusive y)"
      using assms(1) by (simp add: merges_def)
    then show ?thesis using lt [OF True] by auto
  next
    case False
    then show ?thesis using s assms(2) by auto
  qed
qed

lemma merges_same:
  assumes "merges xs (q @ [l])" "lps_bucket l = lps_bucket x"
  shows "merges (xs @ [x]) (q @ [l\<lparr>lps_exclusive := lps_exclusive l \<or> lps_exclusive x\<rparr>])"
proof (rule mergesI)
  have srt: "sorted_wrt (<) (map lps_bucket q)" "\<forall>y \<in> set q. lps_bucket y < lps_bucket l"
    using assms(1) by (auto simp: merges_def sorted_wrt_append)
  then show "sorted_wrt (<) (map lps_bucket (q @ [l\<lparr>lps_exclusive := lps_exclusive l \<or> lps_exclusive x\<rparr>]))"
    by (simp add: sorted_wrt_append)
  have im: "insert (lps_bucket l) (lps_bucket ` set q) = lps_bucket ` set xs" using assms(1) by (simp add: merges_def)
  then have "lps_bucket l \<in> lps_bucket ` set xs" by blast
  then show "lps_bucket ` set (q @ [l\<lparr>lps_exclusive := lps_exclusive l \<or> lps_exclusive x\<rparr>]) = lps_bucket ` set (xs @ [x])"
    using im assms(2) by (simp add: insert_absorb)
  fix s assume s: "s \<in> set (q @ [l\<lparr>lps_exclusive := lps_exclusive l \<or> lps_exclusive x\<rparr>])"
  have ex: "lps_exclusive s' \<longleftrightarrow> (\<exists>y \<in> set xs. lps_bucket y = lps_bucket s' \<and> lps_exclusive y)" if "s' \<in> set (q @ [l])" for s'
    using assms(1) that unfolding merges_def by blast
  show "lps_exclusive s \<longleftrightarrow> (\<exists>y \<in> set (xs @ [x]). lps_bucket y = lps_bucket s \<and> lps_exclusive y)"
  proof (cases "s \<in> set q")
    case True
    then have "lps_bucket s \<noteq> lps_bucket x" using srt(2) assms(2) by force
    then show ?thesis using ex [of s] True by auto
  next
    case False
    then have "s = l\<lparr>lps_exclusive := lps_exclusive l \<or> lps_exclusive x\<rparr>" using s by simp
    then show ?thesis using ex [of l] assms(2) by auto
  qed
qed

lemma merge_fold:
  "sorted (map lps_bucket xs) \<Longrightarrow> merges xs (fold (\<lambda>slot plan. push_slot plan slot) xs [])"
proof (induction xs rule: rev_induct)
  case (snoc x xs)
  let ?p = "fold (\<lambda>slot plan. push_slot plan slot) xs []"
  have s: "sorted (map lps_bucket xs)" and le: "\<forall>y \<in> set xs. lps_bucket y \<le> lps_bucket x"
    using snoc.prems by (auto simp: sorted_append)
  note ih = snoc.IH [OF s]
  show ?case
  proof (cases "?p \<noteq> [] \<and> lps_bucket (last ?p) = lps_bucket x")
    case True
    then have "merges xs (butlast ?p @ [last ?p])" using ih by simp
    from merges_same [OF this, of x] show ?thesis using True by (simp add: push_slot_def)
  next
    case False
    have "lps_bucket y < lps_bucket x" if y: "y \<in> set xs" for y
    proof -
      obtain t where t: "t \<in> set ?p" "lps_bucket t = lps_bucket y" using ih y unfolding merges_def by (metis image_iff)
      then obtain q l where p: "?p = q @ [l]" by (metis append_butlast_last_id empty_iff empty_set)
      have "lps_bucket l \<noteq> lps_bucket x" using False p by simp
      moreover have "lps_bucket l \<le> lps_bucket x" using merges_bucket [OF ih, of l] p le by force
      moreover have "lps_bucket t \<le> lps_bucket l" using t(1) p ih by (auto simp: merges_def sorted_wrt_append)
      ultimately show ?thesis using t(2) by simp
    qed
    then show ?thesis using merges_new [OF ih] False by (auto simp: push_slot_def)
  qed
qed (simp add: merges_def)

lemma merge_slots_merges: "merges xs (merge_slots xs)"
proof -
  have "merges (sort_key lps_bucket xs) (merge_slots xs)"
    using merge_fold [of "sort_key lps_bucket xs"] by (simp add: merge_slots_def)
  then show ?thesis by (simp add: merges_def)
qed

lemma sorted_fields_bucket:
  "sorted (map (sort_fields index) es) \<Longrightarrow> sorted (map (\<lambda>e. bucket_index_for_hash index (key_hash e)) es)"
  unfolding sorted_wrt_map by (erule sorted_wrt_mono_rel [rotated]) (auto simp: sort_fields_def)

lemma lock_plan_merges:
  "mset (fst (lock_plan index keys)) = mset keys" "merges (map (entry_slot index) keys) (snd (lock_plan index keys))"
proof -
  let ?ks = "sort_key (sort_fields index) keys"
  have "sorted (map lps_bucket (map (entry_slot index) ?ks))"
    using sorted_fields_bucket [of index ?ks] by (simp add: comp_def entry_slot_def)
  then have "merges (map (entry_slot index) ?ks) (fold (\<lambda>slot plan. push_slot plan slot) (map (entry_slot index) ?ks) [])"
    using merge_fold by blast
  then have "merges (map (entry_slot index) keys) (fold (\<lambda>e plan. push_slot plan (entry_slot index e)) ?ks [])"
    by (simp add: merges_def fold_map comp_def)
  then show "merges (map (entry_slot index) keys) (snd (lock_plan index keys))"
    by (cases "keys = []") (simp_all add: lock_plan_def Let_def merges_def)
  show "mset (fst (lock_plan index keys)) = mset keys" by (simp add: lock_plan_def Let_def)
qed

section \<open>The latches of an index\<close>

definition latch_word :: "HashIndex \<Rightarrow> nat \<Rightarrow> u64" where
  "latch_word ix b = bucket_latch_word (hb_mem (buckets ix) ! b)"

definition latch_tab :: "HashIndex \<Rightarrow> nat \<Rightarrow> latch" where
  "latch_tab ix b = latch_of (latch_word ix b)"

definition slot_free :: "latch \<Rightarrow> bool \<Rightarrow> bool" where
  "slot_free l exclusive \<longleftrightarrow>
     (if exclusive then \<not> l_handoff l \<and> \<not> l_excl l \<and> l_readers l = 0 else \<not> l_excl l \<and> l_readers l < 8191)"

definition slot_taken :: "latch \<Rightarrow> bool \<Rightarrow> latch" where
  "slot_taken l exclusive = (if exclusive then l\<lparr>l_excl := True\<rparr> else l\<lparr>l_readers := l_readers l + 1\<rparr>)"

definition slot_held :: "latch \<Rightarrow> bool \<Rightarrow> bool" where
  "slot_held l exclusive \<longleftrightarrow> (if exclusive then l_excl l else 0 < l_readers l)"

definition slot_given :: "latch \<Rightarrow> bool \<Rightarrow> latch" where
  "slot_given l exclusive =
     (if exclusive then l\<lparr>l_excl := False, l_notify := True\<rparr> else l\<lparr>l_readers := l_readers l - 1\<rparr>)"

definition latch_same :: "latch \<Rightarrow> latch \<Rightarrow> bool" where
  "latch_same l l' \<longleftrightarrow> l\<lparr>l_notify := False\<rparr> = l'\<lparr>l_notify := False\<rparr>"

text \<open>
  What the lock set relies on: a latch is taken exactly when it is free, taking and giving back change
  that latch only, and the rest of the index is kept.
\<close>

locale latch_bank =
  fixes wf :: "'ix \<Rightarrow> bool"
    and len :: "'ix \<Rightarrow> nat"
    and tab :: "'ix \<Rightarrow> nat \<Rightarrow> latch"
    and same :: "'ix \<Rightarrow> 'ix \<Rightarrow> bool"
    and try_lock :: "'ix \<Rightarrow> LockPlanSlot \<Rightarrow> (bool \<times> 'ix) option"
    and unlock :: "'ix \<Rightarrow> LockPlanSlot \<Rightarrow> 'ix option"
  assumes same_refl: "same ix ix"
    and same_trans: "same ix ix1 \<Longrightarrow> same ix1 ix2 \<Longrightarrow> same ix ix2"
    and same_len: "same ix ix' \<Longrightarrow> len ix' = len ix"
    and try_lock_law: "wf ix \<Longrightarrow> lps_bucket slot < len ix \<Longrightarrow>
      \<exists>ix'. try_lock ix slot = Some (slot_free (tab ix (lps_bucket slot)) (lps_exclusive slot), ix') \<and>
        wf ix' \<and> same ix ix' \<and>
        (\<forall>b < len ix. tab ix' b =
          (if b = lps_bucket slot \<and> slot_free (tab ix b) (lps_exclusive slot)
           then slot_taken (tab ix b) (lps_exclusive slot) else tab ix b))"
    and unlock_law: "wf ix \<Longrightarrow> lps_bucket slot < len ix \<Longrightarrow>
      slot_held (tab ix (lps_bucket slot)) (lps_exclusive slot) \<Longrightarrow>
      \<exists>ix'. unlock ix slot = Some ix' \<and> wf ix' \<and> same ix ix' \<and>
        (\<forall>b < len ix. tab ix' b =
          (if b = lps_bucket slot then slot_given (tab ix b) (lps_exclusive slot) else tab ix b))"

text \<open>Giving back a list of slots, and taking a plan all or nothing.\<close>

context latch_bank
begin

fun give_all :: "'ix \<Rightarrow> LockPlanSlot list \<Rightarrow> 'ix option" where
  "give_all ix [] = Some ix"
| "give_all ix (slot # slots) = (case unlock ix slot of None \<Rightarrow> None | Some ix' \<Rightarrow> give_all ix' slots)"

fun take_all :: "'ix \<Rightarrow> LockPlanSlot list \<Rightarrow> LockPlanSlot list \<Rightarrow> (bool \<times> LockPlanSlot list \<times> 'ix) option" where
  "take_all ix held [] = Some (True, held, ix)"
| "take_all ix held (slot # plan) =
     (case try_lock ix slot of
        None \<Rightarrow> None
      | Some (taken, ix1) \<Rightarrow>
          if taken then take_all ix1 (held @ [slot]) plan
          else case give_all ix1 (rev held) of None \<Rightarrow> None | Some ix2 \<Rightarrow> Some (False, [], ix2))"

definition in_range :: "'ix \<Rightarrow> LockPlanSlot list \<Rightarrow> bool" where
  "in_range ix slots \<longleftrightarrow> distinct (map lps_bucket slots) \<and> (\<forall>slot \<in> set slots. lps_bucket slot < len ix)"

lemma give_all_correct:
  "wf ix \<Longrightarrow> in_range ix slots \<Longrightarrow> (\<And>slot. slot \<in> set slots \<Longrightarrow> slot_held (tab ix (lps_bucket slot)) (lps_exclusive slot)) \<Longrightarrow>
   \<exists>ix'. give_all ix slots = Some ix' \<and> wf ix' \<and> same ix ix' \<and>
     (\<forall>b < len ix. b \<notin> lps_bucket ` set slots \<longrightarrow> tab ix' b = tab ix b) \<and>
     (\<forall>slot \<in> set slots. tab ix' (lps_bucket slot) = slot_given (tab ix (lps_bucket slot)) (lps_exclusive slot))"
proof (induction slots arbitrary: ix)
  case Nil
  then show ?case by (simp add: same_refl)
next
  case (Cons slot slots)
  obtain ix1 where u: "unlock ix slot = Some ix1" "wf ix1" "same ix ix1"
    "\<forall>b < len ix. tab ix1 b = (if b = lps_bucket slot then slot_given (tab ix b) (lps_exclusive slot) else tab ix b)"
    using unlock_law [of ix slot] Cons.prems by (auto simp: in_range_def)
  have l: "len ix1 = len ix" using same_len [OF u(3)] .
  have d: "lps_bucket slot \<notin> lps_bucket ` set slots" "lps_bucket slot < len ix" using Cons.prems(2) by (auto simp: in_range_def)
  have r: "in_range ix1 slots" "\<And>s. s \<in> set slots \<Longrightarrow> lps_bucket s < len ix" using Cons.prems(2) l by (auto simp: in_range_def)
  have t: "tab ix1 (lps_bucket s) = tab ix (lps_bucket s)" if "s \<in> set slots" for s
  proof -
    have "lps_bucket s \<noteq> lps_bucket slot" using d(1) that by (metis imageI)
    then show ?thesis using u(4) r(2) [OF that] by simp
  qed
  obtain ix' where g: "give_all ix1 slots = Some ix'" "wf ix'" "same ix1 ix'"
    "\<forall>b < len ix1. b \<notin> lps_bucket ` set slots \<longrightarrow> tab ix' b = tab ix1 b"
    "\<forall>s \<in> set slots. tab ix' (lps_bucket s) = slot_given (tab ix1 (lps_bucket s)) (lps_exclusive s)"
    using Cons.IH [OF u(2) r(1)] t Cons.prems(3) by auto
  have "tab ix' (lps_bucket slot) = slot_given (tab ix (lps_bucket slot)) (lps_exclusive slot)"
    using g(4) d l u(4) by simp
  then show ?case using u g t l same_trans [OF u(3) g(3)] by auto
qed

lemma give_taken: "slot_free l x \<Longrightarrow> slot_held (slot_taken l x) x \<and> latch_same (slot_given (slot_taken l x) x) l"
  by (cases x) (simp_all add: slot_free_def slot_held_def slot_taken_def slot_given_def latch_same_def)

lemma take_all_step:
  assumes "wf ix" "in_range ix (held @ plan)"
    and "\<And>slot. slot \<in> set held \<Longrightarrow> slot_free (t0 (lps_bucket slot)) (lps_exclusive slot) \<and>
           tab ix (lps_bucket slot) = slot_taken (t0 (lps_bucket slot)) (lps_exclusive slot)"
    and "\<And>b. b < len ix \<Longrightarrow> b \<notin> lps_bucket ` set held \<Longrightarrow> tab ix b = t0 b"
  shows "\<exists>ok ix'. take_all ix held plan = Some (ok, if ok then held @ plan else [], ix') \<and> wf ix' \<and> same ix ix' \<and>
    ok = (\<forall>slot \<in> set plan. slot_free (t0 (lps_bucket slot)) (lps_exclusive slot)) \<and>
    (if ok
     then (\<forall>slot \<in> set (held @ plan). tab ix' (lps_bucket slot) = slot_taken (t0 (lps_bucket slot)) (lps_exclusive slot)) \<and>
          (\<forall>b < len ix. b \<notin> lps_bucket ` set (held @ plan) \<longrightarrow> tab ix' b = t0 b)
     else \<forall>b < len ix. latch_same (tab ix' b) (t0 b))"
  using assms
proof (induction plan arbitrary: ix held)
  case Nil
  then show ?case by (auto simp: same_refl)
next
  case (Cons slot plan)
  let ?b = "lps_bucket slot" and ?x = "lps_exclusive slot"
  have r: "?b < len ix" "?b \<notin> lps_bucket ` set held" "?b \<notin> lps_bucket ` set plan" "in_range ix held"
    "\<And>s. s \<in> set held \<Longrightarrow> lps_bucket s < len ix"
    using Cons.prems(2) by (auto simp: in_range_def)
  have tb: "tab ix ?b = t0 ?b" using Cons.prems(4) r by blast
  obtain ix1 where t: "try_lock ix slot = Some (slot_free (t0 ?b) ?x, ix1)" "wf ix1" "same ix ix1"
    "\<forall>b < len ix. tab ix1 b = (if b = ?b \<and> slot_free (t0 ?b) ?x then slot_taken (t0 ?b) ?x else tab ix b)"
    using try_lock_law [OF Cons.prems(1) r(1)] tb by auto
  have l: "len ix1 = len ix" using same_len [OF t(3)] .
  have h1: "tab ix1 (lps_bucket s) = slot_taken (t0 (lps_bucket s)) (lps_exclusive s)" if "s \<in> set held" for s
  proof -
    have "lps_bucket s \<noteq> ?b" using r(2) that by (metis imageI)
    then show ?thesis using t(4) r(5) [OF that] Cons.prems(3) [OF that] by simp
  qed
  show ?case
  proof (cases "slot_free (t0 ?b) ?x")
    case True
    have "in_range ix1 ((held @ [slot]) @ plan)" using Cons.prems(2) l by (simp add: in_range_def)
    moreover have "slot_free (t0 (lps_bucket s)) (lps_exclusive s) \<and>
        tab ix1 (lps_bucket s) = slot_taken (t0 (lps_bucket s)) (lps_exclusive s)" if "s \<in> set (held @ [slot])" for s
      using that h1 Cons.prems(3) t(4) r(1) True by auto
    moreover have "tab ix1 b = t0 b" if "b < len ix1" "b \<notin> lps_bucket ` set (held @ [slot])" for b
      using that t(4) l Cons.prems(4) by auto
    ultimately obtain ok ix' where "take_all ix1 (held @ [slot]) plan = Some (ok, if ok then (held @ [slot]) @ plan else [], ix')"
      "wf ix'" "same ix1 ix'" "ok = (\<forall>s \<in> set plan. slot_free (t0 (lps_bucket s)) (lps_exclusive s))"
      "if ok
       then (\<forall>s \<in> set ((held @ [slot]) @ plan). tab ix' (lps_bucket s) = slot_taken (t0 (lps_bucket s)) (lps_exclusive s)) \<and>
            (\<forall>b < len ix1. b \<notin> lps_bucket ` set ((held @ [slot]) @ plan) \<longrightarrow> tab ix' b = t0 b)
       else \<forall>b < len ix1. latch_same (tab ix' b) (t0 b)"
      using Cons.IH [OF t(2)] by blast
    then show ?thesis using t True l same_trans [OF t(3)] by (auto split: if_splits)
  next
    case False
    have "in_range ix1 (rev held)" using r(4) l by (simp add: in_range_def rev_map [symmetric])
    moreover have "slot_held (tab ix1 (lps_bucket s)) (lps_exclusive s)" if "s \<in> set (rev held)" for s
      using that h1 Cons.prems(3) give_taken by simp
    ultimately obtain ix2 where g: "give_all ix1 (rev held) = Some ix2" "wf ix2" "same ix1 ix2"
      "\<forall>b < len ix1. b \<notin> lps_bucket ` set (rev held) \<longrightarrow> tab ix2 b = tab ix1 b"
      "\<forall>s \<in> set (rev held). tab ix2 (lps_bucket s) = slot_given (tab ix1 (lps_bucket s)) (lps_exclusive s)"
      using give_all_correct [OF t(2)] by blast
    have "latch_same (tab ix2 b) (t0 b)" if b: "b < len ix" for b
    proof (cases "b \<in> lps_bucket ` set held")
      case True
      then obtain s where "s \<in> set held" "b = lps_bucket s" by blast
      then show ?thesis using g(5) h1 Cons.prems(3) give_taken by simp
    next
      case nh: False
      then show ?thesis using g(4) b l t(4) False Cons.prems(4) by (simp add: latch_same_def)
    qed
    then show ?thesis using t g False same_trans [OF t(3) g(3)] by auto
  qed
qed

lemma take_all_correct:
  assumes "wf ix" "in_range ix plan"
  shows "\<exists>ok ix'. take_all ix [] plan = Some (ok, if ok then plan else [], ix') \<and> wf ix' \<and> same ix ix' \<and>
    ok = (\<forall>slot \<in> set plan. slot_free (tab ix (lps_bucket slot)) (lps_exclusive slot)) \<and>
    (if ok
     then (\<forall>slot \<in> set plan. tab ix' (lps_bucket slot) = slot_taken (tab ix (lps_bucket slot)) (lps_exclusive slot)) \<and>
          (\<forall>b < len ix. b \<notin> lps_bucket ` set plan \<longrightarrow> tab ix' b = tab ix b)
     else \<forall>b < len ix. latch_same (tab ix' b) (tab ix b))"
  by (rule take_all_step [where held = "[]" and ?t0.0 = "tab ix", unfolded append_Nil]) (use assms in simp_all)

end

lemma word_latch_view:
  "\<not> bit w 63 = (\<not> l_excl (latch_of w))" "readers w = l_readers (latch_of w)" "bit w 61 = l_handoff (latch_of w)"
  "overflow_index w = l_addr (latch_of w)"
  by (simp_all add: latch_of_def)

lemma try_shared_view:
  "fst (try_lock_shared w) = slot_free (latch_of w) False"
  "latch_of (snd (try_lock_shared w)) = (if slot_free (latch_of w) False then slot_taken (latch_of w) False else latch_of w)"
  using readers_less [of w] latch_of_add [of w]
  by (auto simp: try_lock_shared_eq slot_free_def slot_taken_def shared_guard_iff latch_of_def)

lemma try_exclusive_view:
  "fst (try_lock_exclusive w) = slot_free (latch_of w) True"
  "latch_of (snd (try_lock_exclusive w)) = (if slot_free (latch_of w) True then slot_taken (latch_of w) True else latch_of w)"
  using latch_of_flags(1) [of w] by (auto simp: try_lock_exclusive_eq slot_free_def slot_taken_def latch_of_def)

lemma unlock_view:
  "slot_held (latch_of w) False \<Longrightarrow> latch_of (unlock_shared w) = slot_given (latch_of w) False"
  "latch_of (unlock_exclusive w) = slot_given (latch_of w) True"
proof -
  show "slot_held (latch_of w) False \<Longrightarrow> latch_of (unlock_shared w) = slot_given (latch_of w) False"
    using latch_of_sub [of w] by (simp add: slot_held_def slot_given_def unlock_shared_def latch_of_def)
  show "latch_of (unlock_exclusive w) = slot_given (latch_of w) True"
    by (simp add: slot_given_def unlock_exclusive_def latch_of_flags)
qed

lemma keep_addr [simp]:
  "l_addr (slot_taken l x) = l_addr l" "l_addr (slot_given l x) = l_addr l"
  by (simp_all add: slot_taken_def slot_given_def)

text \<open>Writing a latch word with the same link.\<close>

lemma put_latch:
  assumes wf: "index_wf ix" and b: "b < ix_size ix" and w: "l_addr (latch_of w) = l_addr (latch_tab ix b)"
  obtains bk where "load_bucket ix (MainRef b) = Some bk" "bucket_latch_word bk = latch_word ix b"
    "index_wf (store_bucket ix (MainRef b) (set_latch_word bk w))"
    "same_entries ix (store_bucket ix (MainRef b) (set_latch_word bk w))"
    "\<forall>c < ix_size ix. latch_tab (store_bucket ix (MainRef b) (set_latch_word bk w)) c = (if c = b then latch_of w else latch_tab ix c)"
proof -
  obtain ch fs where inv: "index_inv ix ch fs" using wf by (auto simp: index_wf_def)
  note p = index_inv_parts [OF inv]
  let ?bk = "hb_mem (buckets ix) ! b" let ?bk' = "set_latch_word ?bk w" let ?ix = "store_bucket ix (MainRef b) ?bk'"
  have ld: "load_bucket ix (MainRef b) = Some ?bk" using p(1) b by (simp add: table_ok_def buckets_get_unchecked_def)
  have len: "length (hb_mem (buckets ix)) = ix_size ix" using p(1) by (simp add: table_ok_def)
  have ok: "bucket_ok ?bk" using p(1) b nth_mem [of b "hb_mem (buckets ix)"] by (auto simp: table_ok_def)
  have ok': "bucket_ok ?bk'" "data_words ?bk' = data_words ?bk" "bucket_latch_word ?bk' = w"
    using ok by (simp_all add: bucket_ok_def set_latch_word_def data_words_def bucket_latch_word_def bucket_consts)
  have link: "bucket_overflow_index ?bk' = bucket_overflow_index ?bk"
    using w ok'(3) by (simp add: bucket_overflow_index_def bucket_latch_word_def latch_tab_def latch_word_def latch_of_def)
  have own: "ref_owned ix fs (MainRef b)" using b by (simp add: ref_owned_def)
  have "index_wf ?ix" using store_inv [OF inv own ld ok'(1) link] by (auto simp: index_wf_def)
  moreover have r: "MainRef b \<in> set (take MAX_CHAIN_STEPS (refs_of b (ch b)))" by (simp add: MAX_CHAIN_STEPS_def take_Cons')
  have "same_entries ix ?ix"
    using store_entries [OF inv b r ld ok'(1) link] ok'(2) by (auto simp: same_entries_def)
  moreover have "\<forall>c < ix_size ix. latch_tab ?ix c = (if c = b then latch_of w else latch_tab ix c)"
    using b len ok'(3) by (simp add: latch_tab_def latch_word_def)
  ultimately show thesis using that [of ?bk] ld by (simp add: latch_word_def)
qed

lemma get_bucket_small:
  assumes "index_wf ix" "b < ix_size ix"
  shows "get_bucket ix b = MainRef b"
proof -
  obtain k where "ix_size ix = 2 ^ k" "ix_mask ix = 2 ^ k - 1"
    using assms(1) by (auto simp: index_wf_def index_inv_def table_ok_def)
  then have "b AND ix_mask ix = b" using assms(2) by (metis mask_eq_exp_minus_1 take_bit_eq_mask take_bit_nat_eq_self)
  then show ?thesis by (simp add: get_bucket_def)
qed

lemma index_try_lock:
  assumes wf: "index_wf ix" and b: "lps_bucket slot < ix_size ix"
  shows "\<exists>ix'. bucket_try_lock ix slot = Some (slot_free (latch_tab ix (lps_bucket slot)) (lps_exclusive slot), ix') \<and>
    index_wf ix' \<and> same_entries ix ix' \<and>
    (\<forall>c < ix_size ix. latch_tab ix' c =
      (if c = lps_bucket slot \<and> slot_free (latch_tab ix c) (lps_exclusive slot)
       then slot_taken (latch_tab ix c) (lps_exclusive slot) else latch_tab ix c))"
proof -
  let ?b = "lps_bucket slot" and ?x = "lps_exclusive slot"
  define w where "w = snd ((if ?x then try_lock_exclusive else try_lock_shared) (latch_word ix ?b))"
  have w: "latch_of w = (if slot_free (latch_tab ix ?b) ?x then slot_taken (latch_tab ix ?b) ?x else latch_tab ix ?b)"
    and f: "fst ((if ?x then try_lock_exclusive else try_lock_shared) (latch_word ix ?b)) = slot_free (latch_tab ix ?b) ?x"
    using try_shared_view [of "latch_word ix ?b"] try_exclusive_view [of "latch_word ix ?b"]
    by (simp_all add: w_def latch_tab_def)
  have a: "l_addr (latch_of w) = l_addr (latch_tab ix ?b)" using w by simp
  obtain bk where p: "load_bucket ix (MainRef ?b) = Some bk" "bucket_latch_word bk = latch_word ix ?b"
    "index_wf (store_bucket ix (MainRef ?b) (set_latch_word bk w))"
    "same_entries ix (store_bucket ix (MainRef ?b) (set_latch_word bk w))"
    "\<forall>c < ix_size ix. latch_tab (store_bucket ix (MainRef ?b) (set_latch_word bk w)) c = (if c = ?b then latch_of w else latch_tab ix c)"
    by (rule put_latch [OF wf b a])
  have "bucket_try_lock ix slot = Some (slot_free (latch_tab ix ?b) ?x, store_bucket ix (MainRef ?b) (set_latch_word bk w))"
    using p(1,2) f w_def
    by (auto simp: bucket_try_lock_def get_bucket_small [OF wf b] lock_exclusive_guard_def lock_shared_guard_def Let_def
        simp del: load_bucket.simps split: prod.split)
  then show ?thesis using p(3-5) w by auto
qed

lemma index_unlock:
  assumes wf: "index_wf ix" and b: "lps_bucket slot < ix_size ix"
    and h: "slot_held (latch_tab ix (lps_bucket slot)) (lps_exclusive slot)"
  shows "\<exists>ix'. bucket_unlock ix slot = Some ix' \<and> index_wf ix' \<and> same_entries ix ix' \<and>
    (\<forall>c < ix_size ix. latch_tab ix' c =
      (if c = lps_bucket slot then slot_given (latch_tab ix c) (lps_exclusive slot) else latch_tab ix c))"
proof -
  let ?b = "lps_bucket slot" and ?x = "lps_exclusive slot"
  define w where "w = (if ?x then unlock_exclusive else unlock_shared) (latch_word ix ?b)"
  have w: "latch_of w = slot_given (latch_tab ix ?b) ?x"
    using unlock_view [of "latch_word ix ?b"] h by (cases ?x) (simp_all add: w_def latch_tab_def)
  have a: "l_addr (latch_of w) = l_addr (latch_tab ix ?b)" using w by simp
  obtain bk where p: "load_bucket ix (MainRef ?b) = Some bk" "bucket_latch_word bk = latch_word ix ?b"
    "index_wf (store_bucket ix (MainRef ?b) (set_latch_word bk w))"
    "same_entries ix (store_bucket ix (MainRef ?b) (set_latch_word bk w))"
    "\<forall>c < ix_size ix. latch_tab (store_bucket ix (MainRef ?b) (set_latch_word bk w)) c = (if c = ?b then latch_of w else latch_tab ix c)"
    by (rule put_latch [OF wf b a])
  have "bucket_unlock ix slot = Some (store_bucket ix (MainRef ?b) (set_latch_word bk w))"
    using p(1,2) w_def
    by (simp add: bucket_unlock_def get_bucket_small [OF wf b] drop_exclusive_guard_def drop_shared_guard_def
        del: load_bucket.simps)
  then show ?thesis using p(3-5) w by auto
qed

interpretation lb: latch_bank index_wf ix_size latch_tab same_entries bucket_try_lock bucket_unlock
proof unfold_locales
  show "same_entries ix ix" for ix by simp
  show "same_entries ix ix1 \<Longrightarrow> same_entries ix1 ix2 \<Longrightarrow> same_entries ix ix2" for ix ix1 ix2 by (rule same_entries_trans)
  show "same_entries ix ix' \<Longrightarrow> ix_size ix' = ix_size ix" for ix ix' by (simp add: same_entries_def)
qed (fact index_try_lock, fact index_unlock)

end
