(* ===== verification/TxnLockProps.thy ===== *)
theory TxnLockProps
  imports TxnLocksCorrect
begin

text \<open>
  Properties of the key buffer and of the lock set of one transaction: the buffer gives back what was
  pushed, the plan is ascending with the strongest lock of each bucket, an attempt takes every latch of
  the plan or none, unlocking undoes it, and the retry loops return.
\<close>

section \<open>The key buffer\<close>

definition push_all :: "(bytes \<times> LockType) list \<Rightarrow> TxnKeysBuffer" where
  "push_all ks = fold (\<lambda>(key, t) b. keys_push b key t) ks keys_new"

fun ends_of :: "nat \<Rightarrow> bytes list \<Rightarrow> nat list" where
  "ends_of n [] = []"
| "ends_of n (k # ks) = (n + length k) # ends_of (n + length k) ks"

lemma fold_push:
  "fold (\<lambda>(key, t) b. keys_push b key t) ks b =
     \<lparr>tk_bytes = tk_bytes b @ concat (map fst ks),
      tk_offsets = tk_offsets b @ map of_nat (ends_of (length (tk_bytes b)) (map fst ks)),
      tk_lock_types = tk_lock_types b @ map snd ks\<rparr>"
  by (induction ks arbitrary: b) (auto simp: keys_push_def Let_def)

lemma keys_iter_pushed:
  "length pre + length (concat ks) < 2 ^ 32 \<Longrightarrow>
   keys_iter (pre @ concat ks) (length pre) (map of_nat (ends_of (length pre) ks)) = Some ks"
proof (induction ks arbitrary: pre)
  case (Cons k ks)
  have "unat (of_nat (length pre + length k) :: u32) = length pre + length k"
    unfolding unat_of_nat using Cons.prems by simp
  then show ?case using Cons.IH [of "pre @ k"] Cons.prems by (simp add: Let_def)
qed simp

lemma keys_iter_length:
  "keys_iter bs prev offs = Some ks \<Longrightarrow>
   length ks = length offs \<and> prev + length (concat ks) = (if offs = [] then prev else unat (last offs))"
proof (induction bs prev offs arbitrary: ks rule: keys_iter.induct)
  case (2 bs prev end_off offs)
  from 2(2) obtain ks' where k: "prev \<le> unat end_off" "unat end_off \<le> length bs" "keys_iter bs (unat end_off) offs = Some ks'"
    "ks = take (unat end_off - prev) (drop prev bs) # ks'"
    by (auto simp: Let_def split: if_splits)
  with 2(1) [OF refl _ k(3)] show ?case by simp
qed simp

lemma length_ends [simp]: "length (ends_of n ks) = length ks"
  by (induction ks arbitrary: n) simp_all

lemma last_ends: "last (n # ends_of n ks) = n + length (concat ks)"
  by (induction ks arbitrary: n) (simp_all del: length_concat)

lemma push_all_eq:
  "push_all ks = \<lparr>tk_bytes = concat (map fst ks), tk_offsets = map of_nat (ends_of 0 (map fst ks)), tk_lock_types = map snd ks\<rparr>"
  by (simp add: push_all_def fold_push keys_new_def)

lemma keys_decode:
  assumes "length (concat (map fst ks)) < 2 ^ 32"
  shows "keys_iter (tk_bytes (push_all ks)) 0 (tk_offsets (push_all ks)) = Some (map fst ks)"
    "keys_iter_with_lock (push_all ks) = Some ks"
  using keys_iter_pushed [of "[]" "map fst ks"] assms by (simp_all add: keys_iter_with_lock_def push_all_eq zip_map_fst_snd)

text \<open>Reading the key buffer back gives exactly the keys and lock types pushed, in order, if and only
  if the keys have fewer than 2^32 bytes in all; beyond that the 32-bit offsets wrap.\<close>

lemma keys_buffer_roundtrip:
  "keys_iter_with_lock (push_all ks) = Some ks \<longleftrightarrow> length (concat (map fst ks)) < 2 ^ 32"
proof
  show "keys_iter_with_lock (push_all ks) = Some ks" if "length (concat (map fst ks)) < 2 ^ 32"
    by (rule keys_decode(2) [OF that])
  assume r: "keys_iter_with_lock (push_all ks) = Some ks"
  then obtain ks' where it: "keys_iter (concat (map fst ks)) 0 (map of_nat (ends_of 0 (map fst ks))) = Some ks'"
    "zip ks' (map snd ks) = ks"
    by (auto simp: keys_iter_with_lock_def push_all_eq)
  note len = keys_iter_length [OF it(1)]
  show "length (concat (map fst ks)) < 2 ^ 32"
  proof (cases "ks = []")
    case False
    then have l: "ends_of 0 (map fst ks) \<noteq> []" by (metis length_ends length_map length_0_conv)
    with last_ends [of 0 "map fst ks"] have "last (ends_of 0 (map fst ks)) = length (concat (map fst ks))"
      by (simp del: length_concat)
    moreover have "ks' = map fst (zip ks' (map snd ks))" using len by simp
    then have "ks' = map fst ks" unfolding it(2) .
    ultimately have "length (concat (map fst ks)) = unat (of_nat (length (concat (map fst ks))) :: u32)"
      using len l by (simp add: last_map del: length_concat)
    also have "\<dots> < 2 ^ 32" using unsigned_less [of "of_nat (length (concat (map fst ks))) :: u32"] by simp
    finally show ?thesis .
  qed simp
qed

section \<open>The strength of a lock set\<close>

definition strength :: "LockPlanSlot list \<Rightarrow> nat \<Rightarrow> bool option" where
  "strength slots b = map_option (\<lambda>i. lps_exclusive (slots ! i)) (held_search slots b)"

text \<open>What the keys ask for in a bucket: nothing, a shared latch, or an exclusive one.\<close>

definition wanted :: "HashIndex \<Rightarrow> TxnKeyEntry list \<Rightarrow> nat \<Rightarrow> bool option" where
  "wanted index keys b =
     (if list_ex (\<lambda>k. bucket_index_for_hash index (key_hash k) = b) keys
      then Some (list_ex (\<lambda>k. bucket_index_for_hash index (key_hash k) = b \<and> lock_type k = Exclusive) keys)
      else None)"

lemma held_bucket_strength: "held_bucket_exclusive te b = strength (te_held te) b"
  by (simp add: held_bucket_exclusive_def strength_def)

lemma strength_simps [simp]:
  "strength [] b = None"
  "strength (slot # slots) b = (if lps_bucket slot = b then Some (lps_exclusive slot) else strength slots b)"
  by (simp_all add: strength_def option.map_comp comp_def)

lemma strength_None: "strength slots b = None \<longleftrightarrow> b \<notin> lps_bucket ` set slots"
  by (induction slots) auto

lemma strength_mem:
  "sorted_wrt (<) (map lps_bucket slots) \<Longrightarrow> slot \<in> set slots \<Longrightarrow> strength slots (lps_bucket slot) = Some (lps_exclusive slot)"
  by (induction slots) auto

lemma strength_SomeD: "strength slots b = Some x \<Longrightarrow> \<exists>slot \<in> set slots. lps_bucket slot = b \<and> lps_exclusive slot = x"
  by (induction slots) (auto split: if_splits)

lemma strength_all:
  assumes "sorted_wrt (<) (map lps_bucket slots)"
  shows "(\<forall>b x. strength slots b = Some x \<longrightarrow> P b x) = (\<forall>slot \<in> set slots. P (lps_bucket slot) (lps_exclusive slot))"
proof (intro iffI ballI allI impI)
  show "P (lps_bucket slot) (lps_exclusive slot)" if "\<forall>b x. strength slots b = Some x \<longrightarrow> P b x" "slot \<in> set slots" for slot
    using that strength_mem [OF assms that(2)] by blast
  show "P b x" if "\<forall>slot \<in> set slots. P (lps_bucket slot) (lps_exclusive slot)" "strength slots b = Some x" for b x
    using that(1) strength_SomeD [OF that(2)] by auto
qed

lemma merges_exclusive:
  "merges xs plan \<Longrightarrow> slot \<in> set plan \<Longrightarrow>
   lps_exclusive slot \<longleftrightarrow> (\<exists>x \<in> set xs. lps_bucket x = lps_bucket slot \<and> lps_exclusive x)"
  by (simp add: merges_def)

lemma merges_strength:
  assumes "merges (map (entry_slot index) keys) plan"
  shows "strength plan b = wanted index keys b"
proof (cases "strength plan b")
  case None
  then have "b \<notin> lps_bucket ` set (map (entry_slot index) keys)" using assms by (simp add: strength_None merges_def)
  then show ?thesis using None by (auto simp: wanted_def entry_slot_def list_ex_iff image_image)
next
  case (Some x)
  then obtain slot where s: "slot \<in> set plan" "lps_bucket slot = b" "lps_exclusive slot = x" using strength_SomeD by blast
  have "b \<in> lps_bucket ` set (map (entry_slot index) keys)" using s assms by (auto simp: merges_def)
  then have "list_ex (\<lambda>k. bucket_index_for_hash index (key_hash k) = b) keys"
    by (auto simp: entry_slot_def list_ex_iff)
  moreover have "x = list_ex (\<lambda>k. bucket_index_for_hash index (key_hash k) = b \<and> lock_type k = Exclusive) keys"
    using merges_exclusive [OF assms s(1)] s(2,3) by (simp add: entry_slot_def list_ex_iff)
  ultimately show ?thesis using Some by (simp add: wanted_def)
qed

lemma wanted_same_keys: "mset keys = mset keys' \<Longrightarrow> wanted index keys = wanted index keys'"
  by (drule mset_eq_setD) (simp add: wanted_def list_ex_iff fun_eq_iff)

text \<open>C33: The lock plan of a set of keys is strictly ascending by bucket, has a slot exactly for each bucket
  some key falls into, and asks for an exclusive latch exactly where some key of the bucket does; the
  keys are only reordered.\<close>

lemma lock_plan_strongest:
  "mset (fst (lock_plan index keys)) = mset keys \<and>
   sorted_wrt (<) (map lps_bucket (snd (lock_plan index keys))) \<and>
   strength (snd (lock_plan index keys)) = wanted index keys"
  using lock_plan_merges [of index keys] merges_strength [of index keys] by (auto simp: merges_def)

section \<open>One attempt\<close>

lemma release_give: "release_slots ix slots = lb.give_all ix slots"
  by (induction slots arbitrary: ix) (auto split: option.splits)

lemma acquire_take: "acquire_slots ix held plan = lb.take_all ix held plan"
  by (induction plan arbitrary: ix held) (auto simp: release_give split: option.splits)

definition latch_with :: "latch \<Rightarrow> bool option \<Rightarrow> latch" where
  "latch_with l s = (case s of None \<Rightarrow> l | Some x \<Rightarrow> slot_taken l x)"

lemma latch_with_simps [simp]: "latch_with l None = l" "latch_with l (Some x) = slot_taken l x"
  by (simp_all add: latch_with_def)

lemma sorted_buckets_distinct: "sorted_wrt (<) (map lps_bucket slots) \<Longrightarrow> distinct (map lps_bucket slots)"
  by (simp add: strict_sorted_iff)

lemma acquire_correct:
  assumes wf: "index_wf ix" and srt: "sorted_wrt (<) (map lps_bucket plan)"
    and r: "\<forall>slot \<in> set plan. lps_bucket slot < ix_size ix"
  obtains ok ix' where "acquire_slots ix [] plan = Some (ok, if ok then plan else [], ix')"
    "index_wf ix'" "same_entries ix ix'"
    "ok = (\<forall>b x. strength plan b = Some x \<longrightarrow> slot_free (latch_tab ix b) x)"
    "\<forall>b < ix_size ix. if ok then latch_tab ix' b = latch_with (latch_tab ix b) (strength plan b)
       else latch_same (latch_tab ix' b) (latch_tab ix b)"
proof -
  have rng: "lb.in_range ix plan" using r sorted_buckets_distinct [OF srt] by (simp add: lb.in_range_def)
  obtain ok ix' where t: "lb.take_all ix [] plan = Some (ok, if ok then plan else [], ix')" "index_wf ix'"
    "same_entries ix ix'" "ok = (\<forall>slot \<in> set plan. slot_free (latch_tab ix (lps_bucket slot)) (lps_exclusive slot))"
    "if ok
     then (\<forall>slot \<in> set plan. latch_tab ix' (lps_bucket slot) = slot_taken (latch_tab ix (lps_bucket slot)) (lps_exclusive slot)) \<and>
          (\<forall>b < ix_size ix. b \<notin> lps_bucket ` set plan \<longrightarrow> latch_tab ix' b = latch_tab ix b)
     else \<forall>b < ix_size ix. latch_same (latch_tab ix' b) (latch_tab ix b)"
    using lb.take_all_correct [OF wf rng] by blast
  have "ok = (\<forall>b x. strength plan b = Some x \<longrightarrow> slot_free (latch_tab ix b) x)"
    unfolding t(4) by (rule strength_all [OF srt, symmetric])
  moreover have "latch_tab ix' b = latch_with (latch_tab ix b) (strength plan b)" if "b < ix_size ix" ok for b
    using that t(5) strength_SomeD [of plan b] strength_None [of plan b] by (cases "strength plan b") auto
  moreover have "latch_same (latch_tab ix' b) (latch_tab ix b)" if "b < ix_size ix" "\<not> ok" for b
    using that t(5) by simp
  ultimately show thesis using that [of ok ix'] t(1-3) by (simp add: acquire_take)
qed

definition planned :: "TxnKeyEntries \<Rightarrow> LockWorld \<Rightarrow> bool" where
  "planned te w \<longleftrightarrow>
     (case te_plan te of
        None \<Rightarrow> True
      | Some plan \<Rightarrow>
          case te_latch te of
            None \<Rightarrow> te_keys te = [] \<and> plan = []
          | Some v \<Rightarrow> merges (map (entry_slot (lw_index w v)) (te_keys te)) plan)"

text \<open>The version an attempt uses: the pinned one once there is a plan, the current one before.\<close>

definition pinned :: "TxnKeyEntries \<Rightarrow> LockWorld \<Rightarrow> nat" where
  "pinned te w = (if te_plan te = None then lw_current w else case te_latch te of Some v \<Rightarrow> v | None \<Rightarrow> lw_current w)"

lemma merges_nil: "merges xs [] \<longleftrightarrow> xs = []"
  by (auto simp: merges_def)

lemma ensure_plan_correct:
  assumes "planned te w"
  obtains plan where "te_plan (ensure_plan te w) = Some plan" "mset (te_keys (ensure_plan te w)) = mset (te_keys te)"
    "merges (map (entry_slot (lw_index w (pinned te w))) (te_keys te)) plan" "te_held (ensure_plan te w) = te_held te"
    "plan \<noteq> [] \<Longrightarrow> te_latch (ensure_plan te w) = Some (pinned te w)" "planned (ensure_plan te w) w"
    "te_locked (ensure_plan te w) = te_locked te"
proof (cases "te_plan te")
  case (Some plan)
  then show thesis using that [of plan] assms
    by (auto simp: ensure_plan_def planned_def pinned_def merges_nil split: option.splits)
next
  case None
  let ?ix = "lw_index w (lw_current w)"
  obtain keys plan where lp: "lock_plan ?ix (te_keys te) = (keys, plan)" by fastforce
  have m: "mset keys = mset (te_keys te)" "merges (map (entry_slot ?ix) (te_keys te)) plan"
    using lock_plan_merges [of ?ix "te_keys te"] lp by simp_all
  have k: "merges (map (entry_slot ?ix) keys) plan" using m by (simp add: merges_def mset_eq_setD [OF m(1)])
  have e: "ensure_plan te w = te\<lparr>te_keys := keys, te_latch := if plan = [] then te_latch te else Some (lw_current w), te_plan := Some plan\<rparr>"
    using None lp by (simp add: ensure_plan_def)
  have "planned (ensure_plan te w) w" using k by (auto simp: e planned_def merges_nil split: option.splits)
  then show thesis using that [of plan] None m by (simp add: e pinned_def)
qed

definition world_ok :: "LockWorld \<Rightarrow> bool" where
  "world_ok w \<longleftrightarrow> (\<forall>v. index_wf (lw_index w v))"

text \<open>What an attempt is free to take, and what it has taken.\<close>

definition all_free :: "HashIndex \<Rightarrow> (nat \<Rightarrow> bool option) \<Rightarrow> bool" where
  "all_free ix want \<longleftrightarrow> (\<forall>b x. want b = Some x \<longrightarrow> slot_free (latch_tab ix b) x)"

definition takes :: "HashIndex \<Rightarrow> (nat \<Rightarrow> bool option) \<Rightarrow> HashIndex \<Rightarrow> bool" where
  "takes ix want ix' \<longleftrightarrow> index_wf ix' \<and> same_entries ix ix' \<and>
     (\<forall>b < ix_size ix. latch_tab ix' b = latch_with (latch_tab ix b) (want b))"

definition keeps :: "HashIndex \<Rightarrow> HashIndex \<Rightarrow> bool" where
  "keeps ix ix' \<longleftrightarrow> index_wf ix' \<and> same_entries ix ix' \<and>
     (\<forall>b < ix_size ix. latch_same (latch_tab ix' b) (latch_tab ix b))"

lemma wanted_cong: "ix_mask ix' = ix_mask ix \<Longrightarrow> wanted ix' keys = wanted ix keys"
  by (simp add: fun_eq_iff wanted_def bucket_index_cong [of ix' ix])

lemma entry_slot_cong: "ix_mask ix' = ix_mask ix \<Longrightarrow> entry_slot ix' = entry_slot ix"
  by (simp add: fun_eq_iff entry_slot_def bucket_index_cong [of ix' ix])

lemma merges_less:
  assumes "index_wf ix" "merges (map (entry_slot ix) keys) plan"
  shows "\<forall>slot \<in> set plan. lps_bucket slot < ix_size ix"
proof
  fix slot assume "slot \<in> set plan"
  from merges_bucket [OF assms(2) this] obtain k :: TxnKeyEntry where "bucket_index_for_hash ix (key_hash k) = lps_bucket slot"
    by (auto simp: entry_slot_def)
  then show "lps_bucket slot < ix_size ix" using wf_bucket_less [OF assms(1), of "key_hash k"] by simp
qed

lemma planned_cong:
  assumes "planned te w" "\<And>v. ix_mask (lw_index w' v) = ix_mask (lw_index w v)"
  shows "planned te w'"
  using assms(1) entry_slot_cong [OF assms(2)] by (simp add: planned_def split: option.splits)

lemma planned_upd [simp]:
  "planned (te\<lparr>te_held := h\<rparr>) w = planned te w" "planned (te\<lparr>te_locked := l\<rparr>) w = planned te w"
  by (simp_all add: planned_def split: option.splits)

lemma put_index_self [simp]: "put_index w v (lw_index w v) = w"
  by (simp add: put_index_def)

lemma put_index_lookup [simp]: "lw_index (put_index w v ix) u = (if u = v then ix else lw_index w u)"
  by (simp add: put_index_def)

lemma planned_put: "planned te w \<Longrightarrow> same_entries (lw_index w v) ix' \<Longrightarrow> planned te (put_index w v ix')"
  by (rule planned_cong) (auto simp: same_entries_def)

lemma keeps_refl: "index_wf ix \<Longrightarrow> keeps ix ix"
  by (simp add: keeps_def latch_same_def)

lemma attempt_cases:
  fixes te w
  defines "v \<equiv> pinned te w"
  defines "ix \<equiv> lw_index w v"
  assumes "world_ok w" "planned te w" "te_held te = []"
  obtains te' ix' where "all_free ix (wanted ix (te_keys te))" "takes ix (wanted ix (te_keys te)) ix'"
      "try_lock_all_keys_once te w = Some (True, te', put_index w v ix')"
      "planned te' (put_index w v ix')" "mset (te_keys te') = mset (te_keys te)"
      "sorted_wrt (<) (map lps_bucket (te_held te'))" "strength (te_held te') = wanted ix (te_keys te)"
      "te_keys te \<noteq> [] \<Longrightarrow> te_locked te' \<and> te_latch te' = Some v" "te_plan te' \<noteq> None"
  | te' ix' where "\<not> all_free ix (wanted ix (te_keys te))" "keeps ix ix'"
      "try_lock_all_keys_once te w = Some (False, te', put_index w v ix')"
      "planned te' (put_index w v ix')" "mset (te_keys te') = mset (te_keys te)"
      "te_held te' = []" "te_latch te' = Some v" "te_plan te' \<noteq> None" "te_locked te' = te_locked te"
proof -
  obtain plan where e: "te_plan (ensure_plan te w) = Some plan" "mset (te_keys (ensure_plan te w)) = mset (te_keys te)"
    "merges (map (entry_slot ix) (te_keys te)) plan" "te_held (ensure_plan te w) = te_held te"
    "plan \<noteq> [] \<Longrightarrow> te_latch (ensure_plan te w) = Some v" "planned (ensure_plan te w) w"
    "te_locked (ensure_plan te w) = te_locked te"
    using ensure_plan_correct [OF assms(4)] unfolding v_def ix_def by blast
  have st: "strength plan = wanted ix (te_keys te)" using merges_strength [OF e(3)] by blast
  have wf: "index_wf ix" using assms(3) by (simp add: world_ok_def ix_def)
  have srt: "sorted_wrt (<) (map lps_bucket plan)" using e(3) by (simp add: merges_def)
  have r: "\<forall>slot \<in> set plan. lps_bucket slot < ix_size ix" by (rule merges_less [OF wf e(3)])
  show thesis
  proof (cases plan)
    case Nil
    then have k: "te_keys te = []" using e(3) by (simp add: merges_nil)
    have "try_lock_all_keys_once te w = Some (True, ensure_plan te w, w)"
      using e(1) Nil by (simp add: try_lock_all_keys_once_def Let_def)
    moreover have "takes ix (wanted ix (te_keys te)) ix" using wf k by (simp add: takes_def wanted_def)
    ultimately show thesis using that(1) [of ix "ensure_plan te w"] e st assms(5) Nil k
      by (simp add: all_free_def wanted_def ix_def fun_eq_iff)
  next
    case (Cons s ss)
    obtain ok ix' where a: "acquire_slots ix [] plan = Some (ok, if ok then plan else [], ix')"
      "index_wf ix'" "same_entries ix ix'" "ok = all_free ix (wanted ix (te_keys te))"
      "\<forall>b < ix_size ix. if ok then latch_tab ix' b = latch_with (latch_tab ix b) (wanted ix (te_keys te) b)
         else latch_same (latch_tab ix' b) (latch_tab ix b)"
      using acquire_correct [OF wf srt r] unfolding st all_free_def by blast
    let ?te = "(ensure_plan te w)\<lparr>te_held := if ok then plan else []\<rparr>"
    have "try_lock_all_keys_once te w =
        Some (ok, if ok then ?te\<lparr>te_locked := True\<rparr> else ?te, put_index w v ix')"
      using e(1,5) Cons a(1) by (simp add: try_lock_all_keys_once_def acquire_plan_def Let_def ix_def)
    moreover have "planned ?te (put_index w v ix')" "planned (?te\<lparr>te_locked := True\<rparr>) (put_index w v ix')"
      using planned_put [OF e(6)] a(3) by (simp_all add: ix_def)
    ultimately show thesis
      using that(1) [of ix' "?te\<lparr>te_locked := True\<rparr>"] that(2) [of ix' ?te] a e Cons srt st
      by (cases ok) (auto simp: takes_def keeps_def)
  qed
qed

lemma release_correct:
  assumes "index_wf ix" "all_free ix (strength held)" "takes ix (strength held) ix1"
    and srt: "sorted_wrt (<) (map lps_bucket held)" and r: "\<forall>slot \<in> set held. lps_bucket slot < ix_size ix"
  obtains ix2 where "release_slots ix1 (rev held) = Some ix2" "keeps ix ix2"
proof -
  have sz: "ix_size ix1 = ix_size ix" using assms(3) by (simp add: takes_def same_entries_def)
  have rng: "lb.in_range ix1 (rev held)"
    using r sorted_buckets_distinct [OF srt] sz by (simp add: lb.in_range_def rev_map [symmetric])
  have free: "slot_free (latch_tab ix (lps_bucket s)) (lps_exclusive s)"
    and tk: "latch_tab ix1 (lps_bucket s) = slot_taken (latch_tab ix (lps_bucket s)) (lps_exclusive s)" if "s \<in> set held" for s
    using assms(2,3) strength_mem [OF srt that] r that by (auto simp: all_free_def takes_def)
  obtain ix2 where g: "lb.give_all ix1 (rev held) = Some ix2" "index_wf ix2" "same_entries ix1 ix2"
    "\<forall>b < ix_size ix1. b \<notin> lps_bucket ` set (rev held) \<longrightarrow> latch_tab ix2 b = latch_tab ix1 b"
    "\<forall>s \<in> set (rev held). latch_tab ix2 (lps_bucket s) = slot_given (latch_tab ix1 (lps_bucket s)) (lps_exclusive s)"
    using lb.give_all_correct [OF _ rng] assms(3) tk lb.give_taken [OF free] by (auto simp: takes_def)
  have "latch_same (latch_tab ix2 b) (latch_tab ix b)" if b: "b < ix_size ix" for b
  proof (cases "b \<in> lps_bucket ` set held")
    case True
    then show ?thesis using g(5) tk lb.give_taken [OF free] by auto
  next
    case False
    then have "latch_tab ix2 b = latch_tab ix1 b" using g(4) b sz by simp
    also have "\<dots> = latch_tab ix b" using False assms(3) b strength_None [of held b] by (simp add: takes_def)
    finally show ?thesis by (simp add: latch_same_def)
  qed
  then have "keeps ix ix2" using g(2,3) assms(3) same_entries_trans unfolding keeps_def takes_def by blast
  then show thesis using that [of ix2] g(1) by (simp add: release_give)
qed

lemma wanted_less: "index_wf ix \<Longrightarrow> wanted ix keys b = Some x \<Longrightarrow> b < ix_size ix"
  using wf_bucket_less by (auto simp: wanted_def list_ex_iff split: if_splits)

lemma strength_less:
  "(\<And>b x. strength slots b = Some x \<Longrightarrow> b < n) \<Longrightarrow> \<forall>slot \<in> set slots. lps_bucket slot < n"
  by (metis imageI not_None_eq strength_None)

lemma unlock_after_lock:
  assumes wf: "index_wf (lw_index w v)" and "all_free (lw_index w v) want" "takes (lw_index w v) want ix1"
    and "sorted_wrt (<) (map lps_bucket (te_held te))" "strength (te_held te) = want"
    and lt: "\<And>b x. want b = Some x \<Longrightarrow> b < ix_size (lw_index w v)"
    and "te_held te \<noteq> [] \<Longrightarrow> te_locked te \<and> te_latch te = Some v"
  obtains ix2 where "unlock_all_keys te (put_index w v ix1) = Some (entries_new, put_index w v ix2)" "keeps (lw_index w v) ix2"
proof (cases "te_held te = []")
  case True
  then have "want = (\<lambda>_. None)" using assms(5) by (simp add: fun_eq_iff)
  then have "keeps (lw_index w v) ix1" using assms(3) by (simp add: takes_def keeps_def latch_same_def)
  moreover have "unlock_all_keys te (put_index w v ix1) = Some (entries_new, put_index w v ix1)"
    using True by (auto simp: unlock_all_keys_def release_held_def entries_new_def simp del: put_index_lookup split: option.splits)
  ultimately show thesis using that by blast
next
  case False
  obtain ix2 where "release_slots ix1 (rev (te_held te)) = Some ix2" "keeps (lw_index w v) ix2"
    using release_correct [OF wf] assms strength_less [of "te_held te"] by blast
  then show thesis using that [of ix2] assms(7) False
    by (simp add: unlock_all_keys_def release_held_def entries_new_def put_index_def)
qed

lemma unlock_attempt:
  assumes w: "world_ok w" and t: "all_free (lw_index w v) (wanted (lw_index w v) keys)"
    "takes (lw_index w v) (wanted (lw_index w v) keys) ix'" "sorted_wrt (<) (map lps_bucket (te_held te))"
    "strength (te_held te) = wanted (lw_index w v) keys"
    and l: "keys \<noteq> [] \<Longrightarrow> te_locked te \<and> te_latch te = Some v"
  obtains ix2 where "unlock_all_keys te (put_index w v ix') = Some (entries_new, put_index w v ix2)" "keeps (lw_index w v) ix2"
proof -
  have wf: "index_wf (lw_index w v)" using w by (simp add: world_ok_def)
  have "keys \<noteq> []" if "te_held te \<noteq> []"
  proof
    assume "keys = []"
    then have "\<forall>b. strength (te_held te) b = None" using t(4) by (simp add: wanted_def)
    then show False using that by (simp add: strength_None)
  qed
  then show thesis using unlock_after_lock [OF wf t] wanted_less [OF wf] l that by blast
qed

text \<open>C16: One attempt to lock the keys of a transaction always returns, and it succeeds if and only if every
  bucket is free in the strength its keys ask for. On success exactly those latches are taken, the
  held record names them, and unlocking gives every latch back; on failure nothing is held and every
  latch is as before, up to the flag that wakes waiters. The index entries never change.\<close>

lemma lock_attempt_all_or_nothing:
  assumes "world_ok w" "planned te w" "te_held te = []"
  shows "\<exists>ok te' ix'.
    try_lock_all_keys_once te w = Some (ok, te', put_index w (pinned te w) ix') \<and>
    ok = all_free (lw_index w (pinned te w)) (wanted (lw_index w (pinned te w)) (te_keys te)) \<and>
    (if ok
     then takes (lw_index w (pinned te w)) (wanted (lw_index w (pinned te w)) (te_keys te)) ix' \<and>
          held_bucket_exclusive te' = wanted (lw_index w (pinned te w)) (te_keys te) \<and>
          (\<exists>ix2. unlock_all_keys te' (put_index w (pinned te w) ix') = Some (entries_new, put_index w (pinned te w) ix2) \<and>
             keeps (lw_index w (pinned te w)) ix2)
     else keeps (lw_index w (pinned te w)) ix' \<and> te_held te' = [])"
proof (cases rule: attempt_cases [OF assms])
  case (1 te' ix')
  obtain ix2 where "unlock_all_keys te' (put_index w (pinned te w) ix') = Some (entries_new, put_index w (pinned te w) ix2)"
    "keeps (lw_index w (pinned te w)) ix2"
    using unlock_attempt [OF assms(1) 1(1,2,6,7,8)] .
  then show ?thesis using 1 by (auto simp: fun_eq_iff held_bucket_strength)
next
  case (2 te' ix')
  then show ?thesis by auto
qed

text \<open>A world with two keys to lock, and the same world with one of their buckets taken by someone else.\<close>

definition example_world :: LockWorld where
  "example_world = \<lparr>lw_index = \<lambda>_. index_example, lw_current = 0\<rparr>"

definition example_keys :: TxnKeyEntries where
  "example_keys = add_key (add_key entries_new 6 6 Shared) 5 5 Exclusive"

definition busy_index :: HashIndex where
  "busy_index = snd (the (bucket_try_lock index_example (shared_slot 1)))"

definition busy_world :: LockWorld where
  "busy_world = \<lparr>lw_index = \<lambda>_. busy_index, lw_current = 0\<rparr>"

lemma index_example_size: "ix_size index_example = 4" "ix_mask index_example = 3"
  by (simp_all add: index_example_def empty_index_def)

lemma index_example_latch: "b < 4 \<Longrightarrow> slot_free (latch_tab index_example b) x"
  by (simp add: latch_tab_def latch_word_def index_example_def empty_index_def slot_free_def latch_of_def readers_def
      bucket_new_def bucket_latch_word_def bucket_consts num_latched_shared_def)

lemma busy_index_ok:
  "index_wf busy_index" "ix_mask busy_index = 3" "\<not> slot_free (latch_tab busy_index 1) True"
proof -
  let ?s = "shared_slot 1"
  obtain ok ix' where b: "bucket_try_lock index_example ?s = Some (ok, ix')" "index_wf ix'" "same_entries index_example ix'"
    "latch_tab ix' 1 = slot_taken (latch_tab index_example 1) False"
    using index_try_lock [OF index_example_wf, of ?s] index_example_latch [of 1 False]
    by (auto simp: shared_slot_def index_example_size)
  then show "index_wf busy_index" "ix_mask busy_index = 3" "\<not> slot_free (latch_tab busy_index 1) True"
    by (simp_all add: busy_index_def same_entries_def index_example_size slot_free_def slot_taken_def)
qed

lemma example_world_ok: "world_ok example_world" "world_ok busy_world"
  by (simp_all add: world_ok_def example_world_def busy_world_def index_example_wf busy_index_ok)

lemma example_keys_ok: "planned example_keys w" "te_held example_keys = []"
  by (simp_all add: planned_def example_keys_def add_key_def entries_new_def)

theorem lock_attempt_all_or_nothing_witness:
  "(\<exists>te' ix'. try_lock_all_keys_once example_keys example_world = Some (True, te', put_index example_world 0 ix') \<and>
      held_bucket_exclusive te' = wanted index_example (te_keys example_keys)) \<and>
   (\<exists>te' ix'. try_lock_all_keys_once example_keys busy_world = Some (False, te', put_index busy_world 0 ix') \<and>
      keeps busy_index ix' \<and> te_held te' = [])"
proof
  have v: "pinned example_keys example_world = 0" "pinned example_keys busy_world = 0"
    by (simp_all add: pinned_def example_keys_def add_key_def entries_new_def example_world_def busy_world_def)
  have i: "lw_index example_world 0 = index_example" "lw_index busy_world 0 = busy_index"
    by (simp_all add: example_world_def busy_world_def)
  have "map_option fst (try_lock_all_keys_once example_keys example_world) = Some True" by code_simp
  with lock_attempt_all_or_nothing [OF example_world_ok(1) example_keys_ok, unfolded v i]
  show "\<exists>te' ix'. try_lock_all_keys_once example_keys example_world = Some (True, te', put_index example_world 0 ix') \<and>
      held_bucket_exclusive te' = wanted index_example (te_keys example_keys)"
    by (elim exE conjE) (auto split: if_splits)
  have "wanted busy_index (te_keys example_keys) 1 = Some True"
    by (simp add: wanted_def example_keys_def add_key_def entries_new_def txn_key_entry_new_def bucket_index_for_hash_def busy_index_ok)
  then have "\<not> all_free busy_index (wanted busy_index (te_keys example_keys))"
    unfolding all_free_def using busy_index_ok(3) by blast
  with lock_attempt_all_or_nothing [OF example_world_ok(2) example_keys_ok, unfolded v i]
  show "\<exists>te' ix'. try_lock_all_keys_once example_keys busy_world = Some (False, te', put_index busy_world 0 ix') \<and>
      keeps busy_index ix' \<and> te_held te' = []"
    by (elim exE conjE) (auto split: if_splits)
qed

section \<open>The retry loops\<close>

text \<open>
  What other threads may do to the world between two attempts: the indexes stay well-formed and keep
  their sizes.
\<close>

definition env_ok :: "(nat \<Rightarrow> LockWorld \<Rightarrow> LockWorld) \<Rightarrow> bool" where
  "env_ok env \<longleftrightarrow> (\<forall>n w. world_ok w \<longrightarrow> world_ok (env n w) \<and> (\<forall>v. ix_mask (lw_index (env n w) v) = ix_mask (lw_index w v)))"

text \<open>The state between two attempts that failed.\<close>

definition retrying :: "TxnKeyEntries \<Rightarrow> LockWorld \<Rightarrow> TxnKeyEntry list \<Rightarrow> nat \<Rightarrow> nat \<Rightarrow> bool" where
  "retrying te w keys v m \<longleftrightarrow> world_ok w \<and> planned te w \<and> te_held te = [] \<and> mset (te_keys te) = mset keys \<and>
     pinned te w = v \<and> ix_mask (lw_index w v) = m"

lemma retrying_want:
  assumes "retrying te w keys v m"
  shows "wanted (lw_index w v) (te_keys te) = wanted (lw_index w v) keys"
  using assms by (intro wanted_same_keys) (simp add: retrying_def)

lemma attempt_retry:
  assumes "retrying te w keys v m"
  obtains te' w' where "try_lock_all_keys_once te w = Some (True, te', w')" "world_ok w'"
      "held_bucket_exclusive te' = wanted (lw_index w v) keys" "mset (te_keys te') = mset keys" "ix_mask (lw_index w' v) = m"
      "all_free (lw_index w v) (wanted (lw_index w v) keys)"
  | te' w' where "try_lock_all_keys_once te w = Some (False, te', w')" "world_ok w'" "te_held te' = []"
      "\<And>w2. world_ok w2 \<Longrightarrow> (\<And>u. ix_mask (lw_index w2 u) = ix_mask (lw_index w' u)) \<Longrightarrow> retrying te' w2 keys v m"
      "\<not> all_free (lw_index w v) (wanted (lw_index w v) keys)"
proof -
  have r: "world_ok w" "planned te w" "te_held te = []" "mset (te_keys te) = mset keys" "pinned te w = v"
    "ix_mask (lw_index w v) = m"
    using assms by (simp_all add: retrying_def)
  note wk = retrying_want [OF assms]
  show thesis
  proof (cases rule: attempt_cases [OF r(1-3), unfolded r(5) wk])
    case (1 te' ix')
    then show thesis using that(1) [of te' "put_index w v ix'"] r
      by (auto simp: world_ok_def takes_def same_entries_def fun_eq_iff held_bucket_strength)
  next
    case (2 te' ix')
    have "retrying te' w2 keys v m" if "world_ok w2" "\<And>u. ix_mask (lw_index w2 u) = ix_mask (lw_index (put_index w v ix') u)" for w2
      using planned_cong [OF 2(4) that(2)] that 2 r by (auto simp: retrying_def pinned_def keeps_def same_entries_def)
    then show thesis using that(2) [of te' "put_index w v ix'"] 2 r by (auto simp: world_ok_def keeps_def)
  qed
qed

text \<open>C21: If other threads leave the buckets of a transaction free at some moment between two attempts, the
  loop that locks its keys returns, with exactly the latches its keys ask for.\<close>

lemma lock_all_keys_returns:
  assumes env: "env_ok env" and init: "retrying te w keys v m"
    and freed: "\<forall>w. world_ok w \<and> ix_mask (lw_index w v) = m \<longrightarrow>
      all_free (lw_index (env N w) v) (wanted (lw_index (env N w) v) keys)"
  shows "\<exists>te' w'. lock_all_keys env 0 te w = Some (te', w') \<and> mset (te_keys te') = mset keys \<and>
    held_bucket_exclusive te' = wanted (lw_index w' v) keys"
proof -
  have fin: "\<exists>te' w'. lock_all_keys env n te w = Some (te', w') \<and> mset (te_keys te') = mset keys \<and>
      held_bucket_exclusive te' = wanted (lw_index w' v) keys"
    if "retrying te w keys v m" "n \<le> Suc N" "n = Suc N \<Longrightarrow> all_free (lw_index w v) (wanted (lw_index w v) keys)" for n te w
    using that
  proof (induction "Suc N - n" arbitrary: n te w)
    case 0
    from 0(2) show ?case
    proof (cases rule: attempt_retry)
      case (1 te' w')
      have "wanted (lw_index w' v) keys = wanted (lw_index w v) keys"
        using 1(5) 0(2) by (intro wanted_cong) (simp add: retrying_def)
      then show ?thesis using 1 by (subst lock_all_keys.simps) simp
    next
      case (2 te' w')
      then show ?thesis using 0 by simp
    qed
  next
    case (Suc k)
    from Suc.prems(1) show ?case
    proof (cases rule: attempt_retry)
      case (1 te' w')
      have "wanted (lw_index w' v) keys = wanted (lw_index w v) keys"
        using 1(5) Suc.prems(1) by (intro wanted_cong) (simp add: retrying_def)
      then show ?thesis using 1 by (subst lock_all_keys.simps) simp
    next
      case (2 te' w')
      let ?w = "env n w'"
      have e: "world_ok ?w" "\<And>u. ix_mask (lw_index ?w u) = ix_mask (lw_index w' u)"
        using env 2(2) by (simp_all add: env_ok_def)
      have r: "retrying te' ?w keys v m" by (rule 2(4) [OF e])
      then have "ix_mask (lw_index w' v) = m" using e(2) [of v] by (simp add: retrying_def)
      then have "all_free (lw_index ?w v) (wanted (lw_index ?w v) keys)" if "n = N" using freed 2(2) that by simp
      then have "\<exists>te2 w2. lock_all_keys env (n + 1) te' ?w = Some (te2, w2) \<and> mset (te_keys te2) = mset keys \<and>
          held_bucket_exclusive te2 = wanted (lw_index w2 v) keys"
        using Suc.hyps r Suc.prems(2) by (intro Suc.hyps(1)) auto
      then show ?thesis using 2(1) by (subst lock_all_keys.simps) simp
    qed
  qed
  show ?thesis by (rule fin [OF init]) simp_all
qed

text \<open>Someone else holds a bucket, and other threads free everything between the second and third attempt.\<close>

definition freeing_env :: "nat \<Rightarrow> LockWorld \<Rightarrow> LockWorld" where
  "freeing_env n w =
     (if n = 1 then w\<lparr>lw_index := \<lambda>v. if ix_mask (lw_index w v) = 3 then index_example else lw_index w v\<rparr> else w)"

lemma freeing_env_ok: "env_ok freeing_env"
  by (simp add: env_ok_def freeing_env_def world_ok_def index_example_wf index_example_size)

lemma example_retrying: "retrying example_keys busy_world (te_keys example_keys) 0 3"
  using example_world_ok(2) example_keys_ok busy_index_ok
  by (simp add: retrying_def pinned_def example_keys_def add_key_def entries_new_def busy_world_def)

theorem lock_all_keys_returns_witness:
  "\<exists>te' w'. lock_all_keys freeing_env 0 example_keys busy_world = Some (te', w') \<and>
     mset (te_keys te') = mset (te_keys example_keys) \<and> held_bucket_exclusive te' = wanted (lw_index w' 0) (te_keys example_keys)"
proof (rule lock_all_keys_returns [OF freeing_env_ok example_retrying])
  have "all_free index_example (wanted index_example (te_keys example_keys))"
    unfolding all_free_def using wanted_less [OF index_example_wf, unfolded index_example_size] index_example_latch by blast
  then show "\<forall>w. world_ok w \<and> ix_mask (lw_index w 0) = 3 \<longrightarrow>
      all_free (lw_index (freeing_env 1 w) 0) (wanted (lw_index (freeing_env 1 w) 0) (te_keys example_keys))"
    by (simp add: freeing_env_def)
qed

text \<open>Locking with a timeout returns once the clock has passed it. It answers yes with exactly the
  latches the keys ask for, or no with nothing held, no index pinned and no plan kept.\<close>

lemma try_lock_all_keys_returns:
  assumes env: "env_ok env" and init: "retrying te w keys v m" and clock: "elapsed N"
  shows "\<exists>ok te' w'. try_lock_all_keys env elapsed 0 te w = Some (ok, te', w') \<and> mset (te_keys te') = mset keys \<and>
    (if ok then held_bucket_exclusive te' = wanted (lw_index w' v) keys
     else te_held te' = [] \<and> te_latch te' = None \<and> te_plan te' = None \<and> \<not> te_locked te')"
proof -
  have fin: "\<exists>ok te' w'. try_lock_all_keys env elapsed n te w = Some (ok, te', w') \<and> mset (te_keys te') = mset keys \<and>
      (if ok then held_bucket_exclusive te' = wanted (lw_index w' v) keys
       else te_held te' = [] \<and> te_latch te' = None \<and> te_plan te' = None \<and> \<not> te_locked te')"
    if "retrying te w keys v m" "n \<le> N" for n te w
    using that
  proof (induction "N - n" arbitrary: n te w rule: less_induct)
    case less
    from less.prems(1) show ?case
    proof (cases rule: attempt_retry)
      case (1 te' w')
      have "wanted (lw_index w' v) keys = wanted (lw_index w v) keys"
        using 1(5) less.prems(1) by (intro wanted_cong) (simp add: retrying_def)
      then show ?thesis using 1 by (subst try_lock_all_keys.simps) auto
    next
      case (2 te' w')
      have e: "world_ok (env n w')" "\<And>u. ix_mask (lw_index (env n w') u) = ix_mask (lw_index w' u)"
        using env 2(2) by (simp_all add: env_ok_def)
      note r = 2(4) [OF e]
      show ?thesis
      proof (cases "elapsed n")
        case True
        then show ?thesis using 2(1,3) r by (subst try_lock_all_keys.simps) (auto simp: retrying_def)
      next
        case False
        then have "n < N" using clock less.prems(2) by (metis le_neq_implies_less)
        then show ?thesis using 2(1) False less.hyps [OF _ r, of "n + 1"]
          by (subst try_lock_all_keys.simps) simp
      qed
    qed
  qed
  show ?thesis by (rule fin [OF init]) simp
qed

theorem try_lock_all_keys_returns_witness:
  "\<exists>ok te' w'. try_lock_all_keys (\<lambda>_ w. w) (\<lambda>n. n = 2) 0 example_keys busy_world = Some (ok, te', w') \<and>
     mset (te_keys te') = mset (te_keys example_keys) \<and>
     (if ok then held_bucket_exclusive te' = wanted (lw_index w' 0) (te_keys example_keys)
      else te_held te' = [] \<and> te_latch te' = None \<and> te_plan te' = None \<and> \<not> te_locked te')"
  by (rule try_lock_all_keys_returns [OF _ example_retrying, where N = 2]) (simp_all add: env_ok_def)

end
