(* ===== verification/TxnSystem.thy ===== *)
theory TxnSystem
  imports TxnLockProps
begin

text \<open>
  Transactions that lock, unlock and re-lock their keys at the same time. The operations of \<open>TxnLocks\<close>
  are cut into their latch operations: a session is at a program point, one latch operation (or the
  final bookkeeping) is one step, and the steps of the sessions interleave. A session pins one version
  of the index; other threads may swap the current version and change the entries at any moment.

  A latch operation is atomic here: \<open>BucketLatch\<close> shows that it appears so. An attempt to take a latch
  may also fail for no reason, as its spins may run out.
\<close>

section \<open>Program points\<close>

datatype txn_pc =
    PIdle
  | PAcquire "LockPlanSlot list"
  | PRollback "LockPlanSlot list"
  | PUnlock "LockPlanSlot list"
  | PIncr "TxnKeyEntry list" "IncrementalStep list" "IncrementalStep list"
  | PUpgrade "TxnKeyEntry list" "IncrementalStep list" nat nat "IncrementalStep list"
  | PRestore nat "IncrementalStep list"
  | PUndo "IncrementalStep list" "nat list"
  | PUndoShared nat "IncrementalStep list" "nat list"

text \<open>
  \<open>PAcquire\<close> and \<open>PRollback\<close> are the loop of \<open>acquire_plan\<close> with the slots left, \<open>PUnlock\<close> that of
  \<open>release_held\<close>. \<open>PIncr\<close> is the loop of \<open>try_lock_incremental_entries\<close> with the completed steps, latest
  first, and the steps left; \<open>PUpgrade\<close> is between giving up the shared latch and taking the exclusive
  one. \<open>PRestore\<close>, \<open>PUndo\<close> and \<open>PUndoShared\<close> are its rollback, with the buckets lost so far.
\<close>

datatype latch_op = LTake LockPlanSlot | LGive LockPlanSlot | LDone

fun pc_op :: "txn_pc \<Rightarrow> latch_op" where
  "pc_op PIdle = LDone"
| "pc_op (PAcquire []) = LDone"
| "pc_op (PAcquire (slot # _)) = LTake slot"
| "pc_op (PRollback []) = LDone"
| "pc_op (PRollback (slot # _)) = LGive slot"
| "pc_op (PUnlock []) = LDone"
| "pc_op (PUnlock (slot # _)) = LGive slot"
| "pc_op (PIncr _ _ []) = LDone"
| "pc_op (PIncr _ _ (IAcquire slot # _)) = LTake slot"
| "pc_op (PIncr _ _ (IUpgrade b _ # _)) = LGive (shared_slot b)"
| "pc_op (PUpgrade _ _ b _ _) = LTake (exclusive_slot b)"
| "pc_op (PRestore b _) = LTake (shared_slot b)"
| "pc_op (PUndo [] _) = LDone"
| "pc_op (PUndo (IAcquire slot # _) _) = LGive slot"
| "pc_op (PUndo (IUpgrade b _ # _) _) = LGive (exclusive_slot b)"
| "pc_op (PUndoShared b _ _) = LTake (shared_slot b)"

text \<open>Where a session is after its operation; the flag says whether the latch was taken.\<close>

fun pc_after :: "txn_pc \<Rightarrow> TxnKeyEntries \<Rightarrow> bool \<Rightarrow> txn_pc \<times> TxnKeyEntries" where
  "pc_after PIdle te _ = (PIdle, te)"
| "pc_after (PAcquire []) te _ = (PIdle, te\<lparr>te_locked := True\<rparr>)"
| "pc_after (PAcquire (slot # plan)) te taken =
     (if taken then (PAcquire plan, te\<lparr>te_held := te_held te @ [slot]\<rparr>)
      else (PRollback (rev (te_held te)), te\<lparr>te_held := []\<rparr>))"
| "pc_after (PRollback []) te _ = (PIdle, te)"
| "pc_after (PRollback (_ # slots)) te _ = (PRollback slots, te)"
| "pc_after (PUnlock []) te _ = (PIdle, entries_new)"
| "pc_after (PUnlock (_ # slots)) te _ = (PUnlock slots, te)"
| "pc_after (PIncr new completed []) te _ =
     (PIdle, te\<lparr>te_held := sort_key lps_bucket (fold commit_step (rev completed) (te_held te)),
                te_keys := te_keys te @ new, te_plan := None, te_locked := True\<rparr>)"
| "pc_after (PIncr new completed (IAcquire slot # steps)) te taken =
     (if taken then (PIncr new (IAcquire slot # completed) steps, te) else (PUndo completed [], te))"
| "pc_after (PIncr new completed (IUpgrade b pos # steps)) te _ = (PUpgrade new completed b pos steps, te)"
| "pc_after (PUpgrade new completed b pos steps) te taken =
     (if taken then (PIncr new (IUpgrade b pos # completed) steps, te) else (PRestore b completed, te))"
| "pc_after (PRestore b completed) te taken = (PUndo completed (if taken then [] else [b]), te)"
| "pc_after (PUndo [] lost) te _ = (PIdle, te\<lparr>te_held := fold drop_bucket lost (te_held te)\<rparr>)"
| "pc_after (PUndo (IAcquire _ # completed) lost) te _ = (PUndo completed lost, te)"
| "pc_after (PUndo (IUpgrade b _ # completed) lost) te _ = (PUndoShared b completed lost, te)"
| "pc_after (PUndoShared b completed lost) te taken = (PUndo completed (if taken then lost else lost @ [b]), te)"

definition session_step ::
  "txn_pc \<Rightarrow> TxnKeyEntries \<Rightarrow> HashIndex \<Rightarrow> ((txn_pc \<times> TxnKeyEntries) \<times> HashIndex) option" where
  "session_step pc te ix =
     (case pc_op pc of
        LTake slot \<Rightarrow> map_option (\<lambda>(taken, ix'). (pc_after pc te taken, ix')) (bucket_try_lock ix slot)
      | LGive slot \<Rightarrow> map_option (\<lambda>ix'. (pc_after pc te True, ix')) (bucket_unlock ix slot)
      | LDone \<Rightarrow> Some (pc_after pc te True, ix))"

section \<open>What a session owns\<close>

fun eff :: "IncrementalStep list \<Rightarrow> (nat \<Rightarrow> bool option) \<Rightarrow> nat \<Rightarrow> bool option" where
  "eff [] h = h"
| "eff (IAcquire slot # steps) h = (eff steps h)(lps_bucket slot \<mapsto> lps_exclusive slot)"
| "eff (IUpgrade b _ # steps) h = (eff steps h)(b \<mapsto> True)"

definition without :: "nat list \<Rightarrow> (nat \<Rightarrow> bool option) \<Rightarrow> nat \<Rightarrow> bool option" where
  "without lost h b = (if b \<in> set lost then None else h b)"

fun own :: "txn_pc \<Rightarrow> TxnKeyEntries \<Rightarrow> nat \<Rightarrow> bool option" where
  "own PIdle te = strength (te_held te)"
| "own (PAcquire _) te = strength (te_held te)"
| "own (PRollback slots) te = strength slots"
| "own (PUnlock slots) te = strength slots"
| "own (PIncr _ completed _) te = eff completed (strength (te_held te))"
| "own (PUpgrade _ completed b _ _) te = (eff completed (strength (te_held te)))(b := None)"
| "own (PRestore b completed) te = (eff completed (strength (te_held te)))(b := None)"
| "own (PUndo completed lost) te = without lost (eff completed (strength (te_held te)))"
| "own (PUndoShared b completed lost) te = (without lost (eff completed (strength (te_held te))))(b := None)"

primrec step_bucket :: "IncrementalStep \<Rightarrow> nat" where
  "step_bucket (IAcquire slot) = lps_bucket slot"
| "step_bucket (IUpgrade b _) = b"

fun step_fits :: "LockPlanSlot list \<Rightarrow> IncrementalStep \<Rightarrow> bool" where
  "step_fits held (IAcquire slot) \<longleftrightarrow> strength held (lps_bucket slot) = None"
| "step_fits held (IUpgrade b pos) \<longleftrightarrow> pos < length held \<and> held ! pos = shared_slot b"

definition steps_fit :: "LockPlanSlot list \<Rightarrow> IncrementalStep list \<Rightarrow> bool" where
  "steps_fit held steps \<longleftrightarrow> distinct (map step_bucket steps) \<and> (\<forall>step \<in> set steps. step_fits held step)"

definition lost_fit :: "LockPlanSlot list \<Rightarrow> IncrementalStep list \<Rightarrow> nat list \<Rightarrow> bool" where
  "lost_fit held completed lost \<longleftrightarrow> steps_fit held completed \<and> distinct lost \<and>
     (\<forall>b \<in> set lost. strength held b = Some False \<and> b \<notin> step_bucket ` set completed)"

abbreviation ascending :: "LockPlanSlot list \<Rightarrow> bool" where
  "ascending slots \<equiv> sorted_wrt (<) (map lps_bucket slots)"

fun pc_ok :: "txn_pc \<Rightarrow> TxnKeyEntries \<Rightarrow> bool" where
  "pc_ok PIdle te \<longleftrightarrow> ascending (te_held te)"
| "pc_ok (PAcquire plan) te \<longleftrightarrow> ascending (te_held te @ plan)"
| "pc_ok (PRollback slots) te \<longleftrightarrow> distinct (map lps_bucket slots) \<and> te_held te = []"
| "pc_ok (PUnlock slots) te \<longleftrightarrow> distinct (map lps_bucket slots) \<and> te_held te = []"
| "pc_ok (PIncr _ completed steps) te \<longleftrightarrow> ascending (te_held te) \<and> steps_fit (te_held te) (completed @ steps)"
| "pc_ok (PUpgrade _ completed b pos steps) te \<longleftrightarrow>
     ascending (te_held te) \<and> steps_fit (te_held te) (completed @ IUpgrade b pos # steps)"
| "pc_ok (PRestore b completed) te \<longleftrightarrow> ascending (te_held te) \<and> lost_fit (te_held te) completed [b]"
| "pc_ok (PUndo completed lost) te \<longleftrightarrow> ascending (te_held te) \<and> lost_fit (te_held te) completed lost"
| "pc_ok (PUndoShared b completed lost) te \<longleftrightarrow> ascending (te_held te) \<and> lost_fit (te_held te) completed (lost @ [b])"

subsection \<open>Editing the held record\<close>

lemma strength_append:
  "strength (xs @ ys) b = (case strength xs b of None \<Rightarrow> strength ys b | Some x \<Rightarrow> Some x)"
  by (induction xs) auto

lemma strength_iff:
  "distinct (map lps_bucket slots) \<Longrightarrow>
   strength slots b = Some x \<longleftrightarrow> (\<exists>slot \<in> set slots. lps_bucket slot = b \<and> lps_exclusive slot = x)"
  by (induction slots) (auto simp: image_iff)

lemma strength_set_eq:
  assumes "distinct (map lps_bucket xs)" "distinct (map lps_bucket ys)" "set xs = set ys"
  shows "strength xs = strength ys"
proof
  fix b
  have "strength xs b = Some x \<longleftrightarrow> strength ys b = Some x" for x using assms by (simp add: strength_iff)
  then show "strength xs b = strength ys b" by (metis not_Some_eq)
qed

lemma strength_sorted:
  assumes "distinct (map lps_bucket xs)"
  shows "strength (sort_key lps_bucket xs) = strength xs" "ascending (sort_key lps_bucket xs)"
proof -
  have "mset (map lps_bucket (sort_key lps_bucket xs)) = mset (map lps_bucket xs)" by simp
  then have d: "distinct (map lps_bucket (sort_key lps_bucket xs))" using assms by (metis mset_eq_imp_distinct_iff)
  then show "strength (sort_key lps_bucket xs) = strength xs" using assms by (intro strength_set_eq) simp_all
  show "ascending (sort_key lps_bucket xs)" using d by (simp add: strict_sorted_iff)
qed

lemma strength_update:
  assumes "distinct (map lps_bucket xs)" "pos < length xs" "lps_bucket (xs ! pos) = b"
  shows "strength (xs[pos := (xs ! pos)\<lparr>lps_exclusive := x\<rparr>]) = (strength xs)(b \<mapsto> x)"
  using assms
proof (induction xs arbitrary: pos)
  case (Cons s xs)
  then show ?case by (cases pos) (auto simp: fun_eq_iff)
qed simp

lemma drop_bucket_simps [simp]:
  "drop_bucket b [] = []"
  "drop_bucket b (slot # held) = (if lps_bucket slot = b then held else slot # drop_bucket b held)"
  by (simp_all add: drop_bucket_def split: option.splits)

lemma drop_bucket_set: "set (drop_bucket b held) \<subseteq> set held"
  by (induction held) auto

lemma drop_bucket_strength:
  "ascending held \<Longrightarrow> ascending (drop_bucket b held) \<and> strength (drop_bucket b held) = (strength held)(b := None)"
proof (induction held)
  case (Cons s held)
  then show ?case using drop_bucket_set [of b held] strength_None [of held b] by (auto simp: fun_eq_iff)
qed (simp add: fun_eq_iff)

lemma drop_all_strength:
  "ascending held \<Longrightarrow>
   ascending (fold drop_bucket lost held) \<and> strength (fold drop_bucket lost held) = without lost (strength held)"
proof (induction lost arbitrary: held)
  case (Cons b lost)
  then show ?case using drop_bucket_strength [of held b] by (auto simp: without_def fun_eq_iff)
qed (simp add: without_def fun_eq_iff)

lemma eff_other [simp]: "b \<notin> step_bucket ` set steps \<Longrightarrow> eff steps h b = h b"
  by (induction steps h rule: eff.induct) auto

lemma upgrade_strength: "ascending held \<Longrightarrow> step_fits held (IUpgrade b pos) \<Longrightarrow> strength held b = Some False"
  using strength_mem [of held "held ! pos"] nth_mem [of pos held] by (auto simp: shared_slot_def)

lemma commit_all:
  assumes "ascending held" "steps_fit held steps"
  shows "distinct (map lps_bucket (fold commit_step (rev steps) held)) \<and>
    strength (fold commit_step (rev steps) held) = eff steps (strength held) \<and>
    length held \<le> length (fold commit_step (rev steps) held) \<and>
    (\<forall>pos < length held. lps_bucket (held ! pos) \<notin> step_bucket ` set steps \<longrightarrow>
       fold commit_step (rev steps) held ! pos = held ! pos)"
  using assms(2)
proof (induction steps)
  case Nil
  then show ?case using sorted_buckets_distinct [OF assms(1)] by simp
next
  case (Cons step steps)
  let ?h = "fold commit_step (rev steps) held"
  have ih: "distinct (map lps_bucket ?h)" "strength ?h = eff steps (strength held)" "length held \<le> length ?h"
    "\<forall>pos < length held. lps_bucket (held ! pos) \<notin> step_bucket ` set steps \<longrightarrow> ?h ! pos = held ! pos"
    using Cons by (auto simp: steps_fit_def)
  have n: "step_bucket step \<notin> step_bucket ` set steps" "step_fits held step" using Cons.prems by (auto simp: steps_fit_def)
  show ?case
  proof (cases step)
    case (IAcquire slot)
    have none: "strength ?h (lps_bucket slot) = None" using n ih(2) IAcquire by simp
    then have "lps_bucket slot \<notin> lps_bucket ` set ?h" by (simp add: strength_None)
    then show ?thesis using ih none IAcquire
      by (auto simp: fun_eq_iff strength_append nth_append image_iff split: option.splits)
  next
    case (IUpgrade b pos)
    then have p: "pos < length ?h" "?h ! pos = shared_slot b" "held ! pos = shared_slot b" using n ih(3,4) by (auto simp: shared_slot_def)
    have "map lps_bucket (?h[pos := (?h ! pos)\<lparr>lps_exclusive := True\<rparr>]) = map lps_bucket ?h"
      using p by (simp add: map_update shared_slot_def list_update_same_conv)
    moreover have "strength (?h[pos := (?h ! pos)\<lparr>lps_exclusive := True\<rparr>]) = (strength ?h)(b \<mapsto> True)"
      using strength_update [OF ih(1) p(1), of b True] p(2) by (simp add: shared_slot_def)
    ultimately show ?thesis using ih p IUpgrade by (auto simp: nth_list_update shared_slot_def)
  qed
qed

section \<open>A session as a client of the latches\<close>

text \<open>
  What the system relies on: a session takes only latches it does not own and gives back only latches it
  owns, and what it owns changes accordingly.
\<close>

locale lock_client =
  fixes good :: "'pc \<Rightarrow> 'te \<Rightarrow> bool"
    and owns :: "'pc \<Rightarrow> 'te \<Rightarrow> nat \<Rightarrow> bool option"
    and opn :: "'pc \<Rightarrow> latch_op"
    and after :: "'pc \<Rightarrow> 'te \<Rightarrow> bool \<Rightarrow> 'pc \<times> 'te"
  assumes after_good: "good pc te \<Longrightarrow> after pc te taken = (pc', te') \<Longrightarrow> good pc' te'"
    and take_free: "good pc te \<Longrightarrow> opn pc = LTake slot \<Longrightarrow> owns pc te (lps_bucket slot) = None"
    and taken_owns: "good pc te \<Longrightarrow> opn pc = LTake slot \<Longrightarrow> after pc te True = (pc', te') \<Longrightarrow>
      owns pc' te' = (owns pc te)(lps_bucket slot \<mapsto> lps_exclusive slot)"
    and failed_owns: "good pc te \<Longrightarrow> opn pc = LTake slot \<Longrightarrow> after pc te False = (pc', te') \<Longrightarrow> owns pc' te' = owns pc te"
    and give_owned: "good pc te \<Longrightarrow> opn pc = LGive slot \<Longrightarrow> owns pc te (lps_bucket slot) = Some (lps_exclusive slot)"
    and given_owns: "good pc te \<Longrightarrow> opn pc = LGive slot \<Longrightarrow> after pc te taken = (pc', te') \<Longrightarrow>
      owns pc' te' = (owns pc te)(lps_bucket slot := None)"
    and done_owns: "good pc te \<Longrightarrow> opn pc = LDone \<Longrightarrow> after pc te taken = (pc', te') \<Longrightarrow> owns pc' te' = owns pc te"

lemmas fits_defs = steps_fit_def lost_fit_def

lemma slot_simps [simp]:
  "lps_bucket (shared_slot b) = b" "\<not> lps_exclusive (shared_slot b)"
  "lps_bucket (exclusive_slot b) = b" "lps_exclusive (exclusive_slot b)"
  by (simp_all add: shared_slot_def exclusive_slot_def)

lemma ascending_append: "ascending (xs @ [slot] @ ys) \<Longrightarrow> strength xs (lps_bucket slot) = None"
  by (auto simp: strength_None sorted_wrt_append)

lemma eff_fits:
  assumes "ascending held" "steps_fit held (completed @ step # steps)"
  shows "step_fits held step" "eff completed (strength held) (step_bucket step) = strength held (step_bucket step)"
    "steps_fit held completed" "step_bucket step \<notin> step_bucket ` set completed"
proof -
  show n: "step_bucket step \<notin> step_bucket ` set completed" using assms(2) by (auto simp: steps_fit_def)
  then show "eff completed (strength held) (step_bucket step) = strength held (step_bucket step)" by simp
  show "step_fits held step" "steps_fit held completed" using assms(2) by (auto simp: steps_fit_def)
qed

lemma incr_upgrade_owned:
  assumes "ascending held" "steps_fit held (completed @ IUpgrade b pos # steps)"
  shows "strength held b = Some False" "b \<notin> step_bucket ` set completed" "steps_fit held completed"
  using eff_fits [OF assms] upgrade_strength [OF assms(1)] by simp_all

lemma pc_after_ok: "pc_ok pc te \<Longrightarrow> pc_after pc te taken = (pc', te') \<Longrightarrow> pc_ok pc' te'"
proof (induction pc te taken rule: pc_after.induct)
  case (3 slot plan te taken)
  then show ?case
    by (auto simp: rev_map [symmetric] sorted_wrt_append strict_sorted_iff split: if_splits)
next
  case (8 new completed te uu)
  then have "distinct (map lps_bucket (fold commit_step (rev completed) (te_held te)))"
    using commit_all [of "te_held te" completed] by simp
  then show ?case using 8 strength_sorted(2) by auto
next
  case (11 new completed b pos steps te taken)
  then show ?case using incr_upgrade_owned [of "te_held te" completed b pos steps] by (auto simp: fits_defs split: if_splits)
next
  case (13 lost te uv)
  then show ?case using drop_all_strength [of "te_held te" lost] by auto
next
  case (15 b pos completed lost te ux)
  then show ?case using incr_upgrade_owned [of "te_held te" "[]" b pos completed] by (auto simp: fits_defs)
qed (auto simp: fits_defs entries_new_def split: if_splits)

interpretation txn: lock_client pc_ok own pc_op pc_after
proof unfold_locales
  show "pc_ok pc te \<Longrightarrow> pc_after pc te taken = (pc', te') \<Longrightarrow> pc_ok pc' te'" for pc te taken pc' te'
    by (rule pc_after_ok)
  show "own pc te (lps_bucket slot) = None" if "pc_ok pc te" "pc_op pc = LTake slot" for pc te slot
    using that
  proof (induction pc rule: pc_op.induct)
    case (3 s ss)
    then show ?case using ascending_append [of "te_held te" slot ss] by simp
  qed (auto simp: fits_defs)
  show "own pc' te' = (own pc te)(lps_bucket slot \<mapsto> lps_exclusive slot)"
    if "pc_ok pc te" "pc_op pc = LTake slot" "pc_after pc te True = (pc', te')" for pc te slot pc' te'
    using that
  proof (induction pc rule: pc_op.induct)
    case (3 s ss)
    then show ?case using ascending_append [of "te_held te" slot ss] by (auto simp: fun_eq_iff strength_append split: option.splits)
  qed (auto simp: fits_defs without_def fun_eq_iff)
  show "own pc' te' = own pc te" if "pc_ok pc te" "pc_op pc = LTake slot" "pc_after pc te False = (pc', te')" for pc te slot pc' te'
    using that
  proof (induction pc rule: pc_op.induct)
    case (3 s ss)
    then show ?case by (auto simp: sorted_wrt_append strict_sorted_iff rev_map [symmetric] intro!: strength_set_eq)
  qed (auto simp: without_def fun_eq_iff)
  show "own pc te (lps_bucket slot) = Some (lps_exclusive slot)" if "pc_ok pc te" "pc_op pc = LGive slot" for pc te slot
    using that
  proof (induction pc rule: pc_op.induct)
    case (10 new c b pos steps)
    then show ?case using incr_upgrade_owned [of "te_held te" c b pos steps] by auto
  qed (auto simp: fits_defs without_def)
  show "own pc' te' = (own pc te)(lps_bucket slot := None)"
    if "pc_ok pc te" "pc_op pc = LGive slot" "pc_after pc te taken = (pc', te')" for pc te slot taken pc' te'
    using that
  proof (induction pc rule: pc_op.induct)
    case (5 s ss)
    then show ?case using strength_None [of ss "lps_bucket slot"] by (auto simp: fun_eq_iff)
  next
    case (7 s ss)
    then show ?case using strength_None [of ss "lps_bucket slot"] by (auto simp: fun_eq_iff)
  qed (auto simp: fits_defs without_def fun_eq_iff)
  show "own pc' te' = own pc te" if "pc_ok pc te" "pc_op pc = LDone" "pc_after pc te taken = (pc', te')" for pc te taken pc' te'
    using that
  proof (induction pc rule: pc_op.induct)
    case (8 new c)
    then show ?case using commit_all [of "te_held te" c] strength_sorted(1) by auto
  next
    case (13 lost)
    then show ?case using drop_all_strength [of "te_held te" lost] by auto
  qed (auto simp: entries_new_def)
qed

section \<open>The latches as a ledger of owners\<close>

text \<open>
  The sessions are the numbers below \<open>n\<close>, and \<open>f s\<close> is what session \<open>s\<close> owns. The latch of a bucket
  counts the shared owners and knows whether there is an exclusive one, who then is the only owner.
\<close>

definition booked :: "nat \<Rightarrow> (nat \<Rightarrow> nat \<Rightarrow> bool option) \<Rightarrow> nat \<Rightarrow> latch \<Rightarrow> bool" where
  "booked n f b l \<longleftrightarrow>
     (l_excl l \<longleftrightarrow> (\<exists>s < n. f s b = Some True)) \<and> l_readers l = card {s. s < n \<and> f s b = Some False} \<and>
     (\<forall>s < n. \<forall>t < n. f s b = Some True \<longrightarrow> f t b \<noteq> None \<longrightarrow> t = s)"

lemma bookedI:
  assumes "l_excl l \<longleftrightarrow> (\<exists>s < n. f s b = Some True)" "l_readers l = card {s. s < n \<and> f s b = Some False}"
    and "\<And>s t. s < n \<Longrightarrow> t < n \<Longrightarrow> f s b = Some True \<Longrightarrow> f t b \<noteq> None \<Longrightarrow> t = s"
  shows "booked n f b l"
  using assms unfolding booked_def by blast

lemma bookedD:
  assumes "booked n f b l"
  shows "l_excl l \<longleftrightarrow> (\<exists>s < n. f s b = Some True)" "l_readers l = card {s. s < n \<and> f s b = Some False}"
    and "\<And>s t. s < n \<Longrightarrow> t < n \<Longrightarrow> f s b = Some True \<Longrightarrow> f t b \<noteq> None \<Longrightarrow> t = s"
  using assms unfolding booked_def by blast+

lemma booked_cong:
  assumes "\<And>s. s < n \<Longrightarrow> f s b = g s b"
  shows "booked n f b l = booked n g b l"
proof -
  have "{s. s < n \<and> f s b = Some False} = {s. s < n \<and> g s b = Some False}" using assms by auto
  then show ?thesis using assms by (simp add: booked_def cong: conj_cong imp_cong)
qed

lemma booked_take:
  assumes bk: "booked n f b l" and s: "s < n" "f s b = None" and free: "slot_free l x"
  shows "booked n (f(s := (f s)(b \<mapsto> x))) b (slot_taken l x)" (is "booked n ?g b _")
proof (cases x)
  case True
  then have z: "\<not> l_excl l" "l_readers l = 0" using free by (simp_all add: slot_free_def)
  then have "{t. t < n \<and> f t b = Some False} = {}" using bookedD(2) [OF bk] by simp
  then have none: "f t b = None" if "t < n" for t
    using z(1) bookedD(1) [OF bk] that by (cases "f t b") auto
  have "{t. t < n \<and> ?g t b = Some False} = {}" using none True by auto
  then show ?thesis using True none s z by (intro bookedI) (auto simp: slot_taken_def split: if_splits)
next
  case False
  then have z: "\<not> l_excl l" using free by (simp add: slot_free_def)
  then have nx: "f t b \<noteq> Some True" if "t < n" for t using bookedD(1) [OF bk] that by blast
  have "{t. t < n \<and> ?g t b = Some False} = insert s {t. t < n \<and> f t b = Some False}" using s False by auto
  then have "card {t. t < n \<and> ?g t b = Some False} = Suc (l_readers l)" using s bookedD(2) [OF bk] by simp
  then show ?thesis using False nx z by (intro bookedI) (auto simp: slot_taken_def split: if_splits)
qed

lemma booked_held: "booked n f b l \<Longrightarrow> s < n \<Longrightarrow> f s b = Some x \<Longrightarrow> slot_held l x"
  by (cases x) (auto simp: booked_def slot_held_def card_gt_0_iff)

lemma booked_give:
  assumes bk: "booked n f b l" and s: "s < n" "f s b = Some x"
  shows "booked n (f(s := (f s)(b := None))) b (slot_given l x)" (is "booked n ?g b _")
proof (cases x)
  case True
  then have only: "f t b = None" if "t < n" "t \<noteq> s" for t using bookedD(3) [OF bk s(1) that(1)] s(2) that(2) by (cases "f t b") auto
  have "f t b \<noteq> Some False" if "t < n" for t using only [OF that] s(2) True by (cases "t = s") auto
  then have "{t. t < n \<and> f t b = Some False} = {}" by blast
  then have "l_readers l = 0" using bookedD(2) [OF bk] by simp
  moreover have "{t. t < n \<and> ?g t b = Some False} = {}" using only by auto
  ultimately show ?thesis using True only by (intro bookedI) (auto simp: slot_given_def split: if_splits)
next
  case False
  have "{t. t < n \<and> ?g t b = Some False} = {t. t < n \<and> f t b = Some False} - {s}" by auto
  then have c: "card {t. t < n \<and> ?g t b = Some False} = l_readers l - 1" using s False bookedD(2) [OF bk] by simp
  have nx: "f t b \<noteq> Some True" if "t < n" for t using bookedD(3) [OF bk that s(1)] s(2) False by auto
  then have "\<not> l_excl l" using bookedD(1) [OF bk] by blast
  then show ?thesis using False nx c by (intro bookedI) (auto simp: slot_given_def split: if_splits)
qed

context latch_bank
begin

definition ledger :: "'ix \<Rightarrow> nat \<Rightarrow> (nat \<Rightarrow> nat \<Rightarrow> bool option) \<Rightarrow> bool" where
  "ledger ix n f \<longleftrightarrow> (\<forall>b < len ix. booked n f b (tab ix b))"

lemma ledger_take:
  assumes "wf ix" "ledger ix n f" "s < n" "lps_bucket slot < len ix" "f s (lps_bucket slot) = None"
  obtains taken ix' where "try_lock ix slot = Some (taken, ix')" "wf ix'" "same ix ix'"
    "ledger ix' n (if taken then f(s := (f s)(lps_bucket slot \<mapsto> lps_exclusive slot)) else f)"
proof -
  let ?b = "lps_bucket slot" and ?x = "lps_exclusive slot" and ?g = "f(s := (f s)(lps_bucket slot \<mapsto> lps_exclusive slot))"
  obtain ix' where t: "try_lock ix slot = Some (slot_free (tab ix ?b) ?x, ix')" "wf ix'" "same ix ix'"
    "\<forall>b < len ix. tab ix' b = (if b = ?b \<and> slot_free (tab ix b) ?x then slot_taken (tab ix b) ?x else tab ix b)"
    using try_lock_law [OF assms(1,4)] by blast
  have "booked n (if slot_free (tab ix ?b) ?x then ?g else f) b (tab ix' b)" if b: "b < len ix" for b
  proof (cases "b = ?b \<and> slot_free (tab ix ?b) ?x")
    case True
    then show ?thesis using booked_take [of n f ?b "tab ix ?b" s ?x] assms b t(4) by (simp add: ledger_def)
  next
    case False
    have "booked n (if slot_free (tab ix ?b) ?x then ?g else f) b (tab ix b) = booked n f b (tab ix b)"
      using False by (intro booked_cong) auto
    then show ?thesis using assms(2) t(4) b False by (auto simp: ledger_def)
  qed
  then show thesis using that [OF t(1-3)] same_len [OF t(3)] by (simp add: ledger_def)
qed

lemma ledger_give:
  assumes "wf ix" "ledger ix n f" "s < n" "lps_bucket slot < len ix" "f s (lps_bucket slot) = Some (lps_exclusive slot)"
  obtains ix' where "unlock ix slot = Some ix'" "wf ix'" "same ix ix'"
    "ledger ix' n (f(s := (f s)(lps_bucket slot := None)))"
proof -
  let ?b = "lps_bucket slot" and ?x = "lps_exclusive slot" and ?g = "f(s := (f s)(lps_bucket slot := None))"
  have bk: "booked n f ?b (tab ix ?b)" using assms(2,4) by (simp add: ledger_def)
  obtain ix' where u: "unlock ix slot = Some ix'" "wf ix'" "same ix ix'"
    "\<forall>b < len ix. tab ix' b = (if b = ?b then slot_given (tab ix b) ?x else tab ix b)"
    using unlock_law [OF assms(1,4) booked_held [OF bk assms(3,5)]] by blast
  have "booked n ?g b (tab ix' b)" if b: "b < len ix" for b
  proof (cases "b = ?b")
    case True
    then show ?thesis using booked_give [OF bk assms(3,5)] b u(4) by simp
  next
    case False
    have "booked n ?g b (tab ix b) = booked n f b (tab ix b)" using False by (intro booked_cong) auto
    then show ?thesis using assms(2) u(4) b False by (auto simp: ledger_def)
  qed
  then show thesis using that [OF u(1-3)] same_len [OF u(3)] by (simp add: ledger_def)
qed

end

section \<open>The system\<close>

record TxnSys =
  sy_world :: LockWorld
  sy_te :: "nat \<Rightarrow> TxnKeyEntries"
  sy_pc :: "nat \<Rightarrow> txn_pc"

definition put_session :: "TxnSys \<Rightarrow> nat \<Rightarrow> txn_pc \<times> TxnKeyEntries \<Rightarrow> TxnSys" where
  "put_session \<sigma> s r = \<sigma>\<lparr>sy_pc := (sy_pc \<sigma>)(s := fst r), sy_te := (sy_te \<sigma>)(s := snd r)\<rparr>"

definition put_version :: "TxnSys \<Rightarrow> nat \<Rightarrow> HashIndex \<Rightarrow> TxnSys" where
  "put_version \<sigma> v ix = \<sigma>\<lparr>sy_world := put_index (sy_world \<sigma>) v ix\<rparr>"

text \<open>The first step of each operation, up to its first latch operation.\<close>

definition start_lock :: "TxnKeyEntries \<Rightarrow> LockWorld \<Rightarrow> txn_pc \<times> TxnKeyEntries" where
  "start_lock te w =
     (let te' = ensure_plan te w
      in (case te_plan te' of Some (slot # plan) \<Rightarrow> PAcquire (slot # plan) | _ \<Rightarrow> PIdle, te'))"

definition start_unlock :: "TxnKeyEntries \<Rightarrow> txn_pc \<times> TxnKeyEntries" where
  "start_unlock te =
     (if te_locked te \<and> te_latch te \<noteq> None then (PUnlock (rev (te_held te)), te\<lparr>te_held := []\<rparr>)
      else (PIdle, entries_new))"

definition start_incremental :: "TxnKeyEntries \<Rightarrow> TxnKeyEntry list \<Rightarrow> LockWorld \<Rightarrow> txn_pc \<times> TxnKeyEntries" where
  "start_incremental te new w =
     (if new = [] then (PIdle, te)
      else
        let v = (case te_latch te of Some v \<Rightarrow> v | None \<Rightarrow> lw_current w);
            te = te\<lparr>te_latch := Some v\<rparr>;
            steps = incremental_steps (te_held te) (merge_slots (map (entry_slot (lw_index w v)) new))
        in if steps = [] then (PIdle, te\<lparr>te_keys := te_keys te @ new, te_plan := None\<rparr>)
           else (PIncr new [] steps, te))"

definition latch_use :: "latch \<Rightarrow> nat \<times> bool \<times> bool" where
  "latch_use l = (l_readers l, l_excl l, l_handoff l)"

definition changes_data :: "HashIndex \<Rightarrow> HashIndex \<Rightarrow> bool" where
  "changes_data ix ix' \<longleftrightarrow> index_wf ix' \<and> ix_size ix' = ix_size ix \<and> ix_mask ix' = ix_mask ix \<and>
     (\<forall>b < ix_size ix. latch_use (latch_tab ix' b) = latch_use (latch_tab ix b))"

inductive txn_step :: "nat \<Rightarrow> TxnSys \<Rightarrow> TxnSys \<Rightarrow> bool" for n where
  ts_lock: "s < n \<Longrightarrow> sy_pc \<sigma> s = PIdle \<Longrightarrow> te_held (sy_te \<sigma> s) = [] \<Longrightarrow>
    txn_step n \<sigma> (put_session \<sigma> s (start_lock (sy_te \<sigma> s) (sy_world \<sigma>)))"
| ts_unlock: "s < n \<Longrightarrow> sy_pc \<sigma> s = PIdle \<Longrightarrow> txn_step n \<sigma> (put_session \<sigma> s (start_unlock (sy_te \<sigma> s)))"
| ts_incremental: "s < n \<Longrightarrow> sy_pc \<sigma> s = PIdle \<Longrightarrow>
    txn_step n \<sigma> (put_session \<sigma> s (start_incremental (sy_te \<sigma> s) new (sy_world \<sigma>)))"
| ts_add_key: "s < n \<Longrightarrow> sy_pc \<sigma> s = PIdle \<Longrightarrow> te_plan (sy_te \<sigma> s) = None \<Longrightarrow>
    txn_step n \<sigma> (put_session \<sigma> s (PIdle, add_key (sy_te \<sigma> s) h r t))"
| ts_give_up: "s < n \<Longrightarrow> sy_pc \<sigma> s = PIdle \<Longrightarrow> te_held (sy_te \<sigma> s) = [] \<Longrightarrow>
    txn_step n \<sigma> (put_session \<sigma> s (PIdle, (sy_te \<sigma> s)\<lparr>te_latch := None, te_plan := None, te_locked := False\<rparr>))"
| ts_work: "s < n \<Longrightarrow> te_latch (sy_te \<sigma> s) = Some v \<Longrightarrow>
    session_step (sy_pc \<sigma> s) (sy_te \<sigma> s) (lw_index (sy_world \<sigma>) v) = Some (r, ix') \<Longrightarrow>
    txn_step n \<sigma> (put_session (put_version \<sigma> v ix') s r)"
| ts_spins_out: "s < n \<Longrightarrow> pc_op (sy_pc \<sigma> s) = LTake slot \<Longrightarrow>
    txn_step n \<sigma> (put_session \<sigma> s (pc_after (sy_pc \<sigma> s) (sy_te \<sigma> s) False))"
| ts_swap: "txn_step n \<sigma> (\<sigma>\<lparr>sy_world := (sy_world \<sigma>)\<lparr>lw_current := v\<rparr>\<rparr>)"
| ts_data: "changes_data (lw_index (sy_world \<sigma>) v) ix' \<Longrightarrow> txn_step n \<sigma> (put_version \<sigma> v ix')"

text \<open>Runs start with every session idle and fresh, and with the latches of every version free.\<close>

definition txn_init :: "TxnSys \<Rightarrow> bool" where
  "txn_init \<sigma> \<longleftrightarrow> world_ok (sy_world \<sigma>) \<and> (\<forall>s. sy_pc \<sigma> s = PIdle \<and> sy_te \<sigma> s = entries_new) \<and>
     (\<forall>v. \<forall>b < ix_size (lw_index (sy_world \<sigma>) v). latch_use (latch_tab (lw_index (sy_world \<sigma>) v) b) = (0, False, False))"

inductive txn_reach :: "nat \<Rightarrow> TxnSys \<Rightarrow> bool" for n where
  tr_init: "txn_init \<sigma> \<Longrightarrow> txn_reach n \<sigma>"
| tr_step: "txn_reach n \<sigma> \<Longrightarrow> txn_step n \<sigma> \<sigma>' \<Longrightarrow> txn_reach n \<sigma>'"

subsection \<open>The invariant\<close>

fun mentioned :: "txn_pc \<Rightarrow> nat set" where
  "mentioned PIdle = {}"
| "mentioned (PAcquire plan) = lps_bucket ` set plan"
| "mentioned (PRollback slots) = lps_bucket ` set slots"
| "mentioned (PUnlock slots) = lps_bucket ` set slots"
| "mentioned (PIncr _ completed steps) = step_bucket ` set (completed @ steps)"
| "mentioned (PUpgrade _ completed b _ steps) = insert b (step_bucket ` set (completed @ steps))"
| "mentioned (PRestore b completed) = insert b (step_bucket ` set completed)"
| "mentioned (PUndo completed _) = step_bucket ` set completed"
| "mentioned (PUndoShared b completed _) = insert b (step_bucket ` set completed)"

definition in_bounds :: "nat \<Rightarrow> txn_pc \<Rightarrow> TxnKeyEntries \<Rightarrow> bool" where
  "in_bounds sz pc te \<longleftrightarrow> (\<forall>b \<in> mentioned pc \<union> lps_bucket ` set (te_held te). b < sz)"

definition sess_ok :: "LockWorld \<Rightarrow> txn_pc \<Rightarrow> TxnKeyEntries \<Rightarrow> bool" where
  "sess_ok w pc te \<longleftrightarrow> pc_ok pc te \<and> planned te w \<and>
     (te_locked te \<or> te_held te = [] \<or> (\<exists>plan. pc = PAcquire plan)) \<and>
     (case te_latch te of None \<Rightarrow> pc = PIdle \<and> te_held te = [] | Some v \<Rightarrow> in_bounds (ix_size (lw_index w v)) pc te)"

definition owned :: "TxnSys \<Rightarrow> nat \<Rightarrow> nat \<Rightarrow> nat \<Rightarrow> bool option" where
  "owned \<sigma> v s = (if te_latch (sy_te \<sigma> s) = Some v then own (sy_pc \<sigma> s) (sy_te \<sigma> s) else (\<lambda>_. None))"

definition sys_ok :: "nat \<Rightarrow> TxnSys \<Rightarrow> bool" where
  "sys_ok n \<sigma> \<longleftrightarrow> world_ok (sy_world \<sigma>) \<and> (\<forall>s < n. sess_ok (sy_world \<sigma>) (sy_pc \<sigma> s) (sy_te \<sigma> s)) \<and>
     (\<forall>v. lb.ledger (lw_index (sy_world \<sigma>) v) n (owned \<sigma> v))"

end
