(* ===== verification/TxnSystemProps.thy ===== *)
theory TxnSystemProps
  imports TxnSystem
begin

text \<open>
  Properties of concurrent transactions: every reachable state satisfies the invariant of \<open>TxnSystem\<close>, so
  no step of a session is ever undefined, the held records are true, and two transactions never both
  cover a key that one of them writes. When several transactions race for their latches, at least one
  gets all of them. Run alone, a session computes what the functions of \<open>TxnLocks\<close> do.
\<close>

section \<open>The invariant is kept\<close>

lemma eff_SomeD: "eff steps h b \<noteq> None \<Longrightarrow> b \<in> step_bucket ` set steps \<or> h b \<noteq> None"
  using eff_other by metis

lemma commit_buckets:
  assumes "ascending held" "steps_fit held steps"
  shows "lps_bucket ` set (fold commit_step (rev steps) held) \<subseteq> step_bucket ` set steps \<union> lps_bucket ` set held"
proof
  fix b assume "b \<in> lps_bucket ` set (fold commit_step (rev steps) held)"
  then have "strength (fold commit_step (rev steps) held) b \<noteq> None" by (simp add: strength_None)
  then have "eff steps (strength held) b \<noteq> None" using commit_all [OF assms] by simp
  then show "b \<in> step_bucket ` set steps \<union> lps_bucket ` set held"
    using eff_SomeD [of steps "strength held" b] strength_None [of held b] by simp
qed

lemma drop_all_set: "set (fold drop_bucket lost held) \<subseteq> set held"
proof (induction lost arbitrary: held)
  case (Cons b lost)
  then show ?case using drop_bucket_set [of b held] by (metis fold_simps(2) subset_trans)
qed simp

lemma in_bounds_subset:
  "in_bounds sz pc te \<Longrightarrow>
   mentioned pc' \<union> lps_bucket ` set (te_held te') \<subseteq> mentioned pc \<union> lps_bucket ` set (te_held te) \<Longrightarrow> in_bounds sz pc' te'"
  unfolding in_bounds_def by blast

lemma after_bounds:
  "pc_ok pc te \<Longrightarrow> in_bounds sz pc te \<Longrightarrow> pc_after pc te taken = (pc', te') \<Longrightarrow> in_bounds sz pc' te'"
proof (induction pc te taken rule: pc_after.induct)
  case (8 new completed te uu)
  have "set (te_held te') = set (fold commit_step (rev completed) (te_held te))" using 8(3) by auto
  then have "lps_bucket ` set (te_held te') \<subseteq> step_bucket ` set completed \<union> lps_bucket ` set (te_held te)"
    using commit_buckets [of "te_held te" completed] 8(1) by simp
  then show ?case using 8 by (intro in_bounds_subset [OF 8(2)]) auto
next
  case (13 lost te uv)
  then show ?case using drop_all_set [of lost "te_held te"] by (intro in_bounds_subset [OF 13(2)]) auto
qed (auto simp: in_bounds_def entries_new_def split: if_splits)

lemma op_bounds:
  "in_bounds sz pc te \<Longrightarrow> pc_op pc = LTake slot \<or> pc_op pc = LGive slot \<Longrightarrow> lps_bucket slot < sz"
  by (induction pc rule: pc_op.induct) (auto simp: in_bounds_def)

lemma after_latch:
  "pc_after pc te taken = (pc', te') \<Longrightarrow> (te_latch te' = te_latch te) \<or> (pc = PUnlock [] \<and> pc' = PIdle \<and> te' = entries_new)"
  by (induction pc te taken rule: pc_after.induct) (auto split: if_splits)

lemma planned_none: "te_plan te = None \<Longrightarrow> planned te w"
  by (simp add: planned_def)

lemma after_planned: "planned te w \<Longrightarrow> pc_after pc te taken = (pc', te') \<Longrightarrow> planned te' w"
  by (induction pc te taken rule: pc_after.induct) (auto simp: planned_none entries_new_def split: if_splits)

lemma after_locked:
  "pc_ok pc te \<Longrightarrow> te_locked te \<or> te_held te = [] \<or> (\<exists>plan. pc = PAcquire plan) \<Longrightarrow> pc_after pc te taken = (pc', te') \<Longrightarrow>
   te_locked te' \<or> te_held te' = [] \<or> (\<exists>plan. pc' = PAcquire plan)"
proof (induction pc te taken rule: pc_after.induct)
  case (13 lost te uv)
  then show ?case using drop_all_set [of lost "te_held te"] by auto
qed (auto simp: entries_new_def split: if_splits)

lemma after_sess:
  assumes "sess_ok w pc te" "te_latch te = Some v" "pc_after pc te taken = (pc', te')"
  shows "sess_ok w pc' te'"
proof -
  have s: "pc_ok pc te" "planned te w" "te_locked te \<or> te_held te = [] \<or> (\<exists>plan. pc = PAcquire plan)"
    "in_bounds (ix_size (lw_index w v)) pc te"
    using assms(1,2) by (simp_all add: sess_ok_def)
  have "pc_ok pc' te'" using pc_after_ok s(1) assms(3) .
  moreover have "planned te' w" using after_planned s(2) assms(3) .
  moreover have "te_locked te' \<or> te_held te' = [] \<or> (\<exists>plan. pc' = PAcquire plan)" using after_locked s(1,3) assms(3) .
  moreover have "in_bounds (ix_size (lw_index w v)) pc' te'" using after_bounds s(1,4) assms(3) .
  ultimately show ?thesis using after_latch [OF assms(3)] assms(2) by (auto simp: sess_ok_def entries_new_def)
qed

lemma sess_ok_cong:
  assumes "\<And>v. ix_size (lw_index w' v) = ix_size (lw_index w v)" "\<And>v. ix_mask (lw_index w' v) = ix_mask (lw_index w v)"
  shows "sess_ok w pc te \<Longrightarrow> sess_ok w' pc te"
  using planned_cong [of te w w', OF _ assms(2)] by (auto simp: sess_ok_def assms(1) split: option.splits)

lemma ledger_cong:
  assumes "ix_size ix' = ix_size ix" "\<And>b. b < ix_size ix \<Longrightarrow> latch_use (latch_tab ix' b) = latch_use (latch_tab ix b)"
  shows "lb.ledger ix n f \<Longrightarrow> lb.ledger ix' n f"
  using assms by (auto simp: lb.ledger_def booked_def latch_use_def)

lemma put_session_simps [simp]:
  "sy_world (put_session \<sigma> s r) = sy_world \<sigma>" "sy_pc (put_session \<sigma> s r) = (sy_pc \<sigma>)(s := fst r)"
  "sy_te (put_session \<sigma> s r) = (sy_te \<sigma>)(s := snd r)"
  "sy_pc (put_version \<sigma> v ix) = sy_pc \<sigma>" "sy_te (put_version \<sigma> v ix) = sy_te \<sigma>"
  "sy_world (put_version \<sigma> v ix) = put_index (sy_world \<sigma>) v ix"
  by (simp_all add: put_session_def put_version_def)

lemma put_session_ok:
  assumes ok: "sys_ok n \<sigma>" and "s < n" "sess_ok (sy_world \<sigma>) (fst r) (snd r)"
    and o: "\<And>v. (if te_latch (snd r) = Some v then own (fst r) (snd r) else (\<lambda>_. None)) = owned \<sigma> v s"
  shows "sys_ok n (put_session \<sigma> s r)"
proof -
  have "owned (put_session \<sigma> s r) v = owned \<sigma> v" for v using o [of v] by (auto simp: owned_def fun_eq_iff)
  then show ?thesis using assms by (simp add: sys_ok_def)
qed

lemma sys_okD:
  assumes "sys_ok n \<sigma>"
  shows "world_ok (sy_world \<sigma>)" "s < n \<Longrightarrow> sess_ok (sy_world \<sigma>) (sy_pc \<sigma> s) (sy_te \<sigma> s)"
    "lb.ledger (lw_index (sy_world \<sigma>) v) n (owned \<sigma> v)" "index_wf (lw_index (sy_world \<sigma>) v)"
  using assms by (simp_all add: sys_ok_def world_ok_def)

subsection \<open>Starting an operation\<close>

lemma held_search_Some: "held_search held b = Some pos \<Longrightarrow> pos < length held \<and> lps_bucket (held ! pos) = b"
  by (induction held arbitrary: pos) (auto split: if_splits)

lemma held_search_None: "held_search held b = None \<longleftrightarrow> strength held b = None"
  by (simp add: strength_def)

lemma shared_slotI: "lps_bucket slot = b \<Longrightarrow> \<not> lps_exclusive slot \<Longrightarrow> slot = shared_slot b"
  by (simp add: shared_slot_def)

lemma incremental_step_fits:
  "step \<in> set (incremental_step held slot) \<Longrightarrow> step_fits held step \<and> step_bucket step = lps_bucket slot"
  using held_search_Some [of held "lps_bucket slot"]
  by (auto simp: incremental_step_def held_search_None intro: shared_slotI split: option.splits if_splits)

lemma incremental_step_one: "distinct (map step_bucket (incremental_step held slot))"
  by (auto simp: incremental_step_def split: option.splits)

lemma singleton_disjoint: "A \<subseteq> {x} \<Longrightarrow> B \<subseteq> C \<Longrightarrow> x \<notin> C \<Longrightarrow> A \<inter> B = {}"
  by blast

lemma incremental_steps_fit:
  assumes "ascending merged"
  shows "steps_fit held (incremental_steps held merged)"
    "step_bucket ` set (incremental_steps held merged) \<subseteq> lps_bucket ` set merged"
proof -
  have sub: "step_bucket ` set (incremental_steps held ms) \<subseteq> lps_bucket ` set ms" for ms
    by (auto simp: incremental_steps_def dest: incremental_step_fits)
  then show "step_bucket ` set (incremental_steps held merged) \<subseteq> lps_bucket ` set merged" .
  have "distinct (map step_bucket (incremental_steps held merged))"
    using assms
  proof (induction merged)
    case (Cons slot merged)
    have n: "lps_bucket slot \<notin> lps_bucket ` set merged" using Cons.prems by auto
    have one: "step_bucket ` set (incremental_step held slot) \<subseteq> {lps_bucket slot}" by (auto dest: incremental_step_fits)
    have "step_bucket ` set (incremental_step held slot) \<inter> step_bucket ` set (incremental_steps held merged) = {}"
      by (rule singleton_disjoint [OF one sub n])
    then show ?case using Cons incremental_step_one [of held slot] by (simp add: incremental_steps_def)
  qed (simp add: incremental_steps_def)
  then show "steps_fit held (incremental_steps held merged)"
    by (auto simp: steps_fit_def incremental_steps_def dest: incremental_step_fits)
qed

lemma start_lock_ok:
  assumes "world_ok w" "sess_ok w PIdle te" "te_held te = []" "start_lock te w = (pc', te')"
  shows "sess_ok w pc' te' \<and> own pc' te' = (\<lambda>_. None)"
proof -
  obtain plan where e: "te_plan (ensure_plan te w) = Some plan"
    "merges (map (entry_slot (lw_index w (pinned te w))) (te_keys te)) plan" "te_held (ensure_plan te w) = te_held te"
    "plan \<noteq> [] \<Longrightarrow> te_latch (ensure_plan te w) = Some (pinned te w)" "planned (ensure_plan te w) w"
    using ensure_plan_correct assms(2) unfolding sess_ok_def by metis
  have te': "te' = ensure_plan te w" "pc' = (if plan = [] then PIdle else PAcquire plan)"
    using assms(4) e(1) by (auto simp: start_lock_def Let_def split: list.splits)
  have "\<forall>slot \<in> set plan. lps_bucket slot < ix_size (lw_index w (pinned te w))"
    using assms(1) e(2) by (intro merges_less) (simp_all add: world_ok_def)
  moreover have "ascending plan" using e(2) by (simp add: merges_def)
  ultimately show ?thesis using e(1,3-5) assms(3) te'
    by (cases plan) (auto simp: sess_ok_def in_bounds_def fun_eq_iff split: option.splits)
qed

lemma start_unlock_ok:
  assumes "sess_ok w PIdle te" "start_unlock te = (pc', te')"
  shows "sess_ok w pc' te' \<and> own pc' te' = own PIdle te \<and> (te_latch te' = te_latch te \<or> te_held te = [] \<and> te' = entries_new)"
proof (cases "te_locked te \<and> te_latch te \<noteq> None")
  case True
  have a: "ascending (te_held te)" using assms(1) by (simp add: sess_ok_def)
  have d: "distinct (map lps_bucket (rev (te_held te)))" using sorted_buckets_distinct [OF a] by (simp add: rev_map [symmetric])
  have "strength (rev (te_held te)) = strength (te_held te)"
    using d sorted_buckets_distinct [OF a] by (intro strength_set_eq) simp_all
  moreover have r: "pc' = PUnlock (rev (te_held te))" "te' = te\<lparr>te_held := []\<rparr>" using assms(2) True by (simp_all add: start_unlock_def)
  ultimately show ?thesis using assms(1) d True by (auto simp: sess_ok_def in_bounds_def split: option.splits)
next
  case False
  then have "te_held te = []" using assms(1) by (auto simp: sess_ok_def split: option.splits)
  then show ?thesis using assms False by (auto simp: start_unlock_def sess_ok_def entries_new_def planned_none)
qed

lemma start_incremental_ok:
  assumes w: "world_ok w" and s: "sess_ok w PIdle te" and r: "start_incremental te new w = (pc', te')"
  shows "sess_ok w pc' te' \<and> own pc' te' = own PIdle te \<and> (te_latch te' = te_latch te \<or> te_latch te = None \<and> te_held te = [])"
proof (cases "new = []")
  case True
  then show ?thesis using s r by (simp add: start_incremental_def)
next
  case False
  define v where "v = (case te_latch te of Some v \<Rightarrow> v | None \<Rightarrow> lw_current w)"
  let ?m = "merge_slots (map (entry_slot (lw_index w v)) new)" let ?s = "incremental_steps (te_held te) ?m"
  have m: "merges (map (entry_slot (lw_index w v)) new) ?m" by (rule merge_slots_merges)
  have asc: "ascending ?m" using m by (simp add: merges_def)
  have lt: "lps_bucket ` set ?m \<subseteq> {..<ix_size (lw_index w v)}"
    using merges_less [OF _ m] w by (auto simp: world_ok_def)
  have fit: "steps_fit (te_held te) ?s" "step_bucket ` set ?s \<subseteq> {..<ix_size (lw_index w v)}"
    using incremental_steps_fit [OF asc, of "te_held te"] lt by auto
  have hb: "lps_bucket ` set (te_held te) \<subseteq> {..<ix_size (lw_index w v)}"
    using s by (auto simp: sess_ok_def v_def in_bounds_def split: option.splits)
  have a: "ascending (te_held te)" "planned te w" "te_locked te \<or> te_held te = []" using s by (simp_all add: sess_ok_def)
  show ?thesis
  proof (cases "?s = []")
    case True
    then have "pc' = PIdle" "te' = te\<lparr>te_latch := Some v, te_keys := te_keys te @ new, te_plan := None\<rparr>"
      using r False by (simp_all add: start_incremental_def v_def Let_def)
    then show ?thesis using s a hb by (auto simp: sess_ok_def planned_none in_bounds_def v_def split: option.splits)
  next
    case F: False
    then have e: "pc' = PIncr new [] ?s" "te' = te\<lparr>te_latch := Some v\<rparr>"
      using r False by (simp_all add: start_incremental_def v_def Let_def)
    have "planned te' w" using a(2) e s
      by (cases "te_latch te") (auto simp: planned_def v_def sess_ok_def merges_nil split: option.splits)
    then show ?thesis using s a hb fit e by (auto simp: sess_ok_def in_bounds_def v_def split: option.splits)
  qed
qed

subsection \<open>Latch steps\<close>

lemma put_version_ok:
  assumes ok: "sys_ok n \<sigma>" and s: "s < n" "te_latch (sy_te \<sigma> s) = Some v"
    and ix: "index_wf ix'" "same_entries (lw_index (sy_world \<sigma>) v) ix'"
    and r: "sess_ok (sy_world \<sigma>) (fst r) (snd r)" "te_latch (snd r) = Some v \<or> own (fst r) (snd r) = (\<lambda>_. None)"
    and led: "lb.ledger ix' n ((owned \<sigma> v)(s := own (fst r) (snd r)))"
  shows "sys_ok n (put_session (put_version \<sigma> v ix') s r)"
proof -
  let ?\<sigma> = "put_session (put_version \<sigma> v ix') s r"
  have sz: "ix_size (lw_index (sy_world ?\<sigma>) u) = ix_size (lw_index (sy_world \<sigma>) u)"
    "ix_mask (lw_index (sy_world ?\<sigma>) u) = ix_mask (lw_index (sy_world \<sigma>) u)" for u
    using ix(2) by (simp_all add: same_entries_def)
  have "lb.ledger (lw_index (sy_world ?\<sigma>) u) n (owned ?\<sigma> u)" for u
  proof (cases "u = v")
    case True
    have "owned ?\<sigma> v = (owned \<sigma> v)(s := own (fst r) (snd r))" using r(2) by (auto simp: owned_def fun_eq_iff)
    then show ?thesis using led True by simp
  next
    case False
    have "owned ?\<sigma> u = owned \<sigma> u" using r(2) s(2) False by (auto simp: owned_def fun_eq_iff)
    then show ?thesis using sys_okD(3) [OF ok] False by simp
  qed
  moreover have "sess_ok (sy_world ?\<sigma>) (sy_pc ?\<sigma> t) (sy_te ?\<sigma> t)" if "t < n" for t
    using sess_ok_cong [OF sz] sys_okD(2) [OF ok that] r(1) by simp
  ultimately show ?thesis using sys_okD(1) [OF ok] ix(1) by (simp add: sys_ok_def world_ok_def)
qed

text \<open>A busy session can always take its step, and the step keeps the invariant.\<close>

lemma work_ok:
  assumes ok: "sys_ok n \<sigma>" and s: "s < n" "te_latch (sy_te \<sigma> s) = Some v"
  obtains r ix' where "session_step (sy_pc \<sigma> s) (sy_te \<sigma> s) (lw_index (sy_world \<sigma>) v) = Some (r, ix')"
    "sys_ok n (put_session (put_version \<sigma> v ix') s r)" "index_wf ix'" "same_entries (lw_index (sy_world \<sigma>) v) ix'"
proof -
  let ?pc = "sy_pc \<sigma> s" and ?te = "sy_te \<sigma> s" and ?ix = "lw_index (sy_world \<sigma>) v"
  have se: "sess_ok (sy_world \<sigma>) ?pc ?te" using sys_okD(2) [OF ok s(1)] .
  have p: "pc_ok ?pc ?te" "in_bounds (ix_size ?ix) ?pc ?te" using se s(2) by (simp_all add: sess_ok_def)
  note wf = sys_okD(4) [OF ok, of v] and led = sys_okD(3) [OF ok, of v]
  have own: "owned \<sigma> v s = own ?pc ?te" using s(2) by (simp add: owned_def)
  have after: "sess_ok (sy_world \<sigma>) (fst r) (snd r) \<and> (te_latch (snd r) = Some v \<or> own (fst r) (snd r) = (\<lambda>_. None))"
    if "pc_after ?pc ?te taken = r" for taken r
    using after_sess [OF se s(2)] after_latch [of ?pc ?te taken] s(2) that by (cases r) (auto simp: entries_new_def)
  show thesis
  proof (cases "pc_op ?pc")
    case (LTake slot)
    have b: "lps_bucket slot < ix_size ?ix" using op_bounds [OF p(2)] LTake by blast
    have fr: "owned \<sigma> v s (lps_bucket slot) = None" unfolding own by (rule txn.take_free [OF p(1) LTake])
    from lb.ledger_take [OF wf led s(1) b fr] obtain taken ix' where t: "bucket_try_lock ?ix slot = Some (taken, ix')" "index_wf ix'"
      "same_entries ?ix ix'" "lb.ledger ix' n (if taken then (owned \<sigma> v)(s := (owned \<sigma> v s)(lps_bucket slot \<mapsto> lps_exclusive slot)) else owned \<sigma> v)"
      by blast
    obtain pc' te' where r: "pc_after ?pc ?te taken = (pc', te')" by fastforce
    have "own pc' te' = (if taken then (owned \<sigma> v s)(lps_bucket slot \<mapsto> lps_exclusive slot) else owned \<sigma> v s)"
      using txn.taken_owns [OF p(1) LTake] txn.failed_owns [OF p(1) LTake] r own by (cases taken) simp_all
    then have l: "lb.ledger ix' n ((owned \<sigma> v)(s := own pc' te'))" using t(4) by (cases taken) (simp_all add: fun_upd_idem)
    show thesis using that [of "(pc', te')" ix'] put_version_ok [OF ok s t(2,3), of "(pc', te')"] after [OF r] l t r LTake
      by (simp add: session_step_def)
  next
    case (LGive slot)
    have b: "lps_bucket slot < ix_size ?ix" using op_bounds [OF p(2)] LGive by blast
    have fr: "owned \<sigma> v s (lps_bucket slot) = Some (lps_exclusive slot)" unfolding own by (rule txn.give_owned [OF p(1) LGive])
    from lb.ledger_give [OF wf led s(1) b fr] obtain ix' where t: "bucket_unlock ?ix slot = Some ix'" "index_wf ix'"
      "same_entries ?ix ix'" "lb.ledger ix' n ((owned \<sigma> v)(s := (owned \<sigma> v s)(lps_bucket slot := None)))"
      by blast
    obtain pc' te' where r: "pc_after ?pc ?te True = (pc', te')" by fastforce
    have l: "lb.ledger ix' n ((owned \<sigma> v)(s := own pc' te'))" using txn.given_owns [OF p(1) LGive r] t(4) own by simp
    show thesis using that [of "(pc', te')" ix'] put_version_ok [OF ok s t(2,3), of "(pc', te')"] after [OF r] l t r LGive
      by (simp add: session_step_def)
  next
    case LDone
    obtain pc' te' where r: "pc_after ?pc ?te True = (pc', te')" by fastforce
    have l: "lb.ledger ?ix n ((owned \<sigma> v)(s := own pc' te'))" using txn.done_owns [OF p(1) LDone r] led own by (simp add: fun_upd_idem)
    show thesis using that [of "(pc', te')" ?ix] put_version_ok [OF ok s wf, of "(pc', te')"] after [OF r] l wf r LDone
      by (simp add: session_step_def)
  qed
qed

lemma step_ok: "txn_step n \<sigma> \<sigma>' \<Longrightarrow> sys_ok n \<sigma> \<Longrightarrow> sys_ok n \<sigma>'"
proof (induction rule: txn_step.induct)
  case (ts_lock s \<sigma>)
  obtain pc' te' where r: "start_lock (sy_te \<sigma> s) (sy_world \<sigma>) = (pc', te')" by fastforce
  have "sess_ok (sy_world \<sigma>) PIdle (sy_te \<sigma> s)" using sys_okD(2) [OF ts_lock(4,1)] ts_lock(2) by simp
  from start_lock_ok [OF sys_okD(1) [OF ts_lock(4)] this ts_lock(3) r] ts_lock show ?case unfolding r
    by (intro put_session_ok) (simp_all add: owned_def fun_eq_iff)
next
  case (ts_unlock s \<sigma>)
  obtain pc' te' where r: "start_unlock (sy_te \<sigma> s) = (pc', te')" by fastforce
  have "sess_ok (sy_world \<sigma>) PIdle (sy_te \<sigma> s)" using sys_okD(2) [OF ts_unlock(3,1)] ts_unlock(2) by simp
  from start_unlock_ok [OF this r] ts_unlock show ?case unfolding r
    by (intro put_session_ok) (auto simp: owned_def fun_eq_iff entries_new_def)
next
  case (ts_incremental s \<sigma> new)
  obtain pc' te' where r: "start_incremental (sy_te \<sigma> s) new (sy_world \<sigma>) = (pc', te')" by fastforce
  have "sess_ok (sy_world \<sigma>) PIdle (sy_te \<sigma> s)" using sys_okD(2) [OF ts_incremental(3,1)] ts_incremental(2) by simp
  from start_incremental_ok [OF sys_okD(1) [OF ts_incremental(3)] this r] ts_incremental show ?case unfolding r
    by (intro put_session_ok) (auto simp: owned_def fun_eq_iff)
next
  case (ts_add_key s \<sigma> h r t)
  have "sess_ok (sy_world \<sigma>) PIdle (sy_te \<sigma> s)" using sys_okD(2) [OF ts_add_key(4,1)] ts_add_key(2) by simp
  then show ?case using ts_add_key
    by (intro put_session_ok) (auto simp: owned_def add_key_def sess_ok_def planned_none in_bounds_def split: option.splits)
next
  case (ts_give_up s \<sigma>)
  have "sess_ok (sy_world \<sigma>) PIdle (sy_te \<sigma> s)" using sys_okD(2) [OF ts_give_up(4,1)] ts_give_up(2) by simp
  then show ?case using ts_give_up
    by (intro put_session_ok) (auto simp: owned_def sess_ok_def planned_none fun_eq_iff)
next
  case (ts_work s \<sigma> v r ix')
  then show ?case using work_ok [OF ts_work(4,1,2)] by (metis option.inject prod.inject)
next
  case (ts_spins_out s \<sigma> slot)
  have se: "sess_ok (sy_world \<sigma>) (sy_pc \<sigma> s) (sy_te \<sigma> s)" using sys_okD(2) [OF ts_spins_out(3,1)] .
  obtain v where v: "te_latch (sy_te \<sigma> s) = Some v" using se ts_spins_out(2) by (auto simp: sess_ok_def split: option.splits)
  have p: "pc_ok (sy_pc \<sigma> s) (sy_te \<sigma> s)" using se by (simp add: sess_ok_def)
  obtain pc' te' where r: "pc_after (sy_pc \<sigma> s) (sy_te \<sigma> s) False = (pc', te')" by fastforce
  have l: "te_latch te' = Some v" using after_latch [OF r] v ts_spins_out(2) by auto
  show ?case unfolding r using after_sess [OF se v r] txn.failed_owns [OF p ts_spins_out(2) r] ts_spins_out l v
    by (intro put_session_ok) (simp_all add: owned_def)
next
  case (ts_swap \<sigma> v)
  have "owned (\<sigma>\<lparr>sy_world := (sy_world \<sigma>)\<lparr>lw_current := v\<rparr>\<rparr>) u = owned \<sigma> u" for u by (simp add: owned_def fun_eq_iff)
  then show ?case using ts_swap sess_ok_cong [of "(sy_world \<sigma>)\<lparr>lw_current := v\<rparr>" "sy_world \<sigma>"]
    by (simp add: sys_ok_def world_ok_def)
next
  case (ts_data \<sigma> v ix')
  let ?w = "sy_world \<sigma>"
  have c: "index_wf ix'" "ix_size ix' = ix_size (lw_index ?w v)" "ix_mask ix' = ix_mask (lw_index ?w v)"
    "\<And>b. b < ix_size (lw_index ?w v) \<Longrightarrow> latch_use (latch_tab ix' b) = latch_use (latch_tab (lw_index ?w v) b)"
    using ts_data(1) by (simp_all add: changes_data_def)
  have "owned (put_version \<sigma> v ix') u = owned \<sigma> u" for u by (simp add: owned_def fun_eq_iff)
  moreover have "sess_ok (put_index ?w v ix') pc te" if "sess_ok ?w pc te" for pc te
    using sess_ok_cong [of "put_index ?w v ix'" ?w pc te] that c by simp
  moreover have "lb.ledger ix' n (owned \<sigma> v)" using ledger_cong [OF c(2,4)] sys_okD(3) [OF ts_data(2)] by blast
  ultimately show ?case using ts_data(2) c(1) by (simp add: sys_ok_def world_ok_def)
qed

lemma init_ok:
  assumes "txn_init \<sigma>"
  shows "sys_ok n \<sigma>"
proof -
  have "owned \<sigma> v = (\<lambda>_ _. None)" for v using assms by (simp add: owned_def txn_init_def entries_new_def fun_eq_iff)
  moreover have "lb.ledger (lw_index (sy_world \<sigma>) v) n (\<lambda>_ _. None)" for v
    using assms by (auto simp: lb.ledger_def booked_def txn_init_def latch_use_def)
  ultimately show ?thesis using assms by (simp add: sys_ok_def txn_init_def sess_ok_def entries_new_def planned_none)
qed

lemma reach_ok: "txn_reach n \<sigma> \<Longrightarrow> sys_ok n \<sigma>"
  by (induction rule: txn_reach.induct) (auto intro: init_ok step_ok)

section \<open>One session alone\<close>

text \<open>The state in which session \<open>s\<close> is at a program point and version \<open>v\<close> is an index.\<close>

definition at_pc :: "TxnSys \<Rightarrow> nat \<Rightarrow> nat \<Rightarrow> txn_pc \<Rightarrow> TxnKeyEntries \<Rightarrow> HashIndex \<Rightarrow> TxnSys" where
  "at_pc \<sigma> s v pc te ix = put_session (put_version \<sigma> v ix) s (pc, te)"

lemma at_pc_again: "put_session (put_version (at_pc \<sigma> s v pc te ix) v ix') s r = at_pc \<sigma> s v (fst r) (snd r) ix'"
  by (simp add: at_pc_def put_session_def put_version_def put_index_def)

lemma at_pc_step:
  assumes "s < n" "te_latch te = Some v" "session_step pc te ix = Some ((pc', te'), ix')"
  shows "txn_step n (at_pc \<sigma> s v pc te ix) (at_pc \<sigma> s v pc' te' ix')"
  using ts_work [of s n "at_pc \<sigma> s v pc te ix" v "(pc', te')" ix'] assms
  by (simp add: at_pc_again) (simp add: at_pc_def)

lemma at_pc_take:
  assumes "s < n" "te_latch te = Some v" "pc_op pc = LTake slot" "bucket_try_lock ix slot = Some (taken, ix')"
    "pc_after pc te taken = (pc', te')"
  shows "txn_step n (at_pc \<sigma> s v pc te ix) (at_pc \<sigma> s v pc' te' ix')"
  using assms by (intro at_pc_step) (simp_all add: session_step_def)

lemma at_pc_give:
  assumes "s < n" "te_latch te = Some v" "pc_op pc = LGive slot" "bucket_unlock ix slot = Some ix'"
    "pc_after pc te True = (pc', te')"
  shows "txn_step n (at_pc \<sigma> s v pc te ix) (at_pc \<sigma> s v pc' te' ix')"
  using assms by (intro at_pc_step) (simp_all add: session_step_def)

lemma at_pc_done:
  assumes "s < n" "te_latch te = Some v" "pc_op pc = LDone" "pc_after pc te True = (pc', te')"
  shows "txn_step n (at_pc \<sigma> s v pc te ix) (at_pc \<sigma> s v pc' te' ix)"
  using assms by (intro at_pc_step) (simp_all add: session_step_def)

abbreviation txn_steps :: "nat \<Rightarrow> TxnSys \<Rightarrow> TxnSys \<Rightarrow> bool" where
  "txn_steps n \<equiv> (txn_step n)\<^sup>*\<^sup>*"

lemma release_solo:
  assumes "s < n" "te_latch te = Some v" "release_slots ix slots = Some ix'"
  shows "txn_steps n (at_pc \<sigma> s v (PRollback slots) te ix) (at_pc \<sigma> s v PIdle te ix')"
    "txn_steps n (at_pc \<sigma> s v (PUnlock slots) te ix) (at_pc \<sigma> s v PIdle entries_new ix')"
  using assms(3)
proof (induction slots arbitrary: ix)
  case Nil
  { case 1 then show ?case using at_pc_done [OF assms(1,2), of "PRollback []" PIdle te \<sigma> ix] by simp }
  { case 2 then show ?case using at_pc_done [OF assms(1,2), of "PUnlock []" PIdle entries_new \<sigma> ix] by simp }
next
  case (Cons slot slots)
  { case 1
    then obtain ix1 where u: "bucket_unlock ix slot = Some ix1" "release_slots ix1 slots = Some ix'" by (auto split: option.splits)
    show ?case using at_pc_give [OF assms(1,2) _ u(1), of "PRollback (slot # slots)" "PRollback slots" te \<sigma>] Cons.IH(1) [OF u(2)]
      by (simp add: converse_rtranclp_into_rtranclp) }
  { case 2
    then obtain ix1 where u: "bucket_unlock ix slot = Some ix1" "release_slots ix1 slots = Some ix'" by (auto split: option.splits)
    show ?case using at_pc_give [OF assms(1,2) _ u(1), of "PUnlock (slot # slots)" "PUnlock slots" te \<sigma>] Cons.IH(2) [OF u(2)]
      by (simp add: converse_rtranclp_into_rtranclp) }
qed

lemma acquire_solo:
  assumes "s < n"
  shows "te_latch te = Some v \<Longrightarrow> acquire_slots ix (te_held te) plan = Some (ok, held, ix') \<Longrightarrow>
    txn_steps n (at_pc \<sigma> s v (PAcquire plan) te ix) (at_pc \<sigma> s v PIdle (te\<lparr>te_held := held, te_locked := ok \<or> te_locked te\<rparr>) ix')"
proof (induction plan arbitrary: te ix)
  case Nil
  then show ?case using at_pc_done [OF assms Nil(1), of "PAcquire []" PIdle "te\<lparr>te_locked := True\<rparr>" \<sigma> ix] by auto
next
  case (Cons slot plan)
  then obtain taken ix1 where t: "bucket_try_lock ix slot = Some (taken, ix1)" by (auto split: option.splits)
  show ?case
  proof (cases taken)
    case True
    let ?te = "te\<lparr>te_held := te_held te @ [slot]\<rparr>"
    have st: "txn_step n (at_pc \<sigma> s v (PAcquire (slot # plan)) te ix) (at_pc \<sigma> s v (PAcquire plan) ?te ix1)"
      using True by (intro at_pc_take [OF assms Cons.prems(1) _ t]) simp_all
    have "acquire_slots ix1 (te_held ?te) plan = Some (ok, held, ix')" using Cons.prems(2) t True by simp
    from Cons.IH [OF _ this] Cons.prems(1) show ?thesis using converse_rtranclp_into_rtranclp [of "txn_step n", OF st] by simp
  next
    case False
    let ?te = "te\<lparr>te_held := []\<rparr>"
    have st: "txn_step n (at_pc \<sigma> s v (PAcquire (slot # plan)) te ix) (at_pc \<sigma> s v (PRollback (rev (te_held te))) ?te ix1)"
      using False by (intro at_pc_take [OF assms Cons.prems(1) _ t]) simp_all
    have r: "release_slots ix1 (rev (te_held te)) = Some ix'" "\<not> ok" "held = []"
      using Cons.prems(2) t False by (auto split: option.splits)
    have "te_latch ?te = Some v" using Cons.prems(1) by simp
    then show ?thesis using release_solo(1) [OF assms _ r(1), of ?te v \<sigma>] converse_rtranclp_into_rtranclp [of "txn_step n", OF st] r(2,3) by simp
  qed
qed

lemma undo_solo:
  assumes s: "s < n" "te_latch te = Some v"
  shows "undo_steps ix completed lost = Some (lost', ix') \<Longrightarrow>
    txn_steps n (at_pc \<sigma> s v (PUndo completed lost) te ix)
      (at_pc \<sigma> s v PIdle (te\<lparr>te_held := fold drop_bucket lost' (te_held te)\<rparr>) ix')"
proof (induction ix completed lost rule: undo_steps.induct)
  case (1 ix lost)
  then show ?case using at_pc_done [OF s, of "PUndo [] lost" PIdle _ \<sigma> ix] by auto
next
  case (2 ix slot steps lost)
  then obtain ix1 where u: "bucket_unlock ix slot = Some ix1" by (auto split: option.splits)
  have "txn_step n (at_pc \<sigma> s v (PUndo (IAcquire slot # steps) lost) te ix) (at_pc \<sigma> s v (PUndo steps lost) te ix1)"
    by (intro at_pc_give [OF s _ u]) simp_all
  then show ?case using 2 u by (simp add: converse_rtranclp_into_rtranclp)
next
  case (3 ix b pos steps lost)
  then obtain ix1 taken ix2 where u: "bucket_unlock ix (exclusive_slot b) = Some ix1"
    "bucket_try_lock ix1 (shared_slot b) = Some (taken, ix2)"
    by (auto simp: retake_shared_def split: option.splits)
  let ?l = "if taken then lost else lost @ [b]"
  have a: "txn_step n (at_pc \<sigma> s v (PUndo (IUpgrade b pos # steps) lost) te ix) (at_pc \<sigma> s v (PUndoShared b steps lost) te ix1)"
    by (intro at_pc_give [OF s _ u(1)]) simp_all
  have b: "txn_step n (at_pc \<sigma> s v (PUndoShared b steps lost) te ix1) (at_pc \<sigma> s v (PUndo steps ?l) te ix2)"
    by (intro at_pc_take [OF s _ u(2)]) simp_all
  have "txn_steps n (at_pc \<sigma> s v (PUndo steps ?l) te ix2) (at_pc \<sigma> s v PIdle (te\<lparr>te_held := fold drop_bucket lost' (te_held te)\<rparr>) ix')"
    using 3 u by (simp add: retake_shared_def)
  then show ?case using a b by (meson converse_rtranclp_into_rtranclp)
qed

definition incr_outcome ::
  "TxnKeyEntry list \<Rightarrow> IncrementalStep list \<Rightarrow> nat list option \<Rightarrow> TxnKeyEntries \<Rightarrow> TxnKeyEntries" where
  "incr_outcome new steps res te =
     (case res of
        Some lost \<Rightarrow> te\<lparr>te_held := fold drop_bucket lost (te_held te)\<rparr>
      | None \<Rightarrow> te\<lparr>te_held := sort_key lps_bucket (fold commit_step steps (te_held te)),
                  te_keys := te_keys te @ new, te_plan := None, te_locked := True\<rparr>)"

lemma run_steps_solo:
  assumes s: "s < n" "te_latch te = Some v"
  shows "run_steps ix completed steps = Some (res, ix') \<Longrightarrow>
    txn_steps n (at_pc \<sigma> s v (PIncr new completed steps) te ix)
      (at_pc \<sigma> s v PIdle (incr_outcome new (rev completed @ steps) res te) ix')"
proof (induction ix completed steps rule: run_steps.induct)
  case (1 ix completed)
  then show ?case using at_pc_done [OF s, of "PIncr new completed []" PIdle _ \<sigma> ix] by (auto simp: incr_outcome_def)
next
  case (2 ix completed step steps)
  then obtain taken ix1 where t: "step_take ix step = Some (taken, ix1)" by (auto split: option.splits)
  have fail: "txn_steps n (at_pc \<sigma> s v (PUndo completed lost) te ix2) (at_pc \<sigma> s v PIdle (incr_outcome new xs res te) ix')"
    if "undo_steps ix2 completed lost = Some (lost', ix')" "res = Some lost'" for ix2 lost lost' xs
    using undo_solo [OF s that(1), of \<sigma>] that(2) by (simp add: incr_outcome_def)
  have more: "txn_steps n (at_pc \<sigma> s v (PIncr new (step # completed) steps) te ix1)
      (at_pc \<sigma> s v PIdle (incr_outcome new (rev completed @ step # steps) res te) ix')" if taken
    using 2(1) [OF t refl that] 2(2) t that by simp
  show ?case
  proof (cases step)
    case (IAcquire slot)
    have tk: "bucket_try_lock ix slot = Some (taken, ix1)" using t IAcquire by simp
    show ?thesis
    proof (cases taken)
      case True
      then have "txn_step n (at_pc \<sigma> s v (PIncr new completed (step # steps)) te ix) (at_pc \<sigma> s v (PIncr new (step # completed) steps) te ix1)"
        using IAcquire by (intro at_pc_take [OF s _ tk]) simp_all
      then show ?thesis using more [OF True] by (rule converse_rtranclp_into_rtranclp)
    next
      case False
      then have st: "txn_step n (at_pc \<sigma> s v (PIncr new completed (step # steps)) te ix) (at_pc \<sigma> s v (PUndo completed []) te ix1)"
        using IAcquire by (intro at_pc_take [OF s _ tk]) simp_all
      obtain lost' where r: "undo_steps ix1 completed [] = Some (lost', ix')" "res = Some lost'"
        using 2(2) t False IAcquire by (auto split: option.splits)
      show ?thesis using st fail [OF r] by (rule converse_rtranclp_into_rtranclp)
    qed
  next
    case (IUpgrade b pos)
    obtain ix0 where u: "bucket_unlock ix (shared_slot b) = Some ix0" "bucket_try_lock ix0 (exclusive_slot b) = Some (taken, ix1)"
      using t IUpgrade by (auto split: option.splits)
    have a: "txn_step n (at_pc \<sigma> s v (PIncr new completed (step # steps)) te ix) (at_pc \<sigma> s v (PUpgrade new completed b pos steps) te ix0)"
      using IUpgrade by (intro at_pc_give [OF s _ u(1)]) simp_all
    show ?thesis
    proof (cases taken)
      case True
      then have "txn_step n (at_pc \<sigma> s v (PUpgrade new completed b pos steps) te ix0) (at_pc \<sigma> s v (PIncr new (step # completed) steps) te ix1)"
        using IUpgrade by (intro at_pc_take [OF s _ u(2)]) simp_all
      then show ?thesis using a more [OF True] by (meson converse_rtranclp_into_rtranclp)
    next
      case False
      then have b: "txn_step n (at_pc \<sigma> s v (PUpgrade new completed b pos steps) te ix0) (at_pc \<sigma> s v (PRestore b completed) te ix1)"
        by (intro at_pc_take [OF s _ u(2)]) simp_all
      obtain ok ix2 lost' where r: "bucket_try_lock ix1 (shared_slot b) = Some (ok, ix2)"
        "undo_steps ix2 completed (if ok then [] else [b]) = Some (lost', ix')" "res = Some lost'"
        using 2(2) t False IUpgrade by (auto simp: retake_shared_def split: option.splits cong: if_cong)
      have "txn_step n (at_pc \<sigma> s v (PRestore b completed) te ix1) (at_pc \<sigma> s v (PUndo completed (if ok then [] else [b])) te ix2)"
        by (intro at_pc_take [OF s _ r(1)]) simp_all
      then show ?thesis using a b fail [OF r(2,3)] by (meson converse_rtranclp_into_rtranclp)
    qed
  qed
qed

text \<open>In a state that satisfies the invariant each latch operation of a session is defined.\<close>

lemma at_pc_defined:
  assumes "sys_ok n (at_pc \<sigma> s v pc te ix)" "s < n" "te_latch te = Some v"
  obtains slot taken ix' where "pc_op pc = LTake slot" "bucket_try_lock ix slot = Some (taken, ix')"
      "sys_ok n (at_pc \<sigma> s v (fst (pc_after pc te taken)) (snd (pc_after pc te taken)) ix')"
  | slot ix' where "pc_op pc = LGive slot" "bucket_unlock ix slot = Some ix'"
      "sys_ok n (at_pc \<sigma> s v (fst (pc_after pc te True)) (snd (pc_after pc te True)) ix')"
  | "pc_op pc = LDone"
proof -
  have a: "te_latch (sy_te (at_pc \<sigma> s v pc te ix) s) = Some v" "sy_pc (at_pc \<sigma> s v pc te ix) s = pc"
    "sy_te (at_pc \<sigma> s v pc te ix) s = te" "lw_index (sy_world (at_pc \<sigma> s v pc te ix)) v = ix"
    using assms(3) by (simp_all add: at_pc_def)
  obtain r ix' where w: "session_step pc te ix = Some (r, ix')" "sys_ok n (at_pc \<sigma> s v (fst r) (snd r) ix')"
    using work_ok [OF assms(1,2) a(1)] unfolding a at_pc_again by blast
  then show thesis using that by (auto simp: session_step_def split: latch_op.splits)
qed

lemma release_defined:
  assumes "s < n" "te_latch te = Some v"
  shows "sys_ok n (at_pc \<sigma> s v (PRollback slots) te ix) \<Longrightarrow> release_slots ix slots \<noteq> None"
    "sys_ok n (at_pc \<sigma> s v (PUnlock slots) te ix) \<Longrightarrow> release_slots ix slots \<noteq> None"
proof (induction slots arbitrary: ix)
  case (Cons slot slots)
  { case 1 from at_pc_defined [OF this assms] show ?case using Cons.IH(1) by cases auto }
  { case 2 from at_pc_defined [OF this assms] show ?case using Cons.IH(2) by cases auto }
qed simp_all

lemma acquire_defined:
  assumes "s < n"
  shows "te_latch te = Some v \<Longrightarrow> sys_ok n (at_pc \<sigma> s v (PAcquire plan) te ix) \<Longrightarrow> acquire_slots ix (te_held te) plan \<noteq> None"
proof (induction plan arbitrary: te ix)
  case (Cons slot plan)
  show ?case
  proof (cases rule: at_pc_defined [OF Cons.prems(2) assms Cons.prems(1)])
    case t: (1 slot' taken ix')
    show ?thesis
    proof (cases taken)
      case True
      then show ?thesis using t Cons.IH [of "te\<lparr>te_held := te_held te @ [slot]\<rparr>" ix'] Cons.prems(1) by simp
    next
      case False
      then have "release_slots ix' (rev (te_held te)) \<noteq> None"
        using t release_defined(1) [OF assms, of "te\<lparr>te_held := []\<rparr>" v \<sigma>] Cons.prems(1) by simp
      then show ?thesis using t False by auto
    qed
  qed simp_all
qed simp

lemma undo_defined:
  assumes "s < n" "te_latch te = Some v"
  shows "sys_ok n (at_pc \<sigma> s v (PUndo completed lost) te ix) \<Longrightarrow> undo_steps ix completed lost \<noteq> None"
proof (induction completed arbitrary: ix lost)
  case (Cons step completed)
  show ?case
  proof (cases rule: at_pc_defined [OF Cons.prems assms])
    case g: (2 slot ix1)
    show ?thesis
    proof (cases step)
      case (IAcquire slot')
      then show ?thesis using g Cons.IH by simp
    next
      case (IUpgrade b pos)
      then have "sys_ok n (at_pc \<sigma> s v (PUndoShared b completed lost) te ix1)" using g by simp
      from at_pc_defined [OF this assms] show ?thesis
        using g IUpgrade Cons.IH by cases (auto simp: retake_shared_def)
    qed
  qed (cases step; simp)+
qed simp

lemma run_steps_defined:
  assumes "s < n" "te_latch te = Some v"
  shows "sys_ok n (at_pc \<sigma> s v (PIncr new completed steps) te ix) \<Longrightarrow> run_steps ix completed steps \<noteq> None"
proof (induction steps arbitrary: ix completed)
  case (Cons step steps)
  note undo = undo_defined [OF assms, of \<sigma> completed]
  show ?case
  proof (cases step)
    case (IAcquire slot)
    from at_pc_defined [OF Cons.prems assms] show ?thesis
      using IAcquire Cons.IH undo [of "[]"] by cases (auto split: if_splits simp del: not_None_eq)
  next
    case (IUpgrade b pos)
    from at_pc_defined [OF Cons.prems assms] obtain ix0 where u: "bucket_unlock ix (shared_slot b) = Some ix0"
      "sys_ok n (at_pc \<sigma> s v (PUpgrade new completed b pos steps) te ix0)"
      using IUpgrade by cases auto
    from at_pc_defined [OF u(2) assms] obtain taken ix1 where t: "bucket_try_lock ix0 (exclusive_slot b) = Some (taken, ix1)"
      "if taken then sys_ok n (at_pc \<sigma> s v (PIncr new (step # completed) steps) te ix1)
       else sys_ok n (at_pc \<sigma> s v (PRestore b completed) te ix1)"
      using IUpgrade by cases (auto split: if_splits)
    show ?thesis
    proof (cases taken)
      case True
      then show ?thesis using Cons.IH t u IUpgrade by simp
    next
      case False
      then have "sys_ok n (at_pc \<sigma> s v (PRestore b completed) te ix1)" using t by simp
      from at_pc_defined [OF this assms] show ?thesis
        using t u False IUpgrade undo by cases (auto simp: retake_shared_def)
    qed
  qed
qed simp

datatype txn_call = CLock | CUnlock | CIncremental "TxnKeyEntry list"

fun run_call :: "txn_call \<Rightarrow> TxnKeyEntries \<Rightarrow> LockWorld \<Rightarrow> (TxnKeyEntries \<times> LockWorld) option" where
  "run_call CLock te w = map_option snd (try_lock_all_keys_once te w)"
| "run_call CUnlock te w = unlock_all_keys te w"
| "run_call (CIncremental new) te w = map_option snd (try_lock_incremental_entries te new w)"

definition called :: "TxnSys \<Rightarrow> nat \<Rightarrow> TxnKeyEntries \<Rightarrow> LockWorld \<Rightarrow> TxnSys" where
  "called \<sigma> s te w = \<sigma>\<lparr>sy_world := w, sy_te := (sy_te \<sigma>)(s := te)\<rparr>"

lemma at_pc_idle: "sy_pc \<sigma> s = PIdle \<Longrightarrow> at_pc \<sigma> s v PIdle te ix = called \<sigma> s te (put_index (sy_world \<sigma>) v ix)"
  by (simp add: at_pc_def put_session_def put_version_def called_def fun_upd_idem)

lemma put_idle: "sy_pc \<sigma> s = PIdle \<Longrightarrow> put_session \<sigma> s (PIdle, te) = called \<sigma> s te (sy_world \<sigma>)"
  by (simp add: put_session_def called_def fun_upd_idem)

lemma at_pc_start: "put_session \<sigma> s (pc, te) = at_pc \<sigma> s v pc te (lw_index (sy_world \<sigma>) v)"
  by (simp add: at_pc_def put_version_def)

lemma lock_call:
  assumes ok: "sys_ok n \<sigma>" and s: "s < n" "sy_pc \<sigma> s = PIdle" and h: "te_held (sy_te \<sigma> s) = []"
  shows "\<exists>te' w'. run_call CLock (sy_te \<sigma> s) (sy_world \<sigma>) = Some (te', w') \<and> txn_steps n \<sigma> (called \<sigma> s te' w')"
proof -
  let ?te = "sy_te \<sigma> s" and ?w = "sy_world \<sigma>"
  define te where "te = ensure_plan ?te ?w"
  have pl: "planned ?te ?w" using sys_okD(2) [OF ok s(1)] by (simp add: sess_ok_def)
  obtain plan where e: "te_plan te = Some plan" "te_held te = []" "plan \<noteq> [] \<Longrightarrow> te_latch te = Some (pinned ?te ?w)"
    using ensure_plan_correct [OF pl] h unfolding te_def by metis
  have st: "txn_step n \<sigma> (put_session \<sigma> s (start_lock ?te ?w))" by (rule ts_lock [OF s h])
  show ?thesis
  proof (cases plan)
    case Nil
    then have "start_lock ?te ?w = (PIdle, te)" using e(1) by (simp add: start_lock_def te_def Let_def)
    then show ?thesis using st Nil e(1) put_idle [OF s(2)]
      by (auto simp: try_lock_all_keys_once_def te_def [symmetric] Let_def)
  next
    case (Cons slot plan')
    define v where "v = pinned ?te ?w"
    have l: "te_latch te = Some v" using e(3) Cons by (simp add: v_def)
    have r: "start_lock ?te ?w = (PAcquire plan, te)" using e(1) Cons by (simp add: start_lock_def te_def Let_def)
    have st': "txn_step n \<sigma> (at_pc \<sigma> s v (PAcquire plan) te (lw_index ?w v))" using st r at_pc_start by simp
    obtain acq held ix' where a: "acquire_slots (lw_index ?w v) [] plan = Some (acq, held, ix')"
      using acquire_defined [OF s(1) l step_ok [OF st' ok]] e(2) by auto
    have "txn_steps n \<sigma> (at_pc \<sigma> s v PIdle (te\<lparr>te_held := held, te_locked := acq \<or> te_locked te\<rparr>) ix')"
      using acquire_solo [OF s(1) l, of "lw_index ?w v" plan acq held ix' \<sigma>] a e(2) converse_rtranclp_into_rtranclp [of "txn_step n", OF st'] by simp
    moreover have "run_call CLock ?te ?w = Some (te\<lparr>te_held := held, te_locked := acq \<or> te_locked te\<rparr>, put_index ?w v ix')"
      using a e(1) l Cons by (auto simp: try_lock_all_keys_once_def te_def [symmetric] acquire_plan_def Let_def)
    ultimately show ?thesis using at_pc_idle [OF s(2)] by auto
  qed
qed

lemma cleared: "te\<lparr>te_held := [], te_keys := [], te_latch := None, te_plan := None, te_locked := False\<rparr> = entries_new"
  by (simp add: entries_new_def)

lemma unlock_call:
  assumes ok: "sys_ok n \<sigma>" and s: "s < n" "sy_pc \<sigma> s = PIdle"
  shows "\<exists>te' w'. run_call CUnlock (sy_te \<sigma> s) (sy_world \<sigma>) = Some (te', w') \<and> txn_steps n \<sigma> (called \<sigma> s te' w')"
proof -
  let ?te = "sy_te \<sigma> s" and ?w = "sy_world \<sigma>"
  have st: "txn_step n \<sigma> (put_session \<sigma> s (start_unlock ?te))" by (rule ts_unlock [OF s])
  show ?thesis
  proof (cases "te_locked ?te \<and> te_latch ?te \<noteq> None")
    case True
    then obtain v where v: "te_latch ?te = Some v" by blast
    let ?te1 = "?te\<lparr>te_held := []\<rparr>"
    have l: "te_latch ?te1 = Some v" using v by simp
    have st': "txn_step n \<sigma> (at_pc \<sigma> s v (PUnlock (rev (te_held ?te))) ?te1 (lw_index ?w v))"
      using st True at_pc_start by (simp add: start_unlock_def)
    obtain ix' where r: "release_slots (lw_index ?w v) (rev (te_held ?te)) = Some ix'"
      using release_defined(2) [OF s(1) l step_ok [OF st' ok]] by auto
    have "txn_steps n \<sigma> (at_pc \<sigma> s v PIdle entries_new ix')"
      using release_solo(2) [OF s(1) l r, of \<sigma>] converse_rtranclp_into_rtranclp [of "txn_step n", OF st'] by simp
    moreover have "run_call CUnlock ?te ?w = Some (entries_new, put_index ?w v ix')"
      using r v True by (simp add: unlock_all_keys_def release_held_def entries_new_def)
    ultimately show ?thesis using at_pc_idle [OF s(2)] by auto
  next
    case False
    then have "start_unlock ?te = (PIdle, entries_new)" by (auto simp: start_unlock_def)
    then show ?thesis using st put_idle [OF s(2)] False
      by (auto simp: unlock_all_keys_def release_held_def cleared split: option.splits)
  qed
qed

lemma incremental_call:
  assumes ok: "sys_ok n \<sigma>" and s: "s < n" "sy_pc \<sigma> s = PIdle"
  shows "\<exists>te' w'. run_call (CIncremental new) (sy_te \<sigma> s) (sy_world \<sigma>) = Some (te', w') \<and> txn_steps n \<sigma> (called \<sigma> s te' w')"
proof -
  let ?te = "sy_te \<sigma> s" and ?w = "sy_world \<sigma>"
  have st: "txn_step n \<sigma> (put_session \<sigma> s (start_incremental ?te new ?w))" by (rule ts_incremental [OF s])
  define v where "v = (case te_latch ?te of Some v \<Rightarrow> v | None \<Rightarrow> lw_current ?w)"
  let ?te1 = "?te\<lparr>te_latch := Some v\<rparr>"
  let ?steps = "incremental_steps (te_held ?te) (merge_slots (map (entry_slot (lw_index ?w v)) new))"
  consider "new = []" | "new \<noteq> []" "?steps = []" | "new \<noteq> []" "?steps \<noteq> []" by blast
  then show ?thesis
  proof cases
    case 1
    then show ?thesis using st put_idle [OF s(2)] by (auto simp: start_incremental_def try_lock_incremental_entries_def)
  next
    case 2
    then show ?thesis using st put_idle [OF s(2)]
      by (auto simp: start_incremental_def try_lock_incremental_entries_def v_def [symmetric] Let_def)
  next
    case 3
    have l: "te_latch ?te1 = Some v" by simp
    have st': "txn_step n \<sigma> (at_pc \<sigma> s v (PIncr new [] ?steps) ?te1 (lw_index ?w v))"
      using st 3 at_pc_start by (simp add: start_incremental_def v_def [symmetric] Let_def)
    obtain res ix' where r: "run_steps (lw_index ?w v) [] ?steps = Some (res, ix')"
      using run_steps_defined [OF s(1) l step_ok [OF st' ok]] by auto
    have "txn_steps n \<sigma> (at_pc \<sigma> s v PIdle (incr_outcome new ?steps res ?te1) ix')"
      using run_steps_solo [OF s(1) l r, of \<sigma> new] converse_rtranclp_into_rtranclp [of "txn_step n", OF st'] by simp
    moreover have "run_call (CIncremental new) ?te ?w = Some (incr_outcome new ?steps res ?te1, put_index ?w v ix')"
      using 3 r by (auto simp: try_lock_incremental_entries_def v_def [symmetric] Let_def incr_outcome_def split: option.splits)
    ultimately show ?thesis using at_pc_idle [OF s(2)] by auto
  qed
qed

section \<open>Re-locking\<close>

text \<open>The stronger of two claims on a bucket.\<close>

fun join :: "bool option \<Rightarrow> bool option \<Rightarrow> bool option" where
  "join None y = y"
| "join x None = x"
| "join (Some x) (Some y) = Some (x \<or> y)"

lemma join_None [simp]: "join x None = x"
  by (cases x) simp_all

lemma eff_perm:
  assumes "distinct (map step_bucket steps)"
  shows "eff (rev steps) h = eff steps h"
proof -
  have ap: "eff (xs @ [step]) h = eff [step] (eff xs h)" if "distinct (map step_bucket (xs @ [step]))" for xs step
    using that by (induction xs h rule: eff.induct) (cases step; auto simp: fun_upd_twist)+
  from assms show ?thesis
  proof (induction steps)
    case (Cons step steps)
    have "distinct (map step_bucket (rev steps @ [step]))" using Cons.prems by (auto simp: rev_map [symmetric])
    from ap [OF this] Cons show ?case by (cases step) simp_all
  qed simp
qed

lemma eff_step:
  "eff (incremental_step held slot) h b =
     (if b = lps_bucket slot \<and> join (strength held b) (Some (lps_exclusive slot)) \<noteq> strength held b
      then join (strength held b) (Some (lps_exclusive slot)) else h b)"
  by (cases "held_search held (lps_bucket slot)") (auto simp: incremental_step_def strength_def)

lemma eff_append: "eff (xs @ ys) h = eff xs (eff ys h)"
  by (induction xs h rule: eff.induct) simp_all

lemma eff_incremental:
  "ascending merged \<Longrightarrow> eff (incremental_steps held merged) (strength held) b = join (strength held b) (strength merged b)"
proof (induction merged)
  case (Cons slot merged)
  have n: "strength merged (lps_bucket slot) = None" using Cons.prems by (auto simp: strength_None)
  have "eff (incremental_steps held (slot # merged)) (strength held) b =
      eff (incremental_step held slot) (eff (incremental_steps held merged) (strength held)) b"
    by (simp add: incremental_steps_def eff_append)
  then show ?case using Cons n by (auto simp: eff_step)
qed (simp add: incremental_steps_def)

text \<open>
  What the table of latches says about a completed step and about a step to come of a session that
  really holds what it records.
\<close>

fun step_done :: "HashIndex \<Rightarrow> IncrementalStep \<Rightarrow> bool" where
  "step_done ix (IAcquire slot) \<longleftrightarrow> lps_bucket slot < ix_size ix \<and> slot_held (latch_tab ix (lps_bucket slot)) (lps_exclusive slot)"
| "step_done ix (IUpgrade b _) \<longleftrightarrow> b < ix_size ix \<and> l_excl (latch_tab ix b) \<and> l_readers (latch_tab ix b) = 0"

fun step_due :: "HashIndex \<Rightarrow> IncrementalStep \<Rightarrow> bool" where
  "step_due ix (IAcquire slot) \<longleftrightarrow> lps_bucket slot < ix_size ix"
| "step_due ix (IUpgrade b _) \<longleftrightarrow> b < ix_size ix \<and> \<not> l_excl (latch_tab ix b) \<and> 0 < l_readers (latch_tab ix b)"

text \<open>Two indexes whose latches differ in one bucket at most.\<close>

definition latch_frame :: "nat \<Rightarrow> HashIndex \<Rightarrow> HashIndex \<Rightarrow> bool" where
  "latch_frame b ix ix' \<longleftrightarrow> index_wf ix' \<and> ix_size ix' = ix_size ix \<and> (\<forall>c < ix_size ix. c \<noteq> b \<longrightarrow> latch_tab ix' c = latch_tab ix c)"

lemma latch_frame_trans: "latch_frame b ix ix1 \<Longrightarrow> latch_frame b ix1 ix2 \<Longrightarrow> latch_frame b ix ix2"
  by (simp add: latch_frame_def)

lemma latch_frame_steps:
  assumes "latch_frame b ix ix'" "step_bucket step \<noteq> b"
  shows "step_done ix step \<Longrightarrow> step_done ix' step" "step_due ix step \<Longrightarrow> step_due ix' step"
  using assms by (cases step; simp add: latch_frame_def)+

lemma latch_frame_all:
  assumes "latch_frame b ix ix'" "b \<notin> step_bucket ` set steps"
  shows "\<forall>step \<in> set steps. step_done ix step \<Longrightarrow> \<forall>step \<in> set steps. step_done ix' step"
    "\<forall>step \<in> set steps. step_due ix step \<Longrightarrow> \<forall>step \<in> set steps. step_due ix' step"
proof -
  have n: "step_bucket step \<noteq> b" if "step \<in> set steps" for step using assms(2) that by blast
  show "\<forall>step \<in> set steps. step_done ix step \<Longrightarrow> \<forall>step \<in> set steps. step_done ix' step"
    using latch_frame_steps(1) [OF assms(1) n] by simp
  show "\<forall>step \<in> set steps. step_due ix step \<Longrightarrow> \<forall>step \<in> set steps. step_due ix' step"
    using latch_frame_steps(2) [OF assms(1) n] by simp
qed

lemma latch_try:
  assumes "index_wf ix" "lps_bucket slot < ix_size ix"
  shows "\<exists>ix'. bucket_try_lock ix slot = Some (slot_free (latch_tab ix (lps_bucket slot)) (lps_exclusive slot), ix') \<and>
    latch_frame (lps_bucket slot) ix ix' \<and>
    latch_tab ix' (lps_bucket slot) = (if slot_free (latch_tab ix (lps_bucket slot)) (lps_exclusive slot)
       then slot_taken (latch_tab ix (lps_bucket slot)) (lps_exclusive slot) else latch_tab ix (lps_bucket slot))"
  using index_try_lock [OF assms] assms(2) by (auto simp: latch_frame_def same_entries_def)

lemma latch_give:
  assumes "index_wf ix" "lps_bucket slot < ix_size ix" "slot_held (latch_tab ix (lps_bucket slot)) (lps_exclusive slot)"
  shows "\<exists>ix'. bucket_unlock ix slot = Some ix' \<and> latch_frame (lps_bucket slot) ix ix' \<and>
    latch_tab ix' (lps_bucket slot) = slot_given (latch_tab ix (lps_bucket slot)) (lps_exclusive slot)"
  using index_unlock [OF assms] assms(2) by (auto simp: latch_frame_def same_entries_def)

lemma retake_succeeds:
  assumes "index_wf ix" "b < ix_size ix" "\<not> l_excl (latch_tab ix b)" "l_readers (latch_tab ix b) < 8191"
  shows "\<exists>ix'. retake_shared ix b lost = Some (lost, ix') \<and> latch_frame b ix ix'"
  using latch_try [of ix "shared_slot b"] assms by (auto simp: retake_shared_def slot_free_def)

lemma undo_loses_nothing:
  "index_wf ix \<Longrightarrow> distinct (map step_bucket completed) \<Longrightarrow> \<forall>step \<in> set completed. step_done ix step \<Longrightarrow>
   \<exists>ix'. undo_steps ix completed lost = Some (lost, ix') \<and> ix_size ix' = ix_size ix"
proof (induction completed arbitrary: ix)
  case (Cons step completed)
  have rest: "\<exists>ix'. undo_steps ix1 completed lost = Some (lost, ix') \<and> ix_size ix' = ix_size ix" if "latch_frame (step_bucket step) ix ix1" for ix1
  proof -
    have "ix_size ix1 = ix_size ix" using that by (simp add: latch_frame_def)
    moreover have "\<exists>ix'. undo_steps ix1 completed lost = Some (lost, ix') \<and> ix_size ix' = ix_size ix1"
    proof (rule Cons.IH)
      show "index_wf ix1" using that by (simp add: latch_frame_def)
      show "distinct (map step_bucket completed)" using Cons.prems(2) by simp
      show "\<forall>step \<in> set completed. step_done ix1 step"
        by (rule latch_frame_all(1) [OF that]) (use Cons.prems(2,3) in simp_all)
    qed
    ultimately show ?thesis by simp
  qed
  show ?case
  proof (cases step)
    case (IAcquire slot)
    obtain ix1 where "bucket_unlock ix slot = Some ix1" "latch_frame (lps_bucket slot) ix ix1"
      using latch_give [of ix slot] Cons.prems IAcquire by auto
    then show ?thesis using rest [of ix1] IAcquire by simp
  next
    case (IUpgrade b pos)
    have d: "b < ix_size ix" "l_excl (latch_tab ix b)" "l_readers (latch_tab ix b) = 0" using Cons.prems(3) IUpgrade by simp_all
    obtain ix1 where g: "bucket_unlock ix (exclusive_slot b) = Some ix1" "latch_frame b ix ix1"
      "latch_tab ix1 b = slot_given (latch_tab ix b) True"
      using latch_give [of ix "exclusive_slot b"] Cons.prems(1) d by (auto simp: slot_held_def)
    then obtain ix2 where "retake_shared ix1 b lost = Some (lost, ix2)" "latch_frame b ix1 ix2"
      using retake_succeeds [of ix1 b lost] d by (auto simp: latch_frame_def slot_given_def)
    then show ?thesis using rest [of ix2] latch_frame_trans [OF g(2)] g(1) IUpgrade by simp
  qed
qed simp

lemma step_take_due:
  assumes "index_wf ix" "step_due ix step"
  obtains taken ix1 where "step_take ix step = Some (taken, ix1)" "latch_frame (step_bucket step) ix ix1"
    "taken \<Longrightarrow> step_done ix1 step"
    "\<not> taken \<Longrightarrow> \<exists>ix2. step_failed ix1 step = Some ([], ix2) \<and> latch_frame (step_bucket step) ix ix2"
proof (cases step)
  case (IAcquire slot)
  obtain ix1 where "bucket_try_lock ix slot = Some (slot_free (latch_tab ix (lps_bucket slot)) (lps_exclusive slot), ix1)"
    "latch_frame (lps_bucket slot) ix ix1"
    "latch_tab ix1 (lps_bucket slot) = (if slot_free (latch_tab ix (lps_bucket slot)) (lps_exclusive slot)
       then slot_taken (latch_tab ix (lps_bucket slot)) (lps_exclusive slot) else latch_tab ix (lps_bucket slot))"
    using latch_try [of ix slot] assms IAcquire by auto
  then show thesis using that [of _ ix1] assms(2) IAcquire
    by (auto simp: latch_frame_def slot_held_def slot_taken_def)
next
  case (IUpgrade b pos)
  have d: "b < ix_size ix" "\<not> l_excl (latch_tab ix b)" "0 < l_readers (latch_tab ix b)" using assms(2) IUpgrade by simp_all
  have r: "l_readers (latch_tab ix b) < 8192" using readers_less by (simp add: latch_tab_def latch_of_def)
  obtain ix0 where g: "bucket_unlock ix (shared_slot b) = Some ix0" "latch_frame b ix ix0"
    "latch_tab ix0 b = slot_given (latch_tab ix b) False"
    using latch_give [of ix "shared_slot b"] assms(1) d by (auto simp: slot_held_def)
  have wf0: "index_wf ix0" "b < ix_size ix0" using g(2) d(1) by (simp_all add: latch_frame_def)
  obtain ix1 where t: "bucket_try_lock ix0 (exclusive_slot b) = Some (slot_free (latch_tab ix0 b) True, ix1)" "latch_frame b ix0 ix1"
    "latch_tab ix1 b = (if slot_free (latch_tab ix0 b) True then slot_taken (latch_tab ix0 b) True else latch_tab ix0 b)"
    using latch_try [of ix0 "exclusive_slot b"] wf0 by auto
  have f1: "latch_frame b ix ix1" using latch_frame_trans [OF g(2) t(2)] .
  have "step_take ix step = Some (slot_free (latch_tab ix0 b) True, ix1)" using g(1) t(1) IUpgrade by simp
  moreover have "step_done ix1 step" if "slot_free (latch_tab ix0 b) True"
    using that t(3) f1 d(1) IUpgrade by (simp add: slot_free_def slot_taken_def latch_frame_def)
  moreover have "\<exists>ix2. step_failed ix1 step = Some ([], ix2) \<and> latch_frame (step_bucket step) ix ix2" if "\<not> slot_free (latch_tab ix0 b) True"
  proof -
    have "index_wf ix1" "b < ix_size ix1" "\<not> l_excl (latch_tab ix1 b)" "l_readers (latch_tab ix1 b) < 8191"
      using that t(3) g(3) d r f1 by (simp_all add: slot_given_def latch_frame_def)
    then obtain ix2 where "retake_shared ix1 b [] = Some ([], ix2)" "latch_frame b ix1 ix2" using retake_succeeds by blast
    then show ?thesis using IUpgrade latch_frame_trans [OF f1] by auto
  qed
  ultimately show thesis using that f1 IUpgrade by simp
qed

lemma run_steps_loses_nothing:
  "index_wf ix \<Longrightarrow> distinct (map step_bucket (completed @ steps)) \<Longrightarrow> \<forall>step \<in> set completed. step_done ix step \<Longrightarrow>
   \<forall>step \<in> set steps. step_due ix step \<Longrightarrow> run_steps ix completed steps = Some (Some lost, ix') \<Longrightarrow>
   lost = [] \<and> ix_size ix' = ix_size ix"
proof (induction steps arbitrary: ix completed)
  case (Cons step steps)
  obtain taken ix1 where t: "step_take ix step = Some (taken, ix1)" "latch_frame (step_bucket step) ix ix1"
    "taken \<Longrightarrow> step_done ix1 step"
    "\<not> taken \<Longrightarrow> \<exists>ix2. step_failed ix1 step = Some ([], ix2) \<and> latch_frame (step_bucket step) ix ix2"
    using step_take_due [of ix step] Cons.prems(1,4) by auto
  show ?case
  proof (cases taken)
    case True
    have "lost = [] \<and> ix_size ix' = ix_size ix1"
    proof (rule Cons.IH)
      show "index_wf ix1" using t(2) by (simp add: latch_frame_def)
      show "distinct (map step_bucket ((step # completed) @ steps))" using Cons.prems(2) by auto
      have "\<forall>s \<in> set completed. step_done ix1 s"
        by (rule latch_frame_all(1) [OF t(2)]) (use Cons.prems(2,3) in auto)
      then show "\<forall>s \<in> set (step # completed). step_done ix1 s" using t(3) [OF True] by simp
      show "\<forall>s \<in> set steps. step_due ix1 s"
        by (rule latch_frame_all(2) [OF t(2)]) (use Cons.prems(2,4) in auto)
      show "run_steps ix1 (step # completed) steps = Some (Some lost, ix')" using Cons.prems(5) t(1) True by simp
    qed
    then show ?thesis using t(2) by (simp add: latch_frame_def)
  next
    case False
    then obtain ix2 where f: "step_failed ix1 step = Some ([], ix2)" "latch_frame (step_bucket step) ix ix2" using t(4) by blast
    have "\<exists>ix'. undo_steps ix2 completed [] = Some ([], ix') \<and> ix_size ix' = ix_size ix2"
    proof (rule undo_loses_nothing)
      show "index_wf ix2" using f(2) by (simp add: latch_frame_def)
      show "distinct (map step_bucket completed)" using Cons.prems(2) by simp
      show "\<forall>s \<in> set completed. step_done ix2 s" by (rule latch_frame_all(1) [OF f(2)]) (use Cons.prems(2,3) in auto)
    qed
    then show ?thesis using Cons.prems(5) t(1) f False by (auto simp: latch_frame_def)
  qed
qed simp

lemma steps_ok: "txn_steps n \<sigma> \<sigma>' \<Longrightarrow> sys_ok n \<sigma> \<Longrightarrow> sys_ok n \<sigma>'"
  by (induction rule: rtranclp_induct) (auto dest: step_ok)

text \<open>A session that records a bucket as shared is counted among its readers.\<close>

lemma shared_owner:
  assumes ok: "sys_ok n \<sigma>" and s: "s < n" "sy_pc \<sigma> s = PIdle" and b: "strength (te_held (sy_te \<sigma> s)) b = Some False"
    and v: "v = (case te_latch (sy_te \<sigma> s) of Some v \<Rightarrow> v | None \<Rightarrow> lw_current (sy_world \<sigma>))"
    and lt: "b < ix_size (lw_index (sy_world \<sigma>) v)"
  shows "\<not> l_excl (latch_tab (lw_index (sy_world \<sigma>) v) b) \<and> 0 < l_readers (latch_tab (lw_index (sy_world \<sigma>) v) b)"
proof -
  have "te_latch (sy_te \<sigma> s) = Some v"
    using sys_okD(2) [OF ok s(1)] b v by (auto simp: sess_ok_def split: option.splits)
  then have o: "owned \<sigma> v s b = Some False" using s(2) b by (simp add: owned_def)
  have bk: "booked n (owned \<sigma> v) b (latch_tab (lw_index (sy_world \<sigma>) v) b)"
    using sys_okD(3) [OF ok, of v] lt by (simp add: lb.ledger_def)
  have "s \<in> {t. t < n \<and> owned \<sigma> v t b = Some False}" using o s(1) by simp
  then have "0 < card {t. t < n \<and> owned \<sigma> v t b = Some False}" by (intro card_gt_0_iff [THEN iffD2]) auto
  moreover have "\<not> (\<exists>t < n. owned \<sigma> v t b = Some True)" using bookedD(3) [OF bk _ s(1)] o by force
  ultimately show ?thesis using bookedD(1,2) [OF bk] by simp
qed

lemma incremental_due:
  assumes ok: "sys_ok n \<sigma>" and s: "s < n" "sy_pc \<sigma> s = PIdle"
    and v: "v = (case te_latch (sy_te \<sigma> s) of Some v \<Rightarrow> v | None \<Rightarrow> lw_current (sy_world \<sigma>))"
    and steps: "steps = incremental_steps (te_held (sy_te \<sigma> s)) (merge_slots (map (entry_slot (lw_index (sy_world \<sigma>) v)) new))"
    and x: "step \<in> set steps"
  shows "step_due (lw_index (sy_world \<sigma>) v) step"
proof -
  let ?ix = "lw_index (sy_world \<sigma>) v" and ?held = "te_held (sy_te \<sigma> s)"
  let ?m = "merge_slots (map (entry_slot ?ix) new)"
  have m: "merges (map (entry_slot ?ix) new) ?m" by (rule merge_slots_merges)
  have asc: "ascending ?m" using m by (simp add: merges_def)
  have a: "ascending ?held" using sys_okD(2) [OF ok s(1)] s(2) by (simp add: sess_ok_def)
  have "lps_bucket ` set ?m \<subseteq> {..<ix_size ?ix}" using merges_less [OF _ m] sys_okD(1) [OF ok] by (auto simp: world_ok_def)
  then have "step_bucket ` set steps \<subseteq> {..<ix_size ?ix}" using incremental_steps_fit(2) [OF asc, of ?held] steps by simp
  then have lt: "step_bucket step < ix_size ?ix" using x by (simp add: image_subset_iff)
  have fit: "step_fits ?held step" using incremental_steps_fit(1) [OF asc, of ?held] x steps by (simp add: steps_fit_def)
  show ?thesis
  proof (cases step)
    case (IUpgrade b pos)
    then show ?thesis using shared_owner [OF ok s _ v] upgrade_strength [OF a] fit lt by simp
  qed (use lt in simp)
qed

text \<open>A call that fails leaves every latch as it was, if the record is as it was.\<close>

lemma same_record_same_latches:
  assumes ok: "sys_ok n \<sigma>" "sys_ok n (called \<sigma> s te' w')" and s: "s < n" "sy_pc \<sigma> s = PIdle"
    and te: "te_held te' = te_held (sy_te \<sigma> s)" "te_latch te' = te_latch (sy_te \<sigma> s) \<or> te_latch (sy_te \<sigma> s) = None"
    and b: "b < ix_size (lw_index (sy_world \<sigma>) u)" "ix_size (lw_index w' u) = ix_size (lw_index (sy_world \<sigma>) u)"
  shows "l_excl (latch_tab (lw_index w' u) b) = l_excl (latch_tab (lw_index (sy_world \<sigma>) u) b) \<and>
    l_readers (latch_tab (lw_index w' u) b) = l_readers (latch_tab (lw_index (sy_world \<sigma>) u) b)"
proof -
  have "te_held (sy_te \<sigma> s) = []" if "te_latch (sy_te \<sigma> s) = None"
    using sys_okD(2) [OF ok(1) s(1)] that by (simp add: sess_ok_def)
  then have "owned (called \<sigma> s te' w') u t = owned \<sigma> u t" for t
    using te s(2) by (auto simp: owned_def called_def fun_eq_iff)
  then have o: "owned (called \<sigma> s te' w') u = owned \<sigma> u" by blast
  have "booked n (owned \<sigma> u) b (latch_tab (lw_index (sy_world \<sigma>) u) b)"
    using sys_okD(3) [OF ok(1), of u] b by (simp add: lb.ledger_def)
  moreover have "booked n (owned \<sigma> u) b (latch_tab (lw_index w' u) b)"
    using sys_okD(3) [OF ok(2), of u] b o by (simp add: lb.ledger_def called_def)
  ultimately show ?thesis unfolding booked_def by simp
qed

text \<open>C25: In every reachable state of concurrent transactions, a call that re-locks for new keys and is not interrupted
  either succeeds, and then each bucket is held in the stronger of the old claim and what the new keys ask for, or
  fails, and then nothing has changed: what was held is still held in the same strength, the shared latches that were
  given up for an upgrade are taken back, and every latch of every version of the index is as it was.\<close>

lemma relock_joins:
  assumes reach: "txn_reach n \<sigma>" "s < n" "sy_pc \<sigma> s = PIdle" and te: "te = sy_te \<sigma> s" and w: "w = sy_world \<sigma>"
    and r: "try_lock_incremental_entries te new w = Some (ok, te', w')"
    and v: "v = (case te_latch te of Some v \<Rightarrow> v | None \<Rightarrow> lw_current w)"
  shows "if ok
    then te_keys te' = te_keys te @ new \<and>
      (\<forall>b. held_bucket_exclusive te' b = join (held_bucket_exclusive te b) (wanted (lw_index w v) new b))
    else te_keys te' = te_keys te \<and> te_held te' = te_held te \<and>
      (\<forall>u. \<forall>b < ix_size (lw_index w u).
         l_excl (latch_tab (lw_index w' u) b) = l_excl (latch_tab (lw_index w u) b) \<and>
         l_readers (latch_tab (lw_index w' u) b) = l_readers (latch_tab (lw_index w u) b))"
proof (cases "new = []")
  case True
  then show ?thesis using r by (auto simp: try_lock_incremental_entries_def wanted_def)
next
  case False
  have ok: "sys_ok n \<sigma>" by (rule reach_ok [OF reach(1)])
  have a: "ascending (te_held te)" using sys_okD(2) [OF ok reach(2)] reach(3) te by (simp add: sess_ok_def)
  let ?m = "merge_slots (map (entry_slot (lw_index w v)) new)"
  define steps where "steps = incremental_steps (te_held te) ?m"
  have m: "merges (map (entry_slot (lw_index w v)) new) ?m" by (rule merge_slots_merges)
  then have asc: "ascending ?m" by (simp add: merges_def)
  have fit: "steps_fit (te_held te) steps" using incremental_steps_fit(1) [OF asc] by (simp add: steps_def)
  have eff: "eff steps (strength (te_held te)) b = join (strength (te_held te) b) (wanted (lw_index w v) new b)" for b
    using eff_incremental [OF asc, of "te_held te" b] merges_strength [OF m] by (simp add: steps_def)
  show ?thesis
  proof (cases "steps = []")
    case True
    then show ?thesis using r False eff
      by (auto simp: try_lock_incremental_entries_def v [symmetric] steps_def Let_def held_bucket_strength)
  next
    case F: False
    then obtain res ix' where rs: "run_steps (lw_index w v) [] steps = Some (res, ix')"
      using r False by (auto simp: try_lock_incremental_entries_def v [symmetric] steps_def Let_def split: option.splits)
    show ?thesis
    proof (cases res)
      case None
      then have te': "ok" "te_keys te' = te_keys te @ new" "te_held te' = sort_key lps_bucket (fold commit_step steps (te_held te))"
        using r rs F False by (auto simp: try_lock_incremental_entries_def v [symmetric] steps_def Let_def)
      have rf: "steps_fit (te_held te) (rev steps)" using fit by (simp add: steps_fit_def rev_map [symmetric])
      have "strength (te_held te') = eff (rev steps) (strength (te_held te))"
        using commit_all [OF a rf] strength_sorted(1) te'(3) by simp
      also have "\<dots> = eff steps (strength (te_held te))" using fit by (intro eff_perm) (simp add: steps_fit_def)
      finally show ?thesis using te' eff by (simp add: held_bucket_strength)
    next
      case (Some lost)
      have "lost = [] \<and> ix_size ix' = ix_size (lw_index w v)"
      proof (rule run_steps_loses_nothing)
        show "index_wf (lw_index w v)" using sys_okD(4) [OF ok] w by simp
        show "distinct (map step_bucket ([] @ steps))" using fit by (simp add: steps_fit_def)
        show "\<forall>step \<in> set steps. step_due (lw_index w v) step"
          using incremental_due [OF ok reach(2,3)] v steps_def unfolding te w by blast
        show "run_steps (lw_index w v) [] steps = Some (Some lost, ix')" using rs Some by simp
      qed simp
      then have te': "\<not> ok" "te_keys te' = te_keys te" "te_held te' = te_held te" "te_latch te' = Some v" "w' = put_index w v ix'"
        "ix_size ix' = ix_size (lw_index w v)"
        using r rs F False Some by (auto simp: try_lock_incremental_entries_def v [symmetric] steps_def Let_def)
      have "run_call (CIncremental new) te w = Some (te', w')" using r by simp
      then have "txn_steps n \<sigma> (called \<sigma> s te' w')" using incremental_call [OF ok reach(2,3), of new] te w by auto
      then have ok': "sys_ok n (called \<sigma> s te' w')" using ok by (rule steps_ok)
      have "te_latch te' = te_latch te \<or> te_latch te = None" using te'(4) v by (cases "te_latch te") simp_all
      then show ?thesis using te' same_record_same_latches [OF ok ok' reach(2,3)] te w by (simp add: put_index_def)
    qed
  qed
qed

section \<open>Properties\<close>

text \<open>C32: In every reachable state of concurrent transactions each of the calls that lock, unlock and re-lock
  keys returns when a session makes it without interruption, and its result is a run of the
  interleaved system.\<close>

lemma calls_are_runs:
  assumes "txn_reach n \<sigma>" "s < n" "sy_pc \<sigma> s = PIdle" "call = CLock \<Longrightarrow> te_held (sy_te \<sigma> s) = []"
  shows "\<exists>te' w'. run_call call (sy_te \<sigma> s) (sy_world \<sigma>) = Some (te', w') \<and> txn_steps n \<sigma> (called \<sigma> s te' w')"
  using lock_call [OF reach_ok [OF assms(1)] assms(2,3)] unlock_call [OF reach_ok [OF assms(1)] assms(2,3)]
    incremental_call [OF reach_ok [OF assms(1)] assms(2,3)] assms(4)
  by (cases call) blast+

text \<open>C26: In every interleaving every session is well-formed, and a session that is in the middle of an
  operation can always take its next step: no latch operation is ever undefined.\<close>

lemma sessions_never_stuck:
  assumes "txn_reach n \<sigma>" "s < n"
  shows "sess_ok (sy_world \<sigma>) (sy_pc \<sigma> s) (sy_te \<sigma> s) \<and>
    (sy_pc \<sigma> s \<noteq> PIdle \<longrightarrow>
       (\<exists>v r ix'. te_latch (sy_te \<sigma> s) = Some v \<and>
          session_step (sy_pc \<sigma> s) (sy_te \<sigma> s) (lw_index (sy_world \<sigma>) v) = Some (r, ix')))"
proof (intro conjI impI)
  show se: "sess_ok (sy_world \<sigma>) (sy_pc \<sigma> s) (sy_te \<sigma> s)" using sys_okD(2) [OF reach_ok [OF assms(1)] assms(2)] .
  assume "sy_pc \<sigma> s \<noteq> PIdle"
  then obtain v where v: "te_latch (sy_te \<sigma> s) = Some v" using se by (auto simp: sess_ok_def split: option.splits)
  show "\<exists>v r ix'. te_latch (sy_te \<sigma> s) = Some v \<and>
      session_step (sy_pc \<sigma> s) (sy_te \<sigma> s) (lw_index (sy_world \<sigma>) v) = Some (r, ix')"
    using work_ok [OF reach_ok [OF assms(1)] assms(2) v] se v by blast
qed

lemma covers_strength:
  assumes "covers_user_keys H te w prefix keys x" "key \<in> set keys" "te_latch te = Some v"
  obtains y where "strength (te_held te) (bucket_index_for_hash (lw_index w v) (H prefix key)) = Some y" "x \<longrightarrow> y"
  using assms by (auto simp: covers_user_keys_def strength_def list_all_iff split: option.splits if_splits)

text \<open>C4: In every interleaving, if a transaction covers a key for writing, no other transaction on the same
  version of the index covers that key, for reading or for writing, whenever both are between their calls.\<close>

lemma transactions_exclude:
  assumes "txn_reach n \<sigma>" "s < n" "t < n" "s \<noteq> t" "sy_pc \<sigma> s = PIdle" "sy_pc \<sigma> t = PIdle"
    and "te_latch (sy_te \<sigma> s) = Some v" "te_latch (sy_te \<sigma> t) = Some v"
    and "key \<in> set keys" "key \<in> set keys'"
    and "covers_user_keys H (sy_te \<sigma> s) (sy_world \<sigma>) prefix keys True"
  shows "\<not> covers_user_keys H (sy_te \<sigma> t) (sy_world \<sigma>) prefix keys' require_exclusive"
proof
  assume c: "covers_user_keys H (sy_te \<sigma> t) (sy_world \<sigma>) prefix keys' require_exclusive"
  let ?b = "bucket_index_for_hash (lw_index (sy_world \<sigma>) v) (H prefix key)"
  have ok: "sys_ok n \<sigma>" by (rule reach_ok [OF assms(1)])
  obtain y where y: "owned \<sigma> v t ?b = Some y"
    using covers_strength [OF c assms(10,8)] assms(6,8) by (auto simp: owned_def)
  obtain x where x: "owned \<sigma> v s ?b = Some True"
    using covers_strength [OF assms(11,9,7)] assms(5,7) by (auto simp: owned_def)
  have "booked n (owned \<sigma> v) ?b (latch_tab (lw_index (sy_world \<sigma>) v) ?b)"
    using sys_okD(3) [OF ok, of v] wf_bucket_less [OF sys_okD(4) [OF ok]] by (simp add: lb.ledger_def)
  from bookedD(3) [OF this assms(2,3) x] y assms(4) show False by simp
qed

text \<open>C18: In every reachable state in which no operation is running, the latches are exactly what the held
  records say: a bucket is latched exclusively if and only if some transaction records it so, and its
  reader count is the number of transactions that record it as shared. No latch is leaked or half held.\<close>

lemma held_records_account:
  assumes "txn_reach n \<sigma>" "\<forall>s < n. sy_pc \<sigma> s = PIdle" "b < ix_size (lw_index (sy_world \<sigma>) v)"
  shows "(l_excl (latch_tab (lw_index (sy_world \<sigma>) v) b) \<longleftrightarrow>
      (\<exists>s < n. te_latch (sy_te \<sigma> s) = Some v \<and> held_bucket_exclusive (sy_te \<sigma> s) b = Some True)) \<and>
    l_readers (latch_tab (lw_index (sy_world \<sigma>) v) b) =
      card {s. s < n \<and> te_latch (sy_te \<sigma> s) = Some v \<and> held_bucket_exclusive (sy_te \<sigma> s) b = Some False}"
proof -
  have bk: "booked n (owned \<sigma> v) b (latch_tab (lw_index (sy_world \<sigma>) v) b)"
    using sys_okD(3) [OF reach_ok [OF assms(1)], of v] assms(3) by (simp add: lb.ledger_def)
  have o: "owned \<sigma> v s b = Some x \<longleftrightarrow> te_latch (sy_te \<sigma> s) = Some v \<and> held_bucket_exclusive (sy_te \<sigma> s) b = Some x" if "s < n" for s x
    using assms(2) that by (simp add: owned_def held_bucket_strength)
  have "{s. s < n \<and> owned \<sigma> v s b = Some False} =
      {s. s < n \<and> te_latch (sy_te \<sigma> s) = Some v \<and> held_bucket_exclusive (sy_te \<sigma> s) b = Some False}" using o by auto
  then show ?thesis using bookedD(1,2) [OF bk] o by auto
qed

section \<open>An example\<close>

text \<open>Two sessions want the same bucket; both are about to take it.\<close>

definition rival :: TxnKeyEntries where
  "rival = \<lparr>te_keys = [txn_key_entry_new 5 5 Exclusive], te_locked = False, te_held = [], te_latch = Some 0,
     te_plan = Some [exclusive_slot 1]\<rparr>"

definition rivals :: TxnSys where
  "rivals = \<lparr>sy_world = example_world, sy_te = (\<lambda>_. entries_new)(0 := rival, 1 := rival),
     sy_pc = (\<lambda>_. PIdle)(0 := PAcquire [exclusive_slot 1], 1 := PAcquire [exclusive_slot 1])\<rparr>"

text \<open>One of them has won and the other has given up.\<close>

definition won_index :: HashIndex where
  "won_index = snd (the (bucket_try_lock index_example (exclusive_slot 1)))"

definition won :: TxnSys where
  "won = \<lparr>sy_world = put_index example_world 0 won_index,
     sy_te = (\<lambda>_. entries_new)(0 := rival\<lparr>te_held := [exclusive_slot 1], te_locked := True\<rparr>, 1 := rival),
     sy_pc = \<lambda>_. PIdle\<rparr>"

lemma rival_starts: "start_lock (add_key entries_new 5 5 Exclusive) example_world = (PAcquire [exclusive_slot 1], rival)"
proof -
  have "ensure_plan (add_key entries_new 5 5 Exclusive) example_world = rival"
    by (simp add: ensure_plan_def add_key_def entries_new_def lock_plan_def push_slot_def entry_slot_def rival_def exclusive_slot_def
        txn_key_entry_new_def bucket_index_for_hash_def example_world_def index_example_size Let_def)
  then show ?thesis by (simp add: start_lock_def Let_def) (simp add: rival_def)
qed

lemma example_init: "txn_init \<lparr>sy_world = example_world, sy_te = \<lambda>_. entries_new, sy_pc = \<lambda>_. PIdle\<rparr>"
proof -
  have "latch_use (latch_tab index_example b) = (0, False, False)" if "b < 4" for b
    using that by (simp add: latch_use_def latch_tab_def latch_word_def index_example_def empty_index_def latch_of_def readers_def
        bucket_new_def bucket_latch_word_def bucket_consts num_latched_shared_def)
  then show ?thesis using example_world_ok(1) by (simp add: txn_init_def) (simp add: example_world_def index_example_size)
qed

lemma start_rival:
  assumes "txn_reach n \<sigma>" "s < n" "sy_pc \<sigma> s = PIdle" "sy_te \<sigma> s = entries_new" "sy_world \<sigma> = example_world"
  shows "txn_reach n (put_session \<sigma> s (PAcquire [exclusive_slot 1], rival))"
proof -
  let ?\<sigma> = "put_session \<sigma> s (PIdle, add_key entries_new 5 5 Exclusive)"
  have "txn_reach n ?\<sigma>"
    using tr_step [OF assms(1) ts_add_key [OF assms(2,3), of 5 5 Exclusive]] assms(4) by (simp add: entries_new_def)
  moreover have "te_held (sy_te ?\<sigma> s) = []" by (simp add: add_key_def entries_new_def)
  ultimately have "txn_reach n (put_session ?\<sigma> s (start_lock (sy_te ?\<sigma> s) (sy_world ?\<sigma>)))"
    using assms(2) by (intro tr_step [OF _ ts_lock]) simp_all
  then show ?thesis using assms(5) rival_starts by (simp add: put_session_def)
qed

lemma rivals_reached: "txn_reach 2 rivals"
proof -
  let ?\<sigma> = "\<lparr>sy_world = example_world, sy_te = \<lambda>_. entries_new, sy_pc = \<lambda>_. PIdle\<rparr>"
  have r: "txn_reach 2 (put_session ?\<sigma> 0 (PAcquire [exclusive_slot 1], rival))"
    by (intro start_rival tr_init example_init) simp_all
  have "txn_reach 2 (put_session (put_session ?\<sigma> 0 (PAcquire [exclusive_slot 1], rival)) 1 (PAcquire [exclusive_slot 1], rival))"
    by (rule start_rival [OF r]) simp_all
  moreover have "put_session (put_session ?\<sigma> 0 (PAcquire [exclusive_slot 1], rival)) 1 (PAcquire [exclusive_slot 1], rival) = rivals"
    by (simp add: put_session_def rivals_def)
  ultimately show ?thesis by simp
qed

lemma won_index_taken: "bucket_try_lock index_example (exclusive_slot 1) = Some (True, won_index)"
proof -
  obtain ix' where "bucket_try_lock index_example (exclusive_slot 1) = Some (True, ix')"
    using index_try_lock [OF index_example_wf, of "exclusive_slot 1"] index_example_latch [of 1 True] by (auto simp: index_example_size)
  then show ?thesis by (simp add: won_index_def)
qed

lemma won_reached: "txn_reach 2 won"
proof -
  let ?p = "PAcquire [exclusive_slot 1]" and ?te = "rival\<lparr>te_held := [exclusive_slot 1]\<rparr>"
  have l: "te_latch rival = Some 0" "te_latch ?te = Some 0" "te_held rival = []" "rival\<lparr>te_held := []\<rparr> = rival"
    by (simp_all add: rival_def)
  have e: "rivals = at_pc rivals 0 0 ?p rival index_example"
    by (simp add: at_pc_def put_session_def put_version_def put_index_def rivals_def example_world_def fun_eq_iff)
  have s1: "txn_step 2 (at_pc rivals 0 0 ?p rival index_example) (at_pc rivals 0 0 (PAcquire []) ?te won_index)"
    using l by (intro at_pc_take [OF _ _ _ won_index_taken]) (simp_all add: rival_def)
  have s2: "txn_step 2 (at_pc rivals 0 0 (PAcquire []) ?te won_index) (at_pc rivals 0 0 PIdle (?te\<lparr>te_locked := True\<rparr>) won_index)"
    using l by (intro at_pc_done) simp_all
  let ?\<sigma> = "at_pc rivals 0 0 PIdle (?te\<lparr>te_locked := True\<rparr>) won_index"
  have r: "txn_reach 2 ?\<sigma>" using rivals_reached e s1 s2 tr_step by metis
  have "sy_pc ?\<sigma> 1 = ?p" "sy_te ?\<sigma> 1 = rival" by (simp_all add: at_pc_def rivals_def)
  then have s3: "txn_reach 2 (put_session ?\<sigma> 1 (PRollback [], rival))"
    using tr_step [OF r ts_spins_out [of 1 2 ?\<sigma> "exclusive_slot 1"]] l by simp
  let ?\<rho> = "put_session ?\<sigma> 1 (PRollback [], rival)"
  have "session_step (sy_pc ?\<rho> 1) (sy_te ?\<rho> 1) (lw_index (sy_world ?\<rho>) 0) = Some ((PIdle, rival), lw_index (sy_world ?\<rho>) 0)"
    by (simp add: session_step_def)
  then have "txn_reach 2 (put_session (put_version ?\<rho> 0 (lw_index (sy_world ?\<rho>) 0)) 1 (PIdle, rival))"
    using l by (intro tr_step [OF s3 ts_work]) simp_all
  moreover have "put_session (put_version ?\<rho> 0 (lw_index (sy_world ?\<rho>) 0)) 1 (PIdle, rival) = won"
    by (simp add: put_session_def put_version_def put_index_def at_pc_def won_def rivals_def fun_eq_iff)
  ultimately show ?thesis by simp
qed

lemma won_index_ok:
  "index_wf won_index" "ix_size won_index = 4" "ix_mask won_index = 3" "slot_free (latch_tab won_index 2) False"
proof -
  have "index_wf won_index \<and> ix_size won_index = 4 \<and> ix_mask won_index = 3 \<and> latch_tab won_index 2 = latch_tab index_example 2"
    using index_try_lock [OF index_example_wf, of "exclusive_slot 1"] won_index_taken
    by (auto simp: index_example_size same_entries_def)
  then show "index_wf won_index" "ix_size won_index = 4" "ix_mask won_index = 3" "slot_free (latch_tab won_index 2) False"
    using index_example_latch [of 2 False] by simp_all
qed

theorem calls_are_runs_witness:
  "\<exists>te' w'. run_call CUnlock (sy_te won 0) (sy_world won) = Some (te', w') \<and> txn_steps 2 won (called won 0 te' w')"
  by (rule calls_are_runs [OF won_reached]) (simp_all add: won_def)

theorem sessions_never_stuck_witness:
  "sess_ok (sy_world won) PIdle (sy_te won 0) \<and> sess_ok (sy_world rivals) (PAcquire [exclusive_slot 1]) rival \<and>
   (\<exists>r ix'. session_step (PAcquire [exclusive_slot 1]) rival index_example = Some (r, ix'))"
  using sessions_never_stuck [OF rivals_reached, of 0] sessions_never_stuck [OF won_reached, of 0]
  by (simp add: rivals_def rival_def example_world_def) (simp add: won_def)

lemma won_covers: "covers_user_keys (\<lambda>_ _. 5) (sy_te won 0) (sy_world won) [0, 0] [[7]] True"
  using won_index_ok by (simp add: covers_user_keys_def won_def rival_def bucket_index_for_hash_def exclusive_slot_def)

theorem transactions_exclude_witness:
  "covers_user_keys (\<lambda>_ _. 5) (sy_te won 0) (sy_world won) [0, 0] [[7]] True \<and>
   \<not> covers_user_keys (\<lambda>_ _. 5) (sy_te won 1) (sy_world won) [0, 0] [[7], [8]] False"
proof
  show "\<not> covers_user_keys (\<lambda>_ _. 5) (sy_te won 1) (sy_world won) [0, 0] [[7], [8]] False"
    by (rule transactions_exclude [OF won_reached, of 0 1 0 "[7]" "[[7]]"]) (use won_covers in \<open>simp_all add: won_def rival_def\<close>)
qed (rule won_covers)

theorem held_records_account_witness:
  "(l_excl (latch_tab (lw_index (sy_world won) 0) 1) \<longleftrightarrow>
      (\<exists>s < 2. te_latch (sy_te won s) = Some 0 \<and> held_bucket_exclusive (sy_te won s) 1 = Some True)) \<and>
    l_readers (latch_tab (lw_index (sy_world won) 0) 1) =
      card {s. s < 2 \<and> te_latch (sy_te won s) = Some 0 \<and> held_bucket_exclusive (sy_te won s) 1 = Some False}"
  by (rule held_records_account [OF won_reached]) (use won_index_ok in \<open>simp_all add: won_def\<close>)

text \<open>The winner asks for a second bucket, and for one it holds already.\<close>

theorem relock_joins_witness:
  "\<exists>te' w'. try_lock_incremental_entries (sy_te won 0) [txn_key_entry_new 6 6 Shared, txn_key_entry_new 5 5 Shared] (sy_world won) =
     Some (True, te', w') \<and> held_bucket_exclusive te' 1 = Some True \<and> held_bucket_exclusive te' 2 = Some False"
proof -
  let ?te = "sy_te won 0" and ?new = "[txn_key_entry_new 6 6 Shared, txn_key_entry_new 5 5 Shared]"
  have te: "te_held ?te = [exclusive_slot 1]" "te_latch ?te = Some 0" by (simp_all add: won_def rival_def)
  obtain ix2 where ix2: "bucket_try_lock won_index (shared_slot 2) = Some (True, ix2)"
    using index_try_lock [OF won_index_ok(1), of "shared_slot 2"] won_index_ok by (auto simp: slot_simps)
  have mk: "incremental_steps [exclusive_slot 1] (merge_slots (map (entry_slot won_index) ?new)) = [IAcquire (shared_slot 2)]"
    by (simp add: merge_slots_def incremental_steps_def incremental_step_def push_slot_def entry_slot_def txn_key_entry_new_def
        bucket_index_for_hash_def won_index_ok exclusive_slot_def shared_slot_def)
  have "map_option fst (try_lock_incremental_entries ?te ?new (sy_world won)) = Some True"
    using te mk ix2 by (simp add: try_lock_incremental_entries_def Let_def) (auto simp: won_def)
  then obtain te' w' where r: "try_lock_incremental_entries ?te ?new (sy_world won) = Some (True, te', w')" by auto
  have "sy_pc won 0 = PIdle" by (simp add: won_def)
  from relock_joins [OF won_reached _ this refl refl r refl] te have j: "held_bucket_exclusive te' b =
      join (held_bucket_exclusive ?te b) (wanted (lw_index (sy_world won) 0) ?new b)" for b by simp
  have "lw_index (sy_world won) 0 = won_index" by (simp add: won_def)
  then show ?thesis using r j [of 1] j [of 2] te
    by (simp add: held_bucket_strength wanted_def txn_key_entry_new_def bucket_index_for_hash_def won_index_ok)
qed

end
