(* ===== verification/TxnRace.thy ===== *)
theory TxnRace
  imports TxnSystemProps
begin

text \<open>
  Several transactions race for their latches on a table no one else uses. Every race ends, and it ends
  with a winner: the latches are taken in ascending order, so the transaction that failed at the highest
  bucket was stopped by one that had gone beyond it. Latch operations do not run out of spins here.
\<close>

section \<open>The race\<close>

inductive race_step :: "nat \<Rightarrow> nat \<Rightarrow> TxnSys \<Rightarrow> TxnSys \<Rightarrow> bool" for n v where
  "s < n \<Longrightarrow> sy_pc \<sigma> s \<noteq> PIdle \<Longrightarrow> te_latch (sy_te \<sigma> s) = Some v \<Longrightarrow>
   session_step (sy_pc \<sigma> s) (sy_te \<sigma> s) (lw_index (sy_world \<sigma>) v) = Some (r, ix') \<Longrightarrow>
   race_step n v \<sigma> (put_session (put_version \<sigma> v ix') s r)"

text \<open>Every session has a plan and has taken nothing yet.\<close>

definition at_start :: "nat \<Rightarrow> nat \<Rightarrow> (nat \<Rightarrow> LockPlanSlot list) \<Rightarrow> TxnSys \<Rightarrow> bool" where
  "at_start n v plans \<sigma> \<longleftrightarrow>
     (\<forall>s < n. te_latch (sy_te \<sigma> s) = Some v \<and> te_held (sy_te \<sigma> s) = [] \<and> sy_pc \<sigma> s = PAcquire (plans s)) \<and>
     (\<forall>b < ix_size (lw_index (sy_world \<sigma>) v). \<not> l_handoff (latch_tab (lw_index (sy_world \<sigma>) v) b))"

section \<open>Who stopped whom\<close>

text \<open>\<open>fb s\<close> is the bucket at which session \<open>s\<close> failed. A session has passed a bucket when all it still
  wants, or the bucket at which it failed, lies beyond.\<close>

fun wants :: "txn_pc \<Rightarrow> LockPlanSlot list" where
  "wants (PAcquire plan) = plan"
| "wants _ = []"

definition passed :: "(nat \<Rightarrow> nat option) \<Rightarrow> TxnSys \<Rightarrow> nat \<Rightarrow> nat \<Rightarrow> bool" where
  "passed fb \<sigma> t b \<longleftrightarrow> (case fb t of Some b' \<Rightarrow> b < b' | None \<Rightarrow> \<forall>slot \<in> set (wants (sy_pc \<sigma> t)). b < lps_bucket slot)"

fun racer :: "LockPlanSlot list \<Rightarrow> nat option \<Rightarrow> txn_pc \<Rightarrow> TxnKeyEntries \<Rightarrow> bool" where
  "racer plan f (PAcquire rest) te \<longleftrightarrow> f = None \<and> te_held te @ rest = plan"
| "racer plan f (PRollback slots) te \<longleftrightarrow> te_held te = [] \<and> (\<exists>b. f = Some b \<and> (\<forall>slot \<in> set slots. lps_bucket slot < b))"
| "racer plan f PIdle te \<longleftrightarrow> (if f = None then te_locked te \<and> te_held te = plan else te_held te = [])"
| "racer plan f _ te \<longleftrightarrow> False"

definition race_inv :: "nat \<Rightarrow> nat \<Rightarrow> (nat \<Rightarrow> LockPlanSlot list) \<Rightarrow> (nat \<Rightarrow> nat option) \<Rightarrow> TxnSys \<Rightarrow> bool" where
  "race_inv n v plans fb \<sigma> \<longleftrightarrow> sys_ok n \<sigma> \<and>
     (\<forall>b < ix_size (lw_index (sy_world \<sigma>) v). \<not> l_handoff (latch_tab (lw_index (sy_world \<sigma>) v) b)) \<and>
     (\<forall>s < n. te_latch (sy_te \<sigma> s) = Some v \<and> racer (plans s) (fb s) (sy_pc \<sigma> s) (sy_te \<sigma> s)) \<and>
     (\<forall>s < n. \<forall>b. fb s = Some b \<longrightarrow> (\<exists>t < n. passed fb \<sigma> t b))"

lemma owner_passed:
  assumes "pc_ok (sy_pc \<sigma> t) (sy_te \<sigma> t)" "racer plan (fb t) (sy_pc \<sigma> t) (sy_te \<sigma> t)" "own (sy_pc \<sigma> t) (sy_te \<sigma> t) b \<noteq> None"
  shows "passed fb \<sigma> t b"
proof (cases "sy_pc \<sigma> t")
  case PIdle
  then have "fb t = None" using assms by (auto split: if_splits)
  then show ?thesis using PIdle by (simp add: passed_def)
next
  case (PAcquire rest)
  have "b \<in> lps_bucket ` set (te_held (sy_te \<sigma> t))" using assms(3) PAcquire strength_None [of "te_held (sy_te \<sigma> t)" b] by simp
  then show ?thesis using assms(1,2) PAcquire by (auto simp: passed_def sorted_wrt_append)
next
  case (PRollback slots)
  have "b \<in> lps_bucket ` set slots" using assms(3) PRollback strength_None [of slots b] by simp
  then show ?thesis using assms(2) PRollback by (auto simp: passed_def)
qed (use assms in auto)

lemma not_free_owner:
  assumes "booked n f b l" "\<not> l_handoff l" "\<not> slot_free l x"
  shows "\<exists>t < n. f t b \<noteq> None"
proof (rule ccontr)
  assume "\<not> (\<exists>t < n. f t b \<noteq> None)"
  then have "\<not> l_excl l" "{t. t < n \<and> f t b = Some False} = {}" using bookedD(1) [OF assms(1)] by auto
  moreover from this(2) have "l_readers l = 0" using bookedD(2) [OF assms(1)] by simp
  ultimately show False using assms(2,3) by (simp add: slot_free_def split: if_splits)
qed

lemma keep_handoff [simp]: "l_handoff (slot_taken l x) = l_handoff l" "l_handoff (slot_given l x) = l_handoff l"
  by (simp_all add: slot_taken_def slot_given_def)

lemma step_latches:
  assumes ok: "sys_ok n \<sigma>" and s: "s < n" "te_latch (sy_te \<sigma> s) = Some v"
    and st: "session_step (sy_pc \<sigma> s) (sy_te \<sigma> s) (lw_index (sy_world \<sigma>) v) = Some (r, ix')"
  shows "ix_size ix' = ix_size (lw_index (sy_world \<sigma>) v)"
    "b < ix_size (lw_index (sy_world \<sigma>) v) \<Longrightarrow> l_handoff (latch_tab ix' b) = l_handoff (latch_tab (lw_index (sy_world \<sigma>) v) b)"
    "pc_op (sy_pc \<sigma> s) = LTake slot \<Longrightarrow> r = pc_after (sy_pc \<sigma> s) (sy_te \<sigma> s)
       (slot_free (latch_tab (lw_index (sy_world \<sigma>) v) (lps_bucket slot)) (lps_exclusive slot))"
    "pc_op (sy_pc \<sigma> s) \<noteq> LTake slot \<Longrightarrow> (\<And>slot. pc_op (sy_pc \<sigma> s) \<noteq> LTake slot) \<Longrightarrow> r = pc_after (sy_pc \<sigma> s) (sy_te \<sigma> s) True"
proof -
  let ?ix = "lw_index (sy_world \<sigma>) v" and ?pc = "sy_pc \<sigma> s"
  have wf: "index_wf ?ix" by (rule sys_okD(4) [OF ok])
  have se: "sess_ok (sy_world \<sigma>) ?pc (sy_te \<sigma> s)" using sys_okD(2) [OF ok s(1)] .
  then have p: "pc_ok ?pc (sy_te \<sigma> s)" "in_bounds (ix_size ?ix) ?pc (sy_te \<sigma> s)" using s(2) by (simp_all add: sess_ok_def)
  have all: "ix_size ix' = ix_size ?ix \<and> (\<forall>b < ix_size ?ix. l_handoff (latch_tab ix' b) = l_handoff (latch_tab ?ix b)) \<and>
    (case pc_op ?pc of LTake slot \<Rightarrow> r = pc_after ?pc (sy_te \<sigma> s) (slot_free (latch_tab ?ix (lps_bucket slot)) (lps_exclusive slot))
     | _ \<Rightarrow> r = pc_after ?pc (sy_te \<sigma> s) True)"
  proof (cases "pc_op ?pc")
    case (LTake sl)
    then have "lps_bucket sl < ix_size ?ix" using op_bounds [OF p(2)] by blast
    from index_try_lock [OF wf this] show ?thesis using st LTake by (auto simp: session_step_def same_entries_def split: if_splits)
  next
    case (LGive sl)
    then have b: "lps_bucket sl < ix_size ?ix" using op_bounds [OF p(2)] by blast
    have "owned \<sigma> v s (lps_bucket sl) = Some (lps_exclusive sl)" using txn.give_owned [OF p(1) LGive] s(2) by (simp add: owned_def)
    moreover have "booked n (owned \<sigma> v) (lps_bucket sl) (latch_tab ?ix (lps_bucket sl))"
      using sys_okD(3) [OF ok, of v] b by (simp add: lb.ledger_def)
    ultimately have "slot_held (latch_tab ?ix (lps_bucket sl)) (lps_exclusive sl)" using booked_held s(1) by blast
    from index_unlock [OF wf b this] show ?thesis using st LGive by (auto simp: session_step_def same_entries_def)
  next
    case LDone
    then show ?thesis using st by (auto simp: session_step_def)
  qed
  show "ix_size ix' = ix_size ?ix" using all by blast
  show "b < ix_size ?ix \<Longrightarrow> l_handoff (latch_tab ix' b) = l_handoff (latch_tab ?ix b)" using all by blast
  show "pc_op ?pc = LTake slot \<Longrightarrow> r = pc_after ?pc (sy_te \<sigma> s) (slot_free (latch_tab ?ix (lps_bucket slot)) (lps_exclusive slot))"
    using all by simp
  show "pc_op ?pc \<noteq> LTake slot \<Longrightarrow> (\<And>slot. pc_op ?pc \<noteq> LTake slot) \<Longrightarrow> r = pc_after ?pc (sy_te \<sigma> s) True"
    using all by (auto split: latch_op.splits)
qed

fun steps_left :: "txn_pc \<Rightarrow> TxnKeyEntries \<Rightarrow> nat" where
  "steps_left (PAcquire rest) te = 2 * length rest + length (te_held te) + 2"
| "steps_left (PRollback slots) te = length slots + 1"
| "steps_left _ te = 0"

definition race_left :: "nat \<Rightarrow> TxnSys \<Rightarrow> nat" where
  "race_left n \<sigma> = (\<Sum>s < n. steps_left (sy_pc \<sigma> s) (sy_te \<sigma> s))"

text \<open>What a step does to a racer: it stays one, has fewer steps left, and passes no bucket backwards.\<close>

lemma racer_step:
  assumes "pc_ok pc te" "racer plan f pc te" "pc \<noteq> PIdle" "pc_after pc te taken = (pc', te')"
    and "\<And>slot rest. pc = PAcquire (slot # rest) \<Longrightarrow> f' = (if taken then None else Some (lps_bucket slot))"
    and "(\<And>slot rest. pc \<noteq> PAcquire (slot # rest)) \<Longrightarrow> f' = f"
  shows "racer plan f' pc' te' \<and> steps_left pc' te' < steps_left pc te"
  using assms by (cases "(pc, te, taken)" rule: pc_after.cases) (auto simp: sorted_wrt_append split: if_splits)

lemma fail_owner:
  assumes inv: "race_inv n v plans fb \<sigma>" and s: "s < n" and op: "pc_op (sy_pc \<sigma> s) = LTake slot"
    and nf: "\<not> slot_free (latch_tab (lw_index (sy_world \<sigma>) v) (lps_bucket slot)) (lps_exclusive slot)"
  shows "\<exists>t < n. t \<noteq> s \<and> passed fb \<sigma> t (lps_bucket slot)"
proof -
  let ?b = "lps_bucket slot" and ?ix = "lw_index (sy_world \<sigma>) v"
  have ok: "sys_ok n \<sigma>" and l: "\<And>t. t < n \<Longrightarrow> te_latch (sy_te \<sigma> t) = Some v"
    and rc: "\<And>t. t < n \<Longrightarrow> racer (plans t) (fb t) (sy_pc \<sigma> t) (sy_te \<sigma> t)"
    using inv by (simp_all add: race_inv_def)
  have pk: "pc_ok (sy_pc \<sigma> t) (sy_te \<sigma> t)" if "t < n" for t using sys_okD(2) [OF ok that] by (simp add: sess_ok_def)
  have b: "?b < ix_size ?ix" using op_bounds [of "ix_size ?ix" "sy_pc \<sigma> s" "sy_te \<sigma> s" slot] sys_okD(2) [OF ok s] op l [OF s]
    by (simp add: sess_ok_def)
  have "booked n (owned \<sigma> v) ?b (latch_tab ?ix ?b)" using sys_okD(3) [OF ok, of v] b by (simp add: lb.ledger_def)
  from not_free_owner [OF this _ nf] obtain t where t: "t < n" "owned \<sigma> v t ?b \<noteq> None"
    using inv b by (auto simp: race_inv_def)
  have "own (sy_pc \<sigma> s) (sy_te \<sigma> s) ?b = None" by (rule txn.take_free [OF pk [OF s] op])
  then have "t \<noteq> s" using t(2) by (auto simp: owned_def split: if_splits)
  moreover have "passed fb \<sigma> t ?b" using owner_passed [where fb = fb and \<sigma> = \<sigma> and t = t, OF pk [OF t(1)] rc [OF t(1)]] t l by (simp add: owned_def)
  ultimately show ?thesis using t(1) by blast
qed

lemma race_keeps:
  assumes inv: "race_inv n v plans fb \<sigma>" and st: "race_step n v \<sigma> \<sigma>'"
  obtains fb' where "race_inv n v plans fb' \<sigma>'" "race_left n \<sigma>' < race_left n \<sigma>"
  using st
proof cases
  case (1 s r ix')
  let ?pc = "sy_pc \<sigma> s" and ?te = "sy_te \<sigma> s" and ?ix = "lw_index (sy_world \<sigma>) v"
  have ok: "sys_ok n \<sigma>" and rc: "\<And>t. t < n \<Longrightarrow> racer (plans t) (fb t) (sy_pc \<sigma> t) (sy_te \<sigma> t)" using inv by (simp_all add: race_inv_def)
  have pk: "pc_ok ?pc ?te" using sys_okD(2) [OF ok 1(2)] by (simp add: sess_ok_def)
  note sl = step_latches [OF ok 1(2,4,5)]
  define taken where "taken = (case pc_op ?pc of LTake slot \<Rightarrow> slot_free (latch_tab ?ix (lps_bucket slot)) (lps_exclusive slot) | _ \<Rightarrow> True)"
  have r: "pc_after ?pc ?te taken = (fst r, snd r)" using sl(3,4) by (cases "pc_op ?pc") (auto simp: taken_def)
  define f' where "f' = (case ?pc of PAcquire (slot # rest) \<Rightarrow> if taken then None else Some (lps_bucket slot) | _ \<Rightarrow> fb s)"
  let ?fb = "fb(s := f')"
  have rs: "racer (plans s) f' (fst r) (snd r) \<and> steps_left (fst r) (snd r) < steps_left ?pc ?te"
    by (rule racer_step [OF pk rc [OF 1(2)] 1(3) r]) (auto simp: f'_def split: txn_pc.splits list.splits)
  have ok': "sys_ok n \<sigma>'" using step_ok [OF ts_work [OF 1(2,4,5)] ok] 1(1) by simp
  have lt: "te_latch (snd r) = Some v" using after_latch [OF r] 1(3,4) rc [OF 1(2)] by auto
  have mono: "passed ?fb \<sigma>' t b" if "passed fb \<sigma> t b" "t < n" for t b
  proof (cases "t = s")
    case True
    have "passed fb \<sigma> s b" using that True by simp
    then show ?thesis unfolding True using rc [OF 1(2)] r 1(1,3)
      by (cases "(?pc, ?te, taken)" rule: pc_after.cases) (auto simp: passed_def f'_def split: if_splits option.splits)
  next
    case False
    then show ?thesis using that unfolding 1(1) by (auto simp: passed_def split: option.splits)
  qed
  have new: "\<exists>t < n. passed ?fb \<sigma>' t b" if f: "f' = Some b" "fb s \<noteq> Some b" for b
  proof -
    obtain slot rest where p: "?pc = PAcquire (slot # rest)" "\<not> taken" "b = lps_bucket slot"
      using f by (auto simp: f'_def split: txn_pc.splits list.splits if_splits)
    then have "\<not> slot_free (latch_tab ?ix (lps_bucket slot)) (lps_exclusive slot)" by (simp add: taken_def)
    from fail_owner [OF inv 1(2) _ this] p show ?thesis using mono by auto
  qed
  have "\<exists>t < n. passed ?fb \<sigma>' t b" if "u < n" "?fb u = Some b" for u b
  proof (cases "u = s \<and> fb s \<noteq> Some b")
    case True
    then show ?thesis using new that by simp
  next
    case False
    then have "fb u = Some b" using that by (auto split: if_splits)
    then show ?thesis using inv that(1) mono unfolding race_inv_def by blast
  qed
  moreover have "te_latch (sy_te \<sigma>' t) = Some v \<and> racer (plans t) (?fb t) (sy_pc \<sigma>' t) (sy_te \<sigma>' t)" if "t < n" for t
    using inv that rs lt 1(1) by (auto simp: race_inv_def)
  moreover have "\<forall>b < ix_size (lw_index (sy_world \<sigma>') v). \<not> l_handoff (latch_tab (lw_index (sy_world \<sigma>') v) b)"
    using inv sl(1,2) 1(1) by (simp add: race_inv_def)
  ultimately have "race_inv n v plans ?fb \<sigma>'" unfolding race_inv_def using ok' by blast
  moreover have "race_left n \<sigma>' < race_left n \<sigma>"
    unfolding race_left_def 1(1) by (rule sum_strict_mono_ex1) (use rs 1(2) in \<open>auto intro: less_imp_le\<close>)
  ultimately show thesis by (rule that)
qed

lemma race_start:
  assumes "txn_reach n \<sigma>" "at_start n v plans \<sigma>"
  shows "race_inv n v plans (\<lambda>_. None) \<sigma>"
  using assms reach_ok [OF assms(1)] by (simp add: race_inv_def at_start_def)

lemma race_steps_keep:
  assumes "(race_step n v)\<^sup>*\<^sup>* \<sigma> \<sigma>'" "race_inv n v plans fb \<sigma>"
  obtains fb' where "race_inv n v plans fb' \<sigma>'"
  using assms
proof (induction arbitrary: thesis rule: rtranclp_induct)
  case (step \<sigma>1 \<sigma>2)
  then show ?case using race_keeps [OF _ step.hyps(2)] by metis
qed

text \<open>The session that failed at the highest bucket was stopped by one that had gone beyond it.\<close>

lemma race_won:
  assumes inv: "race_inv n v plans fb \<sigma>" and n: "0 < n" and idle: "\<forall>s < n. sy_pc \<sigma> s = PIdle"
  shows "\<exists>s < n. te_locked (sy_te \<sigma> s) \<and> te_held (sy_te \<sigma> s) = plans s"
proof (rule ccontr)
  assume no: "\<not> ?thesis"
  have f: "\<exists>b. fb s = Some b" if "s < n" for s
    using inv no idle that by (auto simp: race_inv_def split: if_splits)
  let ?B = "(\<lambda>s. the (fb s)) ` {..<n}"
  have "Max ?B \<in> ?B" using n by (intro Max_in) auto
  then obtain s where s: "s < n" "the (fb s) = Max ?B" by auto
  then obtain t where t: "t < n" "passed fb \<sigma> t (Max ?B)" using inv f [OF s(1)] unfolding race_inv_def by (metis option.sel)
  obtain b where "fb t = Some b" using f [OF t(1)] by blast
  then have "Max ?B < b" "b \<in> ?B" using t by (auto simp: passed_def intro!: image_eqI [of _ _ t])
  moreover from this(2) have "b \<le> Max ?B" by (intro Max_ge) simp_all
  ultimately show False by simp
qed

lemma race_enabled:
  assumes inv: "race_inv n v plans fb \<sigma>" and "s < n" "sy_pc \<sigma> s \<noteq> PIdle"
  shows "\<exists>\<sigma>'. race_step n v \<sigma> \<sigma>'"
proof -
  have l: "sys_ok n \<sigma>" "te_latch (sy_te \<sigma> s) = Some v" using inv assms(2) by (simp_all add: race_inv_def)
  obtain r ix' where "session_step (sy_pc \<sigma> s) (sy_te \<sigma> s) (lw_index (sy_world \<sigma>) v) = Some (r, ix')"
    using work_ok [OF l(1) assms(2) l(2)] by blast
  then show ?thesis using race_step.intros [OF assms(2,3) l(2)] by blast
qed

text \<open>C6: When transactions race for their latches on an otherwise unused table, and an attempt fails only
  because the latch is taken and not because its spins ran out, the race cannot go on for ever, and wherever it stops at least one transaction has taken its whole plan. Locking in ascending
  order makes progress: the transactions never all fail.\<close>

lemma race_has_winner:
  assumes "txn_reach n \<sigma>" "at_start n v plans \<sigma>" "0 < n"
  shows "(\<nexists>run. run 0 = \<sigma> \<and> (\<forall>i. race_step n v (run i) (run (Suc i)))) \<and>
    (\<forall>\<sigma>'. (race_step n v)\<^sup>*\<^sup>* \<sigma> \<sigma>' \<longrightarrow> (\<nexists>\<sigma>''. race_step n v \<sigma>' \<sigma>'') \<longrightarrow>
       (\<exists>s < n. te_locked (sy_te \<sigma>' s) \<and> te_held (sy_te \<sigma>' s) = plans s))"
proof (intro conjI allI impI notI)
  note start = race_start [OF assms(1,2)]
  assume "\<exists>run. run 0 = \<sigma> \<and> (\<forall>i. race_step n v (run i) (run (Suc i)))"
  then obtain run where run: "run 0 = \<sigma>" "\<And>i. race_step n v (run i) (run (Suc i))" by blast
  have "\<exists>fb. race_inv n v plans fb (run i)" for i
    by (induction i) (use run start race_keeps in metis)+
  then have "race_left n (run (Suc i)) < race_left n (run i)" for i using race_keeps run(2) by metis
  then show False using wf_no_infinite_down_chainE [OF wf_measure [of "race_left n"], of run] by auto
next
  fix \<sigma>' assume st: "(race_step n v)\<^sup>*\<^sup>* \<sigma> \<sigma>'" "\<nexists>\<sigma>''. race_step n v \<sigma>' \<sigma>''"
  obtain fb where inv: "race_inv n v plans fb \<sigma>'" using race_steps_keep [OF st(1) race_start [OF assms(1,2)]] .
  then have "\<forall>s < n. sy_pc \<sigma>' s = PIdle" using race_enabled st(2) by blast
  then show "\<exists>s < n. te_locked (sy_te \<sigma>' s) \<and> te_held (sy_te \<sigma>' s) = plans s" by (rule race_won [OF inv assms(3)])
qed

theorem race_has_winner_witness:
  "(\<nexists>run. run 0 = rivals \<and> (\<forall>i. race_step 2 0 (run i) (run (Suc i)))) \<and>
   (\<exists>s < 2. te_locked (sy_te won s) \<and> te_held (sy_te won s) = [exclusive_slot 1])"
proof
  have "at_start 2 0 (\<lambda>_. [exclusive_slot 1]) rivals"
    by (auto simp: at_start_def rivals_def rival_def example_world_def index_example_size less_2_cases_iff
        latch_tab_def latch_word_def index_example_def empty_index_def latch_of_def bucket_new_def bucket_latch_word_def bucket_consts)
  from race_has_winner [OF rivals_reached this]
  show "\<nexists>run. run 0 = rivals \<and> (\<forall>i. race_step 2 0 (run i) (run (Suc i)))" by simp
  show "\<exists>s < 2. te_locked (sy_te won s) \<and> te_held (sy_te won s) = [exclusive_slot 1]"
    by (intro exI [of _ 0]) (simp add: won_def)
qed

end
