(* ===== verification/TxnManager.thy ===== *)
theory TxnManager
  imports TxnLockProps
begin

text \<open>
  The transaction manager of a session (\<open>wtxn/src/transaction_manager.rs\<close>, \<open>txn_key_manager.rs\<close>,
  \<open>txn_watched_keys_container.rs\<close>, \<open>watch_version_map.rs\<close>, \<open>txn_lock_table.rs\<close>): watched keys with their
  versions, the queued keys, the barrier that keeps the index from growing under a transaction, the
  locks, and the markers in the append-only log.

  Parameters: the two hash functions (\<open>H\<close> of a prefix and a key, \<open>R\<close> of a key), the log (its shape, its
  routing and whether it accepts a marker), what the registration of the barrier answers, and what
  other threads do while a loop waits. A result \<open>None\<close> is a panic, an undefined access, or a loop that
  never ends.
\<close>

section \<open>The version map\<close>

record WatchVersionMap =
  vm_map :: "u64 list"
  vm_mask :: u64

definition DEFAULT_VERSION_MAP_SIZE :: nat where
  "DEFAULT_VERSION_MAP_SIZE = 2 ^ 16"

definition version_map_new :: "nat \<Rightarrow> WatchVersionMap option" where
  "version_map_new n =
     (if is_power_of_two_usize n then Some \<lparr>vm_map = replicate n 0, vm_mask = of_nat n - 1\<rparr> else None)"

definition version_slot :: "WatchVersionMap \<Rightarrow> u64 \<Rightarrow> nat" where
  "version_slot vm h = unat (h AND vm_mask vm)"

definition read_version :: "WatchVersionMap \<Rightarrow> u64 \<Rightarrow> u64 option" where
  "read_version vm h =
     (let i = version_slot vm h in if i < length (vm_map vm) then Some (vm_map vm ! i) else None)"

definition increment_version :: "WatchVersionMap \<Rightarrow> u64 \<Rightarrow> WatchVersionMap option" where
  "increment_version vm h =
     (let i = version_slot vm h
      in if i < length (vm_map vm) then Some (vm\<lparr>vm_map := (vm_map vm)[i := vm_map vm ! i + 1]\<rparr>) else None)"

section \<open>Watched keys\<close>

record WatchedKeySlice =
  ws_key :: bytes
  ws_hash :: u64
  ws_version :: u64

definition add_watch ::
  "(bytes \<Rightarrow> bytes \<Rightarrow> u64) \<Rightarrow> WatchVersionMap \<Rightarrow> WatchedKeySlice list \<Rightarrow> bytes \<Rightarrow> bytes \<Rightarrow> WatchedKeySlice list option" where
  "add_watch H vm slices prefix key =
     (let hash = H prefix key
      in if list_ex (\<lambda>slice. ws_hash slice = hash \<and> ws_key slice = key) slices then Some slices
         else map_option (\<lambda>version. slices @ [\<lparr>ws_key = key, ws_hash = hash, ws_version = version\<rparr>]) (read_version vm hash))"

definition validate_watch_version :: "WatchVersionMap \<Rightarrow> WatchedKeySlice list \<Rightarrow> bool" where
  "validate_watch_version vm slices = list_all (\<lambda>slice. read_version vm (ws_hash slice) = Some (ws_version slice)) slices"

definition save_lock_hashes ::
  "(bytes \<Rightarrow> bytes \<Rightarrow> u64) \<Rightarrow> (bytes \<Rightarrow> u64) \<Rightarrow> WatchedKeySlice list \<Rightarrow> bytes \<Rightarrow> (u64 \<times> u64) list" where
  "save_lock_hashes H R slices prefix = map (\<lambda>slice. (H prefix (ws_key slice), R (ws_key slice))) slices"

definition save_keys_to_key_list :: "WatchedKeySlice list \<Rightarrow> bytes list" where
  "save_keys_to_key_list slices = map ws_key slices"

section \<open>The log\<close>

datatype TxnEntryType = TxnStart | TxnCommit | TxnAbort

record SublogAccess =
  physical_vector :: u64
  virtual_vectors :: "u8 list list"
  participant_count :: u32

record TxnMarker =
  mk_type :: TxnEntryType
  mk_version :: u64
  mk_session :: u32
  mk_access :: SublogAccess

record AofLog =
  al_size :: nat
  al_replay_task_count :: nat
  get_physical_sublog_idx :: "u64 \<Rightarrow> nat"
  get_replay_task_idx :: "u64 \<Rightarrow> nat"
  al_accepts :: "TxnMarker list \<Rightarrow> TxnMarker \<Rightarrow> bool"

definition REPLAY_TASK_ACCESS_VECTOR_BYTES :: nat where
  "REPLAY_TASK_ACCESS_VECTOR_BYTES = 32"

definition no_access :: SublogAccess where
  "no_access = \<lparr>physical_vector = 0, virtual_vectors = [], participant_count = 0\<rparr>"

definition access_step :: "AofLog \<Rightarrow> u64 \<Rightarrow> SublogAccess \<Rightarrow> SublogAccess" where
  "access_step log rh acc =
     (let physical_idx = get_physical_sublog_idx log rh;
          replay_idx = get_replay_task_idx log rh;
          acc = (if physical_idx < 64
                 then acc\<lparr>physical_vector := physical_vector acc OR push_bit physical_idx 1\<rparr> else acc);
          byte_idx = replay_idx div 8;
          bit_mask = push_bit (replay_idx mod 8) 1 :: u8;
          vv = virtual_vectors acc
      in if physical_idx < length vv \<and> byte_idx < length (vv ! physical_idx) \<and> vv ! physical_idx ! byte_idx AND bit_mask = 0
         then acc\<lparr>virtual_vectors := vv[physical_idx := (vv ! physical_idx)[byte_idx := vv ! physical_idx ! byte_idx OR bit_mask]],
                  participant_count := participant_count acc + 1\<rparr>
         else acc)"

definition sublog_access_vector :: "AofLog option \<Rightarrow> u64 list \<Rightarrow> SublogAccess" where
  "sublog_access_vector aof hashes =
     (case aof of
        None \<Rightarrow> no_access
      | Some log \<Rightarrow>
          if al_size log \<le> 1 \<and> al_replay_task_count log \<le> 1 then no_access
          else fold (access_step log) hashes
                 \<lparr>physical_vector = 0,
                  virtual_vectors = replicate (al_size log) (replicate REPLAY_TASK_ACCESS_VECTOR_BYTES 0),
                  participant_count = 0\<rparr>)"

section \<open>The manager and its world\<close>

datatype TxnState = StNone | StStarted | StRunning | StAborted

datatype ExecRun = ExStarted | ExContended | ExAborted

record TransactionManager =
  tm_state :: TxnState
  tm_entries :: TxnKeyEntries
  tm_watch :: "WatchedKeySlice list"
  txn_start_head :: nat
  operation_cnt_txn :: nat
  perform_writes :: bool
  txn_version :: u64
  txn_barrier :: "nat option"
  aof_log :: "AofLog option"
  session_id :: u32
  txn_keys :: TxnKeysBuffer
  cluster_enabled :: bool
  exec_lock_armed :: bool
  watch_merged :: bool
  lock_prefix :: "bytes option"

text \<open>
  What sessions share: the lock table, the answer of the barrier now (the driver that registers the
  transaction, or none while the index prepares to grow), the number of registered transactions of
  each driver, the version map, the global sequence of transaction versions, and the markers accepted by
  the log.
\<close>

record TxnWorld =
  tw_locks :: LockWorld
  tw_gate :: "nat option"
  tw_active :: "nat \<Rightarrow> int"
  tw_versions :: WatchVersionMap
  tw_seq :: u64
  tw_log :: "TxnMarker list"

type_synonym 'a txn_result = "('a \<times> TransactionManager \<times> TxnWorld) option"

definition manager_new :: "AofLog option \<Rightarrow> TransactionManager" where
  "manager_new aof =
     \<lparr>tm_state = StNone, tm_entries = entries_new, tm_watch = [], txn_start_head = 0, operation_cnt_txn = 0,
      perform_writes = False, txn_version = 0, txn_barrier = None, aof_log = aof, session_id = 0,
      txn_keys = keys_new, cluster_enabled = False, exec_lock_armed = False, watch_merged = False, lock_prefix = None\<rparr>"

subsection \<open>The barrier\<close>

definition end_txn :: "nat \<Rightarrow> TxnWorld \<Rightarrow> TxnWorld" where
  "end_txn d w = w\<lparr>tw_active := (tw_active w)(d := tw_active w d - 1)\<rparr>"

definition try_acquire_txn :: "TxnWorld \<Rightarrow> nat option \<times> TxnWorld" where
  "try_acquire_txn w =
     (case tw_gate w of
        None \<Rightarrow> (None, w)
      | Some d \<Rightarrow> (Some d, w\<lparr>tw_active := (tw_active w)(d := tw_active w d + 1)\<rparr>))"

partial_function (option) acquire_txn ::
  "(nat \<Rightarrow> TxnWorld \<Rightarrow> TxnWorld) \<Rightarrow> nat \<Rightarrow> TxnWorld \<Rightarrow> (nat \<times> TxnWorld) option" where
  "acquire_txn env n w =
     (case try_acquire_txn w of
        (Some d, w') \<Rightarrow> Some (d, w')
      | (None, w') \<Rightarrow> acquire_txn env (n + 1) (env n w'))"

declare acquire_txn.simps [code]

definition take_barrier :: "TransactionManager \<Rightarrow> TxnWorld \<Rightarrow> TransactionManager \<times> TxnWorld" where
  "take_barrier tm w =
     (case txn_barrier tm of
        Some d \<Rightarrow> (tm\<lparr>txn_barrier := None\<rparr>, end_txn d w)
      | None \<Rightarrow> (tm, w))"

definition try_acquire_barrier :: "TransactionManager \<Rightarrow> TxnWorld \<Rightarrow> bool \<times> TransactionManager \<times> TxnWorld" where
  "try_acquire_barrier tm w =
     (if txn_barrier tm \<noteq> None then (True, tm, w)
      else let (ticket, w') = try_acquire_txn w in (ticket \<noteq> None, tm\<lparr>txn_barrier := ticket\<rparr>, w'))"

subsection \<open>Queued keys\<close>

record TxnKeySpec =
  first_idx :: nat
  last_idx :: int
  spec_step :: nat
  read_only :: bool

definition save_key_entry_to_lock :: "TransactionManager \<Rightarrow> bytes \<Rightarrow> LockType \<Rightarrow> TransactionManager" where
  "save_key_entry_to_lock tm key t = tm\<lparr>txn_keys := keys_push (txn_keys tm) key t\<rparr>"

text \<open>The indices of an inclusive range taken with a step.\<close>

definition range_step_by :: "nat \<Rightarrow> nat \<Rightarrow> nat \<Rightarrow> nat list" where
  "range_step_by lo hi step = (if hi < lo then [] else map (\<lambda>i. lo + i * step) [0..<(hi - lo) div step + 1])"

definition spec_window :: "nat \<Rightarrow> TxnKeySpec \<Rightarrow> nat list" where
  "spec_window arg_count spec =
     (let last = (if last_idx spec < 0 then int arg_count + last_idx spec else last_idx spec)
      in if last < 0 then []
         else let last = min (nat last) (arg_count - 1)
              in if last < first_idx spec \<or> arg_count \<le> first_idx spec then []
                 else range_step_by (first_idx spec) last (max (spec_step spec) 1))"

definition lock_keys :: "bytes list \<Rightarrow> TxnKeySpec list \<Rightarrow> TransactionManager \<Rightarrow> TransactionManager" where
  "lock_keys args specs tm =
     fold (\<lambda>spec tm.
         fold (\<lambda>idx tm. save_key_entry_to_lock tm (args ! idx) (if read_only spec then Shared else Exclusive))
           (spec_window (length args) spec) tm)
       specs tm"

definition watch :: "(bytes \<Rightarrow> bytes \<Rightarrow> u64) \<Rightarrow> bytes \<Rightarrow> bytes \<Rightarrow> TransactionManager \<Rightarrow> TxnWorld \<Rightarrow> unit txn_result" where
  "watch H prefix key tm w =
     map_option (\<lambda>slices. ((), tm\<lparr>tm_watch := slices\<rparr>, w)) (add_watch H (tw_versions w) (tm_watch tm) prefix key)"

definition is_skipping_operations :: "TransactionManager \<Rightarrow> bool" where
  "is_skipping_operations tm \<longleftrightarrow> tm_state tm = StStarted \<or> tm_state tm = StAborted"

definition tm_is_read_only :: "TransactionManager \<Rightarrow> bool" where
  "tm_is_read_only tm \<longleftrightarrow> te_is_read_only (tm_entries tm) \<and> keys_is_read_only (txn_keys tm)"

definition txn_abort :: "TransactionManager \<Rightarrow> TransactionManager" where
  "txn_abort tm = tm\<lparr>tm_state := StAborted\<rparr>"

subsection \<open>Reset\<close>

definition unlock_entries :: "TransactionManager \<Rightarrow> TxnWorld \<Rightarrow> (TransactionManager \<times> TxnWorld) option" where
  "unlock_entries tm w =
     map_option (\<lambda>(te, lw). (tm\<lparr>tm_entries := te\<rparr>, w\<lparr>tw_locks := lw\<rparr>)) (unlock_all_keys (tm_entries tm) (tw_locks w))"

definition txn_reset :: "TransactionManager \<Rightarrow> TxnWorld \<Rightarrow> (TransactionManager \<times> TxnWorld) option" where
  "txn_reset tm w =
     map_option (\<lambda>(tm, w).
         let (tm, w) = take_barrier tm w
         in (tm\<lparr>txn_version := 0, txn_start_head := 0, operation_cnt_txn := 0, tm_state := StNone,
                perform_writes := False, txn_keys := keys_clear (txn_keys tm), exec_lock_armed := False,
                watch_merged := False, lock_prefix := None\<rparr>, w))
       (unlock_entries tm w)"

definition watch_reset :: "TransactionManager \<Rightarrow> TransactionManager" where
  "watch_reset tm = tm\<lparr>tm_watch := []\<rparr>"

subsection \<open>Markers\<close>

definition compute_sublog_access_vector :: "TransactionManager \<Rightarrow> SublogAccess" where
  "compute_sublog_access_vector tm = sublog_access_vector (aof_log tm) (routing_hashes (tm_entries tm))"

definition txn_marker :: "TransactionManager \<Rightarrow> TxnEntryType \<Rightarrow> TxnMarker" where
  "txn_marker tm ty =
     \<lparr>mk_type = ty, mk_version = txn_version tm, mk_session = session_id tm, mk_access = compute_sublog_access_vector tm\<rparr>"

definition enqueue_txn_marker :: "TransactionManager \<Rightarrow> AofLog \<Rightarrow> TxnEntryType \<Rightarrow> TxnWorld \<Rightarrow> bool \<times> TxnWorld" where
  "enqueue_txn_marker tm log ty w =
     (if al_accepts log (tw_log w) (txn_marker tm ty)
      then (True, w\<lparr>tw_log := tw_log w @ [txn_marker tm ty]\<rparr>) else (False, w))"

text \<open>A marker is written only for a transaction that writes, and only when there is a log.\<close>

definition mark :: "TransactionManager \<Rightarrow> TxnEntryType \<Rightarrow> TxnWorld \<Rightarrow> bool \<times> TxnWorld" where
  "mark tm ty w =
     (if perform_writes tm then case aof_log tm of Some log \<Rightarrow> enqueue_txn_marker tm log ty w | None \<Rightarrow> (True, w)
      else (True, w))"

subsection \<open>Starting\<close>

definition expand_watched ::
  "(bytes \<Rightarrow> bytes \<Rightarrow> u64) \<Rightarrow> (bytes \<Rightarrow> u64) \<Rightarrow> bytes \<Rightarrow> WatchedKeySlice list \<Rightarrow> TxnKeyEntry list" where
  "expand_watched H R prefix slices = map (\<lambda>(h, r). txn_key_entry_new h r Shared) (save_lock_hashes H R slices prefix)"

definition expand_queued ::
  "(bytes \<Rightarrow> bytes \<Rightarrow> u64) \<Rightarrow> (bytes \<Rightarrow> u64) \<Rightarrow> bytes \<Rightarrow> (bytes \<times> LockType) list \<Rightarrow> TxnKeyEntry list" where
  "expand_queued H R prefix ks = map (\<lambda>(key, t). txn_key_entry_new (H prefix key) (R key) t) ks"

definition add_entries :: "TxnKeyEntries \<Rightarrow> TxnKeyEntry list \<Rightarrow> TxnKeyEntries" where
  "add_entries te es = fold (\<lambda>e te. add_key te (key_hash e) (routing_hash e) (lock_type e)) es te"

definition writes_key :: "(bytes \<times> LockType) list \<Rightarrow> bool" where
  "writes_key ks = list_ex (\<lambda>(_, t). t = Exclusive) ks"

definition register_run_preamble ::
  "(bytes \<Rightarrow> bytes \<Rightarrow> u64) \<Rightarrow> (bytes \<Rightarrow> u64) \<Rightarrow> bytes \<Rightarrow> bool \<Rightarrow> TransactionManager \<Rightarrow> TxnWorld \<Rightarrow>
     (TransactionManager \<times> TxnWorld) option" where
  "register_run_preamble H R prefix internal_txn tm w =
     (case keys_iter_with_lock (txn_keys tm) of
        None \<Rightarrow> None
      | Some ks \<Rightarrow>
          let watched = (if internal_txn then [] else expand_watched H R prefix (tm_watch tm));
              te = add_entries (add_entries (tm_entries tm) watched) (expand_queued H R prefix ks)
          in Some (tm\<lparr>lock_prefix := Some prefix, tm_entries := te, perform_writes := perform_writes tm \<or> writes_key ks,
                      txn_version := tw_seq w\<rparr>,
                   w\<lparr>tw_seq := tw_seq w + 1\<rparr>))"

definition reexpand_for_generation_swap ::
  "(bytes \<Rightarrow> bytes \<Rightarrow> u64) \<Rightarrow> (bytes \<Rightarrow> u64) \<Rightarrow> bytes \<Rightarrow> TransactionManager \<Rightarrow> TxnWorld \<Rightarrow> bool txn_result" where
  "reexpand_for_generation_swap H R prefix tm w =
     (case keys_iter_with_lock (txn_keys tm) of
        None \<Rightarrow> None
      | Some ks \<Rightarrow>
          let new = expand_watched H R prefix (tm_watch tm) @ expand_queued H R prefix ks;
              tm = tm\<lparr>perform_writes := perform_writes tm \<or> writes_key ks\<rparr>
          in case try_lock_incremental_entries (tm_entries tm) new (tw_locks w) of
               None \<Rightarrow> None
             | Some (ok, te, lw) \<Rightarrow>
                 let tm = tm\<lparr>tm_entries := te\<rparr>
                 in Some (ok, if ok then tm\<lparr>lock_prefix := Some prefix\<rparr> else tm, w\<lparr>tw_locks := lw\<rparr>))"

definition finish_run_postlock :: "bool \<Rightarrow> TransactionManager \<Rightarrow> TxnWorld \<Rightarrow> bool txn_result" where
  "finish_run_postlock internal_txn tm w =
     (if \<not> internal_txn \<and> \<not> validate_watch_version (tw_versions w) (tm_watch tm)
      then map_option (\<lambda>(tm, w). (False, watch_reset tm, w)) (txn_reset tm w)
      else let (ok, w1) = mark tm TxnStart w
           in if \<not> ok
              then map_option (\<lambda>(tm, w). (False, if internal_txn then tm else watch_reset tm, w)) (txn_reset tm w1)
              else Some (True, tm\<lparr>tm_state := StRunning\<rparr>, w1))"

definition run_exec ::
  "(bytes \<Rightarrow> bytes \<Rightarrow> u64) \<Rightarrow> (bytes \<Rightarrow> u64) \<Rightarrow> bytes \<Rightarrow> TransactionManager \<Rightarrow> TxnWorld \<Rightarrow> ExecRun txn_result" where
  "run_exec H R prefix tm w =
     (let prepared =
            (if \<not> exec_lock_armed tm then
               case try_acquire_barrier tm w of (ok, tm, w) \<Rightarrow>
                 if \<not> ok then Some (False, tm, w)
                 else map_option (\<lambda>(tm, w). (True, tm\<lparr>exec_lock_armed := True\<rparr>, w)) (register_run_preamble H R prefix False tm w)
             else if txn_barrier tm = None \<or> (lock_prefix tm \<noteq> None \<and> lock_prefix tm \<noteq> Some prefix) then
               case take_barrier tm w of (tm, w) \<Rightarrow>
                 case try_acquire_barrier tm w of (ok, tm, w) \<Rightarrow>
                   if \<not> ok then Some (False, tm, w)
                   else case unlock_entries tm w of
                     None \<Rightarrow> None
                   | Some (tm, w) \<Rightarrow> map_option (\<lambda>(tm, w). (True, tm, w)) (register_run_preamble H R prefix False tm w)
             else Some (True, tm, w))
      in case prepared of
           None \<Rightarrow> None
         | Some (False, tm, w) \<Rightarrow> Some (ExContended, tm, w)
         | Some (True, tm, w) \<Rightarrow>
             case try_lock_all_keys_once (tm_entries tm) (tw_locks w) of
               None \<Rightarrow> None
             | Some (ok, te, lw) \<Rightarrow>
                 let tm = tm\<lparr>tm_entries := te\<rparr>; w = w\<lparr>tw_locks := lw\<rparr>
                 in if \<not> ok then Some (ExContended, tm, w)
                    else map_option (\<lambda>(ok, tm, w). (if ok then ExStarted else ExAborted, tm, w)) (finish_run_postlock False tm w))"

definition begin_run_preamble ::
  "(nat \<Rightarrow> TxnWorld \<Rightarrow> TxnWorld) \<Rightarrow> (bytes \<Rightarrow> bytes \<Rightarrow> u64) \<Rightarrow> (bytes \<Rightarrow> u64) \<Rightarrow> bytes \<Rightarrow> bool \<Rightarrow>
     TransactionManager \<Rightarrow> TxnWorld \<Rightarrow> (TransactionManager \<times> TxnWorld) option" where
  "begin_run_preamble env H R prefix internal_txn tm w =
     (case (if txn_barrier tm = None
            then map_option (\<lambda>(d, w). (tm\<lparr>txn_barrier := Some d\<rparr>, w)) (acquire_txn env 0 w) else Some (tm, w)) of
        None \<Rightarrow> None
      | Some (tm, w) \<Rightarrow> register_run_preamble H R prefix internal_txn tm w)"

definition txn_run ::
  "(nat \<Rightarrow> TxnWorld \<Rightarrow> TxnWorld) \<Rightarrow> (nat \<Rightarrow> LockWorld \<Rightarrow> LockWorld) \<Rightarrow> (nat \<Rightarrow> bool) \<Rightarrow>
     (bytes \<Rightarrow> bytes \<Rightarrow> u64) \<Rightarrow> (bytes \<Rightarrow> u64) \<Rightarrow> bytes \<Rightarrow> bool \<Rightarrow> bool \<Rightarrow> TransactionManager \<Rightarrow> TxnWorld \<Rightarrow> bool txn_result" where
  "txn_run gate_env lock_env elapsed H R prefix internal_txn fail_fast tm w =
     (case begin_run_preamble gate_env H R prefix internal_txn tm w of
        None \<Rightarrow> None
      | Some (tm, w) \<Rightarrow>
          case (if fail_fast then try_lock_all_keys lock_env elapsed 0 (tm_entries tm) (tw_locks w)
                else map_option (\<lambda>(te, lw). (True, te, lw)) (lock_all_keys lock_env 0 (tm_entries tm) (tw_locks w))) of
            None \<Rightarrow> None
          | Some (ok, te, lw) \<Rightarrow>
              let tm = tm\<lparr>tm_entries := te\<rparr>; w = w\<lparr>tw_locks := lw\<rparr>
              in if \<not> ok
                 then map_option (\<lambda>(tm, w). (False, if internal_txn then tm else watch_reset tm, w)) (txn_reset tm w)
                 else finish_run_postlock internal_txn tm w)"

subsection \<open>Ending\<close>

definition txn_commit :: "bool \<Rightarrow> TransactionManager \<Rightarrow> TxnWorld \<Rightarrow> bool txn_result" where
  "txn_commit internal_txn tm w =
     (let (enqueued, w) = mark tm TxnCommit w;
          tm = (if internal_txn then tm else watch_reset tm)
      in map_option (\<lambda>(tm, w). (enqueued, tm, w)) (txn_reset tm w))"

definition finish_abandoned :: "TransactionManager \<Rightarrow> TxnWorld \<Rightarrow> bool txn_result" where
  "finish_abandoned tm w =
     (if tm_state tm \<noteq> StRunning then Some (True, tm, w)
      else let (enqueued, w) = mark tm TxnAbort w
           in map_option (\<lambda>(tm, w). (enqueued, tm, w)) (txn_reset tm w))"

end
