(* ===== verification/TxnManagerProps.thy ===== *)
theory TxnManagerProps
  imports TxnManager
begin

text \<open>
  Properties of the transaction manager: watching detects every later write, an execution that starts
  holds every latch its keys need and saw no watched key change, registrations at the barrier are
  balanced, and the markers in the log come in groups.
\<close>

section \<open>The version map\<close>

definition vm_ok :: "WatchVersionMap \<Rightarrow> bool" where
  "vm_ok vm \<longleftrightarrow> (\<forall>h. version_slot vm h < length (vm_map vm))"

lemma version_map_new_ok:
  assumes "version_map_new n = Some vm"
  shows "vm_ok vm"
proof -
  obtain k where k: "n = 2 ^ k" using assms usize_power by (auto simp: version_map_new_def split: if_splits)
  have vm: "length (vm_map vm) = n" "vm_mask vm = of_nat n - 1" using assms by (auto simp: version_map_new_def split: if_splits)
  have "version_slot vm h < 2 ^ k" for h
  proof -
    have "vm_mask vm = mask k" by (simp add: vm k mask_eq_exp_minus_1)
    then have "version_slot vm h = unat h mod 2 ^ k" by (simp add: version_slot_def unat_and_mask)
    then show ?thesis by simp
  qed
  then show ?thesis using vm k by (simp add: vm_ok_def)
qed

lemma read_version_ok: "vm_ok vm \<Longrightarrow> read_version vm h = Some (vm_map vm ! version_slot vm h)"
  by (simp add: read_version_def vm_ok_def Let_def)

lemma increment_version_ok:
  assumes "vm_ok vm" "increment_version vm h = Some vm'"
  shows "vm_ok vm'" "vm_mask vm' = vm_mask vm" "version_slot vm' = version_slot vm"
    "read_version vm' g = map_option (\<lambda>v. v + of_bool (version_slot vm g = version_slot vm h)) (read_version vm g)"
proof -
  have e: "vm' = vm\<lparr>vm_map := (vm_map vm)[version_slot vm h := vm_map vm ! version_slot vm h + 1]\<rparr>"
    using assms by (simp add: increment_version_def vm_ok_def Let_def split: if_splits)
  show s: "version_slot vm' = version_slot vm" by (simp add: e version_slot_def fun_eq_iff)
  show ok: "vm_ok vm'" using assms(1) s by (simp add: vm_ok_def e version_slot_def)
  show "vm_mask vm' = vm_mask vm" by (simp add: e)
  show "read_version vm' g = map_option (\<lambda>v. v + of_bool (version_slot vm g = version_slot vm h)) (read_version vm g)"
    using assms(1) by (simp add: read_version_ok ok s) (simp add: e vm_ok_def nth_list_update)
qed

section \<open>Watching\<close>

datatype watch_event = EvWatch bytes bytes | EvWrite u64

fun watch_run ::
  "(bytes \<Rightarrow> bytes \<Rightarrow> u64) \<Rightarrow> watch_event list \<Rightarrow> WatchVersionMap \<Rightarrow> WatchedKeySlice list \<Rightarrow>
     (WatchVersionMap \<times> WatchedKeySlice list) option" where
  "watch_run H [] vm slices = Some (vm, slices)"
| "watch_run H (EvWatch prefix key # evs) vm slices =
     (case add_watch H vm slices prefix key of None \<Rightarrow> None | Some slices' \<Rightarrow> watch_run H evs vm slices')"
| "watch_run H (EvWrite h # evs) vm slices =
     (case increment_version vm h of None \<Rightarrow> None | Some vm' \<Rightarrow> watch_run H evs vm' slices)"

definition writes_of :: "watch_event list \<Rightarrow> u64 list" where
  "writes_of evs = List.map_filter (\<lambda>e. case e of EvWrite h \<Rightarrow> Some h | _ \<Rightarrow> None) evs"

text \<open>The writes after a key was watched for the first time.\<close>

fun writes_since :: "(bytes \<Rightarrow> bytes \<Rightarrow> u64) \<Rightarrow> u64 \<Rightarrow> bytes \<Rightarrow> watch_event list \<Rightarrow> u64 list" where
  "writes_since H h key [] = []"
| "writes_since H h key (EvWatch prefix key' # evs) =
     (if H prefix key' = h \<and> key' = key then writes_of evs else writes_since H h key evs)"
| "writes_since H h key (EvWrite _ # evs) = writes_since H h key evs"

definition hits :: "WatchVersionMap \<Rightarrow> u64 \<Rightarrow> u64 list \<Rightarrow> nat" where
  "hits vm h hs = length (filter (\<lambda>g. version_slot vm g = version_slot vm h) hs)"

lemma writes_of_simps [simp]:
  "writes_of [] = []" "writes_of (EvWrite h # evs) = h # writes_of evs" "writes_of (EvWatch p k # evs) = writes_of evs"
  by (simp_all add: writes_of_def List.map_filter_simps)

text \<open>What is known of a slice after a run: its version, plus the hits of the run, is the current one.\<close>

lemma watch_run_reads:
  assumes "vm_ok vm" "watch_run H evs vm slices = Some (vm', slices')"
  shows "vm_ok vm' \<and> version_slot vm' = version_slot vm \<and>
    read_version vm' h = map_option (\<lambda>v. v + of_nat (hits vm h (writes_of evs))) (read_version vm h)"
  using assms
proof (induction H evs vm slices rule: watch_run.induct)
  case (2 H prefix key evs vm slices)
  then show ?case by (auto split: option.splits)
next
  case (3 H g evs vm slices)
  then obtain vm1 where v: "increment_version vm g = Some vm1" "watch_run H evs vm1 slices = Some (vm', slices')"
    by (auto split: option.splits)
  note i = increment_version_ok [OF 3(2) v(1)]
  have "hits vm1 = hits vm" using i(3) by (simp add: hits_def fun_eq_iff)
  then show ?case using 3(1) [OF v(1) i(1) v(2)] i by (auto simp: hits_def option.map_comp comp_def algebra_simps)
qed (simp add: hits_def option.map_ident)

definition ident :: "WatchedKeySlice list \<Rightarrow> (u64 \<times> bytes) set" where
  "ident slices = (\<lambda>s. (ws_hash s, ws_key s)) ` set slices"

definition watched_by :: "(bytes \<Rightarrow> bytes \<Rightarrow> u64) \<Rightarrow> watch_event list \<Rightarrow> (u64 \<times> bytes) set" where
  "watched_by H evs = {(H p k, k) | p k. EvWatch p k \<in> set evs}"

lemma watched_by_simps [simp]:
  "watched_by H [] = {}" "watched_by H (EvWrite h # evs) = watched_by H evs"
  "watched_by H (EvWatch p k # evs) = insert (H p k, k) (watched_by H evs)"
  by (auto simp: watched_by_def)

definition accurate :: "(bytes \<Rightarrow> bytes \<Rightarrow> u64) \<Rightarrow> watch_event list \<Rightarrow> WatchVersionMap \<Rightarrow> WatchVersionMap \<Rightarrow> WatchedKeySlice \<Rightarrow> bool" where
  "accurate H evs vm vm' s \<longleftrightarrow>
     read_version vm' (ws_hash s) = Some (ws_version s + of_nat (hits vm (ws_hash s) (writes_since H (ws_hash s) (ws_key s) evs)))"

lemma watch_run_new:
  assumes "vm_ok vm" "watch_run H evs vm slices = Some (vm', slices')"
  shows "\<exists>new. slices' = slices @ new \<and> ident slices' = ident slices \<union> watched_by H evs \<and>
    (\<forall>s \<in> set new. (ws_hash s, ws_key s) \<notin> ident slices \<and> accurate H evs vm vm' s)"
  using assms
proof (induction H evs vm slices rule: watch_run.induct)
  case (2 H p k evs vm slices)
  let ?h = "H p k"
  obtain slices1 where a: "add_watch H vm slices p k = Some slices1" "watch_run H evs vm slices1 = Some (vm', slices')"
    using 2(3) by (auto split: option.splits)
  obtain new where n: "slices' = slices1 @ new" "ident slices' = ident slices1 \<union> watched_by H evs"
    "\<forall>s \<in> set new. (ws_hash s, ws_key s) \<notin> ident slices1 \<and> accurate H evs vm vm' s"
    using 2(1) [OF a(1) 2(2) a(2)] by blast
  have skip: "accurate H (EvWatch p k # evs) vm vm' s" if "accurate H evs vm vm' s" "(ws_hash s, ws_key s) \<noteq> (?h, k)" for s
    using that by (auto simp: accurate_def)
  show ?case
  proof (cases "list_ex (\<lambda>s. ws_hash s = ?h \<and> ws_key s = k) slices")
    case True
    then have s1: "slices1 = slices" "(?h, k) \<in> ident slices"
      using a(1) by (simp add: add_watch_def Let_def, force simp: list_ex_iff ident_def)
    have "\<forall>s \<in> set new. (ws_hash s, ws_key s) \<notin> ident slices \<and> accurate H (EvWatch p k # evs) vm vm' s"
      using n(3) s1 skip by metis
    then show ?thesis using n(1,2) s1 by (intro exI [of _ new]) auto
  next
    case False
    then obtain v where v: "read_version vm ?h = Some v" "slices1 = slices @ [\<lparr>ws_key = k, ws_hash = ?h, ws_version = v\<rparr>]"
      using a(1) by (auto simp: add_watch_def Let_def)
    let ?s = "\<lparr>ws_key = k, ws_hash = ?h, ws_version = v\<rparr>"
    have i1: "ident slices1 = insert (?h, k) (ident slices)" using v by (auto simp: ident_def)
    have fresh: "(?h, k) \<notin> ident slices" using False by (auto simp: ident_def list_ex_iff)
    have "accurate H (EvWatch p k # evs) vm vm' ?s"
      using watch_run_reads [OF 2(2) a(2), of ?h] v(1) by (simp add: accurate_def)
    moreover have "\<forall>s \<in> set new. (ws_hash s, ws_key s) \<notin> ident slices \<and> accurate H (EvWatch p k # evs) vm vm' s"
      using n(3) i1 skip by (metis insert_iff)
    ultimately show ?thesis using n(1,2) v(2) i1 fresh by (intro exI [of _ "?s # new"]) auto
  qed
next
  case (3 H g evs vm slices)
  then obtain vm1 where v: "increment_version vm g = Some vm1" "watch_run H evs vm1 slices = Some (vm', slices')"
    by (auto split: option.splits)
  note i = increment_version_ok [OF 3(2) v(1)]
  have "hits vm1 = hits vm" using i(3) by (simp add: hits_def fun_eq_iff)
  then have "accurate H (EvWrite g # evs) vm vm' = accurate H evs vm1 vm'" by (simp add: accurate_def fun_eq_iff)
  then show ?case using 3(1) [OF v(1) i(1) v(2)] by simp
qed simp

text \<open>C12: Validation at execution passes if and only if, for every key watched, the number of writes that hit
  its slot of the version map since the key was first watched is a multiple of 2^64. So a single write
  after WATCH aborts the transaction, and watching a key again does not hide a write in between.\<close>

lemma watch_detects_writes:
  assumes "version_map_new n = Some vm0" "watch_run H history vm0 [] = Some (vm, old)"
    and "watch_run H evs vm [] = Some (vm', slices)"
  shows "validate_watch_version vm' slices \<longleftrightarrow>
    (\<forall>p k. EvWatch p k \<in> set evs \<longrightarrow> 2 ^ 64 dvd hits vm (H p k) (writes_since H (H p k) k evs))"
proof -
  have ok: "vm_ok vm" using watch_run_reads [OF version_map_new_ok [OF assms(1)] assms(2)] by blast
  have s: "ident slices = watched_by H evs" "\<forall>s \<in> set slices. accurate H evs vm vm' s"
    using watch_run_new [OF ok assms(3)] by (auto simp: ident_def)
  have "validate_watch_version vm' slices \<longleftrightarrow>
      (\<forall>s \<in> set slices. (of_nat (hits vm (ws_hash s) (writes_since H (ws_hash s) (ws_key s) evs)) :: u64) = 0)"
    using s(2) by (auto simp: validate_watch_version_def list_all_iff accurate_def)
  also have "\<dots> \<longleftrightarrow> (\<forall>(h, k) \<in> ident slices. 2 ^ 64 dvd hits vm h (writes_since H h k evs))"
    by (simp add: ident_def word_of_nat_eq_0_iff)
  also have "\<dots> \<longleftrightarrow> (\<forall>p k. EvWatch p k \<in> set evs \<longrightarrow> 2 ^ 64 dvd hits vm (H p k) (writes_since H (H p k) k evs))"
    unfolding s(1) by (auto simp: watched_by_def)
  finally show ?thesis .
qed

text \<open>A key is watched, another key is written, the first is written, and it is watched again.\<close>

theorem watch_detects_writes_witness:
  "\<exists>vm' slices. watch_run (\<lambda>_ k. of_nat (length k)) [EvWatch [] [1], EvWrite 2, EvWrite 1, EvWatch [] [1]]
       \<lparr>vm_map = [0, 0, 0, 0], vm_mask = 3\<rparr> [] = Some (vm', slices) \<and> \<not> validate_watch_version vm' slices"
proof -
  let ?H = "\<lambda>_ (k :: bytes). of_nat (length k) :: u64" and ?vm = "\<lparr>vm_map = [0, 0, 0, 0], vm_mask = 3\<rparr>"
  let ?evs = "[EvWatch [] [1], EvWrite 2, EvWrite 1, EvWatch [] [1]]"
  have "is_power_of_two_usize 4" by code_simp
  then have n: "version_map_new 4 = Some ?vm" by (simp add: version_map_new_def numeral_eq_Suc)
  have h: "watch_run ?H [] ?vm [] = Some (?vm, [])" by simp
  have "watch_run ?H ?evs ?vm [] \<noteq> None" by code_simp
  then obtain vm' slices where r: "watch_run ?H ?evs ?vm [] = Some (vm', slices)" by auto
  have "hits ?vm 1 (writes_since ?H 1 [1] ?evs) = 1" by code_simp
  then have "\<not> 2 ^ 64 dvd hits ?vm (?H [] [1]) (writes_since ?H (?H [] [1]) [1] ?evs)" by simp
  then have "\<not> validate_watch_version vm' slices" unfolding watch_detects_writes [OF n h r] by (auto intro!: exI [of _ "[]"] exI [of _ "[1]"])
  then show ?thesis using r by blast
qed

section \<open>Execution\<close>

lemma covers_of_strength:
  "te_latch te = Some v \<Longrightarrow> strength (te_held te) (bucket_index_for_hash (lw_index w v) (H prefix key)) = Some y \<Longrightarrow>
   (x \<Longrightarrow> y) \<Longrightarrow> covers_user_keys H te w prefix [key] x"
  by (auto simp: covers_user_keys_def strength_def split: option.splits)

lemma unlock_none_held: "te_held te = [] \<Longrightarrow> unlock_all_keys te w = Some (entries_new, w)"
  by (auto simp: unlock_all_keys_def release_held_def entries_new_def split: option.splits)

lemma add_entries_simps [simp]:
  "te_keys (add_entries te es) = te_keys te @ es" "te_held (add_entries te es) = te_held te"
  "te_plan (add_entries te es) = te_plan te" "te_latch (add_entries te es) = te_latch te"
  "te_locked (add_entries te es) = te_locked te"
  by (induction es arbitrary: te) (simp_all add: add_entries_def add_key_def txn_key_entry_new_def)

lemma planned_no_plan: "te_plan te = None \<Longrightarrow> planned te w"
  by (simp add: planned_def)

text \<open>The entries a transaction needs under a prefix: its watched keys shared, its queued keys as queued.\<close>

definition needs ::
  "(bytes \<Rightarrow> bytes \<Rightarrow> u64) \<Rightarrow> (bytes \<Rightarrow> u64) \<Rightarrow> bytes \<Rightarrow> TransactionManager \<Rightarrow> (bytes \<times> LockType) list \<Rightarrow> TxnKeyEntry list" where
  "needs H R prefix tm ks = expand_watched H R prefix (tm_watch tm) @ expand_queued H R prefix ks"

definition exec_ready ::
  "(bytes \<Rightarrow> bytes \<Rightarrow> u64) \<Rightarrow> (bytes \<Rightarrow> u64) \<Rightarrow> (bytes \<times> LockType) list \<Rightarrow> TransactionManager \<Rightarrow> TxnWorld \<Rightarrow> bool" where
  "exec_ready H R ks tm w \<longleftrightarrow> world_ok (tw_locks w) \<and> keys_iter_with_lock (txn_keys tm) = Some ks \<and>
     te_held (tm_entries tm) = [] \<and> planned (tm_entries tm) (tw_locks w) \<and>
     (if exec_lock_armed tm
      then \<exists>p. lock_prefix tm = Some p \<and> set (needs H R p tm ks) \<subseteq> set (te_keys (tm_entries tm))
      else te_plan (tm_entries tm) = None)"

definition isolated ::
  "(bytes \<Rightarrow> bytes \<Rightarrow> u64) \<Rightarrow> bytes \<Rightarrow> (bytes \<times> LockType) list \<Rightarrow> TransactionManager \<Rightarrow> TxnWorld \<Rightarrow> bool" where
  "isolated H prefix ks tm w \<longleftrightarrow>
     list_all (\<lambda>(key, t). covers_user_keys H (tm_entries tm) (tw_locks w) prefix [key] (t = Exclusive)) ks \<and>
     list_all (\<lambda>s. covers_user_keys H (tm_entries tm) (tw_locks w) prefix [ws_key s] False) (tm_watch tm)"

text \<open>The queue of a transaction: its keys, its watched keys, where it starts and how long it is.\<close>

definition same_queue :: "TransactionManager \<Rightarrow> TransactionManager \<Rightarrow> bool" where
  "same_queue tm tm' \<longleftrightarrow> tm_watch tm' = tm_watch tm \<and> txn_keys tm' = txn_keys tm \<and>
     txn_start_head tm' = txn_start_head tm \<and> operation_cnt_txn tm' = operation_cnt_txn tm"

text \<open>The state right before the attempt to lock.\<close>

definition prepared ::
  "(bytes \<Rightarrow> bytes \<Rightarrow> u64) \<Rightarrow> (bytes \<Rightarrow> u64) \<Rightarrow> bytes \<Rightarrow> (bytes \<times> LockType) list \<Rightarrow> TransactionManager \<Rightarrow>
     TransactionManager \<Rightarrow> TxnWorld \<Rightarrow> bool" where
  "prepared H R prefix ks tm tm1 w1 \<longleftrightarrow> exec_ready H R ks tm1 w1 \<and> exec_lock_armed tm1 \<and> txn_barrier tm1 \<noteq> None \<and>
     lock_prefix tm1 = Some prefix \<and> same_queue tm tm1 \<and> tm_state tm1 = tm_state tm"

lemma register_prepared:
  assumes "te_held (tm_entries tm) = []" "te_plan (tm_entries tm) = None" "keys_iter_with_lock (txn_keys tm) = Some ks"
    "world_ok (tw_locks w)" "txn_barrier tm \<noteq> None"
  obtains tm1 w1 where "register_run_preamble H R prefix False tm w = Some (tm1, w1)"
    "prepared H R prefix ks tm (tm1\<lparr>exec_lock_armed := True\<rparr>) w1" "exec_lock_armed tm1 = exec_lock_armed tm"
    "tw_locks w1 = tw_locks w" "tw_versions w1 = tw_versions w" "txn_keys tm1 = txn_keys tm"
proof -
  let ?te = "add_entries (add_entries (tm_entries tm) (expand_watched H R prefix (tm_watch tm))) (expand_queued H R prefix ks)"
  have "set (needs H R prefix tm ks) \<subseteq> set (te_keys ?te)" by (auto simp: needs_def)
  then show thesis using assms that
    by (simp add: register_run_preamble_def prepared_def exec_ready_def planned_no_plan same_queue_def) (simp add: needs_def)
qed

lemma try_acquire_barrier_cases:
  obtains d w1 where "try_acquire_barrier tm w = (True, tm\<lparr>txn_barrier := Some d\<rparr>, w1)"
      "tw_locks w1 = tw_locks w" "tw_versions w1 = tw_versions w"
  | "try_acquire_barrier tm w = (False, tm, w)" "txn_barrier tm = None"
proof (cases "txn_barrier tm")
  case (Some d)
  then have "tm\<lparr>txn_barrier := Some d\<rparr> = tm" by simp
  then show thesis using Some that(1) [of d w] by (simp add: try_acquire_barrier_def)
next
  case None
  then show thesis using that by (cases "tw_gate w") (auto simp: try_acquire_barrier_def try_acquire_txn_def)
qed

lemma locked_isolated:
  assumes "strength (te_held te) = wanted ix keys" "keys \<noteq> [] \<Longrightarrow> te_latch te = Some v" "ix_mask (lw_index lw v) = ix_mask ix"
    and "set (needs H R prefix tm ks) \<subseteq> set keys" "tm_entries tm' = te" "tw_locks w' = lw" "tm_watch tm' = tm_watch tm"
  shows "isolated H prefix ks tm' w'"
proof -
  have cov: "covers_user_keys H te lw prefix [key] x"
    if "txn_key_entry_new (H prefix key) r t \<in> set (needs H R prefix tm ks)" "x \<Longrightarrow> t = Exclusive" for key r t x
  proof -
    have e: "txn_key_entry_new (H prefix key) r t \<in> set keys" using that(1) assms(4) by blast
    then have l: "te_latch te = Some v" using assms(2) by (cases keys) auto
    let ?b = "bucket_index_for_hash (lw_index lw v) (H prefix key)"
    have b: "?b = bucket_index_for_hash ix (H prefix key)" using assms(3) by (simp add: bucket_index_for_hash_def)
    have "list_ex (\<lambda>k. bucket_index_for_hash ix (key_hash k) = ?b) keys"
      using e b by (auto simp: list_ex_iff txn_key_entry_new_def intro!: bexI [OF _ e])
    moreover have "list_ex (\<lambda>k. bucket_index_for_hash ix (key_hash k) = ?b \<and> lock_type k = Exclusive) keys" if x
      using e b that(1) \<open>x \<Longrightarrow> t = Exclusive\<close> by (auto simp: list_ex_iff txn_key_entry_new_def intro!: bexI [OF _ e])
    ultimately show ?thesis using covers_of_strength [OF l, of lw H prefix key _ x] assms(1) by (auto simp: wanted_def)
  qed
  have "covers_user_keys H te lw prefix [key] (t = Exclusive)" if "(key, t) \<in> set ks" for key t
    using that by (intro cov [of key "R key" t]) (force simp: needs_def expand_queued_def)+
  moreover have "covers_user_keys H te lw prefix [ws_key s] False" if "s \<in> set (tm_watch tm)" for s
    using that by (intro cov [of "ws_key s" "R (ws_key s)" Shared]) (force simp: needs_def expand_watched_def save_lock_hashes_def)+
  ultimately show ?thesis using assms(5-7) by (auto simp: isolated_def list_all_iff)
qed

definition all_keep :: "LockWorld \<Rightarrow> LockWorld \<Rightarrow> bool" where
  "all_keep w w' \<longleftrightarrow> (\<forall>v. keeps (lw_index w v) (lw_index w' v))"

lemma all_keep_refl: "world_ok w \<Longrightarrow> all_keep w w"
  by (simp add: all_keep_def world_ok_def keeps_refl)

lemma all_keep_put: "world_ok w \<Longrightarrow> keeps (lw_index w v) ix \<Longrightarrow> all_keep w (put_index w v ix)"
  by (simp add: all_keep_def world_ok_def keeps_refl)

text \<open>What an execution promises, by outcome.\<close>

definition exec_outcome ::
  "(bytes \<Rightarrow> bytes \<Rightarrow> u64) \<Rightarrow> (bytes \<Rightarrow> u64) \<Rightarrow> bytes \<Rightarrow> (bytes \<times> LockType) list \<Rightarrow> TransactionManager \<Rightarrow> TxnWorld \<Rightarrow>
     ExecRun \<Rightarrow> TransactionManager \<Rightarrow> TxnWorld \<Rightarrow> bool" where
  "exec_outcome H R prefix ks tm w r tm' w' \<longleftrightarrow>
     (case r of
        ExStarted \<Rightarrow>
          tm_state tm' = StRunning \<and> txn_barrier tm' \<noteq> None \<and> same_queue tm tm' \<and>
          validate_watch_version (tw_versions w) (tm_watch tm) \<and> isolated H prefix ks tm' w' \<and>
          (\<exists>lw. unlock_all_keys (tm_entries tm') (tw_locks w') = Some (entries_new, lw) \<and> all_keep (tw_locks w) lw)
      | ExContended \<Rightarrow>
          exec_ready H R ks tm' w' \<and> same_queue tm tm' \<and> tm_state tm' = tm_state tm \<and>
          all_keep (tw_locks w) (tw_locks w')
      | ExAborted \<Rightarrow>
          tm_state tm' = StNone \<and> tm_entries tm' = entries_new \<and> txn_barrier tm' = None \<and> tm_watch tm' = [] \<and>
          txn_keys tm' = keys_new \<and> \<not> exec_lock_armed tm' \<and> all_keep (tw_locks w) (tw_locks w'))"

lemma reset_after_lock:
  assumes "unlock_all_keys (tm_entries tm) (tw_locks w) = Some (entries_new, lw)"
  obtains tm' w' where "txn_reset tm w = Some (tm', w')" "tm_state tm' = StNone" "tm_entries tm' = entries_new"
    "txn_barrier tm' = None" "\<not> exec_lock_armed tm'" "tw_locks w' = lw" "tm_watch tm' = tm_watch tm" "txn_keys tm' = keys_new"
proof -
  obtain tm1 w1 where b: "take_barrier (tm\<lparr>tm_entries := entries_new\<rparr>) (w\<lparr>tw_locks := lw\<rparr>) = (tm1, w1)" by fastforce
  then have "txn_barrier tm1 = None" "tm_entries tm1 = entries_new" "tw_locks w1 = lw" "tm_watch tm1 = tm_watch tm"
    by (auto simp: take_barrier_def end_txn_def split: option.splits)
  moreover have "keys_clear b = keys_new" for b by (cases b) (simp add: keys_clear_def keys_new_def)
  ultimately show thesis using that b assms by (simp add: txn_reset_def unlock_entries_def)
qed

lemma mark_locks [simp]: "mark tm ty w = (ok, w') \<Longrightarrow> tw_locks w' = tw_locks w \<and> tw_versions w' = tw_versions w"
  by (auto simp: mark_def enqueue_txn_marker_def split: if_splits option.splits)

lemma postlock_outcome:
  assumes l: "tw_locks w = lw" "unlock_all_keys (tm_entries tm) lw = Some (entries_new, lw2)" "all_keep lw0 lw2"
    and iso: "\<And>tm' w'. tm_entries tm' = tm_entries tm \<Longrightarrow> tw_locks w' = lw \<Longrightarrow> tm_watch tm' = tm_watch tm \<Longrightarrow> isolated H prefix ks tm' w'"
    and o: "same_queue tm0 tm" "tw_versions w = tw_versions w0" "tw_locks w0 = lw0" "txn_barrier tm \<noteq> None"
  obtains ok tm' w' where "finish_run_postlock False tm w = Some (ok, tm', w')"
    "exec_outcome H R prefix ks tm0 w0 (if ok then ExStarted else ExAborted) tm' w'"
proof -
  obtain ok w1 where m: "mark tm TxnStart w = (ok, w1)" by fastforce
  have l1: "tw_locks w1 = lw" using mark_locks [OF m] l(1) by simp
  have reset: "\<exists>tm' w'. map_option (\<lambda>(tm, w). (False, watch_reset tm, w)) (txn_reset tm v) = Some (False, tm', w') \<and>
      exec_outcome H R prefix ks tm0 w0 ExAborted tm' w'" if v: "tw_locks v = lw" for v
  proof -
    obtain tm' w' where "txn_reset tm v = Some (tm', w')" "tm_state tm' = StNone" "tm_entries tm' = entries_new"
      "txn_barrier tm' = None" "\<not> exec_lock_armed tm'" "tw_locks w' = lw2" "txn_keys tm' = keys_new"
      using reset_after_lock [of tm v lw2] l(2) v by metis
    then show ?thesis using l(3) o(3) by (simp add: exec_outcome_def watch_reset_def)
  qed
  consider "\<not> validate_watch_version (tw_versions w) (tm_watch tm)" | "validate_watch_version (tw_versions w) (tm_watch tm)" "\<not> ok"
    | "validate_watch_version (tw_versions w) (tm_watch tm)" ok by blast
  then show thesis
  proof cases
    case 1
    then show thesis using reset [OF l(1)] that [of False] by (auto simp: finish_run_postlock_def)
  next
    case 2
    then show thesis using reset [OF l1] that [of False] m by (auto simp: finish_run_postlock_def)
  next
    case 3
    have "isolated H prefix ks (tm\<lparr>tm_state := StRunning\<rparr>) w1" using l1 by (intro iso) simp_all
    moreover have "unlock_all_keys (tm_entries tm) (tw_locks w1) = Some (entries_new, lw2)" "all_keep (tw_locks w0) lw2"
      using l l1 o(3) by simp_all
    ultimately show thesis using 3 that [of True] m o by (auto simp: finish_run_postlock_def exec_outcome_def same_queue_def)
  qed
qed

lemma attempt_outcome:
  assumes p: "prepared H R prefix ks tm0 tm w" and o: "tw_locks w = tw_locks w0" "tw_versions w = tw_versions w0"
  obtains r tm' w' where "(case try_lock_all_keys_once (tm_entries tm) (tw_locks w) of
      None \<Rightarrow> None
    | Some (ok, te, lw) \<Rightarrow>
        let tm = tm\<lparr>tm_entries := te\<rparr>; w = w\<lparr>tw_locks := lw\<rparr>
        in if \<not> ok then Some (ExContended, tm, w)
           else map_option (\<lambda>(ok, tm, w). (if ok then ExStarted else ExAborted, tm, w)) (finish_run_postlock False tm w)) = Some (r, tm', w')"
    "exec_outcome H R prefix ks tm0 w0 r tm' w'"
proof -
  let ?te = "tm_entries tm" and ?w = "tw_locks w"
  have e: "world_ok ?w" "keys_iter_with_lock (txn_keys tm) = Some ks" "te_held ?te = []" "planned ?te ?w" "exec_lock_armed tm"
    "set (needs H R prefix tm ks) \<subseteq> set (te_keys ?te)" "lock_prefix tm = Some prefix" "txn_barrier tm \<noteq> None"
    "same_queue tm0 tm" "tm_state tm = tm_state tm0"
    using p by (auto simp: prepared_def exec_ready_def)
  define v where "v = pinned ?te ?w"
  show thesis
  proof (cases rule: attempt_cases [OF e(1,4,3), folded v_def])
    case (1 te ix')
    obtain ix2 where u: "unlock_all_keys te (put_index ?w v ix') = Some (entries_new, put_index ?w v ix2)" "keeps (lw_index ?w v) ix2"
      using unlock_attempt [OF e(1) 1(1,2,6,7,8)] .
    let ?tm = "tm\<lparr>tm_entries := te\<rparr>" and ?w' = "w\<lparr>tw_locks := put_index ?w v ix'\<rparr>"
    have mk: "ix_mask (lw_index (put_index ?w v ix') v) = ix_mask (lw_index ?w v)" using 1(2) by (simp add: takes_def same_entries_def)
    have iso: "isolated H prefix ks tm' w'" if "tm_entries tm' = te" "tw_locks w' = put_index ?w v ix'" "tm_watch tm' = tm_watch ?tm" for tm' w'
      using locked_isolated [OF 1(7) _ mk e(6) that(1,2)] 1(8) that(3) by simp
    obtain ok tm' w' where f: "finish_run_postlock False ?tm ?w' = Some (ok, tm', w')"
      "exec_outcome H R prefix ks tm0 w0 (if ok then ExStarted else ExAborted) tm' w'"
    proof (rule postlock_outcome [where tm = ?tm and w = ?w' and H = H and prefix = prefix and ks = ks and ?tm0.0 = tm0 and ?w0.0 = w0])
      show "tw_locks ?w' = put_index ?w v ix'" by simp
      show "unlock_all_keys (tm_entries ?tm) (put_index ?w v ix') = Some (entries_new, put_index ?w v ix2)" using u(1) by simp
      show "all_keep ?w (put_index ?w v ix2)" by (rule all_keep_put [OF e(1) u(2)])
      show "isolated H prefix ks tm' w'"
        if "tm_entries tm' = tm_entries ?tm" "tw_locks w' = put_index ?w v ix'" "tm_watch tm' = tm_watch ?tm" for tm' w'
        using that by (intro iso) simp_all
      show "same_queue tm0 ?tm" "tw_versions ?w' = tw_versions w0" "tw_locks w0 = ?w" "txn_barrier ?tm \<noteq> None"
        using e o by (simp_all add: same_queue_def)
    qed
    show thesis using that f 1(3) by (simp add: Let_def)
  next
    case (2 te ix')
    let ?tm = "tm\<lparr>tm_entries := te\<rparr>" and ?w' = "w\<lparr>tw_locks := put_index ?w v ix'\<rparr>"
    have "world_ok (put_index ?w v ix')" using e(1) 2(2) by (simp add: world_ok_def keeps_def)
    moreover have "set (needs H R prefix tm ks) \<subseteq> set (te_keys te)" using e(6) mset_eq_setD [OF 2(5)] by simp
    ultimately have "exec_ready H R ks ?tm ?w'" using e 2 by (simp add: exec_ready_def needs_def)
    moreover have "all_keep (tw_locks w0) (tw_locks ?w')" using all_keep_put [OF e(1) 2(2)] o by simp
    ultimately have "exec_outcome H R prefix ks tm0 w0 ExContended ?tm ?w'" using e by (simp add: exec_outcome_def same_queue_def)
    then show thesis using that [of ExContended ?tm ?w'] 2(3) by (simp add: Let_def)
  qed
qed

lemma barrier_frame:
  obtains w1 where "take_barrier tm w = (tm\<lparr>txn_barrier := None\<rparr>, w1)" "tw_locks w1 = tw_locks w" "tw_versions w1 = tw_versions w"
proof (cases "txn_barrier tm")
  case None
  then have "tm\<lparr>txn_barrier := None\<rparr> = tm" by (cases tm) simp
  then show thesis using None that [of w] by (simp add: take_barrier_def)
next
  case (Some d)
  then show thesis using that [of "end_txn d w"] by (simp add: take_barrier_def end_txn_def)
qed

lemma exec_ready_frame:
  "exec_ready H R ks tm w \<Longrightarrow> tw_locks w1 = tw_locks w \<Longrightarrow> exec_ready H R ks (tm\<lparr>txn_barrier := b\<rparr>) w1"
  by (cases "exec_lock_armed tm") (auto simp: exec_ready_def needs_def)

lemma contended_outcome:
  "exec_ready H R ks tm w \<Longrightarrow> tw_locks w1 = tw_locks w \<Longrightarrow>
   exec_outcome H R prefix ks tm w ExContended (tm\<lparr>txn_barrier := b\<rparr>) w1"
  using exec_ready_frame [of H R ks tm w w1 b] all_keep_refl [of "tw_locks w"] by (simp add: exec_outcome_def same_queue_def) (simp add: exec_ready_def)

text \<open>The fresh and the re-registering path share the step from a barrier and no entries to a prepared manager.\<close>

lemma register_ready:
  assumes e: "exec_ready H R ks tm w" and t: "te = tm_entries tm \<and> \<not> exec_lock_armed tm \<or> te = entries_new"
    and l: "tw_locks w1 = tw_locks w" "tw_versions w1 = tw_versions w"
  obtains tm2 w2 where "register_run_preamble H R prefix False (tm\<lparr>txn_barrier := Some d, tm_entries := te\<rparr>) w1 = Some (tm2, w2)"
    "prepared H R prefix ks tm (tm2\<lparr>exec_lock_armed := True\<rparr>) w2" "exec_lock_armed tm2 = exec_lock_armed tm"
    "tw_locks w2 = tw_locks w" "tw_versions w2 = tw_versions w"
proof -
  let ?tm = "tm\<lparr>txn_barrier := Some d, tm_entries := te\<rparr>"
  have p: "te_held (tm_entries ?tm) = []" "te_plan (tm_entries ?tm) = None" "keys_iter_with_lock (txn_keys ?tm) = Some ks"
    "world_ok (tw_locks w1)" "txn_barrier ?tm \<noteq> None"
    using e t l(1) by (auto simp: exec_ready_def entries_new_def)
  from register_prepared [OF p, of H R prefix] show thesis using that l by (simp add: prepared_def same_queue_def) blast
qed

lemma run_exec_returns:
  assumes "exec_ready H R ks tm w"
  shows "\<exists>r tm' w'. run_exec H R prefix tm w = Some (r, tm', w') \<and> exec_outcome H R prefix ks tm w r tm' w'"
proof -
  have h: "unlock_all_keys (tm_entries tm) lw = Some (entries_new, lw)" for lw
    using assms by (simp add: exec_ready_def unlock_none_held)
  consider (fresh) "\<not> exec_lock_armed tm" | (stale) "exec_lock_armed tm" "txn_barrier tm = None \<or> (lock_prefix tm \<noteq> None \<and> lock_prefix tm \<noteq> Some prefix)"
    | (armed) "exec_lock_armed tm" "\<not> (txn_barrier tm = None \<or> (lock_prefix tm \<noteq> None \<and> lock_prefix tm \<noteq> Some prefix))" by blast
  then show ?thesis
  proof cases
    case fresh
    show ?thesis
    proof (cases rule: try_acquire_barrier_cases [of tm w])
      case (1 d w1)
      obtain tm2 w2 where r: "register_run_preamble H R prefix False (tm\<lparr>txn_barrier := Some d, tm_entries := tm_entries tm\<rparr>) w1 = Some (tm2, w2)"
        "prepared H R prefix ks tm (tm2\<lparr>exec_lock_armed := True\<rparr>) w2" "tw_locks w2 = tw_locks w" "tw_versions w2 = tw_versions w"
        using register_ready [OF assms _ 1(2,3)] fresh by blast
      show ?thesis by (rule attempt_outcome [OF r(2-4)]) (use fresh 1(1) r(1) in \<open>simp add: run_exec_def\<close>)
    next
      case 2
      have "exec_outcome H R prefix ks tm w ExContended tm w" using contended_outcome [OF assms refl, of prefix "txn_barrier tm"] by simp
      then show ?thesis using fresh 2 by (simp add: run_exec_def)
    qed
  next
    case stale
    have s: "(txn_barrier tm = None \<or> (lock_prefix tm \<noteq> None \<and> lock_prefix tm \<noteq> Some prefix)) = True" using stale(2) by blast
    obtain w0 where b: "take_barrier tm w = (tm\<lparr>txn_barrier := None\<rparr>, w0)" "tw_locks w0 = tw_locks w" "tw_versions w0 = tw_versions w"
      by (rule barrier_frame [of tm w])
    show ?thesis
    proof (cases rule: try_acquire_barrier_cases [of "tm\<lparr>txn_barrier := None\<rparr>" w0])
      case (1 d w1)
      obtain tm2 w2 where r: "register_run_preamble H R prefix False (tm\<lparr>txn_barrier := Some d, tm_entries := entries_new\<rparr>) w1 = Some (tm2, w2)"
        "prepared H R prefix ks tm (tm2\<lparr>exec_lock_armed := True\<rparr>) w2" "exec_lock_armed tm2 = exec_lock_armed tm"
        "tw_locks w2 = tw_locks w" "tw_versions w2 = tw_versions w"
        using register_ready [OF assms disjI2 [OF refl] trans [OF 1(2) b(2)] trans [OF 1(3) b(3)]] by blast
      have "tm2\<lparr>exec_lock_armed := True\<rparr> = tm2" using r(3) stale(1) by (cases tm2) simp
      with r(2) have "prepared H R prefix ks tm tm2 w2" by simp
      then show ?thesis
        by (rule attempt_outcome [OF _ r(4,5)]) (unfold run_exec_def s, use stale(1) b(1) 1(1) r(1) h in \<open>simp add: unlock_entries_def\<close>)
    next
      case 2
      then show ?thesis using stale(1) b(1) contended_outcome [OF assms b(2), of prefix None] unfolding run_exec_def s by simp
    qed
  next
    case armed
    then have "prepared H R prefix ks tm tm w" using assms by (auto simp: prepared_def exec_ready_def same_queue_def)
    moreover have s: "(txn_barrier tm = None \<or> (lock_prefix tm \<noteq> None \<and> lock_prefix tm \<noteq> Some prefix)) = False" using armed(2) by blast
    ultimately show ?thesis by (elim attempt_outcome [OF _ refl refl]) (unfold run_exec_def s, use armed(1) in simp)
  qed
qed

text \<open>
  C5: EXEC in one step. From a manager whose queued keys decode and which holds no lock, \<^const>\<open>run_exec\<close> always
  returns. When it starts, the state is Running, the barrier is held, the queue is as it was, no watched key had changed,
  every queued key is covered by a held bucket latch of at least its strength and every watched key by at least a
  shared one, and what is held can be released again. When it is contended, nothing is held, every latch is as
  before, and the manager is ready for the next attempt. When it aborts, everything is released and the manager is
  back in its initial state.
\<close>

theorem exec_outcomes:
  assumes "exec_ready H R ks tm w"
  shows "\<exists>r tm' w'. run_exec H R prefix tm w = Some (r, tm', w') \<and> exec_outcome H R prefix ks tm w r tm' w'"
  by (rule run_exec_returns [OF assms])

text \<open>A manager that watches one key and queued a write of another, with the barrier open and closed.\<close>

definition example_txn_world :: "nat option \<Rightarrow> TxnWorld" where
  "example_txn_world gate =
     \<lparr>tw_locks = example_world, tw_gate = gate, tw_active = \<lambda>_. 0,
      tw_versions = \<lparr>vm_map = [0, 7, 0, 0], vm_mask = 3\<rparr>, tw_seq = 1, tw_log = []\<rparr>"

definition example_manager :: TransactionManager where
  "example_manager =
     (manager_new None)\<lparr>tm_state := StStarted, tm_watch := [\<lparr>ws_key = [1], ws_hash = 1, ws_version = 7\<rparr>],
        txn_keys := keys_push keys_new [2] Exclusive\<rparr>"

definition length_hash :: "bytes \<Rightarrow> bytes \<Rightarrow> u64" where
  "length_hash prefix key = of_nat (length prefix) + ucast (hd key)"

lemma example_exec_ready: "exec_ready length_hash (\<lambda>_. 0) [([2], Exclusive)] example_manager (example_txn_world gate)"
proof -
  have "keys_iter_with_lock (keys_push keys_new [2] Exclusive) = Some [([2], Exclusive)]" by code_simp
  then show ?thesis
    by (simp add: exec_ready_def example_manager_def example_txn_world_def example_world_ok manager_new_def entries_new_def planned_def)
qed

theorem exec_outcomes_witness:
  "(\<exists>tm' w'. run_exec length_hash (\<lambda>_. 0) [] example_manager (example_txn_world (Some 0)) = Some (ExStarted, tm', w') \<and>
      isolated length_hash [] [([2], Exclusive)] tm' w') \<and>
   (\<exists>tm' w'. run_exec length_hash (\<lambda>_. 0) [] example_manager (example_txn_world None) = Some (ExContended, tm', w') \<and>
      exec_ready length_hash (\<lambda>_. 0) [([2], Exclusive)] tm' w')"
proof
  have "map_option fst (run_exec length_hash (\<lambda>_. 0) [] example_manager (example_txn_world (Some 0))) = Some ExStarted" by code_simp
  with exec_outcomes [OF example_exec_ready, of "[]" "Some 0"]
  show "\<exists>tm' w'. run_exec length_hash (\<lambda>_. 0) [] example_manager (example_txn_world (Some 0)) = Some (ExStarted, tm', w') \<and>
      isolated length_hash [] [([2], Exclusive)] tm' w'"
    by (elim exE conjE) (simp add: exec_outcome_def)
  have "map_option fst (run_exec length_hash (\<lambda>_. 0) [] example_manager (example_txn_world None)) = Some ExContended" by code_simp
  with exec_outcomes [OF example_exec_ready, of "[]" None]
  show "\<exists>tm' w'. run_exec length_hash (\<lambda>_. 0) [] example_manager (example_txn_world None) = Some (ExContended, tm', w') \<and>
      exec_ready length_hash (\<lambda>_. 0) [([2], Exclusive)] tm' w'"
    by (elim exE conjE) (simp add: exec_outcome_def)
qed

section \<open>Sublogs\<close>

text \<open>The routes of the keys of a transaction, and the routes an access vector can record.\<close>

definition route :: "AofLog \<Rightarrow> u64 \<Rightarrow> nat \<times> nat" where
  "route log rh = (get_physical_sublog_idx log rh, get_replay_task_idx log rh)"

definition task_bit :: "SublogAccess \<Rightarrow> nat \<Rightarrow> nat \<Rightarrow> bool" where
  "task_bit acc p r \<longleftrightarrow> bit (virtual_vectors acc ! p ! (r div 8)) (r mod 8)"

definition recordable :: "nat \<Rightarrow> (nat \<times> nat) set" where
  "recordable n = {..<n} \<times> {..<256}"

definition shaped :: "nat \<Rightarrow> SublogAccess \<Rightarrow> bool" where
  "shaped n acc \<longleftrightarrow> length (virtual_vectors acc) = n \<and>
     (\<forall>p < n. length (virtual_vectors acc ! p) = REPLAY_TASK_ACCESS_VECTOR_BYTES)"

definition records :: "nat \<Rightarrow> (nat \<times> nat) set \<Rightarrow> SublogAccess \<Rightarrow> bool" where
  "records n S acc \<longleftrightarrow> shaped n acc \<and>
     {p. bit (physical_vector acc) p} = fst ` S \<inter> {..<64} \<and>
     {(p, r). (p, r) \<in> recordable n \<and> task_bit acc p r} = S \<inter> recordable n \<and>
     participant_count acc = of_nat (card (S \<inter> recordable n))"

lemma finite_recordable [simp]: "finite (recordable n)"
  by (simp add: recordable_def)

definition note_physical :: "nat \<Rightarrow> SublogAccess \<Rightarrow> SublogAccess" where
  "note_physical p acc = (if p < 64 then acc\<lparr>physical_vector := physical_vector acc OR push_bit p 1\<rparr> else acc)"

definition note_task :: "nat \<Rightarrow> nat \<Rightarrow> SublogAccess \<Rightarrow> SublogAccess" where
  "note_task p r acc = (let vv = virtual_vectors acc in
     acc\<lparr>virtual_vectors := vv[p := (vv ! p)[r div 8 := vv ! p ! (r div 8) OR push_bit (r mod 8) 1]],
         participant_count := participant_count acc + 1\<rparr>)"

lemma access_step_eq:
  assumes "shaped n acc"
  shows "access_step log rh acc = (let (p, r) = route log rh; acc = note_physical p acc
    in if (p, r) \<in> recordable n \<and> \<not> task_bit acc p r then note_task p r acc else acc)"
proof -
  have "virtual_vectors (note_physical p acc) = virtual_vectors acc" for p by (simp add: note_physical_def)
  then show ?thesis using assms
    by (auto simp: access_step_def route_def Let_def note_physical_def [symmetric] note_task_def shaped_def recordable_def task_bit_def
        and_exp_eq_0_iff_not_bit REPLAY_TASK_ACCESS_VECTOR_BYTES_def)
qed

lemma physical_bits: "{q. bit (physical_vector (note_physical p acc)) q} = {q. bit (physical_vector acc) q} \<union> ({p} \<inter> {..<64})"
  by (auto simp: note_physical_def bit_simps dest: bit_imp_le_length)

lemma task_bit_noted:
  assumes "shaped n acc" "(p, r) \<in> recordable n" "(p', r') \<in> recordable n"
  shows "task_bit (note_task p r acc) p' r' \<longleftrightarrow> task_bit acc p' r' \<or> (p', r') = (p, r)"
proof -
  have "r div 8 < 32" "r' div 8 < 32" "p < n" "p' < n" using assms(2,3) by (auto simp: recordable_def)
  moreover have "r = r'" if "r div 8 = r' div 8" "r mod 8 = r' mod 8" using that by (metis div_mult_mod_eq)
  ultimately show ?thesis using assms(1)
    by (auto simp: task_bit_def note_task_def Let_def shaped_def nth_list_update bit_simps REPLAY_TASK_ACCESS_VECTOR_BYTES_def)
qed

lemma access_step_records:
  assumes "records n S acc"
  shows "records n (insert (route log rh) S) (access_step log rh acc)"
proof -
  obtain p r where pr: "route log rh = (p, r)" by fastforce
  define acc1 where "acc1 = note_physical p acc"
  have a1: "virtual_vectors acc1 = virtual_vectors acc" "participant_count acc1 = participant_count acc"
    "{q. bit (physical_vector acc1) q} = fst ` insert (p, r) S \<inter> {..<64}"
    using assms physical_bits [of p acc] by (auto simp: acc1_def note_physical_def records_def)
  have t1: "task_bit acc1 = task_bit acc" using a1(1) by (simp add: task_bit_def fun_eq_iff)
  have eq: "access_step log rh acc = (if (p, r) \<in> recordable n \<and> \<not> task_bit acc p r then note_task p r acc1 else acc1)"
    using access_step_eq [of n acc log rh] assms pr t1 by (simp add: acc1_def Let_def records_def)
  show ?thesis
  proof (cases "(p, r) \<in> recordable n \<and> \<not> task_bit acc p r")
    case True
    have s: "shaped n acc1" "shaped n (note_task p r acc1)"
      using assms True a1(1) by (auto simp: records_def shaped_def note_task_def Let_def recordable_def nth_list_update)
    have i: "insert (p, r) S \<inter> recordable n = insert (p, r) (S \<inter> recordable n)" and new: "(p, r) \<notin> S \<inter> recordable n"
      using True assms by (auto simp: records_def)
    have "{(p', r'). (p', r') \<in> recordable n \<and> task_bit (note_task p r acc1) p' r'} =
        insert (p, r) {(p', r'). (p', r') \<in> recordable n \<and> task_bit acc p' r'}"
      using True task_bit_noted [OF s(1), of p r] by (auto simp: t1)
    moreover have "physical_vector (note_task p r acc1) = physical_vector acc1"
      "participant_count (note_task p r acc1) = participant_count acc + 1" by (simp_all add: note_task_def Let_def a1)
    ultimately show ?thesis using True assms a1(3) s(2) new unfolding pr eq records_def i by simp
  next
    case False
    then have "insert (p, r) S \<inter> recordable n = S \<inter> recordable n" using assms by (auto simp: records_def)
    then show ?thesis using False assms a1 t1 unfolding pr eq if_not_P [OF False] by (simp add: records_def shaped_def)
  qed
qed

lemma fold_access_step_records:
  "records n S acc \<Longrightarrow> records n (route log ` set hashes \<union> S) (fold (access_step log) hashes acc)"
proof (induction hashes arbitrary: S acc)
  case (Cons rh hashes)
  from Cons.IH [OF access_step_records [OF Cons.prems, of log rh]] show ?case by simp
qed simp

lemma no_records: "records n {} \<lparr>physical_vector = 0, virtual_vectors = replicate n (replicate REPLAY_TASK_ACCESS_VECTOR_BYTES 0), participant_count = 0\<rparr>"
  by (auto simp: records_def shaped_def task_bit_def recordable_def REPLAY_TASK_ACCESS_VECTOR_BYTES_def)

text \<open>
  C40: The access vector of a marker. With more than one sublog or replay task, the physical vector has exactly the bits
  of the sublogs the keys of the transaction route to, the task vectors have exactly the bits of their routes, and the
  participant count is the number of distinct routes, however often a route is taken. Both hold within the 64 sublogs
  and 256 tasks the vectors have room for.
\<close>

theorem sublog_access_exact:
  "sublog_access_vector (Some log) hashes = no_access \<and> al_size log \<le> 1 \<and> al_replay_task_count log \<le> 1 \<or>
   (al_size log > 1 \<or> al_replay_task_count log > 1) \<and>
   records (al_size log) (route log ` set hashes) (sublog_access_vector (Some log) hashes)"
  using fold_access_step_records [OF no_records, of "al_size log" log hashes]
  by (cases "al_size log \<le> 1 \<and> al_replay_task_count log \<le> 1") (auto simp: sublog_access_vector_def)

section \<open>Key windows\<close>

definition selected_keys :: "bytes list \<Rightarrow> TxnKeySpec \<Rightarrow> (bytes \<times> LockType) list" where
  "selected_keys args spec = map (\<lambda>idx. (args ! idx, if read_only spec then Shared else Exclusive)) (spec_window (length args) spec)"

lemma push_all_snoc: "keys_push (push_all ks) key t = push_all (ks @ [(key, t)])"
  by (simp add: push_all_def)

lemma fold_save_key:
  "fold (\<lambda>idx tm. save_key_entry_to_lock tm (f idx) t) is (tm\<lparr>txn_keys := push_all ks\<rparr>) =
   tm\<lparr>txn_keys := push_all (ks @ map (\<lambda>idx. (f idx, t)) is)\<rparr>"
  by (induction "is" arbitrary: ks) (simp_all add: save_key_entry_to_lock_def push_all_snoc)

lemma lock_keys_pushes:
  "lock_keys args specs (tm\<lparr>txn_keys := push_all ks\<rparr>) = tm\<lparr>txn_keys := push_all (ks @ concat (map (selected_keys args) specs))\<rparr>"
proof (induction specs arbitrary: ks)
  case (Cons spec specs)
  then show ?case by (simp add: lock_keys_def fold_save_key selected_keys_def)
qed (simp add: lock_keys_def)

lemma set_range_step: "0 < s \<Longrightarrow> set (range_step_by lo hi s) = {i. lo \<le> i \<and> i \<le> hi \<and> s dvd i - lo}"
proof (rule set_eqI, rule iffI)
  fix i assume s: "0 < s" and i: "i \<in> set (range_step_by lo hi s)"
  then obtain k where k: "i = lo + k * s" "k < (hi - lo) div s + 1" "lo \<le> hi" by (auto simp: range_step_by_def split: if_splits)
  then have "k * s \<le> hi - lo" using s by (simp add: less_eq_div_iff_mult_less_eq [symmetric])
  with k show "i \<in> {i. lo \<le> i \<and> i \<le> hi \<and> s dvd i - lo}" by auto
next
  fix i assume s: "0 < s" and "i \<in> {i. lo \<le> i \<and> i \<le> hi \<and> s dvd i - lo}"
  then obtain k where k: "lo \<le> i" "i \<le> hi" "i - lo = k * s" by (auto simp: mult.commute elim: dvdE)
  then have "k \<le> (hi - lo) div s" using s by (metis diff_le_mono less_eq_div_iff_mult_less_eq)
  then have "i = lo + k * s" "k \<in> set [0..<(hi - lo) div s + 1]" using k by (simp_all del: upt_Suc)
  then show "i \<in> set (range_step_by lo hi s)" using k(1,2) by (force simp: range_step_by_def simp del: upt_Suc set_upt)
qed

text \<open>
  Queueing a command pushes exactly the arguments its key windows select, in order, shared for a read-only window
  and exclusive otherwise, and every selected index is an argument of the command, for any window the specification
  can state, also an empty one or one that counts from the end.
\<close>

theorem lock_keys_selects:
  "lock_keys args specs (tm\<lparr>txn_keys := push_all ks\<rparr>) = tm\<lparr>txn_keys := push_all (ks @ concat (map (selected_keys args) specs))\<rparr> \<and>
   set (spec_window (length args) spec) =
     {idx. idx < length args \<and> first_idx spec \<le> idx \<and> max (spec_step spec) 1 dvd idx - first_idx spec \<and>
       int idx \<le> (if last_idx spec < 0 then int (length args) + last_idx spec else last_idx spec)}"
proof
  let ?last = "if last_idx spec < 0 then int (length args) + last_idx spec else last_idx spec"
  show "set (spec_window (length args) spec) =
     {idx. idx < length args \<and> first_idx spec \<le> idx \<and> max (spec_step spec) 1 dvd idx - first_idx spec \<and> int idx \<le> ?last}"
    unfolding spec_window_def Let_def
    by (cases "?last < 0") (auto simp: set_range_step max_def)
qed (rule lock_keys_pushes)

end
