(* ===== verification/TxnCommands.thy ===== *)
theory TxnCommands
  imports TxnManagerProps NumGrammar Glob
begin

text \<open>
  The transaction commands of a session (\<open>wnode/src/resp/txn_resp_commands.rs\<close>,
  \<open>wnode/src/resp/resp_server_session/txn.rs\<close>) and the part of the message loop that drives them
  (\<open>consume.rs\<close>, \<open>dispatch.rs\<close>): MULTI, the queueing pass, EXEC with the replay of the queue, DISCARD, WATCH, UNWATCH
  and RUNTXP.

  The receive buffer is a list of parsed frames and a read position is the index of a frame: the buffer is not moved
  while a transaction is open, so offsets and indices correspond. Parameters: the metadata of a frame (from the
  command catalogue), the verdicts of access control, of the script and subscription modes and of the cluster, the
  hash functions, and the effect of a data command, which answers with one reply at once or suspends the session; a
  suspended command is completed by the network pump (\<open>net/handler/drive/consume.rs\<close>) or abandoned when the connection
  goes away first. Replies are values, not bytes. Left out: metrics and the slow log; the yield at the output watermark,
  after which the pump enters the loop again where it stopped; the wait of a contended EXEC, after which the pump
  drives EXEC again; commands of a replay that must first relock because the database changed its generation; and the
  suspension of authentication, which the source excludes while a transaction is open.
\<close>

section \<open>Frames and replies\<close>

datatype RespCommand =
    CmdMulti | CmdExec | CmdDiscard | CmdWatch | CmdWatchms | CmdWatchos | CmdUnwatch | CmdRuntxp
  | CmdQuit | CmdSelect | CmdSwapdb | CmdHello | CmdDebug
  | CmdSet | CmdSetexnx | CmdSetexxx | CmdSetkeepttl | CmdSetkeepttlxx
  | CmdBitop | CmdBitopAnd | CmdBitopNot | CmdBitopOr | CmdBitopXor | CmdBitopDiff
  | CmdInvalid | CmdOther nat

record TxnQueuedCommandInfo =
  qi_name :: string
  qi_arity :: int
  qi_allowed_in_txn :: bool
  qi_is_sub_command :: bool
  qi_keys :: "TxnKeySpec list option"

record Frame =
  fr_cmd :: RespCommand
  fr_args :: "bytes list"
  fr_info :: "TxnQueuedCommandInfo option"

datatype ReplyError =
    NestedMulti | ExecAbort | ExecWithoutMulti | DiscardWithoutMulti | UnknownCommand | WatchInMulti
  | SelectInTxn | SwapdbInTxn | HelloInTxn | DebugDisallowed | WrongNumArgs string | WrongNumArgsTemplate
  | ValueNotInteger | NoTransactionProcedure | TransactionFailed | NoPermission | NoScript | PubsubNotAllowed
  | ClusterRedirect

datatype Reply = ROk | RQueued | RNullArray | RArrayLength nat | RError ReplyError | RValue bytes

definition normalize_for_acls :: "RespCommand \<Rightarrow> RespCommand" where
  "normalize_for_acls cmd =
     (case cmd of
        CmdSetexnx \<Rightarrow> CmdSet | CmdSetexxx \<Rightarrow> CmdSet | CmdSetkeepttl \<Rightarrow> CmdSet | CmdSetkeepttlxx \<Rightarrow> CmdSet
      | CmdBitopAnd \<Rightarrow> CmdBitop | CmdBitopNot \<Rightarrow> CmdBitop | CmdBitopOr \<Rightarrow> CmdBitop | CmdBitopXor \<Rightarrow> CmdBitop
      | CmdBitopDiff \<Rightarrow> CmdBitop
      | _ \<Rightarrow> cmd)"

section \<open>The arguments of HELLO\<close>

record HelloArgs =
  protocol_version :: "u8 option"
  hello_auth :: "(bytes \<times> bytes) option"
  client_name :: "bytes option"

datatype HelloParseError =
    TooManyArgs | ProtocolNotInteger | UnsupportedProtocolVersion | SyntaxErrorOption string | InvalidClientName
  | SyntaxErrorUnknown bytes

definition eq_ignore_ascii_case :: "bytes \<Rightarrow> bytes \<Rightarrow> bool" where
  "eq_ignore_ascii_case a b \<longleftrightarrow> map to_ascii_lowercase a = map to_ascii_lowercase b"

text \<open>Bytes between 33 and 126 are valid UTF-8, so the decoding of the source does not reject more.\<close>

definition try_get_client_name_bytes :: "bytes \<Rightarrow> bytes option" where
  "try_get_client_name_bytes raw = (if list_all (\<lambda>c. 33 \<le> c \<and> c \<le> 126) raw then Some raw else None)"

definition AUTH_TOKEN :: bytes where
  "AUTH_TOKEN = [0x41, 0x55, 0x54, 0x48]"

definition SETNAME_TOKEN :: bytes where
  "SETNAME_TOKEN = [0x53, 0x45, 0x54, 0x4E, 0x41, 0x4D, 0x45]"

fun parse_hello_options :: "bytes list \<Rightarrow> HelloArgs \<Rightarrow> (HelloParseError, HelloArgs) res" where
  "parse_hello_options [] args = Inr args"
| "parse_hello_options (opt # rest) args =
     (if eq_ignore_ascii_case opt AUTH_TOKEN then
        case rest of
          u # p # others \<Rightarrow> parse_hello_options others (args\<lparr>hello_auth := Some (u, p)\<rparr>)
        | _ \<Rightarrow> Inl (SyntaxErrorOption ''AUTH'')
      else if eq_ignore_ascii_case opt SETNAME_TOKEN then
        case rest of
          name_bytes # others \<Rightarrow>
            (case try_get_client_name_bytes name_bytes of
               None \<Rightarrow> Inl InvalidClientName
             | Some name \<Rightarrow> parse_hello_options others (args\<lparr>client_name := Some name\<rparr>))
        | _ \<Rightarrow> Inl (SyntaxErrorOption ''SETNAME'')
      else Inl (SyntaxErrorUnknown opt))"

definition parse_hello_args :: "bytes list \<Rightarrow> (HelloParseError, HelloArgs) res" where
  "parse_hello_args ps =
     (if length ps > 6 then Inl TooManyArgs
      else let args = \<lparr>protocol_version = None, hello_auth = None, client_name = None\<rparr>
      in case ps of
           [] \<Rightarrow> Inr args
         | v # rest \<Rightarrow>
             (case strict_i32 v of
                None \<Rightarrow> Inl ProtocolNotInteger
              | Some n \<Rightarrow>
                  if n < 2 \<or> 3 < n then Inl UnsupportedProtocolVersion
                  else parse_hello_options rest (args\<lparr>protocol_version := Some (of_int n)\<rparr>)))"

section \<open>The session\<close>

record RespSession =
  ss_txn_state :: TxnState
  ss_read_head :: nat
  ss_end_read_head :: nat
  ss_output :: "Reply list"
  ss_pending_rearm :: bool
  ss_suspended :: "Frame option"
  ss_to_dispose :: bool
  ss_id :: u32
  ss_active_db :: nat
  ss_can_run_debug :: bool
  ss_prefix :: bytes
  ss_watch_prefix :: bytes

datatype AclGateVerdict = Permitted | Denied | Parked

datatype SlotVerifyGate = Serve | Redirected | Wait

text \<open>
  A data command answers at once, or it leaves a blocked wait, a slow path or a script behind
  (\<open>pending_block\<close>, \<open>pending_slow\<close>, \<open>script_suspend\<close>) with the store as far as it got. \<open>ce_resume\<close> is what the suspended
  command does when its wait is over.
\<close>

datatype 'st Executed = Answered Reply 'st | Suspended 'st

record 'st CommandEnv =
  ce_hash :: "bytes \<Rightarrow> bytes \<Rightarrow> u64"
  ce_route :: "bytes \<Rightarrow> u64"
  ce_cluster :: "(bytes list \<Rightarrow> bool \<Rightarrow> bool) option"
  ce_acl :: "RespCommand \<Rightarrow> AclGateVerdict"
  ce_script_ok :: "RespCommand \<Rightarrow> bool"
  ce_subscribed :: "RespCommand \<Rightarrow> bool"
  ce_slot_gate :: "RespCommand \<Rightarrow> SlotVerifyGate"
  ce_execute :: "Frame \<Rightarrow> 'st \<Rightarrow> 'st Executed"
  ce_resume :: "Frame \<Rightarrow> 'st \<Rightarrow> Reply \<times> 'st"

type_synonym txn_conn = "RespSession \<times> TransactionManager \<times> TxnWorld"

definition write_reply :: "Reply \<Rightarrow> RespSession \<Rightarrow> RespSession" where
  "write_reply r s = s\<lparr>ss_output := ss_output s @ [r]\<rparr>"

definition set_txn_state :: "TxnState \<Rightarrow> RespSession \<Rightarrow> RespSession" where
  "set_txn_state st s = s\<lparr>ss_txn_state := st\<rparr>"

definition park_exec_lock_wait :: "RespSession \<Rightarrow> RespSession" where
  "park_exec_lock_wait s = s\<lparr>ss_pending_rearm := True\<rparr>"

section \<open>The commands\<close>

definition arity_shift :: "int \<Rightarrow> int" where
  "arity_shift arity = (if arity > 0 then arity - 1 else arity + 1)"

definition invalid_num_args :: "TxnQueuedCommandInfo \<Rightarrow> RespCommand \<Rightarrow> nat \<Rightarrow> bool" where
  "invalid_num_args info cmd arg_count =
     (if qi_arity info \<noteq> 0 then
        let arity = arity_shift (qi_arity info);
            arity = (if qi_is_sub_command info \<or> cmd = CmdBitop then arity_shift arity else arity)
        in if arity > 0 then int arg_count \<noteq> arity else int arg_count < - arity
      else False)"

definition abort_state :: "RespSession \<Rightarrow> TransactionManager \<Rightarrow> RespSession \<times> TransactionManager" where
  "abort_state s tm = (set_txn_state StAborted s, txn_abort tm)"

definition reject_abort :: "ReplyError \<Rightarrow> RespSession \<Rightarrow> TransactionManager \<Rightarrow> RespSession \<times> TransactionManager" where
  "reject_abort e s tm = abort_state (write_reply (RError e) s) tm"

definition reset_txn_none :: "RespSession \<Rightarrow> TransactionManager \<Rightarrow> TxnWorld \<Rightarrow> txn_conn option" where
  "reset_txn_none s tm w =
     map_option (\<lambda>(tm, w). (set_txn_state StNone s, watch_reset tm, w)) (txn_reset tm w)"

definition network_multi :: "RespSession \<Rightarrow> TransactionManager \<Rightarrow> RespSession \<times> TransactionManager" where
  "network_multi s tm =
     (if tm_state tm \<noteq> StNone then reject_abort NestedMulti s tm
      else (write_reply ROk (set_txn_state StStarted s),
            tm\<lparr>session_id := ss_id s, txn_start_head := ss_end_read_head s, tm_state := StStarted, operation_cnt_txn := 0\<rparr>))"

definition merge_watched :: "TransactionManager \<Rightarrow> TransactionManager" where
  "merge_watched tm =
     (if watch_merged tm then tm
      else tm\<lparr>txn_keys := fold (\<lambda>key b. keys_push b key Shared) (save_keys_to_key_list (tm_watch tm)) (txn_keys tm),
              watch_merged := True\<rparr>)"

definition verify_cluster :: "(bytes list \<Rightarrow> bool \<Rightarrow> bool) \<Rightarrow> TransactionManager \<Rightarrow> bool option" where
  "verify_cluster verify tm =
     (if keys_is_empty (txn_keys tm) then Some True
      else map_option (\<lambda>ks. verify ks (tm_is_read_only tm)) (keys_iter (tk_bytes (txn_keys tm)) 0 (tk_offsets (txn_keys tm))))"

definition exec_started :: "'st CommandEnv \<Rightarrow> RespSession \<Rightarrow> TransactionManager \<Rightarrow> TxnWorld \<Rightarrow> txn_conn option" where
  "exec_started env s tm w =
     (let orig_read_head = ss_end_read_head s;
          tm = tm\<lparr>session_id := ss_id s\<rparr>;
          s = s\<lparr>ss_end_read_head := txn_start_head tm\<rparr>;
          tm = (if cluster_enabled tm then merge_watched tm else tm)
      in case (case ce_cluster env of Some verify \<Rightarrow> if cluster_enabled tm then verify_cluster verify tm else Some True
                | None \<Rightarrow> Some True) of
           None \<Rightarrow> None
         | Some False \<Rightarrow>
             map_option (\<lambda>(s, tm, w). (s\<lparr>ss_end_read_head := orig_read_head\<rparr>, tm, w))
               (reset_txn_none (write_reply (RError ClusterRedirect) s) tm w)
         | Some True \<Rightarrow>
             case run_exec (ce_hash env) (ce_route env) (ss_prefix s) tm w of
               None \<Rightarrow> None
             | Some (ExStarted, tm, w) \<Rightarrow>
                 Some (write_reply (RArrayLength (operation_cnt_txn tm)) (set_txn_state StRunning s), tm, w)
             | Some (ExContended, tm, w) \<Rightarrow> Some (park_exec_lock_wait s, tm, w)
             | Some (ExAborted, tm, w) \<Rightarrow>
                 Some (write_reply RNullArray ((set_txn_state StNone s)\<lparr>ss_end_read_head := orig_read_head\<rparr>), tm, w))"

definition network_exec :: "'st CommandEnv \<Rightarrow> RespSession \<Rightarrow> TransactionManager \<Rightarrow> TxnWorld \<Rightarrow> txn_conn option" where
  "network_exec env s tm w =
     (case tm_state tm of
        StRunning \<Rightarrow>
          map_option (\<lambda>(enqueued, tm, w).
              (set_txn_state StNone (if enqueued then s else write_reply (RError TransactionFailed) s), tm, w))
            (txn_commit False tm w)
      | StAborted \<Rightarrow> reset_txn_none (write_reply (RError ExecAbort) s) tm w
      | StStarted \<Rightarrow> exec_started env s tm w
      | StNone \<Rightarrow> Some (write_reply (RError ExecWithoutMulti) s, tm, w))"

definition has_auth_group :: "bytes list \<Rightarrow> bool" where
  "has_auth_group args = (case parse_hello_args args of Inr hello \<Rightarrow> hello_auth hello \<noteq> None | Inl _ \<Rightarrow> False)"

text \<open>The reason to refuse a command while queueing, and whether it aborts the transaction.\<close>

definition skip_refusal :: "RespSession \<Rightarrow> Frame \<Rightarrow> (ReplyError \<times> bool) option" where
  "skip_refusal s fr =
     (let cmd = normalize_for_acls (fr_cmd fr); args = fr_args fr
      in case fr_info fr of
           None \<Rightarrow> Some (UnknownCommand, True)
         | Some info \<Rightarrow>
             if \<not> qi_allowed_in_txn info then Some (UnknownCommand, True)
             else if cmd = CmdWatch \<or> cmd = CmdWatchms \<or> cmd = CmdWatchos then Some (WatchInMulti, False)
             else if invalid_num_args info cmd (length args) then Some (WrongNumArgs (qi_name info), True)
             else if cmd = CmdSwapdb then Some (SwapdbInTxn, True)
             else if cmd = CmdSelect \<and>
               (case args of
                  a # _ \<Rightarrow> (case strict_i32 a of Some index \<Rightarrow> index \<noteq> int (ss_active_db s) | None \<Rightarrow> False)
                | [] \<Rightarrow> False) then Some (SelectInTxn, True)
             else if cmd = CmdHello \<and> has_auth_group args then Some (HelloInTxn, True)
             else if cmd = CmdDebug \<and> \<not> ss_can_run_debug s then Some (DebugDisallowed, True)
             else None)"

definition network_skip :: "Frame \<Rightarrow> RespSession \<Rightarrow> TransactionManager \<Rightarrow> RespSession \<times> TransactionManager" where
  "network_skip fr s tm =
     (case skip_refusal s fr of
        Some (e, True) \<Rightarrow> reject_abort e s tm
      | Some (e, False) \<Rightarrow> (write_reply (RError e) s, tm)
      | None \<Rightarrow>
          let tm = (case fr_info fr of
                      Some info \<Rightarrow> (case qi_keys info of Some specs \<Rightarrow> lock_keys (fr_args fr) specs tm | None \<Rightarrow> tm)
                    | None \<Rightarrow> tm)
          in (write_reply RQueued s, tm\<lparr>operation_cnt_txn := operation_cnt_txn tm + 1\<rparr>))"

definition network_discard :: "RespSession \<Rightarrow> TransactionManager \<Rightarrow> TxnWorld \<Rightarrow> txn_conn option" where
  "network_discard s tm w =
     (if tm_state tm = StNone then Some (write_reply (RError DiscardWithoutMulti) s, tm, w)
      else reset_txn_none (write_reply ROk s) tm w)"

fun watch_all :: "(bytes \<Rightarrow> bytes \<Rightarrow> u64) \<Rightarrow> bytes \<Rightarrow> bytes list \<Rightarrow> TransactionManager \<Rightarrow> TxnWorld \<Rightarrow> TransactionManager option" where
  "watch_all H prefix [] tm w = Some tm"
| "watch_all H prefix (key # keys) tm w =
     (case watch H prefix key tm w of
        None \<Rightarrow> None
      | Some (_, tm, w) \<Rightarrow> watch_all H prefix keys tm w)"

definition common_watch ::
  "'st CommandEnv \<Rightarrow> bytes list \<Rightarrow> RespSession \<Rightarrow> TransactionManager \<Rightarrow> TxnWorld \<Rightarrow> txn_conn option" where
  "common_watch env args s tm w =
     (if args = [] then Some (write_reply (RError WrongNumArgsTemplate) s, tm, w)
      else map_option (\<lambda>tm. (write_reply ROk s, tm, w)) (watch_all (ce_hash env) (ss_watch_prefix s) args tm w))"

definition network_unwatch :: "RespSession \<Rightarrow> TransactionManager \<Rightarrow> RespSession \<times> TransactionManager" where
  "network_unwatch s tm =
     (write_reply ROk s,
      if tm_state tm = StNone then (watch_reset tm)\<lparr>txn_keys := keys_clear (txn_keys tm)\<rparr> else tm)"

definition network_runtxp :: "bytes list \<Rightarrow> RespSession \<Rightarrow> TransactionManager \<Rightarrow> RespSession \<times> TransactionManager" where
  "network_runtxp args s tm =
     (write_reply (RError (case args of
          [] \<Rightarrow> WrongNumArgs ''RUNTXP''
        | a # _ \<Rightarrow> if strict_i32 a = None then ValueNotInteger else NoTransactionProcedure)) s,
      tm\<lparr>session_id := ss_id s\<rparr>)"

section \<open>Dispatch\<close>

text \<open>
  The manager is lent to the handler; afterwards the state of the session mirrors the state of the manager. The session
  has a manager: the host attaches one when it sets the session up.
\<close>

definition with_txn_manager ::
  "'st CommandEnv \<Rightarrow> (RespSession \<Rightarrow> TransactionManager \<Rightarrow> TxnWorld \<Rightarrow> txn_conn option) \<Rightarrow> txn_conn \<Rightarrow> txn_conn option" where
  "with_txn_manager env f = (\<lambda>(s, tm, w).
     map_option (\<lambda>(s, tm, w). (set_txn_state (tm_state tm) s, tm, w))
       (f s (tm\<lparr>cluster_enabled := ce_cluster env \<noteq> None\<rparr>) w))"

definition simple_handler ::
  "(RespSession \<Rightarrow> TransactionManager \<Rightarrow> RespSession \<times> TransactionManager) \<Rightarrow>
     RespSession \<Rightarrow> TransactionManager \<Rightarrow> TxnWorld \<Rightarrow> txn_conn option" where
  "simple_handler f s tm w = (case f s tm of (s, tm) \<Rightarrow> Some (s, tm, w))"

definition quit :: "txn_conn \<Rightarrow> txn_conn" where
  "quit = (\<lambda>(s, tm, w). (write_reply ROk (s\<lparr>ss_to_dispose := True\<rparr>), tm, w))"

definition process_basic_commands :: "'st CommandEnv \<Rightarrow> Frame \<Rightarrow> txn_conn \<times> 'st \<Rightarrow> (txn_conn \<times> 'st) option" where
  "process_basic_commands env fr = (\<lambda>(c, st).
     let session_command = map_option (\<lambda>c. (c, st))
     in case fr_cmd fr of
          CmdQuit \<Rightarrow> Some (quit c, st)
        | CmdMulti \<Rightarrow> session_command (with_txn_manager env (simple_handler network_multi) c)
        | CmdExec \<Rightarrow> session_command (with_txn_manager env (network_exec env) c)
        | CmdDiscard \<Rightarrow> session_command (with_txn_manager env network_discard c)
        | CmdUnwatch \<Rightarrow> session_command (with_txn_manager env (simple_handler network_unwatch) c)
        | CmdRuntxp \<Rightarrow> session_command (with_txn_manager env (simple_handler (network_runtxp (fr_args fr))) c)
        | CmdWatch \<Rightarrow> session_command (with_txn_manager env (common_watch env (fr_args fr)) c)
        | CmdWatchms \<Rightarrow> session_command (with_txn_manager env (common_watch env (fr_args fr)) c)
        | CmdWatchos \<Rightarrow> session_command (with_txn_manager env (common_watch env (fr_args fr)) c)
        | _ \<Rightarrow> (case (c, ce_execute env fr st) of
             ((s, tm, w), Answered r st) \<Rightarrow> Some ((write_reply r s, tm, w), st)
           | ((s, tm, w), Suspended st) \<Rightarrow> Some ((s\<lparr>ss_suspended := Some fr\<rparr>, tm, w), st)))"

definition process_transactional_command :: "'st CommandEnv \<Rightarrow> Frame \<Rightarrow> txn_conn \<times> 'st \<Rightarrow> (txn_conn \<times> 'st) option" where
  "process_transactional_command env fr = (\<lambda>(c, st).
     if ss_txn_state (fst c) = StRunning then process_basic_commands env fr (c, st)
     else map_option (\<lambda>c. (c, st))
       (case fr_cmd fr of
          CmdExec \<Rightarrow> with_txn_manager env (network_exec env) c
        | CmdMulti \<Rightarrow> with_txn_manager env (simple_handler network_multi) c
        | CmdDiscard \<Rightarrow> with_txn_manager env network_discard c
        | CmdQuit \<Rightarrow> Some (quit c)
        | _ \<Rightarrow> with_txn_manager env (simple_handler (network_skip fr)) c))"

definition abort_pending_transaction :: "'st CommandEnv \<Rightarrow> txn_conn \<Rightarrow> txn_conn option" where
  "abort_pending_transaction env c =
     (if ss_txn_state (fst c) = StStarted \<or> ss_txn_state (fst c) = StAborted
      then with_txn_manager env (simple_handler abort_state) c else Some c)"

section \<open>The message loop\<close>

datatype 'a StepResult = Continue 'a | Stop 'a | QueueFailure 'a

definition rewind :: "nat \<Rightarrow> txn_conn \<Rightarrow> txn_conn" where
  "rewind head = (\<lambda>(s, tm, w). (s\<lparr>ss_read_head := head, ss_end_read_head := head\<rparr>, tm, w))"

definition fail_frame :: "ReplyError \<Rightarrow> txn_conn \<times> 'st \<Rightarrow> (txn_conn \<times> 'st) StepResult option" where
  "fail_frame e = (\<lambda>((s, tm, w), st). Some (QueueFailure ((write_reply (RError e) s, tm, w), st)))"

definition dispatch_frame :: "'st CommandEnv \<Rightarrow> Frame \<Rightarrow> txn_conn \<times> 'st \<Rightarrow> (txn_conn \<times> 'st) StepResult option" where
  "dispatch_frame env fr = (\<lambda>((s, tm, w), st).
     let cmd = fr_cmd fr; c = (s, tm, w)
     in if cmd = CmdInvalid then fail_frame UnknownCommand (c, st)
        else case ce_acl env cmd of
          Parked \<Rightarrow> Some (Stop (rewind (ss_read_head s) c, st))
        | Denied \<Rightarrow> fail_frame NoPermission (c, st)
        | Permitted \<Rightarrow>
            if \<not> ce_script_ok env cmd then fail_frame NoScript (c, st)
            else if ce_subscribed env cmd then Some (Continue ((write_reply (RError PubsubNotAllowed) s, tm, w), st))
            else if ss_txn_state s \<noteq> StNone then map_option Continue (process_transactional_command env fr (c, st))
            else if ce_cluster env = None then map_option Continue (process_basic_commands env fr (c, st))
            else case ce_slot_gate env cmd of
              Serve \<Rightarrow> map_option Continue (process_basic_commands env fr (c, st))
            | Redirected \<Rightarrow> Some (Continue ((write_reply (RError ClusterRedirect) s, tm, w), st))
            | Wait \<Rightarrow> Some (Stop (rewind (ss_read_head s) c, st)))"

text \<open>
  The end of an iteration: back to the start of the command when it is to be driven again, else past it. The loop stops
  when the command is to be driven again and when it suspended the session.
\<close>

definition finish_frame :: "nat \<Rightarrow> txn_conn \<times> 'st \<Rightarrow> bool \<times> txn_conn \<times> 'st" where
  "finish_frame orig_read_head = (\<lambda>((s, tm, w), st).
     if ss_pending_rearm s
     then (False, rewind orig_read_head (s\<lparr>ss_pending_rearm := False\<rparr>, tm, w), st)
     else (ss_suspended s = None, (s\<lparr>ss_read_head := ss_end_read_head s\<rparr>, tm, w), st))"

definition consume_step :: "'st CommandEnv \<Rightarrow> Frame \<Rightarrow> txn_conn \<times> 'st \<Rightarrow> (bool \<times> txn_conn \<times> 'st) option" where
  "consume_step env fr = (\<lambda>((s, tm, w), st).
     let orig_read_head = ss_read_head s
     in case dispatch_frame env fr ((s\<lparr>ss_end_read_head := orig_read_head + 1\<rparr>, tm, w), st) of
          None \<Rightarrow> None
        | Some (Stop x) \<Rightarrow> Some (False, x)
        | Some (Continue x) \<Rightarrow> Some (finish_frame orig_read_head x)
        | Some (QueueFailure (c, st)) \<Rightarrow>
            map_option (\<lambda>c. finish_frame orig_read_head (c, st))
              (abort_pending_transaction env (case c of (s, tm, w) \<Rightarrow> (s\<lparr>ss_read_head := ss_end_read_head s\<rparr>, tm, w))))"

text \<open>
  The loop over the received frames, with the number of iterations bounded by the first argument. Nothing is consumed
  while a command is suspended.
\<close>

fun process_messages :: "nat \<Rightarrow> 'st CommandEnv \<Rightarrow> Frame list \<Rightarrow> txn_conn \<times> 'st \<Rightarrow> (bool \<times> txn_conn \<times> 'st) option" where
  "process_messages 0 env frames x = Some (True, x)"
| "process_messages (Suc n) env frames x =
     (let head = ss_read_head (fst (fst x))
      in if ss_suspended (fst (fst x)) \<noteq> None then Some (False, x)
         else if head < length frames then
           case consume_step env (frames ! head) x of
             None \<Rightarrow> None
           | Some (False, x) \<Rightarrow> Some (False, x)
           | Some (True, x) \<Rightarrow> process_messages n env frames x
         else Some (False, x))"

section \<open>The network pump\<close>

text \<open>
  A suspended command is raced against the termination of the session: it is resolved, its reply is written and the loop
  is entered again, or the session is disposed of and the transaction that was being replayed is closed.
\<close>

datatype RaceEnd = Resolved | Disposed

definition take_suspended :: "txn_conn \<Rightarrow> (Frame \<times> txn_conn) option" where
  "take_suspended = (\<lambda>(s, tm, w). map_option (\<lambda>fr. (fr, s\<lparr>ss_suspended := None\<rparr>, tm, w)) (ss_suspended s))"

definition resolve_suspended :: "'st CommandEnv \<Rightarrow> Frame \<Rightarrow> txn_conn \<times> 'st \<Rightarrow> txn_conn \<times> 'st" where
  "resolve_suspended env fr = (\<lambda>((s, tm, w), st).
     case ce_resume env fr st of (r, st) \<Rightarrow> ((write_reply r s, tm, w), st))"

definition finish_abandoned_txn :: "txn_conn \<Rightarrow> txn_conn option" where
  "finish_abandoned_txn = (\<lambda>(s, tm, w).
     map_option (\<lambda>(enqueued, tm, w). (set_txn_state (tm_state tm) s, tm, w)) (finish_abandoned tm w))"

text \<open>The outcomes of the races are given as a list; the pump ends in the suspended state when the list is used up.\<close>

fun pump :: "nat \<Rightarrow> RaceEnd list \<Rightarrow> 'st CommandEnv \<Rightarrow> Frame list \<Rightarrow> bool \<times> txn_conn \<times> 'st \<Rightarrow> (bool \<times> txn_conn \<times> 'st) option" where
  "pump n [] env frames y = Some y"
| "pump n (e # es) env frames (again, c, st) =
     (case take_suspended c of
        None \<Rightarrow> Some (again, c, st)
      | Some (fr, c) \<Rightarrow>
          (case e of
             Disposed \<Rightarrow> map_option (\<lambda>c. (False, c, st)) (finish_abandoned_txn c)
           | Resolved \<Rightarrow>
               (case process_messages n env frames (resolve_suspended env fr (c, st)) of
                  None \<Rightarrow> None
                | Some y \<Rightarrow> pump n es env frames y)))"

definition drive_loop :: "nat \<Rightarrow> RaceEnd list \<Rightarrow> 'st CommandEnv \<Rightarrow> Frame list \<Rightarrow> txn_conn \<times> 'st \<Rightarrow> (bool \<times> txn_conn \<times> 'st) option" where
  "drive_loop n es env frames x =
     (case process_messages n env frames x of None \<Rightarrow> None | Some y \<Rightarrow> pump n es env frames y)"

end
