(* ===== verification/TxnCommandProps.thy ===== *)
theory TxnCommandProps
  imports TxnCommands
begin

text \<open>
  Properties of the transaction commands: what the arity check of the queueing pass accepts, and how a queued batch
  ends: it runs completely or not at all, unless the session is disposed of while one of its commands is suspended.
  The lemmas cover batches with a WATCH among the queued commands as well.
\<close>

section \<open>The arity check\<close>

text \<open>Tokens before the arguments: the name of the command, and for a subcommand its own name.\<close>

definition name_tokens :: "TxnQueuedCommandInfo \<Rightarrow> RespCommand \<Rightarrow> int" where
  "name_tokens info cmd = (if qi_is_sub_command info \<or> cmd = CmdBitop then 2 else 1)"

text \<open>
  The arity check of the queueing pass counts the name tokens as the catalogue does: an arity above the number of
  name tokens must be met exactly, an arity below the negated number of name tokens is a minimum, an arity of
  zero is not checked. An arity equal to the number of name tokens, a command without arguments, is not checked
  either: the two shifts turn it into zero.
\<close>

theorem arity_check_exact:
  assumes "qi_arity info = 0 \<or> name_tokens info cmd \<le> \<bar>qi_arity info\<bar>"
  shows "invalid_num_args info cmd n \<longleftrightarrow>
    (if qi_arity info = name_tokens info cmd \<or> qi_arity info = 0 then False
     else if qi_arity info > 0 then int n + name_tokens info cmd \<noteq> qi_arity info
     else int n + name_tokens info cmd < - qi_arity info)"
  using assms by (auto simp: invalid_num_args_def arity_shift_def name_tokens_def Let_def split: if_splits)

theorem arity_check_exact_witness:
  "invalid_num_args \<lparr>qi_name = ''GET'', qi_arity = 2, qi_allowed_in_txn = True, qi_is_sub_command = False, qi_keys = None\<rparr> (CmdOther 0) 3 \<and>
   \<not> invalid_num_args \<lparr>qi_name = ''DBSIZE'', qi_arity = 1, qi_allowed_in_txn = True, qi_is_sub_command = False, qi_keys = None\<rparr> (CmdOther 1) 3"
  by (subst (1 2) arity_check_exact) (simp_all add: name_tokens_def)

section \<open>Runs\<close>

text \<open>A session that is about to read a frame: nothing is suspended and nothing is to be driven again.\<close>

definition ready :: "RespSession \<Rightarrow> bool" where
  "ready s \<longleftrightarrow> \<not> ss_pending_rearm s \<and> ss_suspended s = None"

text \<open>A frame that passes the gates before the dispatch.\<close>

definition admitted :: "'st CommandEnv \<Rightarrow> Frame \<Rightarrow> bool" where
  "admitted env fr \<longleftrightarrow> fr_cmd fr \<noteq> CmdInvalid \<and> ce_acl env (fr_cmd fr) = Permitted \<and> ce_script_ok env (fr_cmd fr) \<and>
     \<not> ce_subscribed env (fr_cmd fr)"

definition session_frame :: "Frame \<Rightarrow> bool" where
  "session_frame fr \<longleftrightarrow> fr_cmd fr \<in> {CmdMulti, CmdExec, CmdDiscard, CmdQuit}"

text \<open>A frame that the queueing pass accepts.\<close>

definition queueable :: "'st CommandEnv \<Rightarrow> RespSession \<Rightarrow> Frame \<Rightarrow> bool" where
  "queueable env s fr \<longleftrightarrow> admitted env fr \<and> \<not> session_frame fr \<and> skip_refusal s fr = None"

text \<open>
  A frame that leaves a queued transaction queued: one that is accepted, or WATCH, which is answered with an error. The
  accepted frames of a queue, and the replies of the queueing pass.
\<close>

definition queued_or_watch :: "'st CommandEnv \<Rightarrow> RespSession \<Rightarrow> Frame \<Rightarrow> bool" where
  "queued_or_watch env s fr \<longleftrightarrow> admitted env fr \<and> \<not> session_frame fr \<and>
     (skip_refusal s fr = None \<or> skip_refusal s fr = Some (WatchInMulti, False))"

definition accepted :: "RespSession \<Rightarrow> Frame list \<Rightarrow> Frame list" where
  "accepted s q = filter (\<lambda>fr. skip_refusal s fr = None) q"

definition queue_reply :: "RespSession \<Rightarrow> Frame \<Rightarrow> Reply" where
  "queue_reply s fr = (if skip_refusal s fr = None then RQueued else RError WatchInMulti)"

lemma all_queueable:
  assumes "list_all (queueable env s) q"
  shows "list_all (queued_or_watch env s) q" "accepted s q = q" "map (queue_reply s) q = replicate (length q) RQueued"
  using assms by (induction q) (auto simp: queueable_def queued_or_watch_def accepted_def queue_reply_def)

definition frame_keys :: "Frame \<Rightarrow> (bytes \<times> LockType) list" where
  "frame_keys fr =
     (case fr_info fr of
        Some info \<Rightarrow> (case qi_keys info of Some specs \<Rightarrow> concat (map (selected_keys (fr_args fr)) specs) | None \<Rightarrow> [])
      | None \<Rightarrow> [])"

text \<open>The session and the manager in the middle of a batch, in terms of the session at its start.\<close>

definition at_head :: "RespSession \<Rightarrow> nat \<Rightarrow> TxnState \<Rightarrow> Reply list \<Rightarrow> RespSession" where
  "at_head s head st out =
     s\<lparr>ss_txn_state := st, ss_read_head := head, ss_end_read_head := head, ss_output := ss_output s @ out\<rparr>"

definition queued_manager :: "TransactionManager \<Rightarrow> nat \<Rightarrow> nat \<Rightarrow> (bytes \<times> LockType) list \<Rightarrow> bool \<Rightarrow> u32 \<Rightarrow> TransactionManager" where
  "queued_manager tm head n ks cl sid =
     tm\<lparr>tm_state := StStarted, txn_start_head := head, operation_cnt_txn := n, txn_keys := push_all ks,
        cluster_enabled := cl, session_id := sid\<rparr>"

lemma skip_refusal_cong:
  "ss_active_db s = ss_active_db s' \<Longrightarrow> ss_can_run_debug s = ss_can_run_debug s' \<Longrightarrow> skip_refusal s fr = skip_refusal s' fr"
  unfolding skip_refusal_def by (simp only:)

lemma dispatch_transactional:
  "admitted env fr \<Longrightarrow> ss_txn_state s \<noteq> StNone \<Longrightarrow>
   dispatch_frame env fr ((s, tm, w), st) = map_option Continue (process_transactional_command env fr ((s, tm, w), st))"
  by (simp add: dispatch_frame_def admitted_def Let_def)

lemma dispatch_basic:
  "admitted env fr \<Longrightarrow> ss_txn_state s = StNone \<Longrightarrow> ce_cluster env = None \<or> ce_slot_gate env (fr_cmd fr) = Serve \<Longrightarrow>
   dispatch_frame env fr ((s, tm, w), st) = map_option Continue (process_basic_commands env fr ((s, tm, w), st))"
  by (auto simp: dispatch_frame_def admitted_def Let_def)

lemma transactional_skip:
  "\<not> session_frame fr \<Longrightarrow> ss_txn_state s \<noteq> StRunning \<Longrightarrow>
   process_transactional_command env fr ((s, tm, w), st) =
     map_option (\<lambda>c. (c, st)) (with_txn_manager env (simple_handler (network_skip fr)) (s, tm, w))"
  by (cases "fr_cmd fr") (auto simp: process_transactional_command_def session_frame_def)

lemma consume_Continue:
  assumes "dispatch_frame env fr ((s\<lparr>ss_end_read_head := head + 1\<rparr>, tm, w), st) = Some (Continue ((s', tm', w'), st'))"
    "ss_read_head s = head" "\<not> ss_pending_rearm s'"
  shows "consume_step env fr ((s, tm, w), st) =
    Some (ss_suspended s' = None, (s'\<lparr>ss_read_head := ss_end_read_head s'\<rparr>, tm', w'), st')"
  using assms by (simp add: consume_step_def finish_frame_def Let_def)

lemma lock_keys_queued:
  "(case fr_info fr of
      Some info \<Rightarrow> (case qi_keys info of Some specs \<Rightarrow> lock_keys (fr_args fr) specs tm | None \<Rightarrow> tm)
    | None \<Rightarrow> tm) = tm\<lparr>txn_keys := push_all (ks @ frame_keys fr)\<rparr>" if "txn_keys tm = push_all ks"
proof -
  have "tm\<lparr>txn_keys := push_all ks\<rparr> = tm" using that by (cases tm) simp
  then show ?thesis using lock_keys_pushes [where args = "fr_args fr" and tm = tm and ks = ks] by (auto simp: frame_keys_def split: option.splits)
qed

lemma skip_step:
  assumes "admitted env fr" "\<not> session_frame fr" "ready s"
    and "network_skip fr ((at_head s head StStarted out)\<lparr>ss_end_read_head := head + 1\<rparr>)
        ((queued_manager tm h n ks cl sid)\<lparr>cluster_enabled := ce_cluster env \<noteq> None\<rparr>) =
      (write_reply r ((at_head s head StStarted out)\<lparr>ss_end_read_head := head + 1\<rparr>), queued_manager tm h n' ks' cl' sid)"
  shows "consume_step env fr ((at_head s head StStarted out, queued_manager tm h n ks cl sid, w), st) =
    Some (True, (at_head s (Suc head) StStarted (out @ [r]), queued_manager tm h n' ks' cl' sid, w), st)"
proof -
  let ?s = "(at_head s head StStarted out)\<lparr>ss_end_read_head := head + 1\<rparr>"
  have "with_txn_manager env (simple_handler (network_skip fr)) (?s, queued_manager tm h n ks cl sid, w) =
      Some (set_txn_state StStarted (write_reply r ?s), queued_manager tm h n' ks' cl' sid, w)"
    using assms(4) by (simp add: with_txn_manager_def simple_handler_def) (simp add: queued_manager_def)
  then have "dispatch_frame env fr ((?s, queued_manager tm h n ks cl sid, w), st) =
      Some (Continue ((set_txn_state StStarted (write_reply r ?s), queued_manager tm h n' ks' cl' sid, w), st))"
    using assms(1,2) by (simp add: dispatch_transactional transactional_skip at_head_def)
  from consume_Continue [OF this] show ?thesis
    using assms(3) by (simp add: at_head_def write_reply_def set_txn_state_def ready_def)
qed

lemma queue_step:
  assumes "queued_or_watch env s fr" "ready s"
  shows "consume_step env fr ((at_head s head StStarted out, queued_manager tm h n ks cl sid, w), st) =
    Some (True, (at_head s (Suc head) StStarted (out @ [queue_reply s fr]),
      queued_manager tm h (n + length (accepted s [fr])) (ks @ concat (map frame_keys (accepted s [fr]))) (ce_cluster env \<noteq> None) sid, w), st)"
proof -
  let ?s = "(at_head s head StStarted out)\<lparr>ss_end_read_head := head + 1\<rparr>"
  let ?tm = "(queued_manager tm h n ks cl sid)\<lparr>cluster_enabled := ce_cluster env \<noteq> None\<rparr>"
  have q: "admitted env fr" "\<not> session_frame fr" using assms(1) by (auto simp: queued_or_watch_def)
  have sk: "skip_refusal ?s fr = skip_refusal s fr" by (rule skip_refusal_cong) (simp_all add: at_head_def)
  have ks: "txn_keys ?tm = push_all ks" by (simp add: queued_manager_def)
  show ?thesis
  proof (cases "skip_refusal s fr = None")
    case True
    have "network_skip fr ?s ?tm = (write_reply RQueued ?s, queued_manager tm h (Suc n) (ks @ frame_keys fr) (ce_cluster env \<noteq> None) sid)"
      unfolding network_skip_def sk True lock_keys_queued [OF ks] by (simp add: queued_manager_def)
    from skip_step [OF q assms(2) this] True show ?thesis by (simp add: accepted_def queue_reply_def)
  next
    case False
    then have wm: "skip_refusal s fr = Some (WatchInMulti, False)" using assms(1) by (auto simp: queued_or_watch_def)
    then have "network_skip fr ?s ?tm = (write_reply (RError WatchInMulti) ?s, queued_manager tm h n ks (ce_cluster env \<noteq> None) sid)"
      unfolding network_skip_def sk by (simp add: queued_manager_def)
    from skip_step [OF q assms(2) this] wm show ?thesis by (simp add: accepted_def queue_reply_def)
  qed
qed

lemma queue_run:
  assumes "list_all (queued_or_watch env s) q" "ready s" "cl = (ce_cluster env \<noteq> None)"
  shows "process_messages (length q + k) env (pre @ q @ post)
      ((at_head s (length pre) StStarted out, queued_manager tm h n ks cl sid, w), st) =
    process_messages k env (pre @ q @ post)
      ((at_head s (length pre + length q) StStarted (out @ map (queue_reply s) q),
        queued_manager tm h (n + length (accepted s q)) (ks @ concat (map frame_keys (accepted s q))) cl sid, w), st)"
  using assms(1)
proof (induction q arbitrary: pre out n ks)
  case (Cons fr q)
  let ?n = "n + length (accepted s [fr])" and ?ks = "ks @ concat (map frame_keys (accepted s [fr]))"
  have acc: "accepted s (fr # q) = accepted s [fr] @ accepted s q" by (simp add: accepted_def)
  have step: "consume_step env fr ((at_head s (length pre) StStarted out, queued_manager tm h n ks cl sid, w), st) =
    Some (True, (at_head s (Suc (length pre)) StStarted (out @ [queue_reply s fr]), queued_manager tm h ?n ?ks cl sid, w), st)"
    using queue_step [of env s fr] Cons.prems assms(2,3) by simp
  have "process_messages (length (fr # q) + k) env (pre @ (fr # q) @ post)
      ((at_head s (length pre) StStarted out, queued_manager tm h n ks cl sid, w), st) =
    process_messages (length q + k) env ((pre @ [fr]) @ q @ post)
      ((at_head s (length (pre @ [fr])) StStarted (out @ [queue_reply s fr]), queued_manager tm h ?n ?ks cl sid, w), st)"
    using step assms(2) by (simp add: at_head_def nth_append Let_def ready_def)
  also have "\<dots> = process_messages k env ((pre @ [fr]) @ q @ post)
      ((at_head s (length (pre @ [fr]) + length q) StStarted ((out @ [queue_reply s fr]) @ map (queue_reply s) q),
        queued_manager tm h (?n + length (accepted s q)) (?ks @ concat (map frame_keys (accepted s q))) cl sid, w), st)"
    using Cons.prems by (intro Cons.IH) simp
  finally show ?case unfolding acc by (simp add: add.assoc)
qed (simp add: accepted_def)

definition idle :: "TransactionManager \<Rightarrow> bool" where
  "idle tm \<longleftrightarrow> tm_state tm = StNone \<and> tm_entries tm = entries_new \<and> txn_barrier tm = None \<and> txn_keys tm = keys_new \<and>
     \<not> exec_lock_armed tm"

definition gate_open :: "'st CommandEnv \<Rightarrow> Frame \<Rightarrow> bool" where
  "gate_open env fr \<longleftrightarrow> admitted env fr \<and> (ce_cluster env = None \<or> ce_slot_gate env (fr_cmd fr) = Serve)"

lemma multi_step:
  assumes "fr_cmd fr = CmdMulti" "gate_open env fr" "idle tm" "ss_txn_state s = StNone" "ready s"
  shows "consume_step env fr ((s, tm, w), st) =
    Some (True, (at_head s (Suc (ss_read_head s)) StStarted [ROk],
      queued_manager tm (Suc (ss_read_head s)) 0 [] (ce_cluster env \<noteq> None) (ss_id s), w), st)"
proof -
  let ?s = "s\<lparr>ss_end_read_head := ss_read_head s + 1\<rparr>"
  have "push_all [] = keys_new" by (simp add: push_all_def)
  then have "with_txn_manager env (simple_handler network_multi) (?s, tm, w) =
      Some (set_txn_state StStarted (write_reply ROk (set_txn_state StStarted ?s)),
        queued_manager tm (Suc (ss_read_head s)) 0 [] (ce_cluster env \<noteq> None) (ss_id s), w)"
    using assms(3) by (simp add: with_txn_manager_def simple_handler_def network_multi_def idle_def queued_manager_def)
  then have "dispatch_frame env fr ((?s, tm, w), st) =
      Some (Continue ((set_txn_state StStarted (write_reply ROk (set_txn_state StStarted ?s)),
        queued_manager tm (Suc (ss_read_head s)) 0 [] (ce_cluster env \<noteq> None) (ss_id s), w), st))"
    using assms by (simp add: dispatch_basic gate_open_def process_basic_commands_def)
  from consume_Continue [OF this] show ?thesis
    using assms(5) by (simp add: at_head_def write_reply_def set_txn_state_def ready_def)
qed

section \<open>The replay\<close>

text \<open>What a replayed command does in one step, and what it does until it is completed.\<close>

definition replay_outcome :: "'st CommandEnv \<Rightarrow> Frame \<Rightarrow> 'st \<Rightarrow> 'st Executed" where
  "replay_outcome env fr st =
     (let watched = Answered (if fr_args fr = [] then RError WrongNumArgsTemplate else ROk) st
      in case fr_cmd fr of
           CmdUnwatch \<Rightarrow> Answered ROk st
         | CmdRuntxp \<Rightarrow> Answered (RError (case fr_args fr of
               [] \<Rightarrow> WrongNumArgs ''RUNTXP''
             | a # _ \<Rightarrow> if strict_i32 a = None then ValueNotInteger else NoTransactionProcedure)) st
         | CmdWatch \<Rightarrow> watched | CmdWatchms \<Rightarrow> watched | CmdWatchos \<Rightarrow> watched
         | _ \<Rightarrow> ce_execute env fr st)"

definition complete :: "'st CommandEnv \<Rightarrow> Frame \<Rightarrow> 'st \<Rightarrow> Reply \<times> 'st" where
  "complete env fr st = (case replay_outcome env fr st of Answered r st \<Rightarrow> (r, st) | Suspended st \<Rightarrow> ce_resume env fr st)"

fun run_queue :: "'st CommandEnv \<Rightarrow> Frame list \<Rightarrow> 'st \<Rightarrow> Reply list \<times> 'st" where
  "run_queue env [] st = ([], st)"
| "run_queue env (fr # q) st =
     (case complete env fr st of (r, st) \<Rightarrow> case run_queue env q st of (rs, st) \<Rightarrow> (r # rs, st))"

text \<open>How many commands of a queue suspend the session.\<close>

fun suspensions :: "'st CommandEnv \<Rightarrow> Frame list \<Rightarrow> 'st \<Rightarrow> nat" where
  "suspensions env [] st = 0"
| "suspensions env (fr # q) st =
     (case replay_outcome env fr st of Answered _ _ \<Rightarrow> 0 | Suspended _ \<Rightarrow> 1) + suspensions env q (snd (complete env fr st))"

lemma length_run_queue [simp]: "length (fst (run_queue env q st)) = length q"
  by (induction q arbitrary: st) (simp_all add: case_prod_beta)

text \<open>The replay changes of the manager only what is not needed to release it.\<close>

definition same_core :: "TransactionManager \<Rightarrow> TransactionManager \<Rightarrow> bool" where
  "same_core tm tm' \<longleftrightarrow> (\<exists>cl sid wt. tm' = tm\<lparr>cluster_enabled := cl, session_id := sid, tm_watch := wt\<rparr>)"

definition releasable :: "TransactionManager \<Rightarrow> TxnWorld \<Rightarrow> bool" where
  "releasable tm w \<longleftrightarrow> (\<exists>lw. unlock_all_keys (tm_entries tm) (tw_locks w) = Some (entries_new, lw) \<and> world_ok lw)"

lemma same_coreI: "tm' = tm\<lparr>cluster_enabled := cl, session_id := sid, tm_watch := wt\<rparr> \<Longrightarrow> same_core tm tm'"
  unfolding same_core_def by blast

lemma same_core_eqs:
  assumes "same_core tm tm'"
  shows "tm_state tm' = tm_state tm" "releasable tm' w = releasable tm w"
  using assms by (auto simp: same_core_def releasable_def)

lemma same_core_refl: "same_core tm tm"
  by (rule same_coreI [where cl = "cluster_enabled tm" and sid = "session_id tm" and wt = "tm_watch tm"]) simp

lemma watch_all_ok:
  "vm_ok (tw_versions w) \<Longrightarrow> \<exists>wt. watch_all H prefix keys tm w = Some (tm\<lparr>tm_watch := wt\<rparr>)"
proof (induction keys arbitrary: tm)
  case Nil
  show ?case by (rule exI [of _ "tm_watch tm"]) simp
next
  case (Cons key keys)
  obtain sl where "add_watch H (tw_versions w) (tm_watch tm) prefix key = Some sl"
    using Cons.prems by (cases "list_ex (\<lambda>slice. ws_hash slice = H prefix key \<and> ws_key slice = key) (tm_watch tm)")
      (simp_all add: add_watch_def Let_def read_version_ok)
  then show ?case using Cons.IH [OF Cons.prems, of "tm\<lparr>tm_watch := sl\<rparr>"] by (simp add: watch_def)
qed

text \<open>A frame of the queue in the world it is replayed in.\<close>

definition replayable :: "'st CommandEnv \<Rightarrow> RespSession \<Rightarrow> TxnWorld \<Rightarrow> Frame \<Rightarrow> bool" where
  "replayable env s w fr \<longleftrightarrow> queued_or_watch env s fr \<and> (skip_refusal s fr = None \<or> vm_ok (tw_versions w))"

lemma replayable_cmd:
  assumes "replayable env s w fr"
  shows "fr_cmd fr \<notin> {CmdInvalid, CmdMulti, CmdExec, CmdDiscard, CmdQuit}"
    "fr_cmd fr \<in> {CmdWatch, CmdWatchms, CmdWatchos} \<Longrightarrow> vm_ok (tw_versions w)"
proof -
  show "fr_cmd fr \<notin> {CmdInvalid, CmdMulti, CmdExec, CmdDiscard, CmdQuit}"
    using assms by (auto simp: replayable_def queued_or_watch_def admitted_def session_frame_def)
  assume "fr_cmd fr \<in> {CmdWatch, CmdWatchms, CmdWatchos}"
  then have "skip_refusal s fr \<noteq> None"
    by (auto simp: skip_refusal_def normalize_for_acls_def Let_def split: option.splits)
  then show "vm_ok (tw_versions w)" using assms [unfolded replayable_def, THEN conjunct2] by metis
qed

lemma replay_basic:
  assumes "replayable env s0 w fr" "ss_txn_state s = StRunning" "tm_state tm = StRunning"
  shows "\<exists>tm'. same_core tm tm' \<and> process_basic_commands env fr ((s, tm, w), st) =
    (case replay_outcome env fr st of
       Answered r st \<Rightarrow> Some ((write_reply r s, tm', w), st)
     | Suspended st \<Rightarrow> Some ((s\<lparr>ss_suspended := Some fr\<rparr>, tm', w), st))"
proof -
  have keep: "set_txn_state StRunning (write_reply r s) = write_reply r s" for r
    using assms(2) by (simp add: set_txn_state_def write_reply_def)
  let ?tm = "tm\<lparr>cluster_enabled := ce_cluster env \<noteq> None\<rparr>"
  consider "fr_cmd fr = CmdUnwatch" | "fr_cmd fr = CmdRuntxp" | "fr_cmd fr \<in> {CmdWatch, CmdWatchms, CmdWatchos}"
    | "fr_cmd fr \<notin> {CmdUnwatch, CmdRuntxp, CmdWatch, CmdWatchms, CmdWatchos, CmdInvalid, CmdMulti, CmdExec, CmdDiscard, CmdQuit}"
    using replayable_cmd(1) [OF assms(1)] by blast
  then show ?thesis
  proof cases
    case 1
    have "same_core tm ?tm" by (rule same_coreI [where sid = "session_id tm" and wt = "tm_watch tm"]) simp
    with 1 show ?thesis using assms(3) keep
      by (intro exI [of _ ?tm]) (simp add: process_basic_commands_def with_txn_manager_def simple_handler_def network_unwatch_def replay_outcome_def)
  next
    case 2
    have "same_core tm (?tm\<lparr>session_id := ss_id s\<rparr>)" by (rule same_coreI [where sid = "ss_id s" and wt = "tm_watch tm"]) simp
    with 2 show ?thesis using assms(3) keep
      by (intro exI [of _ "?tm\<lparr>session_id := ss_id s\<rparr>"])
        (simp add: process_basic_commands_def with_txn_manager_def simple_handler_def network_runtxp_def replay_outcome_def)
  next
    case 3
    obtain wt where wt: "watch_all (ce_hash env) (ss_watch_prefix s) (fr_args fr) ?tm w = Some (?tm\<lparr>tm_watch := wt\<rparr>)"
      using watch_all_ok replayable_cmd(2) [OF assms(1) 3] by blast
    let ?tm' = "if fr_args fr = [] then ?tm else ?tm\<lparr>tm_watch := wt\<rparr>"
    have "same_core tm ?tm'"
      by (rule same_coreI [where cl = "ce_cluster env \<noteq> None" and sid = "session_id tm" and wt = "tm_watch ?tm'"]) simp
    moreover have "process_basic_commands env fr ((s, tm, w), st) = map_option (\<lambda>c. (c, st)) (with_txn_manager env (common_watch env (fr_args fr)) (s, tm, w))"
      "replay_outcome env fr st = Answered (if fr_args fr = [] then RError WrongNumArgsTemplate else ROk) st"
      using 3 by (auto simp: process_basic_commands_def replay_outcome_def)
    ultimately show ?thesis using assms(3) keep wt
      by (intro exI [of _ ?tm']) (simp add: with_txn_manager_def common_watch_def)
  next
    case 4
    then have "replay_outcome env fr st = ce_execute env fr st"
      "process_basic_commands env fr ((s, tm, w), st) =
        (case ce_execute env fr st of Answered r st \<Rightarrow> Some ((write_reply r s, tm, w), st)
          | Suspended st \<Rightarrow> Some ((s\<lparr>ss_suspended := Some fr\<rparr>, tm, w), st))"
      by (cases "fr_cmd fr"; simp add: replay_outcome_def process_basic_commands_def)+
    then show ?thesis using same_core_refl by (intro exI [of _ tm]) simp
  qed
qed

lemma replay_step:
  assumes q: "replayable env s w fr" "ready s" and tm: "tm_state tm = StRunning"
  shows "\<exists>tm'. same_core tm tm' \<and> consume_step env fr ((at_head s head StRunning out, tm, w), st) =
    (case replay_outcome env fr st of
       Answered r st \<Rightarrow> Some (True, (at_head s (Suc head) StRunning (out @ [r]), tm', w), st)
     | Suspended st \<Rightarrow> Some (False, ((at_head s (Suc head) StRunning out)\<lparr>ss_suspended := Some fr\<rparr>, tm', w), st))"
proof -
  let ?s = "(at_head s head StRunning out)\<lparr>ss_end_read_head := head + 1\<rparr>"
  have s: "ss_txn_state ?s = StRunning" by (simp add: at_head_def)
  obtain tm' where tm': "same_core tm tm'" and b: "process_basic_commands env fr ((?s, tm, w), st) =
    (case replay_outcome env fr st of
       Answered r st \<Rightarrow> Some ((write_reply r ?s, tm', w), st)
     | Suspended st \<Rightarrow> Some ((?s\<lparr>ss_suspended := Some fr\<rparr>, tm', w), st))"
    using replay_basic [OF q(1) s tm, of st] by blast
  have "dispatch_frame env fr ((?s, tm, w), st) = map_option Continue (process_basic_commands env fr ((?s, tm, w), st))"
    using q(1) by (simp add: dispatch_transactional replayable_def queued_or_watch_def at_head_def process_transactional_command_def)
  then have "consume_step env fr ((at_head s head StRunning out, tm, w), st) =
    (case replay_outcome env fr st of
       Answered r st \<Rightarrow> Some (True, (at_head s (Suc head) StRunning (out @ [r]), tm', w), st)
     | Suspended st \<Rightarrow> Some (False, ((at_head s (Suc head) StRunning out)\<lparr>ss_suspended := Some fr\<rparr>, tm', w), st))"
    unfolding b using q(2)
    by (cases "replay_outcome env fr st")
      (simp_all add: consume_step_def finish_frame_def Let_def at_head_def write_reply_def ready_def)
  with tm' show ?thesis by blast
qed

section \<open>EXEC\<close>

lemma exec_step_dispatch:
  assumes "fr_cmd fr = CmdExec" "admitted env fr" "ss_txn_state s \<noteq> StNone"
  shows "dispatch_frame env fr ((s, tm, w), st) =
    map_option (\<lambda>c. Continue (c, st)) (with_txn_manager env (network_exec env) (s, tm, w))"
  using assms by (simp add: dispatch_transactional process_transactional_command_def process_basic_commands_def option.map_comp o_def)

text \<open>What the keys of a batch need for EXEC: a valid lock table and fewer than \<open>2^32\<close> bytes of keys.\<close>

definition keys_fit :: "(bytes \<times> LockType) list \<Rightarrow> bool" where
  "keys_fit ks \<longleftrightarrow> length (concat (map fst ks)) < 2 ^ 32"

lemma queued_exec_ready:
  assumes "idle tm" "world_ok (tw_locks w)" "keys_fit ks"
  shows "exec_ready H R ks (queued_manager tm h n ks cl sid) w"
  using assms keys_decode(2) [of ks]
  by (simp add: exec_ready_def queued_manager_def idle_def keys_fit_def entries_new_def planned_def)

text \<open>EXEC leaves the version map as it is.\<close>

lemma barrier_versions:
  "take_barrier tm w = (tm', w') \<Longrightarrow> tw_versions w' = tw_versions w"
  "try_acquire_barrier tm w = (ok, tm', w') \<Longrightarrow> tw_versions w' = tw_versions w"
  by (auto simp: take_barrier_def end_txn_def try_acquire_barrier_def try_acquire_txn_def split: option.splits if_splits)

lemma unlock_versions: "unlock_entries tm w = Some (tm', w') \<Longrightarrow> tw_versions w' = tw_versions w"
  by (auto simp: unlock_entries_def)

lemma register_versions: "register_run_preamble H R prefix b tm w = Some (tm', w') \<Longrightarrow> tw_versions w' = tw_versions w"
  by (auto simp: register_run_preamble_def Let_def split: option.splits)

lemma reset_versions: "txn_reset tm w = Some (tm', w') \<Longrightarrow> tw_versions w' = tw_versions w"
  using barrier_versions(1) [OF surjective_pairing] by (auto simp: txn_reset_def Let_def case_prod_beta dest: unlock_versions)

lemma postlock_versions:
  assumes "finish_run_postlock b tm w = Some (ok, tm', w')"
  shows "tw_versions w' = tw_versions w"
proof -
  obtain ok1 w1 where m: "mark tm TxnStart w = (ok1, w1)" by fastforce
  show ?thesis using assms mark_locks [OF m]
    by (auto simp: finish_run_postlock_def m split: if_splits dest: reset_versions)
qed

lemma run_exec_versions:
  assumes "run_exec H R prefix tm w = Some (r, tm', w')"
  shows "tw_versions w' = tw_versions w"
  using assms
  by (auto simp: run_exec_def Let_def split: if_splits option.splits prod.splits bool.splits
      dest!: barrier_versions unlock_versions register_versions postlock_versions)

lemma exec_step:
  assumes fr: "fr_cmd fr = CmdExec" "admitted env fr" and env: "ce_cluster env = None" and s: "ready s"
    and tm: "idle tm" "world_ok (tw_locks w)" "keys_fit ks"
  obtains (started) tm' w' where
      "consume_step env fr ((at_head s head StStarted out, queued_manager tm h n ks False sid, w), st) =
         Some (True, (at_head s h StRunning (out @ [RArrayLength n]), tm', w'), st)"
      "exec_outcome (ce_hash env) (ce_route env) (ss_prefix s) ks (queued_manager tm h n ks False (ss_id s)) w ExStarted tm' w'"
      "tw_versions w' = tw_versions w"
  | (waiting) tm' w' where
      "consume_step env fr ((at_head s head StStarted out, queued_manager tm h n ks False sid, w), st) =
         Some (False, (at_head s head StStarted out, tm', w'), st)"
      "exec_outcome (ce_hash env) (ce_route env) (ss_prefix s) ks (queued_manager tm h n ks False (ss_id s)) w ExContended tm' w'"
  | (declined) tm' w' where
      "consume_step env fr ((at_head s head StStarted out, queued_manager tm h n ks False sid, w), st) =
         Some (True, (at_head s (Suc head) StNone (out @ [RNullArray]), tm', w'), st)"
      "exec_outcome (ce_hash env) (ce_route env) (ss_prefix s) ks (queued_manager tm h n ks False (ss_id s)) w ExAborted tm' w'"
proof -
  let ?tm = "queued_manager tm h n ks False sid" and ?tm1 = "queued_manager tm h n ks False (ss_id s)"
  let ?s = "(at_head s head StStarted out)\<lparr>ss_end_read_head := head + 1\<rparr>"
  obtain r tm' w' where r: "run_exec (ce_hash env) (ce_route env) (ss_prefix s) ?tm1 w = Some (r, tm', w')"
    "exec_outcome (ce_hash env) (ce_route env) (ss_prefix s) ks ?tm1 w r tm' w'"
    using run_exec_returns [OF queued_exec_ready [OF tm]] by blast
  have q: "tm_state ?tm = StStarted" "?tm\<lparr>cluster_enabled := False, session_id := ss_id s\<rparr> = ?tm1" "txn_start_head ?tm1 = h"
    "operation_cnt_txn ?tm1 = n" "\<not> cluster_enabled ?tm1"
    by (simp_all add: queued_manager_def)
  have d: "dispatch_frame env fr ((?s, ?tm, w), st) = map_option (\<lambda>c. Continue (c, st))
      (map_option (\<lambda>(s, tm, w). (set_txn_state (tm_state tm) s, tm, w)) (exec_started env ?s (?tm\<lparr>cluster_enabled := False\<rparr>) w))"
    using exec_step_dispatch [OF fr, of ?s ?tm w st] env q(1)
    by (simp add: at_head_def with_txn_manager_def network_exec_def)
  have es: "exec_started env ?s (?tm\<lparr>cluster_enabled := False\<rparr>) w =
      (case (r, tm', w') of
         (ExStarted, tm, w) \<Rightarrow> Some (write_reply (RArrayLength (operation_cnt_txn tm)) (set_txn_state StRunning (?s\<lparr>ss_end_read_head := h\<rparr>)), tm, w)
       | (ExContended, tm, w) \<Rightarrow> Some (park_exec_lock_wait (?s\<lparr>ss_end_read_head := h\<rparr>), tm, w)
       | (ExAborted, tm, w) \<Rightarrow> Some (write_reply RNullArray ((set_txn_state StNone ?s)\<lparr>ss_end_read_head := head + 1\<rparr>), tm, w))"
    using env q r(1) by (cases r) (simp_all add: exec_started_def Let_def at_head_def set_txn_state_def write_reply_def)
  note ex = d [unfolded es] and del = ready_def at_head_def write_reply_def set_txn_state_def park_exec_lock_wait_def
  show thesis
  proof (cases r)
    case ExStarted
    then have c: "tm_state tm' = StRunning" "operation_cnt_txn tm' = n" using r(2) q(4) by (auto simp: exec_outcome_def same_queue_def)
    have "consume_step env fr ((at_head s head StStarted out, ?tm, w), st) =
        Some (True, (at_head s h StRunning (out @ [RArrayLength n]), tm', w'), st)"
      using ex ExStarted c s by (simp add: consume_step_def finish_frame_def Let_def del)
    then show thesis using started r(2) ExStarted run_exec_versions [OF r(1)] by blast
  next
    case ExContended
    then have c: "tm_state tm' = StStarted" using r(2) by (auto simp: exec_outcome_def queued_manager_def)
    have "consume_step env fr ((at_head s head StStarted out, ?tm, w), st) = Some (False, (at_head s head StStarted out, tm', w'), st)"
      using ex ExContended c s by (simp add: consume_step_def finish_frame_def rewind_def Let_def del)
    then show thesis using waiting r(2) ExContended by blast
  next
    case ExAborted
    then have c: "tm_state tm' = StNone" using r(2) by (auto simp: exec_outcome_def)
    have "consume_step env fr ((at_head s head StStarted out, ?tm, w), st) =
        Some (True, (at_head s (Suc head) StNone (out @ [RNullArray]), tm', w'), st)"
      using ex ExAborted c s by (simp add: consume_step_def finish_frame_def Let_def del)
    then show thesis using declined r(2) ExAborted by blast
  qed
qed

lemma all_keep_world_ok: "all_keep w w' \<Longrightarrow> world_ok w'"
  by (simp add: all_keep_def keeps_def world_ok_def)

lemma reset_idle:
  assumes "releasable tm w"
  obtains tm' w' where "txn_reset tm w = Some (tm', w')" "idle tm'" "world_ok (tw_locks w')" "tm_watch tm' = tm_watch tm"
proof -
  obtain lw where lw: "unlock_all_keys (tm_entries tm) (tw_locks w) = Some (entries_new, lw)" "world_ok lw"
    using assms by (auto simp: releasable_def)
  from reset_after_lock [OF lw(1)] show thesis using that lw(2) by (auto simp: idle_def)
qed

lemma commit_idle:
  assumes "releasable tm w"
  obtains ok tm' w' where "txn_commit False tm w = Some (ok, tm', w')" "idle tm'" "world_ok (tw_locks w')" "tm_watch tm' = []"
proof -
  obtain ok w1 where m: "mark tm TxnCommit w = (ok, w1)" by fastforce
  have "releasable (watch_reset tm) w1" using assms mark_locks [OF m] by (simp add: releasable_def watch_reset_def)
  then obtain tm' w' where "txn_reset (watch_reset tm) w1 = Some (tm', w')" "idle tm'" "world_ok (tw_locks w')" "tm_watch tm' = tm_watch (watch_reset tm)"
    by (rule reset_idle)
  then show thesis using that m by (simp add: txn_commit_def watch_reset_def)
qed

lemma commit_step:
  assumes fr: "fr_cmd fr = CmdExec" "admitted env fr" and s: "ready s"
    and tm: "tm_state tm = StRunning" "releasable tm w"
  obtains ok tm' w' where
    "consume_step env fr ((at_head s head StRunning out, tm, w), st) =
       Some (True, (at_head s (Suc head) StNone (out @ (if ok then [] else [RError TransactionFailed])), tm', w'), st)"
    "idle tm'" "world_ok (tw_locks w')" "tm_watch tm' = []"
proof -
  let ?tm = "tm\<lparr>cluster_enabled := ce_cluster env \<noteq> None\<rparr>"
  let ?s = "(at_head s head StRunning out)\<lparr>ss_end_read_head := head + 1\<rparr>"
  obtain ok tm' w' where c: "txn_commit False ?tm w = Some (ok, tm', w')" "idle tm'" "world_ok (tw_locks w')" "tm_watch tm' = []"
    using commit_idle [of ?tm w] tm(2) by (auto simp: releasable_def)
  have "dispatch_frame env fr ((?s, tm, w), st) =
      Some (Continue ((set_txn_state StNone (set_txn_state StNone (if ok then ?s else write_reply (RError TransactionFailed) ?s)), tm', w'), st))"
    using exec_step_dispatch [OF fr, of ?s tm w st] tm(1) c(1,2) by (simp add: at_head_def with_txn_manager_def network_exec_def idle_def)
  then have "consume_step env fr ((at_head s head StRunning out, tm, w), st) =
      Some (True, (at_head s (Suc head) StNone (out @ (if ok then [] else [RError TransactionFailed])), tm', w'), st)"
    using s by (cases ok) (simp_all add: consume_step_def finish_frame_def Let_def at_head_def write_reply_def set_txn_state_def ready_def)
  then show thesis using that c(2-4) by blast
qed

lemma abandon_idle:
  assumes "tm_state tm = StRunning" "releasable tm w"
  obtains tm' w' where "finish_abandoned_txn (s, tm, w) = Some (set_txn_state StNone s, tm', w')" "idle tm'"
proof -
  obtain ok w1 where m: "mark tm TxnAbort w = (ok, w1)" by fastforce
  have "releasable tm w1" using assms(2) mark_locks [OF m] by (simp add: releasable_def)
  then obtain tm' w' where "txn_reset tm w1 = Some (tm', w')" "idle tm'" "world_ok (tw_locks w')" "tm_watch tm' = tm_watch tm"
    by (rule reset_idle)
  then show thesis using that m assms(1) by (simp add: finish_abandoned_txn_def finish_abandoned_def idle_def)
qed

section \<open>The driven replay\<close>

text \<open>
  How the replay of a queue ends when the races end as given: every command was completed and EXEC committed; a command
  is suspended and its race is still open; or the session was disposed of at a suspended command. In the last two
  cases the commands before it were completed, each suspended one among them by a race of its own.
\<close>

definition halted_at ::
  "'st CommandEnv \<Rightarrow> Frame list \<Rightarrow> RaceEnd list \<Rightarrow> RaceEnd list \<Rightarrow> 'st \<Rightarrow> Frame list \<Rightarrow> Frame \<Rightarrow> 'st \<Rightarrow> bool" where
  "halted_at env q es rest st done fr st' \<longleftrightarrow>
     (\<exists>q2. q = done @ fr # q2) \<and> replay_outcome env fr (snd (run_queue env done st)) = Suspended st' \<and>
     es = replicate (suspensions env done st) Resolved @ rest"

definition replay_ran :: "'st CommandEnv \<Rightarrow> Frame list \<Rightarrow> RaceEnd list \<Rightarrow> RespSession \<Rightarrow> nat \<Rightarrow> Reply list \<Rightarrow> 'st \<Rightarrow> txn_conn \<times> 'st \<Rightarrow> bool" where
  "replay_ran env q es s head out st = (\<lambda>((s', tm', w'), st').
     (\<exists>rest. es = replicate (suspensions env q st) Resolved @ rest) \<and> idle tm' \<and> st' = snd (run_queue env q st) \<and>
     (\<exists>tail \<in> {[], [RError TransactionFailed]}.
        s' = at_head s (head + length q + 1) StNone (out @ fst (run_queue env q st) @ tail)))"

definition replay_suspended :: "'st CommandEnv \<Rightarrow> Frame list \<Rightarrow> RaceEnd list \<Rightarrow> RespSession \<Rightarrow> nat \<Rightarrow> Reply list \<Rightarrow> 'st \<Rightarrow> txn_conn \<times> 'st \<Rightarrow> bool" where
  "replay_suspended env q es s head out st = (\<lambda>((s', tm', w'), st'). \<exists>done fr.
     halted_at env q es [] st done fr st' \<and> tm_state tm' = StRunning \<and> releasable tm' w' \<and>
     s' = (at_head s (head + length done + 1) StRunning (out @ fst (run_queue env done st)))\<lparr>ss_suspended := Some fr\<rparr>)"

definition replay_abandoned :: "'st CommandEnv \<Rightarrow> Frame list \<Rightarrow> RaceEnd list \<Rightarrow> RespSession \<Rightarrow> nat \<Rightarrow> Reply list \<Rightarrow> 'st \<Rightarrow> txn_conn \<times> 'st \<Rightarrow> bool" where
  "replay_abandoned env q es s head out st = (\<lambda>((s', tm', w'), st'). \<exists>done fr rest.
     halted_at env q es (Disposed # rest) st done fr st' \<and> idle tm' \<and>
     s' = at_head s (head + length done + 1) StNone (out @ fst (run_queue env done st)))"

definition replay_end :: "'st CommandEnv \<Rightarrow> Frame list \<Rightarrow> RaceEnd list \<Rightarrow> RespSession \<Rightarrow> nat \<Rightarrow> Reply list \<Rightarrow> 'st \<Rightarrow> txn_conn \<times> 'st \<Rightarrow> bool" where
  "replay_end env q es s head out st x \<longleftrightarrow>
     replay_ran env q es s head out st x \<or> replay_suspended env q es s head out st x \<or> replay_abandoned env q es s head out st x"

lemma run_queue_step: "complete env fr st = (r, st1) \<Longrightarrow>
    run_queue env (fr # q) st = (r # fst (run_queue env q st1), snd (run_queue env q st1))"
  by (simp add: case_prod_beta)

lemma halted_at_later:
  assumes "halted_at env q es1 rest st1 done f st'" "complete env fr st = (r, st1)"
    "es = replicate (case replay_outcome env fr st of Answered _ _ \<Rightarrow> 0 | Suspended _ \<Rightarrow> 1) Resolved @ es1"
  shows "halted_at env (fr # q) es rest st (fr # done) f st'"
  using assms by (auto simp: halted_at_def run_queue_step [OF assms(2)] replicate_add simp del: run_queue.simps(2) split: Executed.splits)

lemma replay_end_later:
  assumes "replay_end env q es1 s (Suc head) (out @ [r]) st1 x" "complete env fr st = (r, st1)"
    "es = replicate (case replay_outcome env fr st of Answered _ _ \<Rightarrow> 0 | Suspended _ \<Rightarrow> 1) Resolved @ es1"
  shows "replay_end env (fr # q) es s head out st x"
proof -
  obtain s' tm' w' st' where x: "x = ((s', tm', w'), st')" by (cases x) auto
  consider (ran) "replay_ran env q es1 s (Suc head) (out @ [r]) st1 x"
    | (susp) "replay_suspended env q es1 s (Suc head) (out @ [r]) st1 x"
    | (aband) "replay_abandoned env q es1 s (Suc head) (out @ [r]) st1 x"
    using assms(1) by (auto simp: replay_end_def)
  then show ?thesis
  proof cases
    case ran
    have "\<exists>rest. es = replicate (suspensions env (fr # q) st) Resolved @ rest"
      using ran assms(2,3) by (auto simp: replay_ran_def x replicate_add split: Executed.splits)
    then have "replay_ran env (fr # q) es s head out st x"
      using ran by (auto simp: replay_ran_def x run_queue_step [OF assms(2)] simp del: suspensions.simps run_queue.simps(2))
    then show ?thesis by (simp add: replay_end_def)
  next
    case susp
    then obtain dn f where d: "halted_at env q es1 [] st1 dn f st'" "tm_state tm' = StRunning" "releasable tm' w'"
      "s' = (at_head s (Suc head + length dn + 1) StRunning ((out @ [r]) @ fst (run_queue env dn st1)))\<lparr>ss_suspended := Some f\<rparr>"
      by (auto simp: replay_suspended_def x)
    have "replay_suspended env (fr # q) es s head out st x"
      using halted_at_later [OF d(1) assms(2,3)] d(2-4) unfolding replay_suspended_def x
      by (simp only: prod.case) (intro exI [of _ "fr # dn"] exI [of _ f], simp add: run_queue_step [OF assms(2)] del: run_queue.simps(2))
    then show ?thesis by (simp add: replay_end_def)
  next
    case aband
    then obtain dn f rest where d: "halted_at env q es1 (Disposed # rest) st1 dn f st'" "idle tm'"
      "s' = at_head s (Suc head + length dn + 1) StNone ((out @ [r]) @ fst (run_queue env dn st1))"
      by (auto simp: replay_abandoned_def x)
    have "replay_abandoned env (fr # q) es s head out st x"
      using halted_at_later [OF d(1) assms(2,3)] d(2,3) unfolding replay_abandoned_def x
      by (simp only: prod.case) (intro exI [of _ "fr # dn"] exI [of _ f] exI [of _ rest], simp add: run_queue_step [OF assms(2)] del: run_queue.simps(2))
    then show ?thesis by (simp add: replay_end_def)
  qed
qed

text \<open>The loop with the bound of its first call apart from the bound of the later ones.\<close>

definition drive_from :: "nat \<Rightarrow> nat \<Rightarrow> RaceEnd list \<Rightarrow> 'st CommandEnv \<Rightarrow> Frame list \<Rightarrow> txn_conn \<times> 'st \<Rightarrow> (bool \<times> txn_conn \<times> 'st) option" where
  "drive_from m n es env frames x = (case process_messages m env frames x of None \<Rightarrow> None | Some y \<Rightarrow> pump n es env frames y)"

lemma pump_done: "ss_suspended s = None \<Longrightarrow> pump n es env frames (b, (s, tm, w), st) = Some (b, (s, tm, w), st)"
  by (cases es) (simp_all add: take_suspended_def)

lemma drive_from_step:
  assumes "ss_suspended s = None" "ss_read_head s < length frames" "consume_step env (frames ! ss_read_head s) ((s, tm, w), st) = Some (True, y)"
  shows "drive_from (Suc m) n es env frames ((s, tm, w), st) = drive_from m n es env frames y"
  using assms by (simp add: drive_from_def Let_def)

lemma drive_from_halt:
  assumes "ss_suspended s = None" "ss_read_head s < length frames" "consume_step env (frames ! ss_read_head s) ((s, tm, w), st) = Some (False, y)"
  shows "drive_from (Suc m) n es env frames ((s, tm, w), st) = pump n es env frames (False, y)"
  using assms by (simp add: drive_from_def Let_def)

lemma drive_from_end:
  assumes "ss_suspended s = None" "length frames \<le> ss_read_head s"
  shows "drive_from (Suc m) n es env frames ((s, tm, w), st) = Some (False, (s, tm, w), st)"
  using assms by (simp add: drive_from_def Let_def pump_done)

text \<open>A race at a suspended command of the replay.\<close>

lemma pump_suspended:
  assumes "ready s" "tm_state tm = StRunning" "releasable tm w" and fr: "replay_outcome env fr st0 = Suspended st"
    and IH: "\<And>es' r st'. es = Resolved # es' \<Longrightarrow> complete env fr st0 = (r, st') \<Longrightarrow>
      \<exists>x. drive_from n n es' env frames ((at_head s (Suc head) StRunning (out @ [r]), tm, w), st') = Some (False, x) \<and>
          replay_end env q es' s (Suc head) (out @ [r]) st' x"
  shows "\<exists>x. pump n es env frames (False, ((at_head s (Suc head) StRunning out)\<lparr>ss_suspended := Some fr\<rparr>, tm, w), st) = Some (False, x) \<and>
    replay_end env (fr # q) es s head out st0 x"
proof -
  let ?s = "at_head s (Suc head) StRunning out"
  have take: "take_suspended (?s\<lparr>ss_suspended := Some fr\<rparr>, tm, w) = Some (fr, ?s, tm, w)"
    using assms(1) by (cases s) (simp add: take_suspended_def at_head_def ready_def)
  have halt: "halted_at env (fr # q) rest rest st0 [] fr st" for rest using fr by (simp add: halted_at_def)
  show ?thesis
  proof (cases es)
    case Nil
    have "replay_suspended env (fr # q) [] s head out st0 ((?s\<lparr>ss_suspended := Some fr\<rparr>, tm, w), st)"
      unfolding replay_suspended_def prod.case using halt assms(2,3) by (intro exI [of _ "[]"] exI [of _ fr]) simp
    then show ?thesis using Nil by (simp add: replay_end_def)
  next
    case (Cons e es')
    show ?thesis
    proof (cases e)
      case Disposed
      obtain tm' w' where "finish_abandoned_txn (?s, tm, w) = Some (set_txn_state StNone ?s, tm', w')" "idle tm'"
        using assms(2,3) by (rule abandon_idle)
      moreover have "set_txn_state StNone ?s = at_head s (Suc head) StNone out" by (simp add: set_txn_state_def at_head_def)
      moreover have "replay_abandoned env (fr # q) es s head out st0 ((at_head s (Suc head) StNone out, tm', w'), st)" if "idle tm'"
        unfolding replay_abandoned_def prod.case Cons Disposed using halt [of "Disposed # es'"] that
        by (intro exI [of _ "[]"] exI [of _ fr] exI [of _ es']) simp
      ultimately show ?thesis using take Cons Disposed by (simp add: replay_end_def)
    next
      case Resolved
      obtain r st' where r: "ce_resume env fr st = (r, st')" by fastforce
      then have c: "complete env fr st0 = (r, st')" using fr by (simp add: complete_def)
      have res: "resolve_suspended env fr ((?s, tm, w), st) = ((at_head s (Suc head) StRunning (out @ [r]), tm, w), st')"
        using r by (simp add: resolve_suspended_def write_reply_def at_head_def)
      obtain x where x: "drive_from n n es' env frames ((at_head s (Suc head) StRunning (out @ [r]), tm, w), st') = Some (False, x)"
        "replay_end env q es' s (Suc head) (out @ [r]) st' x"
        using IH [of es' r st'] Cons Resolved c by blast
      have "replay_end env (fr # q) es s head out st0 x"
        using x(2) c by (rule replay_end_later) (simp add: fr Cons Resolved)
      moreover have "pump n es env frames (False, (?s\<lparr>ss_suspended := Some fr\<rparr>, tm, w), st) = Some (False, x)"
        using x(1) by (simp add: Cons Resolved take res drive_from_def)
      ultimately show ?thesis by blast
    qed
  qed
qed

lemma replay_drive:
  assumes q: "list_all (replayable env s w) q" and ex: "fr_cmd ex = CmdExec" "admitted env ex" and s: "ready s"
    and tm: "releasable tm w" "tm_state tm = StRunning" and n: "length q + 2 \<le> m" "length q + 2 \<le> n"
  shows "\<exists>x. drive_from m n es env (pre @ q @ [ex]) ((at_head s (length pre) StRunning out, tm, w), st) = Some (False, x) \<and>
    replay_end env q es s (length pre) out st x"
  using q tm n
proof (induction q arbitrary: pre out tm st es m)
  case Nil
  obtain k where k: "m = Suc (Suc k)" using Nil.prems(4) nat_le_iff_add [of 2 m] by auto
  obtain ok tm' w' where c: "consume_step env ex ((at_head s (length pre) StRunning out, tm, w), st) =
       Some (True, (at_head s (Suc (length pre)) StNone (out @ (if ok then [] else [RError TransactionFailed])), tm', w'), st)" "idle tm'"
    using commit_step [OF ex s Nil.prems(3,2)] by blast
  have "drive_from m n es env (pre @ [] @ [ex]) ((at_head s (length pre) StRunning out, tm, w), st) =
      drive_from (Suc k) n es env (pre @ [] @ [ex])
        ((at_head s (Suc (length pre)) StNone (out @ (if ok then [] else [RError TransactionFailed])), tm', w'), st)"
    unfolding k using c(1) s by (intro drive_from_step) (simp_all add: at_head_def ready_def nth_append)
  also have "\<dots> = Some (False, (at_head s (Suc (length pre)) StNone (out @ (if ok then [] else [RError TransactionFailed])), tm', w'), st)"
    using s by (intro drive_from_end) (simp_all add: at_head_def ready_def)
  finally show ?case using c(2) by (cases ok) (simp_all add: replay_end_def replay_ran_def)
next
  case (Cons fr q)
  obtain k where k: "m = Suc k" "length q + 2 \<le> k" "length q + 2 \<le> n" using Cons.prems(4,5) by (cases m) auto
  have fr: "replayable env s w fr" and qs: "list_all (replayable env s w) q" using Cons.prems(1) by simp_all
  let ?fs = "pre @ (fr # q) @ [ex]" and ?s = "at_head s (length pre) StRunning out"
  have h: "ss_suspended ?s = None" "ss_read_head ?s < length ?fs" "?fs ! ss_read_head ?s = fr"
    using s by (simp_all add: at_head_def ready_def nth_append)
  obtain tm' where tm': "same_core tm tm'" and c: "consume_step env fr ((?s, tm, w), st) =
    (case replay_outcome env fr st of
       Answered r st \<Rightarrow> Some (True, (at_head s (Suc (length pre)) StRunning (out @ [r]), tm', w), st)
     | Suspended st \<Rightarrow> Some (False, ((at_head s (Suc (length pre)) StRunning out)\<lparr>ss_suspended := Some fr\<rparr>, tm', w), st))"
    using replay_step [OF fr s Cons.prems(3), of "length pre" out st] by blast
  have core: "releasable tm' w" "tm_state tm' = StRunning" using same_core_eqs [OF tm'] Cons.prems(2,3) by simp_all
  have IH: "\<exists>x. drive_from k' n es' env ?fs ((at_head s (Suc (length pre)) StRunning (out @ [r]), tm', w), st') = Some (False, x) \<and>
      replay_end env q es' s (Suc (length pre)) (out @ [r]) st' x" if "length q + 2 \<le> k'" for k' es' r st'
    using Cons.IH [OF qs core that k(3), of es' "pre @ [fr]" "out @ [r]" st'] by simp
  show ?case
  proof (cases "replay_outcome env fr st")
    case (Answered r st1)
    obtain x where x: "drive_from k n es env ?fs ((at_head s (Suc (length pre)) StRunning (out @ [r]), tm', w), st1) = Some (False, x)"
      "replay_end env q es s (Suc (length pre)) (out @ [r]) st1 x"
      using IH [OF k(2)] by blast
    have "drive_from m n es env ?fs ((?s, tm, w), st) = Some (False, x)"
      unfolding k(1) x(1) [symmetric] using h c Answered by (intro drive_from_step) simp_all
    moreover have "replay_end env (fr # q) es s (length pre) out st x"
      using x(2) by (rule replay_end_later) (simp_all add: Answered complete_def)
    ultimately show ?thesis by blast
  next
    case (Suspended st1)
    have "drive_from m n es env ?fs ((?s, tm, w), st) =
        pump n es env ?fs (False, ((at_head s (Suc (length pre)) StRunning out)\<lparr>ss_suspended := Some fr\<rparr>, tm', w), st1)"
      unfolding k(1) using h c Suspended by (intro drive_from_halt) simp_all
    moreover have "\<exists>x. pump n es env ?fs (False, ((at_head s (Suc (length pre)) StRunning out)\<lparr>ss_suspended := Some fr\<rparr>, tm', w), st1) = Some (False, x) \<and>
        replay_end env (fr # q) es s (length pre) out st x"
      by (rule pump_suspended [OF s core(2,1) Suspended]) (rule IH [OF k(3)])
    ultimately show ?thesis by simp
  qed
qed

section \<open>A batch\<close>

text \<open>
  The ways a batch can end, by the replies, the state and the store: \<open>out\<close> are the replies of MULTI and of the queueing
  pass, \<open>k\<close> is the number of replies EXEC announces.
\<close>

definition batch_ran ::
  "'st CommandEnv \<Rightarrow> Frame list \<Rightarrow> RaceEnd list \<Rightarrow> Reply list \<Rightarrow> nat \<Rightarrow> RespSession \<Rightarrow> TransactionManager \<Rightarrow> TxnWorld \<Rightarrow> 'st \<Rightarrow>
     txn_conn \<times> 'st \<Rightarrow> bool" where
  "batch_ran env q es out k s tm w st x \<longleftrightarrow>
     validate_watch_version (tw_versions w) (tm_watch tm) \<and> replay_ran env q es s (Suc (ss_read_head s)) (out @ [RArrayLength k]) st x"

definition batch_declined :: "Frame list \<Rightarrow> Reply list \<Rightarrow> RespSession \<Rightarrow> 'st \<Rightarrow> txn_conn \<times> 'st \<Rightarrow> bool" where
  "batch_declined q out s st = (\<lambda>((s', tm', w'), st').
     idle tm' \<and> st' = st \<and> s' = at_head s (ss_read_head s + length q + 2) StNone (out @ [RNullArray]))"

definition batch_waiting ::
  "'st CommandEnv \<Rightarrow> Frame list \<Rightarrow> Reply list \<Rightarrow> RespSession \<Rightarrow> 'st \<Rightarrow> txn_conn \<times> 'st \<Rightarrow> bool" where
  "batch_waiting env q out s st = (\<lambda>((s', tm', w'), st').
     exec_ready (ce_hash env) (ce_route env) (concat (map frame_keys (accepted s q))) tm' w' \<and> tm_state tm' = StStarted \<and> st' = st \<and>
     s' = at_head s (ss_read_head s + length q + 1) StStarted out)"

definition batch_suspended ::
  "'st CommandEnv \<Rightarrow> Frame list \<Rightarrow> RaceEnd list \<Rightarrow> Reply list \<Rightarrow> nat \<Rightarrow> RespSession \<Rightarrow> 'st \<Rightarrow> txn_conn \<times> 'st \<Rightarrow> bool" where
  "batch_suspended env q es out k s st x \<longleftrightarrow> replay_suspended env q es s (Suc (ss_read_head s)) (out @ [RArrayLength k]) st x"

definition batch_abandoned ::
  "'st CommandEnv \<Rightarrow> Frame list \<Rightarrow> RaceEnd list \<Rightarrow> Reply list \<Rightarrow> nat \<Rightarrow> RespSession \<Rightarrow> 'st \<Rightarrow> txn_conn \<times> 'st \<Rightarrow> bool" where
  "batch_abandoned env q es out k s st x \<longleftrightarrow> replay_abandoned env q es s (Suc (ss_read_head s)) (out @ [RArrayLength k]) st x"

definition batch_end ::
  "'st CommandEnv \<Rightarrow> Frame list \<Rightarrow> RaceEnd list \<Rightarrow> Reply list \<Rightarrow> nat \<Rightarrow> RespSession \<Rightarrow> TransactionManager \<Rightarrow> TxnWorld \<Rightarrow> 'st \<Rightarrow>
     txn_conn \<times> 'st \<Rightarrow> bool" where
  "batch_end env q es out k s tm w st x \<longleftrightarrow> batch_ran env q es out k s tm w st x \<or> batch_declined q out s st x \<or>
     batch_waiting env q out s st x \<or> batch_suspended env q es out k s st x \<or> batch_abandoned env q es out k s st x"

lemma started_releasable: "exec_outcome H R prefix ks tm w ExStarted tm' w' \<Longrightarrow> releasable tm' w' \<and> tm_state tm' = StRunning"
  by (auto simp: exec_outcome_def releasable_def dest: all_keep_world_ok)

text \<open>MULTI and the queueing pass bring the session to EXEC with the queue registered.\<close>

lemma batch_queued:
  assumes frames: "frames = pre @ mu # q @ post" "ss_read_head s = length pre" "fr_cmd mu = CmdMulti"
    and env: "cl = (ce_cluster env \<noteq> None)" "gate_open env mu" "list_all (queued_or_watch env s) q"
    and s: "ss_txn_state s = StNone" "ready s" and tm: "idle tm"
  shows "process_messages (Suc (length q + k)) env frames ((s, tm, w), st) =
    process_messages k env frames
      ((at_head s (Suc (length pre) + length q) StStarted ([ROk] @ map (queue_reply s) q),
        queued_manager tm (Suc (length pre)) (length (accepted s q)) (concat (map frame_keys (accepted s q))) cl (ss_id s), w), st)"
proof -
  let ?h = "Suc (length pre)"
  have fr: "frames = (pre @ [mu]) @ q @ post" using frames(1) by simp
  have "consume_step env mu ((s, tm, w), st) = Some (True, (at_head s ?h StStarted [ROk], queued_manager tm ?h 0 [] cl (ss_id s), w), st)"
    using multi_step [of mu env tm s w st] frames env s tm by simp
  then have "process_messages (Suc (length q + k)) env frames ((s, tm, w), st) =
      process_messages (length q + k) env frames ((at_head s ?h StStarted [ROk], queued_manager tm ?h 0 [] cl (ss_id s), w), st)"
    using frames s(2) by (simp add: Let_def ready_def)
  also have "\<dots> = process_messages k env frames
      ((at_head s (?h + length q) StStarted ([ROk] @ map (queue_reply s) q),
        queued_manager tm ?h (length (accepted s q)) (concat (map frame_keys (accepted s q))) cl (ss_id s), w), st)"
    using queue_run [OF env(3) s(2), of cl k "pre @ [mu]" post "[ROk]" tm ?h 0 "[]" "ss_id s" w st] env(1)
    unfolding fr by simp
  finally show ?thesis .
qed

lemma batch_ends:
  assumes frames: "frames = pre @ mu # q @ [ex]" "ss_read_head s = length pre" "fr_cmd mu = CmdMulti" "fr_cmd ex = CmdExec"
    and env: "ce_cluster env = None" "admitted env mu" "admitted env ex" "list_all (replayable env s w) q"
    and s: "ss_txn_state s = StNone" "ready s"
    and tm: "idle tm" "world_ok (tw_locks w)" "keys_fit (concat (map frame_keys (accepted s q)))"
    and n: "2 * length frames \<le> n + 2 * length pre"
  shows "\<exists>x. drive_loop n es env frames ((s, tm, w), st) = Some (False, x) \<and>
    batch_end env q es ([ROk] @ map (queue_reply s) q) (length (accepted s q)) s tm w st x"
proof -
  let ?N = "length q" and ?h = "Suc (length pre)" and ?ks = "concat (map frame_keys (accepted s q))" and ?A = "length (accepted s q)"
  let ?out = "[ROk] @ map (queue_reply s) q"
  let ?x = "((at_head s (?h + ?N) StStarted ?out, queued_manager tm ?h ?A ?ks False (ss_id s), w), st)"
  obtain k where k: "n = Suc (?N + Suc (?N + Suc (Suc k)))" using n frames(1) nat_le_iff_add [of "2 * ?N + 4" n] by auto
  have "False = (ce_cluster env \<noteq> None)" "gate_open env mu" "list_all (queued_or_watch env s) q"
    using env by (simp_all add: gate_open_def list_all_iff replayable_def)
  from batch_queued [OF frames(1-3) this s tm(1), of "Suc (?N + Suc (Suc k))" w st, folded k]
  have run: "drive_loop n es env frames ((s, tm, w), st) = drive_from (Suc (?N + Suc (Suc k))) n es env frames ?x"
    by (simp add: drive_loop_def drive_from_def)
  have nth: "ss_suspended (at_head s (?h + ?N) StStarted ?out) = None"
    "ss_read_head (at_head s (?h + ?N) StStarted ?out) < length frames" "frames ! ss_read_head (at_head s (?h + ?N) StStarted ?out) = ex"
    unfolding frames(1) using s(2) by (simp_all add: at_head_def nth_append ready_def)
  show ?thesis
  proof (rule exec_step [OF frames(4) env(3,1) s(2) tm, where head = "?h + ?N" and out = ?out and h = ?h and n = ?A and sid = "ss_id s" and st = st], goal_cases)
    case (1 tm' w')
    have "list_all (replayable env s w') q" using env(4) 1(3) by (simp add: list_all_iff replayable_def)
    from replay_drive [OF this frames(4) env(3) s(2), of tm' "?N + Suc (Suc k)" n es "pre @ [mu]" "?out @ [RArrayLength ?A]" st]
    obtain x where x: "drive_from (?N + Suc (Suc k)) n es env frames ((at_head s ?h StRunning (?out @ [RArrayLength ?A]), tm', w'), st) = Some (False, x)"
      "replay_end env q es s ?h (?out @ [RArrayLength ?A]) st x"
      using started_releasable [OF 1(2)] unfolding frames(1) k by auto
    moreover have "validate_watch_version (tw_versions w) (tm_watch tm)" using 1(2) by (simp add: exec_outcome_def queued_manager_def)
    ultimately have "batch_end env q es ?out ?A s tm w st x"
      using frames(2) by (auto simp: replay_end_def batch_end_def batch_ran_def batch_suspended_def batch_abandoned_def)
    moreover have "drive_from (Suc (?N + Suc (Suc k))) n es env frames ?x = Some (False, x)"
      unfolding x(1) [symmetric] by (rule drive_from_step [OF nth(1,2)]) (simp only: nth(3) 1(1))
    ultimately show ?thesis unfolding run by blast
  next
    case (2 tm' w')
    have "batch_waiting env q ?out s st ((at_head s (?h + ?N) StStarted ?out, tm', w'), st)"
      using 2 frames(2) by (simp add: batch_waiting_def exec_outcome_def queued_manager_def)
    then have "batch_end env q es ?out ?A s tm w st ((at_head s (?h + ?N) StStarted ?out, tm', w'), st)" by (simp add: batch_end_def)
    moreover have "drive_from (Suc (?N + Suc (Suc k))) n es env frames ?x = Some (False, (at_head s (?h + ?N) StStarted ?out, tm', w'), st)"
      by (rule trans [OF drive_from_halt [OF nth(1,2)] pump_done [OF nth(1)]]) (simp only: nth(3) 2(1))
    ultimately show ?thesis unfolding run by blast
  next
    case (3 tm' w')
    have "batch_declined q ?out s st ((at_head s (Suc (?h + ?N)) StNone (?out @ [RNullArray]), tm', w'), st)"
      using 3 frames(2) by (simp add: batch_declined_def exec_outcome_def idle_def)
    then have "batch_end env q es ?out ?A s tm w st ((at_head s (Suc (?h + ?N)) StNone (?out @ [RNullArray]), tm', w'), st)"
      by (simp add: batch_end_def)
    moreover have "drive_from (?N + Suc (Suc k)) n es env frames ((at_head s (Suc (?h + ?N)) StNone (?out @ [RNullArray]), tm', w'), st) =
        Some (False, (at_head s (Suc (?h + ?N)) StNone (?out @ [RNullArray]), tm', w'), st)"
      unfolding add_Suc_right by (rule drive_from_end) (use s(2) frames(1) in \<open>simp_all add: at_head_def ready_def\<close>)
    moreover have "drive_from (Suc (?N + Suc (Suc k))) n es env frames ?x =
        drive_from (?N + Suc (Suc k)) n es env frames ((at_head s (Suc (?h + ?N)) StNone (?out @ [RNullArray]), tm', w'), st)"
      by (rule drive_from_step [OF nth(1,2)]) (simp only: nth(3) 3(1))
    ultimately show ?thesis unfolding run by metis
  qed
qed


definition example_env :: "bytes list CommandEnv" where
  "example_env =
     \<lparr>ce_hash = length_hash, ce_route = (\<lambda>_. 0), ce_cluster = None, ce_acl = (\<lambda>_. Permitted), ce_script_ok = (\<lambda>_. True),
      ce_subscribed = (\<lambda>_. False), ce_slot_gate = (\<lambda>_. Serve),
      ce_execute = (\<lambda>fr st. if fr_cmd fr = CmdOther 0 then Suspended st else Answered ROk (st @ fr_args fr)),
      ce_resume = (\<lambda>fr st. (RNullArray, st @ fr_args fr))\<rparr>"

definition example_session :: RespSession where
  "example_session =
     \<lparr>ss_txn_state = StNone, ss_read_head = 0, ss_end_read_head = 0, ss_output = [], ss_pending_rearm = False, ss_suspended = None,
      ss_to_dispose = False, ss_id = 1, ss_active_db = 0, ss_can_run_debug = False, ss_prefix = [], ss_watch_prefix = []\<rparr>"

definition plain_frame :: "RespCommand \<Rightarrow> Frame" where
  "plain_frame cmd = \<lparr>fr_cmd = cmd, fr_args = [], fr_info = None\<rparr>"

definition set_frame :: Frame where
  "set_frame = \<lparr>fr_cmd = CmdSet, fr_args = [[2], [9]],
     fr_info = Some \<lparr>qi_name = ''SET'', qi_arity = -3, qi_allowed_in_txn = True, qi_is_sub_command = False,
       qi_keys = Some [\<lparr>first_idx = 0, last_idx = 0, spec_step = 1, read_only = False\<rparr>]\<rparr>\<rparr>"

text \<open>A command that blocks: it suspends the session and is resolved with a null reply.\<close>

definition block_frame :: Frame where
  "block_frame = \<lparr>fr_cmd = CmdOther 0, fr_args = [[3]],
     fr_info = Some \<lparr>qi_name = ''BLPOP'', qi_arity = -2, qi_allowed_in_txn = True, qi_is_sub_command = False,
       qi_keys = Some [\<lparr>first_idx = 0, last_idx = 0, spec_step = 1, read_only = False\<rparr>]\<rparr>\<rparr>"

definition example_frames :: "Frame list" where
  "example_frames = [plain_frame CmdMulti, set_frame, block_frame, set_frame, plain_frame CmdExec]"

lemma example_idle: "idle (manager_new None)"
  by (simp add: idle_def manager_new_def)

lemma example_locks: "world_ok (tw_locks (example_txn_world gate))"
  by (simp add: example_txn_world_def example_world_ok)

lemma example_ready: "ready example_session"
  by (simp add: ready_def example_session_def)

lemma example_queueable: "list_all (queueable example_env example_session) [set_frame, block_frame, set_frame]"
  "admitted example_env (plain_frame CmdMulti)" "admitted example_env (plain_frame CmdExec)"
  "keys_fit (concat (map frame_keys [set_frame, block_frame, set_frame]))"
proof -
  have "skip_refusal example_session set_frame = None" "skip_refusal example_session block_frame = None" by code_simp+
  then show "list_all (queueable example_env example_session) [set_frame, block_frame, set_frame]"
    by (simp add: queueable_def admitted_def session_frame_def example_env_def set_frame_def block_frame_def)
  show "admitted example_env (plain_frame CmdMulti)" "admitted example_env (plain_frame CmdExec)"
    by (simp_all add: admitted_def example_env_def plain_frame_def)
  have "concat (map frame_keys [set_frame, block_frame, set_frame]) = [([2], Exclusive), ([3], Exclusive), ([2], Exclusive)]" by code_simp
  then show "keys_fit (concat (map frame_keys [set_frame, block_frame, set_frame]))" by (simp add: keys_fit_def)
qed


text \<open>The same batch with the race won, lost and open.\<close>

lemma example_run:
  "map_option (\<lambda>(b, (s, tm, w), st). (ss_output s, ss_txn_state s, st))
     (drive_loop 10 [Resolved] example_env example_frames ((example_session, manager_new None, example_txn_world (Some 0)), [])) =
   Some ([ROk, RQueued, RQueued, RQueued, RArrayLength 3, ROk, RNullArray, ROk], StNone, [[2], [9], [3], [2], [9]])"
  "map_option (\<lambda>(b, (s, tm, w), st). (ss_output s, ss_txn_state s, st))
     (drive_loop 10 [Disposed] example_env example_frames ((example_session, manager_new None, example_txn_world (Some 0)), [])) =
   Some ([ROk, RQueued, RQueued, RQueued, RArrayLength 3, ROk], StNone, [[2], [9]])"
  "map_option (\<lambda>(b, (s, tm, w), st). (ss_output s, ss_txn_state s, st))
     (drive_loop 10 [] example_env example_frames ((example_session, manager_new None, example_txn_world (Some 0)), [])) =
   Some ([ROk, RQueued, RQueued, RQueued, RArrayLength 3, ROk], StRunning, [[2], [9]])"
  by code_simp+

end
