(* ===== verification/TxnRefusal.thy ===== *)
theory TxnRefusal
  imports TxnCommandProps
begin

text \<open>
  The error path of the queueing pass: a command that is refused while a transaction is queued aborts it, and nothing
  brings it back before EXEC or DISCARD. The last section is the one refusal that does not abort, WATCH.
\<close>

section \<open>A refused command\<close>

declare ready_def [simp]

text \<open>The frames that abort a transaction while it is queued, and the frames that leave it aborted.\<close>

definition refused :: "'st CommandEnv \<Rightarrow> RespSession \<Rightarrow> Frame \<Rightarrow> bool" where
  "refused env s fr \<longleftrightarrow>
     fr_cmd fr = CmdInvalid \<or> ce_acl env (fr_cmd fr) = Denied \<or>
     ce_acl env (fr_cmd fr) = Permitted \<and> \<not> ce_script_ok env (fr_cmd fr) \<or>
     admitted env fr \<and> (fr_cmd fr = CmdMulti \<or> \<not> session_frame fr \<and> (\<exists>e. skip_refusal s fr = Some (e, True)))"

definition stays :: "'st CommandEnv \<Rightarrow> Frame \<Rightarrow> bool" where
  "stays env fr \<longleftrightarrow> fr_cmd fr \<noteq> CmdExec \<and> fr_cmd fr \<noteq> CmdDiscard \<and> ce_acl env (fr_cmd fr) \<noteq> Parked"

definition aborted_at :: "nat \<Rightarrow> txn_conn \<Rightarrow> bool" where
  "aborted_at head = (\<lambda>(s, tm, w). ss_txn_state s = StAborted \<and> tm_state tm = StAborted \<and> ss_read_head s = head \<and>
     ready s \<and> tm_entries tm = entries_new \<and> world_ok (tw_locks w))"

lemma lock_keys_frame [simp]:
  "tm_entries (lock_keys args specs tm) = tm_entries tm" "tm_state (lock_keys args specs tm) = tm_state tm"
proof -
  have i: "tm_entries (fold (\<lambda>idx tm. save_key_entry_to_lock tm (f idx) t) is tm) = tm_entries tm \<and>
      tm_state (fold (\<lambda>idx tm. save_key_entry_to_lock tm (f idx) t) is tm) = tm_state tm" for f t "is" and tm :: TransactionManager
    by (induction "is" arbitrary: tm) (simp_all add: save_key_entry_to_lock_def)
  have "tm_entries (lock_keys args specs tm) = tm_entries tm \<and> tm_state (lock_keys args specs tm) = tm_state tm"
    unfolding lock_keys_def by (induction specs arbitrary: tm) (simp_all add: i)
  then show "tm_entries (lock_keys args specs tm) = tm_entries tm" "tm_state (lock_keys args specs tm) = tm_state tm" by simp_all
qed

lemma abort_pending_eq:
  "ss_txn_state s = StStarted \<or> ss_txn_state s = StAborted \<Longrightarrow>
   abort_pending_transaction env (s, tm, w) = Some (set_txn_state StAborted s, txn_abort (tm\<lparr>cluster_enabled := ce_cluster env \<noteq> None\<rparr>), w)"
  by (auto simp: abort_pending_transaction_def with_txn_manager_def simple_handler_def abort_state_def txn_abort_def set_txn_state_def)

text \<open>A frame that fails before the dispatch aborts the transaction.\<close>

lemma fail_frame_aborts:
  assumes d: "dispatch_frame env fr ((s\<lparr>ss_end_read_head := head + 1\<rparr>, tm, w), st) = fail_frame e ((s\<lparr>ss_end_read_head := head + 1\<rparr>, tm, w), st)"
    and s: "ss_txn_state s = StStarted \<or> ss_txn_state s = StAborted" "ss_read_head s = head" "ready s"
    and tm: "tm_entries tm = entries_new" "world_ok (tw_locks w)"
  shows "\<exists>c. consume_step env fr ((s, tm, w), st) = Some (True, c, st) \<and> aborted_at (Suc head) c"
  using d s tm
  by (auto simp: consume_step_def fail_frame_def Let_def finish_frame_def aborted_at_def write_reply_def abort_pending_eq
      set_txn_state_def txn_abort_def)

text \<open>A frame that is dispatched and leaves an aborted state.\<close>

lemma dispatched_aborts:
  assumes "dispatch_frame env fr ((s\<lparr>ss_end_read_head := head + 1\<rparr>, tm, w), st) = Some (Continue ((s', tm', w), st))"
    and "ss_read_head s = head" "ss_txn_state s' = StAborted" "tm_state tm' = StAborted" "ready s'"
    "ss_end_read_head s' = head + 1" "tm_entries tm' = entries_new" "world_ok (tw_locks w)"
  shows "\<exists>c. consume_step env fr ((s, tm, w), st) = Some (True, c, st) \<and> aborted_at (Suc head) c"
  using consume_Continue [OF assms(1,2)] assms by (simp add: aborted_at_def ready_def)

lemma skip_aborted:
  assumes "tm_entries tm = entries_new" "ready s"
    "tm_state tm = StAborted \<or> (\<exists>e. skip_refusal s fr = Some (e, True))"
  obtains s' tm' where "with_txn_manager env (simple_handler (network_skip fr)) (s, tm, w) = Some (s', tm', w)"
    "ss_txn_state s' = StAborted" "tm_state tm' = StAborted" "ready s'" "tm_entries tm' = entries_new"
    "ss_end_read_head s' = ss_end_read_head s"
proof -
  let ?tm = "tm\<lparr>cluster_enabled := ce_cluster env \<noteq> None\<rparr>"
  obtain s' tm' where n: "network_skip fr s ?tm = (s', tm')" by fastforce
  have "tm_state tm' = StAborted \<and> ready s' \<and> tm_entries tm' = entries_new \<and> ss_end_read_head s' = ss_end_read_head s"
  proof (cases "skip_refusal s fr")
    case None
    then show ?thesis using n assms by (auto simp: network_skip_def write_reply_def Let_def split: option.splits)
  next
    case (Some x)
    then show ?thesis using n assms
      by (cases x; cases "snd x") (auto simp: network_skip_def reject_abort_def abort_state_def txn_abort_def write_reply_def set_txn_state_def)
  qed
  then show thesis using that n by (simp add: with_txn_manager_def simple_handler_def set_txn_state_def)
qed

lemma dispatch_fails:
  "fr_cmd fr = CmdInvalid \<Longrightarrow> dispatch_frame env fr ((s, tm, w), st) = fail_frame UnknownCommand ((s, tm, w), st)"
  "fr_cmd fr \<noteq> CmdInvalid \<Longrightarrow> ce_acl env (fr_cmd fr) = Denied \<Longrightarrow>
     dispatch_frame env fr ((s, tm, w), st) = fail_frame NoPermission ((s, tm, w), st)"
  "fr_cmd fr \<noteq> CmdInvalid \<Longrightarrow> ce_acl env (fr_cmd fr) = Permitted \<Longrightarrow> \<not> ce_script_ok env (fr_cmd fr) \<Longrightarrow>
     dispatch_frame env fr ((s, tm, w), st) = fail_frame NoScript ((s, tm, w), st)"
  by (simp_all add: dispatch_frame_def Let_def)

text \<open>A session with a pending transaction that has not yet locked anything.\<close>

definition pending_at :: "nat \<Rightarrow> RespSession \<Rightarrow> TransactionManager \<Rightarrow> TxnWorld \<Rightarrow> bool" where
  "pending_at head s tm w \<longleftrightarrow> (ss_txn_state s = StStarted \<or> ss_txn_state s = StAborted) \<and> tm_state tm = ss_txn_state s \<and>
     ss_read_head s = head \<and> ready s \<and> tm_entries tm = entries_new \<and> world_ok (tw_locks w)"

lemma pending_multi:
  assumes "pending_at head s tm w" "admitted env fr" "fr_cmd fr = CmdMulti"
  shows "\<exists>c. consume_step env fr ((s, tm, w), st) = Some (True, c, st) \<and> aborted_at (Suc head) c"
proof -
  let ?s = "s\<lparr>ss_end_read_head := head + 1\<rparr>"
  have "dispatch_frame env fr ((?s, tm, w), st) =
      Some (Continue ((set_txn_state StAborted (set_txn_state StAborted (write_reply (RError NestedMulti) ?s)),
        txn_abort (tm\<lparr>cluster_enabled := ce_cluster env \<noteq> None\<rparr>), w), st))"
    using assms by (auto simp: pending_at_def dispatch_transactional process_transactional_command_def with_txn_manager_def simple_handler_def
        network_multi_def reject_abort_def abort_state_def txn_abort_def)
  then show ?thesis
    by (rule dispatched_aborts) (use assms(1) in \<open>simp_all add: pending_at_def write_reply_def set_txn_state_def txn_abort_def\<close>)
qed

lemma pending_skip:
  assumes "pending_at head s tm w" "admitted env fr" "\<not> session_frame fr"
    "tm_state tm = StAborted \<or> (\<exists>e. skip_refusal s fr = Some (e, True))"
  shows "\<exists>c. consume_step env fr ((s, tm, w), st) = Some (True, c, st) \<and> aborted_at (Suc head) c"
proof -
  let ?s = "s\<lparr>ss_end_read_head := head + 1\<rparr>"
  have p: "tm_entries tm = entries_new" "ready ?s" "ss_txn_state ?s \<noteq> StRunning" "ss_txn_state ?s \<noteq> StNone"
    using assms(1) by (auto simp: pending_at_def)
  have "skip_refusal ?s fr = skip_refusal s fr" by (rule skip_refusal_cong) simp_all
  then have "tm_state tm = StAborted \<or> (\<exists>e. skip_refusal ?s fr = Some (e, True))" using assms(4) by simp
  then obtain s' tm' where k: "with_txn_manager env (simple_handler (network_skip fr)) (?s, tm, w) = Some (s', tm', w)"
    "ss_txn_state s' = StAborted" "tm_state tm' = StAborted" "ready s'" "tm_entries tm' = entries_new"
    "ss_end_read_head s' = ss_end_read_head ?s"
    by (rule skip_aborted [OF p(1,2)])
  have "dispatch_frame env fr ((?s, tm, w), st) = Some (Continue ((s', tm', w), st))"
    unfolding dispatch_transactional [OF assms(2) p(4)] transactional_skip [OF assms(3) p(3)] k(1) by simp
  then show ?thesis by (rule dispatched_aborts) (use assms(1) k in \<open>simp_all add: pending_at_def\<close>)
qed

lemma pending_quit:
  assumes "pending_at head s tm w" "admitted env fr" "fr_cmd fr = CmdQuit" "ss_txn_state s = StAborted"
  shows "\<exists>c. consume_step env fr ((s, tm, w), st) = Some (True, c, st) \<and> aborted_at (Suc head) c"
proof -
  let ?s = "s\<lparr>ss_end_read_head := head + 1\<rparr>"
  have "dispatch_frame env fr ((?s, tm, w), st) = Some (Continue ((write_reply ROk (?s\<lparr>ss_to_dispose := True\<rparr>), tm, w), st))"
    using assms by (simp add: dispatch_transactional process_transactional_command_def quit_def)
  then show ?thesis by (rule dispatched_aborts) (use assms in \<open>simp_all add: pending_at_def write_reply_def\<close>)
qed

lemma pending_subscribed:
  assumes "pending_at head s tm w" "ss_txn_state s = StAborted"
    "fr_cmd fr \<noteq> CmdInvalid" "ce_acl env (fr_cmd fr) = Permitted" "ce_script_ok env (fr_cmd fr)" "ce_subscribed env (fr_cmd fr)"
  shows "\<exists>c. consume_step env fr ((s, tm, w), st) = Some (True, c, st) \<and> aborted_at (Suc head) c"
proof -
  let ?s = "s\<lparr>ss_end_read_head := head + 1\<rparr>"
  have "dispatch_frame env fr ((?s, tm, w), st) = Some (Continue ((write_reply (RError PubsubNotAllowed) ?s, tm, w), st))"
    using assms by (simp add: dispatch_frame_def Let_def)
  then show ?thesis by (rule dispatched_aborts) (use assms in \<open>simp_all add: pending_at_def write_reply_def\<close>)
qed

lemma pending_fails:
  assumes "pending_at head s tm w"
    "fr_cmd fr = CmdInvalid \<or> ce_acl env (fr_cmd fr) = Denied \<or> ce_acl env (fr_cmd fr) = Permitted \<and> \<not> ce_script_ok env (fr_cmd fr)"
  shows "\<exists>c. consume_step env fr ((s, tm, w), st) = Some (True, c, st) \<and> aborted_at (Suc head) c"
proof -
  let ?s = "s\<lparr>ss_end_read_head := head + 1\<rparr>"
  obtain e where "dispatch_frame env fr ((?s, tm, w), st) = fail_frame e ((?s, tm, w), st)"
    using assms(2) dispatch_fails [of fr env ?s tm w st] by metis
  then show ?thesis by (rule fail_frame_aborts) (use assms(1) in \<open>simp_all add: pending_at_def\<close>)
qed

lemma refused_step:
  assumes "pending_at head s tm w" "refused env s fr"
  shows "\<exists>c. consume_step env fr ((s, tm, w), st) = Some (True, c, st) \<and> aborted_at (Suc head) c"
proof -
  from assms(2) consider
    "fr_cmd fr = CmdInvalid \<or> ce_acl env (fr_cmd fr) = Denied \<or> ce_acl env (fr_cmd fr) = Permitted \<and> \<not> ce_script_ok env (fr_cmd fr)"
    | "admitted env fr" "fr_cmd fr = CmdMulti" | "admitted env fr" "\<not> session_frame fr" "\<exists>e. skip_refusal s fr = Some (e, True)"
    unfolding refused_def by blast
  then show ?thesis
  proof cases
    case 1
    then show ?thesis by (rule pending_fails [OF assms(1)])
  next
    case 2
    then show ?thesis by (rule pending_multi [OF assms(1)])
  next
    case 3
    from 3(1,2) disjI2 [OF 3(3)] show ?thesis by (rule pending_skip [OF assms(1)])
  qed
qed

lemma aborted_step:
  assumes "aborted_at head (s, tm, w)" "stays env fr"
  shows "\<exists>c. consume_step env fr ((s, tm, w), st) = Some (True, c, st) \<and> aborted_at (Suc head) c"
proof -
  have p: "pending_at head s tm w" "ss_txn_state s = StAborted" "tm_state tm = StAborted"
    using assms(1) by (simp_all add: aborted_at_def pending_at_def)
  have "ce_acl env (fr_cmd fr) = Permitted \<or> ce_acl env (fr_cmd fr) = Denied" "fr_cmd fr \<noteq> CmdExec" "fr_cmd fr \<noteq> CmdDiscard"
    using assms(2) by (cases "ce_acl env (fr_cmd fr)"; simp add: stays_def)+
  then consider
    "fr_cmd fr = CmdInvalid \<or> ce_acl env (fr_cmd fr) = Denied \<or> ce_acl env (fr_cmd fr) = Permitted \<and> \<not> ce_script_ok env (fr_cmd fr)"
    | "fr_cmd fr \<noteq> CmdInvalid" "ce_acl env (fr_cmd fr) = Permitted" "ce_script_ok env (fr_cmd fr)" "ce_subscribed env (fr_cmd fr)"
    | "admitted env fr" "fr_cmd fr = CmdMulti" | "admitted env fr" "fr_cmd fr = CmdQuit" | "admitted env fr" "\<not> session_frame fr"
    unfolding admitted_def session_frame_def by blast
  then show ?thesis
  proof cases
    case 1
    then show ?thesis by (rule pending_fails [OF p(1)])
  next
    case 2
    then show ?thesis by (rule pending_subscribed [OF p(1,2)])
  next
    case 3
    then show ?thesis by (rule pending_multi [OF p(1)])
  next
    case 4
    then show ?thesis using p(2) by (rule pending_quit [OF p(1)])
  next
    case 5
    then show ?thesis using disjI1 [OF p(3)] by (rule pending_skip [OF p(1)])
  qed
qed

lemma aborted_run:
  assumes "list_all (stays env) q" "aborted_at (length pre) c"
  shows "\<exists>c'. process_messages (length q + k) env (pre @ q @ post) (c, st) = process_messages k env (pre @ q @ post) (c', st) \<and>
    aborted_at (length pre + length q) c'"
  using assms
proof (induction q arbitrary: pre c)
  case Nil
  then show ?case by (intro exI [of _ c]) simp
next
  case (Cons fr q)
  obtain s tm w where c: "c = (s, tm, w)" by (cases c)
  have st: "stays env fr" "list_all (stays env) q" using Cons.prems(1) by simp_all
  obtain c1 where c1: "consume_step env fr (c, st) = Some (True, c1, st)" "aborted_at (Suc (length pre)) c1"
    using aborted_step [OF Cons.prems(2) [unfolded c] st(1), of st] unfolding c by blast
  have "ss_read_head (fst c) = length pre" "ss_suspended (fst c) = None" using Cons.prems(2) by (simp_all add: c aborted_at_def)
  then have "process_messages (length (fr # q) + k) env (pre @ (fr # q) @ post) (c, st) =
      process_messages (length q + k) env ((pre @ [fr]) @ q @ post) (c1, st)"
    using c1(1) by (simp add: nth_append Let_def)
  then show ?case using Cons.IH [OF st(2), of "pre @ [fr]" c1] c1(2) by simp
qed

lemma aborted_exec:
  assumes "fr_cmd fr = CmdExec" "admitted env fr" "aborted_at head (s, tm, w)"
  shows "\<exists>s' tm' w'. consume_step env fr ((s, tm, w), st) = Some (True, (s', tm', w'), st) \<and> idle tm' \<and> tm_watch tm' = [] \<and>
    ss_txn_state s' = StNone \<and> ss_read_head s' = Suc head \<and> ss_output s' = ss_output s @ [RError ExecAbort]"
proof -
  let ?s = "s\<lparr>ss_end_read_head := head + 1\<rparr>" and ?tm = "tm\<lparr>cluster_enabled := ce_cluster env \<noteq> None\<rparr>"
  have a: "ss_txn_state s = StAborted" "tm_state tm = StAborted" "ss_read_head s = head" "ready s" "releasable ?tm w"
    using assms(3) unlock_none_held [of entries_new "tw_locks w"] by (auto simp: aborted_at_def releasable_def entries_new_def)
  obtain tm' w' where r: "txn_reset ?tm w = Some (tm', w')" "idle tm'" by (rule reset_idle [OF a(5)])
  have "dispatch_frame env fr ((?s, tm, w), st) =
      Some (Continue ((set_txn_state StNone (set_txn_state StNone (write_reply (RError ExecAbort) ?s)), watch_reset tm', w'), st))"
    using exec_step_dispatch [OF assms(1,2), of ?s tm w st] a r
    by (simp add: with_txn_manager_def network_exec_def reset_txn_none_def watch_reset_def idle_def)
  from consume_Continue [OF this a(3)] a(4) r(2) show ?thesis
    by (simp add: set_txn_state_def write_reply_def watch_reset_def idle_def)
qed

lemma aborted_batch_end:
  assumes "fr_cmd ex = CmdExec" "admitted env ex" "list_all (stays env) q" "aborted_at (length pre) c"
  shows "\<exists>s' tm' w'. process_messages (length q + Suc (Suc k)) env (pre @ q @ [ex]) (c, st) = Some (False, (s', tm', w'), st) \<and>
    idle tm' \<and> tm_watch tm' = [] \<and> ss_txn_state s' = StNone \<and> ss_read_head s' = length (pre @ q @ [ex]) \<and>
    last (ss_output s') = RError ExecAbort"
proof -
  from aborted_run [OF assms(3,4), of "Suc (Suc k)" "[ex]" st]
  obtain s tm w where c: "process_messages (length q + Suc (Suc k)) env (pre @ q @ [ex]) (c, st) =
      process_messages (Suc (Suc k)) env (pre @ q @ [ex]) ((s, tm, w), st)" "aborted_at (length pre + length q) (s, tm, w)"
    by (elim exE conjE) (metis prod_cases3)
  from aborted_exec [OF assms(1,2) c(2), of st]
  obtain s' tm' w' where e: "consume_step env ex ((s, tm, w), st) = Some (True, (s', tm', w'), st)" "idle tm'" "tm_watch tm' = []"
    "ss_txn_state s' = StNone" "ss_read_head s' = Suc (length pre + length q)" "ss_output s' = ss_output s @ [RError ExecAbort]"
    by (elim exE conjE)
  have h: "ss_read_head s = length pre + length q" "ss_suspended s = None" using c(2) by (simp_all add: aborted_at_def)
  have "process_messages (Suc (Suc k)) env (pre @ q @ [ex]) ((s, tm, w), st) = Some (False, (s', tm', w'), st)"
    using e(1,5) h by (simp add: nth_append Let_def)
  with c(1) e show ?thesis by (intro exI [of _ s'] exI [of _ tm'] exI [of _ w']) simp
qed

text \<open>
  C9: A command that aborts the queueing keeps the whole batch from running. MULTI, a queue of commands that are accepted
  or are WATCH (which is answered with an error and does not abort), one command that aborts (unknown, not permitted, not
  allowed in a transaction, with a wrong number of arguments, or a nested MULTI), then any commands but EXEC and
  DISCARD whose permission check does not park the session, then EXEC: the batch is processed in as many iterations as
  it has frames, EXEC answers EXECABORT, the store is as before, and the session and its manager are back in their
  initial state.
\<close>

theorem refused_batch_never_runs:
  assumes frames: "frames = pre @ mu # q1 @ bad # q2 @ [ex]" "ss_read_head s = length pre" "fr_cmd mu = CmdMulti" "fr_cmd ex = CmdExec"
    and env: "gate_open env mu" "admitted env ex" "list_all (queued_or_watch env s) q1" "refused env s bad" "list_all (stays env) q2"
    and s: "ss_txn_state s = StNone" "ready s" and tm: "idle tm" "world_ok (tw_locks w)"
    and n: "length frames < n + length pre"
  shows "\<exists>s' tm' w'. process_messages n env frames ((s, tm, w), st) = Some (False, (s', tm', w'), st) \<and> idle tm' \<and> tm_watch tm' = [] \<and>
    ss_txn_state s' = StNone \<and> ss_read_head s' = length frames \<and> last (ss_output s') = RError ExecAbort"
proof -
  obtain k where k: "n = Suc (length q1 + Suc (length q2 + Suc (Suc k)))"
    using n frames(1) less_iff_Suc_add [of "length q1 + length q2 + 3" n] by auto
  let ?h = "Suc (length pre) + length q1"
  let ?s = "at_head s ?h StStarted ([ROk] @ map (queue_reply s) q1)"
  let ?tm = "queued_manager tm (Suc (length pre)) (length (accepted s q1)) (concat (map frame_keys (accepted s q1))) (ce_cluster env \<noteq> None) (ss_id s)"
  have p: "pending_at ?h ?s ?tm w" using s tm by (simp add: pending_at_def at_head_def queued_manager_def idle_def)
  have "skip_refusal ?s bad = skip_refusal s bad" by (rule skip_refusal_cong) (simp_all add: at_head_def)
  then have "refused env ?s bad" using env(4) by (simp add: refused_def)
  from refused_step [OF p this, of st]
  obtain c1 where c1: "consume_step env bad ((?s, ?tm, w), st) = Some (True, c1, st)" "aborted_at (Suc ?h) c1" by (elim exE conjE)
  have fr: "frames = (pre @ mu # q1 @ [bad]) @ q2 @ [ex]" "frames ! ?h = bad" "?h < length frames" unfolding frames(1) by (simp_all add: nth_append)
  have "process_messages n env frames ((s, tm, w), st) = process_messages (Suc (length q2 + Suc (Suc k))) env frames ((?s, ?tm, w), st)"
    unfolding k by (rule batch_queued [OF frames(1-3) refl env(1,3) s tm(1)])
  also have "\<dots> = process_messages (length q2 + Suc (Suc k)) env frames (c1, st)"
    using c1(1) fr(2,3) s(2) by (simp add: at_head_def Let_def)
  finally have run: "process_messages n env frames ((s, tm, w), st) = process_messages (length q2 + Suc (Suc k)) env frames (c1, st)" .
  show ?thesis unfolding run unfolding fr(1)
    by (rule aborted_batch_end [OF frames(4) env(2,5)]) (use c1(2) in simp)
qed

definition refused_frames :: "Frame list" where
  "refused_frames = [plain_frame CmdMulti, set_frame, plain_frame (CmdOther 7), plain_frame CmdExec]"

theorem refused_batch_never_runs_witness:
  "\<exists>s' tm' w'. process_messages 5 example_env refused_frames ((example_session, manager_new None, example_txn_world (Some 0)), []) =
      Some (False, (s', tm', w'), []) \<and> idle tm' \<and> tm_watch tm' = [] \<and>
    ss_txn_state s' = StNone \<and> ss_read_head s' = length refused_frames \<and> last (ss_output s') = RError ExecAbort"
proof (rule refused_batch_never_runs [where pre = "[]" and mu = "plain_frame CmdMulti" and ?q1.0 = "[set_frame]"
      and bad = "plain_frame (CmdOther 7)" and ?q2.0 = "[]" and ex = "plain_frame CmdExec"])
  show "refused example_env example_session (plain_frame (CmdOther 7))"
    by (simp add: refused_def admitted_def session_frame_def skip_refusal_def example_env_def plain_frame_def Let_def)
  show "gate_open example_env (plain_frame CmdMulti)" using example_queueable(2) by (simp add: gate_open_def example_env_def)
  show "list_all (queued_or_watch example_env example_session) [set_frame]"
    using all_queueable(1) [OF example_queueable(1)] by simp
  show "admitted example_env (plain_frame CmdExec)" by (rule example_queueable)
  show "world_ok (tw_locks (example_txn_world (Some 0)))" "idle (manager_new None)" by (rule example_locks example_idle)+
qed (simp_all add: refused_frames_def plain_frame_def example_session_def)

section \<open>WATCH in a queue\<close>

definition watch_frame :: Frame where
  "watch_frame = \<lparr>fr_cmd = CmdWatch, fr_args = [[1]],
     fr_info = Some \<lparr>qi_name = ''WATCH'', qi_arity = -2, qi_allowed_in_txn = True, qi_is_sub_command = False,
       qi_keys = Some [\<lparr>first_idx = 0, last_idx = -1, spec_step = 1, read_only = True\<rparr>]\<rparr>\<rparr>"


definition watch_frames :: "Frame list" where
  "watch_frames = [plain_frame CmdMulti, watch_frame, set_frame, plain_frame CmdExec]"

lemma example_watch:
  "list_all (queued_or_watch example_env example_session) [watch_frame, set_frame]"
  "skip_refusal example_session watch_frame = Some (WatchInMulti, False)"
  "accepted example_session [watch_frame, set_frame] = [set_frame]"
  "map (queue_reply example_session) [watch_frame, set_frame] = [RError WatchInMulti, RQueued]"
proof -
  show w: "skip_refusal example_session watch_frame = Some (WatchInMulti, False)" by code_simp
  moreover have "skip_refusal example_session set_frame = None" by code_simp
  ultimately show "accepted example_session [watch_frame, set_frame] = [set_frame]"
    "map (queue_reply example_session) [watch_frame, set_frame] = [RError WatchInMulti, RQueued]"
    "list_all (queued_or_watch example_env example_session) [watch_frame, set_frame]"
    by (simp_all add: accepted_def queue_reply_def queued_or_watch_def admitted_def session_frame_def example_env_def
        set_frame_def watch_frame_def)
qed

lemma example_keys_fit: "keys_fit (concat (map frame_keys [set_frame]))"
  using example_queueable(4) by (simp add: keys_fit_def)

lemma example_versions: "vm_ok (tw_versions (example_txn_world gate))"
proof -
  have "unat (h AND 3) \<le> unat (3 :: u64)" for h :: u64
    using word_and_le1 [of h 3] by (simp only: word_le_nat_alt)
  then have "unat (h AND 3) < 4" for h :: u64 by (simp add: le_less_trans [where y = 3])
  then show ?thesis by (simp add: vm_ok_def example_txn_world_def version_slot_def numeral_eq_Suc)
qed


end
