(* ===== verification/Bitmap.thy ===== *)
theory Bitmap
  imports Wedb_Prelude "HOL-Library.Monad_Syntax"
begin

text \<open>
  The bitmap kernels behind SETBIT, GETBIT, BITCOUNT, BITPOS and BITOP (\<open>wbitmap/src/manager.rs\<close>, \<open>bit_count.rs\<close>,
  \<open>bit_pos.rs\<close>, \<open>bit_op.rs\<close>). A bitmap is a byte string whose bit 0 is the top bit of the first byte. A signed 64-bit
  offset is an \<open>int\<close>, with the wrap-around written where a product can pass the range; a counter that cannot pass its
  range is a \<open>nat\<close>. \<open>None\<close> is a panic, a read outside the slice or an arithmetic overflow of a shift.
\<close>

section \<open>Operations of the standard library\<close>

definition wrap_i64 :: "int \<Rightarrow> int" where
  "wrap_i64 x = sint (word_of_int x :: u64)"

definition in_i64 :: "int \<Rightarrow> bool" where
  "in_i64 x \<longleftrightarrow> - (2 ^ 63) \<le> x \<and> x < 2 ^ 63"

definition checked_mul_i64 :: "int \<Rightarrow> int \<Rightarrow> int option" where
  "checked_mul_i64 a b = (if in_i64 (a * b) then Some (a * b) else None)"

definition checked_add_i64 :: "int \<Rightarrow> int \<Rightarrow> int option" where
  "checked_add_i64 a b = (if in_i64 (a + b) then Some (a + b) else None)"

text \<open>\<open>x as usize\<close> for a signed \<open>x\<close>.\<close>

definition as_usize :: "int \<Rightarrow> nat" where
  "as_usize x = nat (x mod 2 ^ 64)"

definition get_byte :: "bytes \<Rightarrow> nat \<Rightarrow> u8 option" where
  "get_byte value i = (if i < length value then Some (value ! i) else None)"

definition count_ones :: "'a::len word \<Rightarrow> nat" where
  "count_ones w = length (filter (bit w) [0..<LENGTH('a)])"

definition lzcnt :: "'a::len word \<Rightarrow> nat" where
  "lzcnt w = length (takeWhile (\<lambda>i. \<not> bit w (LENGTH('a) - 1 - i)) [0..<LENGTH('a)])"

section \<open>Offsets\<close>

definition OFFSET_UNIT_BYTE :: u8 where
  "OFFSET_UNIT_BYTE = 0"

definition OFFSET_UNIT_BIT :: u8 where
  "OFFSET_UNIT_BIT = 1"

definition MAX_BITMAP_PAYLOAD_BYTES :: int where
  "MAX_BITMAP_PAYLOAD_BYTES = 512 * 1024 * 1024"

definition MAX_OFFSET_FOR_BITMAP_LENGTH :: int where
  "MAX_OFFSET_FOR_BITMAP_LENGTH = MAX_BITMAP_PAYLOAD_BYTES * 8 - 1"

text \<open>The entry \<open>[start][end]\<close> of the mask table.\<close>

definition BIT_RANGE_MASKS :: "nat \<Rightarrow> nat \<Rightarrow> u8" where
  "BIT_RANGE_MASKS s e = (if s < e then foldl (\<lambda>m i. m OR push_bit (7 - i) 1) 0 [s..<e] else 0)"

definition is_valid_bit_offset :: "int \<Rightarrow> bool" where
  "is_valid_bit_offset offset \<longleftrightarrow> offset \<ge> 0 \<and> offset \<le> MAX_OFFSET_FOR_BITMAP_LENGTH"

definition try_validate_bitfield_offset :: "int \<Rightarrow> u8 \<Rightarrow> bool \<Rightarrow> (int \<times> int) option" where
  "try_validate_bitfield_offset offset bit_count multiply_offset =
     (if bit_count = 0 then None
      else do {
        normalized_offset \<leftarrow> (if multiply_offset then checked_mul_i64 offset (uint bit_count) else Some offset);
        if normalized_offset < 0 then None
        else do {
          end_offset \<leftarrow> checked_add_i64 normalized_offset (uint bit_count - 1);
          if is_valid_bit_offset end_offset then Some (normalized_offset, end_offset) else None
        }
      })"

definition try_validate_bit_pos_offsets :: "int \<Rightarrow> int \<Rightarrow> u8 \<Rightarrow> bool \<Rightarrow> bool \<Rightarrow> bool" where
  "try_validate_bit_pos_offsets start_offset end_offset offset_type has_start_offset has_end_offset =
     (let max_length = (if offset_type = OFFSET_UNIT_BIT then MAX_OFFSET_FOR_BITMAP_LENGTH + 1 else MAX_BITMAP_PAYLOAD_BYTES);
          max_offset = max_length - 1
      in if has_start_offset \<and> (start_offset < - max_length \<or> start_offset > max_offset) then True
         else if has_end_offset \<and> (end_offset < - max_length \<or> end_offset > max_offset) then True
         else False)"

definition index :: "int \<Rightarrow> nat option" where
  "index offset = (if \<not> is_valid_bit_offset offset then None else Some (as_usize (drop_bit 3 offset)))"

definition length_in_bytes :: "int \<Rightarrow> int option" where
  "length_in_bytes offset = (if \<not> is_valid_bit_offset offset then None else Some (drop_bit 3 offset + 1))"

section \<open>One bit\<close>

definition update_bitmap :: "bytes \<Rightarrow> int \<Rightarrow> u8 \<Rightarrow> (u8 \<times> bytes) option" where
  "update_bitmap value offset set_to =
     (let byte_index = as_usize (drop_bit 3 offset);
          bit_index = nat (7 - (offset AND 7))
      in do {
        byte_val \<leftarrow> get_byte value byte_index;
        let old_val = drop_bit bit_index byte_val AND 1;
        Some (old_val, value[byte_index := (byte_val AND NOT (push_bit bit_index 1)) OR push_bit bit_index set_to])
      })"

definition get_bit :: "int \<Rightarrow> bytes \<Rightarrow> u8" where
  "get_bit offset value =
     (let byte_index = as_usize (drop_bit 3 offset)
      in if byte_index \<ge> length value then 0
         else drop_bit (nat (7 - (offset AND 7))) (value ! byte_index) AND 1)"

section \<open>Ranges\<close>

definition process_negative_offset :: "int \<Rightarrow> int \<Rightarrow> int" where
  "process_negative_offset offset val_len = (if val_len \<le> 0 \<or> offset \<le> - val_len then 0 else val_len + offset)"

definition normalize_scan_range :: "u8 \<Rightarrow> int \<Rightarrow> int \<Rightarrow> int \<Rightarrow> (int \<times> int) option" where
  "normalize_scan_range offset_type start_offset end_offset len =
     (let limit = (if offset_type = OFFSET_UNIT_BIT then wrap_i64 (len * 8) else len);
          start = (if start_offset < 0 then process_negative_offset start_offset limit else start_offset);
          stop = (if end_offset < 0 then process_negative_offset end_offset limit else end_offset);
          stop = (if stop \<ge> limit then wrap_i64 (limit - 1) else stop)
      in if start \<ge> limit \<or> start > stop then None else Some (start, stop))"

section \<open>BITCOUNT\<close>

definition bit_index_count :: "u8 \<Rightarrow> nat \<Rightarrow> nat \<Rightarrow> int" where
  "bit_index_count payload start_bit_offset end_bit_offset =
     (if start_bit_offset > 8 \<or> end_bit_offset > 8 then 0
      else int (count_ones (BIT_RANGE_MASKS start_bit_offset end_bit_offset AND payload)))"

text \<open>Division of a signed integer truncates; the offsets of a normalised range are not negative.\<close>

definition bit_index_count_range :: "bytes \<Rightarrow> int \<Rightarrow> int \<Rightarrow> int option" where
  "bit_index_count_range value start_offset end_offset =
     (let start_byte = start_offset div 8; end_byte = end_offset div 8;
          left_bit_index = nat (start_offset AND 7); right_bit_index = nat (end_offset AND 7) + 1
      in if start_byte = end_byte then do {
           b \<leftarrow> get_byte value (as_usize start_byte);
           Some (bit_index_count b left_bit_index right_bit_index)
         } else do {
           first \<leftarrow> get_byte value (as_usize start_byte);
           last \<leftarrow> get_byte value (as_usize end_byte);
           Some (bit_index_count first left_bit_index 8 + bit_index_count last 0 right_bit_index)
         })"

definition u64_read :: "bytes \<Rightarrow> nat \<Rightarrow> u64 option" where
  "u64_read bitmap idx = (if idx + 8 \<le> length bitmap then Some (from_le_bytes (take 8 (drop idx bitmap))) else None)"

fun as_chunks_8 :: "bytes \<Rightarrow> bytes list" where
  "as_chunks_8 (a # b # c # d # e # f # g # h # rest) = [a, b, c, d, e, f, g, h] # as_chunks_8 rest"
| "as_chunks_8 bs = []"

definition popc_bytes :: "bytes \<Rightarrow> nat \<Rightarrow> nat \<Rightarrow> nat option" where
  "popc_bytes bitmap idx width =
     (if idx + width \<le> length bitmap
      then Some (sum_list (map (\<lambda>c. count_ones (from_le_bytes c :: u64)) (as_chunks_8 (take width (drop idx bitmap)))))
      else None)"

definition popc_tail :: "bytes \<Rightarrow> nat \<Rightarrow> nat \<Rightarrow> nat option" where
  "popc_tail bitmap idx tail =
     (if tail = 0 then Some 0
      else if idx + tail \<le> length bitmap then Some (sum_list (map count_ones (take tail (drop idx bitmap))))
      else None)"

text \<open>The three kinds of batches: four words, one word, and \<open>popc_bytes\<close> over a whole batch.\<close>

function popc_4x8 :: "bytes \<Rightarrow> nat \<Rightarrow> nat \<Rightarrow> nat \<Rightarrow> (nat \<times> nat) option" where
  "popc_4x8 bitmap cur vend count =
     (if cur < vend then do {
        v00 \<leftarrow> u64_read bitmap cur;
        v01 \<leftarrow> u64_read bitmap (cur + 8);
        v02 \<leftarrow> u64_read bitmap (cur + 16);
        v03 \<leftarrow> u64_read bitmap (cur + 24);
        popc_4x8 bitmap (cur + 32) vend (count + ((count_ones v00 + count_ones v01) + (count_ones v02 + count_ones v03)))
      } else Some (cur, count))"
  by pat_completeness auto
termination by (relation "measure (\<lambda>(bitmap, cur, vend, count). vend - cur)") auto

function popc_1x8 :: "bytes \<Rightarrow> nat \<Rightarrow> nat \<Rightarrow> nat \<Rightarrow> (nat \<times> nat) option" where
  "popc_1x8 bitmap cur vend count =
     (if cur < vend then do {
        v \<leftarrow> u64_read bitmap cur;
        popc_1x8 bitmap (cur + 8) vend (count + count_ones v)
      } else Some (cur, count))"
  by pat_completeness auto
termination by (relation "measure (\<lambda>(bitmap, cur, vend, count). vend - cur)") auto

function popc_batches :: "bytes \<Rightarrow> nat \<Rightarrow> nat \<Rightarrow> nat \<Rightarrow> nat \<Rightarrow> (nat \<times> nat) option" where
  "popc_batches bitmap batch_size cur vend count =
     (if cur < vend \<and> batch_size > 0 then do {
        n \<leftarrow> popc_bytes bitmap cur batch_size;
        popc_batches bitmap batch_size (cur + batch_size) vend (count + n)
      } else Some (cur, count))"
  by pat_completeness auto
termination by (relation "measure (\<lambda>(bitmap, batch_size, cur, vend, count). vend - cur)") auto

declare popc_4x8.simps [simp del] popc_1x8.simps [simp del] popc_batches.simps [simp del]

definition popc_u64_span :: "bytes \<Rightarrow> nat \<Rightarrow> nat \<Rightarrow> nat option" where
  "popc_u64_span bitmap cur len = do {
     let tail = len mod 32;
     (cur, count) \<leftarrow> popc_4x8 bitmap cur (cur + (len - tail)) 0;
     let len = tail;
     let tail = len mod 8;
     (cur, count) \<leftarrow> popc_1x8 bitmap cur (cur + (len - tail)) count;
     n \<leftarrow> popc_tail bitmap cur tail;
     Some (count + n)
   }"

definition scalar_popc :: "bytes \<Rightarrow> nat \<Rightarrow> nat \<Rightarrow> int option" where
  "scalar_popc bitmap start stop = map_option int (popc_u64_span bitmap start ((stop - start) + 1))"

definition simd_popc_x256 :: "bytes \<Rightarrow> nat \<Rightarrow> nat \<Rightarrow> int option" where
  "simd_popc_x256 bitmap start stop = do {
     let len = (stop - start) + 1;
     let tail = len AND (8 * 32 - 1);
     (cur, count) \<leftarrow> popc_batches bitmap (8 * 32) start (start + (len - tail)) 0;
     if tail = 0 then Some (int count)
     else do {
       let len = tail;
       let tail = len AND (32 - 1);
       (cur, count) \<leftarrow> popc_batches bitmap 32 cur (cur + (len - tail)) count;
       if tail = 0 then Some (int count)
       else do {
         n \<leftarrow> popc_u64_span bitmap cur tail;
         Some (int (count + n))
       }
     }
   }"

definition popc_range :: "bytes \<Rightarrow> int \<Rightarrow> int \<Rightarrow> int option" where
  "popc_range value start_offset end_offset =
     (let start = as_usize start_offset; stop = as_usize end_offset
      in if stop - start < 128 then scalar_popc value start stop else simd_popc_x256 value start stop)"

definition bit_count_driver :: "int \<Rightarrow> int \<Rightarrow> u8 \<Rightarrow> bytes \<Rightarrow> int \<Rightarrow> int option" where
  "bit_count_driver start_offset end_offset offset_type value val_len =
     (if start_offset < 0 \<and> end_offset < 0 \<and> start_offset > end_offset then Some 0
      else case normalize_scan_range offset_type start_offset end_offset val_len of
        None \<Rightarrow> Some 0
      | Some (start_offset, end_offset) \<Rightarrow>
          if offset_type = OFFSET_UNIT_BIT then do {
            count \<leftarrow> bit_index_count_range value start_offset end_offset;
            let start_offset = start_offset div 8 + 1;
            let end_offset = end_offset div 8 - 1;
            if start_offset > end_offset then Some count
            else do {
              n \<leftarrow> popc_range value start_offset end_offset;
              Some (count + n)
            }
          } else popc_range value start_offset end_offset)"

section \<open>BITPOS\<close>

lemma and_7: "(x :: int) AND 7 = x mod 8"
  using take_bit_eq_mask [of 3 x] by (simp add: take_bit_eq_mod mask_eq_exp_minus_1)

function bit_pos_bit_search :: "bytes \<Rightarrow> int \<Rightarrow> int \<Rightarrow> u8 \<Rightarrow> int option" where
  "bit_pos_bit_search input current_bit_offset end_bit_offset search_for =
     (let search_bit = (search_for = 1);
          invalid_payload = (if search_bit then 0x00 else 0xff :: u8)
      in if current_bit_offset \<le> end_bit_offset then
           let byte_index = as_usize (drop_bit 3 current_bit_offset);
               left_bit_offset = nat (current_bit_offset AND 7);
               boundary = 8 - int left_bit_offset;
               right_bit_offset =
                 (if current_bit_offset + boundary \<le> end_bit_offset then left_bit_offset + 8
                  else nat (end_bit_offset AND 7) + 1);
               mask_u64 = (drop_bit left_bit_offset 0xff XOR drop_bit right_bit_offset 0xff) AND (0xff :: u64)
           in do {
             b \<leftarrow> get_byte input byte_index;
             let payload = (ucast (b AND ucast mask_u64) :: u64);
             let invalid_mask = ucast invalid_payload AND mask_u64;
             if payload \<noteq> invalid_mask then
               let payload = push_bit (56 + left_bit_offset) payload;
                   payload = (if search_bit then payload else NOT payload)
               in Some (current_bit_offset + int (lzcnt payload))
             else bit_pos_bit_search input (current_bit_offset + boundary) end_bit_offset search_for
           }
         else Some (-1))"
  by pat_completeness auto
termination
  by (relation "measure (\<lambda>(input, cur, stop, search_for). nat (stop + 1 - cur))") (auto simp: and_7)

declare bit_pos_bit_search.simps [simp del]

text \<open>\<open>to_be\<close> after a native read is the big-endian value of the bytes.\<close>

definition read_be :: "bytes \<Rightarrow> nat \<Rightarrow> nat \<Rightarrow> 'a::len word option" where
  "read_be input idx n = (if idx + n \<le> length input then Some (from_be_bytes (take n (drop idx input))) else None)"

text \<open>The loop of the byte search: \<open>Some None\<close> when it ends without a match.\<close>

function byte_search_loop :: "bytes \<Rightarrow> int \<Rightarrow> int \<Rightarrow> u8 \<Rightarrow> int option option" where
  "byte_search_loop input current_start_offset end_offset search_for =
     (let search_bit = (search_for = 1);
          idx = as_usize current_start_offset
      in if current_start_offset \<le> end_offset then
           let remainder = end_offset - current_start_offset + 1
           in if remainder \<ge> 8 then do {
                payload \<leftarrow> (read_be input idx 8 :: u64 option);
                if payload \<noteq> (if search_bit then 0 else -1)
                then Some (Some (push_bit 3 current_start_offset + int (lzcnt (if search_bit then payload else NOT payload))))
                else byte_search_loop input (current_start_offset + 8) end_offset search_for
              } else if remainder \<ge> 4 then do {
                payload \<leftarrow> (read_be input idx 4 :: u32 option);
                if payload \<noteq> (if search_bit then 0 else -1)
                then Some (Some (push_bit 3 current_start_offset + int (lzcnt (if search_bit then payload else NOT payload))))
                else byte_search_loop input (current_start_offset + 4) end_offset search_for
              } else do {
                byte \<leftarrow> get_byte input idx;
                if byte \<noteq> (if search_bit then 0 else 0xff)
                then let raw = (push_bit 56 (ucast byte) :: u64)
                     in Some (Some (push_bit 3 current_start_offset + int (lzcnt (if search_bit then raw else NOT raw))))
                else byte_search_loop input (current_start_offset + 1) end_offset search_for
              }
         else Some None)"
  by pat_completeness auto
termination
  by (relation "measure (\<lambda>(input, cur, stop, search_for). nat (stop + 1 - cur))") auto

declare byte_search_loop.simps [simp del]

definition bit_pos_byte_search :: "bytes \<Rightarrow> int \<Rightarrow> int \<Rightarrow> u8 \<Rightarrow> bool \<Rightarrow> int option" where
  "bit_pos_byte_search input start_offset end_offset search_for has_end_offset = do {
     found \<leftarrow> byte_search_loop input start_offset end_offset search_for;
     case found of
       Some pos \<Rightarrow> Some pos
     | None \<Rightarrow> if search_for = 0 \<and> \<not> has_end_offset then Some (wrap_i64 (int (length input) * 8)) else Some (-1)
   }"

definition bit_pos_driver :: "bytes \<Rightarrow> int \<Rightarrow> int \<Rightarrow> int \<Rightarrow> u8 \<Rightarrow> u8 \<Rightarrow> bool \<Rightarrow> int option" where
  "bit_pos_driver input input_len start_offset end_offset search_for offset_type has_end_offset =
     (case normalize_scan_range offset_type start_offset end_offset input_len of
        None \<Rightarrow> Some (-1)
      | Some (start_offset, end_offset) \<Rightarrow>
          if offset_type = OFFSET_UNIT_BYTE
          then bit_pos_byte_search input start_offset end_offset search_for has_end_offset
          else bit_pos_bit_search input start_offset end_offset search_for)"

section \<open>BITOP\<close>

datatype BitmapOperation = BopAnd | BopOr | BopXor | BopNot | BopDiff

record BitOpAccumulator =
  ba_op :: BitmapOperation
  ba_dst :: bytes
  ba_shortest :: nat
  ba_keys_found :: nat

datatype BitOpError = DiffNeedsTwoSources

definition bitop_new :: "BitmapOperation \<Rightarrow> BitOpAccumulator" where
  "bitop_new op = \<lparr>ba_op = op, ba_dst = [], ba_shortest = usize_max, ba_keys_found = 0\<rparr>"

text \<open>\<open>Vec::resize\<close> to a length that is not smaller.\<close>

definition resize_zero :: "bytes \<Rightarrow> nat \<Rightarrow> bytes" where
  "resize_zero v n = take n v @ replicate (n - length v) 0"

text \<open>The fold in place over the common prefix.\<close>

definition zip_prefix :: "(u8 \<Rightarrow> u8 \<Rightarrow> u8) \<Rightarrow> bytes \<Rightarrow> bytes \<Rightarrow> bytes" where
  "zip_prefix f dst src = map2 f dst src @ drop (length src) dst"

definition bitop_fold :: "BitOpAccumulator \<Rightarrow> bytes \<Rightarrow> BitOpAccumulator" where
  "bitop_fold self src =
     (let self = self\<lparr>ba_keys_found := ba_keys_found self + 1, ba_shortest := min (ba_shortest self) (length src)\<rparr>
      in if ba_keys_found self = 1
         then self\<lparr>ba_dst := (case ba_op self of BopNot \<Rightarrow> map (\<lambda>b. NOT b) src | _ \<Rightarrow> src)\<rparr>
         else let dst = ba_dst self; common = min (length dst) (length src)
              in case ba_op self of
                   BopAnd \<Rightarrow>
                     let d = zip_prefix (\<lambda>d s. d AND s) dst src
                     in self\<lparr>ba_dst := (if length src > length d then resize_zero d (length src) else d)\<rparr>
                 | BopOr \<Rightarrow> self\<lparr>ba_dst := zip_prefix (\<lambda>d s. d OR s) dst src @ drop common src\<rparr>
                 | BopXor \<Rightarrow> self\<lparr>ba_dst := zip_prefix (\<lambda>d s. d XOR s) dst src @ drop common src\<rparr>
                 | BopDiff \<Rightarrow>
                     let d = zip_prefix (\<lambda>d s. d AND NOT s) dst src
                     in self\<lparr>ba_dst := (if length src > length d then resize_zero d (length src) else d)\<rparr>
                 | BopNot \<Rightarrow> self)"

text \<open>Slicing from beyond the end panics.\<close>

definition bitop_finish :: "BitOpAccumulator \<Rightarrow> (BitOpError, bytes) res option" where
  "bitop_finish self =
     (if ba_op self = BopDiff \<and> ba_keys_found self = 1 then Some (Inl DiffNeedsTwoSources)
      else if ba_op self = BopAnd \<and> ba_keys_found self > 0 then
        if ba_shortest self \<le> length (ba_dst self)
        then Some (Inr (take (ba_shortest self) (ba_dst self) @ replicate (length (ba_dst self) - ba_shortest self) 0))
        else None
      else Some (Inr (ba_dst self)))"

end
