(* ===== verification/BitmapProps.thy ===== *)
theory BitmapProps
  imports Bitmap
begin

text \<open>
  Correctness of the bitmap kernels against the bits of the byte string: single-bit reads and writes, counting with the
  batched population counts, searching with the leading-zero counts, and the bytewise operations.
\<close>

section \<open>Bits of byte strings\<close>

definition bit_at :: "bytes \<Rightarrow> nat \<Rightarrow> bool" where
  "bit_at value i \<longleftrightarrow> i div 8 < length value \<and> bit (value ! (i div 8)) (7 - i mod 8)"

definition ones :: "bytes \<Rightarrow> nat \<Rightarrow> nat \<Rightarrow> nat" where
  "ones value lo hi = length (filter (bit_at value) [lo..<hi])"

lemma filter_upt_card: "length (filter P [a..<b]) = card {i. a \<le> i \<and> i < b \<and> P i}"
proof -
  have "length (filter P [a..<b]) = card (set (filter P [a..<b]))" by (rule distinct_card [symmetric]) simp
  also have "set (filter P [a..<b]) = {i. a \<le> i \<and> i < b \<and> P i}" by auto
  finally show ?thesis .
qed

lemma ones_append: "a \<le> b \<Longrightarrow> b \<le> c \<Longrightarrow> ones v a c = ones v a b + ones v b c"
  unfolding ones_def by (metis filter_append le_Suc_ex length_append upt_add_eq_append)

lemma bit_mult_256_add:
  assumes "(b::nat) < 256"
  shows "bit (x * 256 + b) k = (if k < 8 then bit b k else bit x (k - 8))"
proof -
  have "take_bit 8 (x * 256 + b) = b" and "drop_bit 8 (x * 256 + b) = x"
    using assms by (simp_all add: take_bit_eq_mod drop_bit_eq_div)
  moreover have "bit (x * 256 + b) k = (if k < 8 then bit (take_bit 8 (x * 256 + b)) k else bit (drop_bit 8 (x * 256 + b)) (k - 8))"
    by (simp add: bit_take_bit_iff bit_drop_bit_eq)
  ultimately show ?thesis by simp
qed

lemma bit_nat_of_be: "bit (nat_of_be bs) k \<longleftrightarrow> k < 8 * length bs \<and> bit_at bs (8 * length bs - 1 - k)"
proof (induction bs arbitrary: k rule: rev_induct)
  case Nil
  then show ?case by simp
next
  case (snoc b bs)
  show ?case
  proof (cases "k < 8")
    case True
    then have "7 + 8 * length bs - k = (7 - k) + 8 * length bs" by simp
    then have "(7 + 8 * length bs - k) div 8 = length bs" "(7 + 8 * length bs - k) mod 8 = 7 - k"
      by (simp_all del: diff_add_assoc2)
    with True show ?thesis
      by (simp add: bit_mult_256_add bit_at_def nth_append bit_unsigned_iff)
  next
    case False
    have "(8 * length bs + 7 - k) div 8 < length bs" if "k < 8 * length bs + 8" using False that by simp
    moreover have "8 * length bs + 7 - k = 8 * length bs - 1 - (k - 8)" using False by simp
    ultimately show ?thesis using False snoc.IH [of "k - 8"]
      by (auto simp add: bit_mult_256_add bit_at_def nth_append)
  qed
qed

lemma bit_from_be_bytes:
  assumes "8 * length bs = LENGTH('a::len)"
  shows "bit (from_be_bytes bs :: 'a word) k \<longleftrightarrow> k < LENGTH('a) \<and> bit_at bs (LENGTH('a) - 1 - k)"
  using assms by (auto simp: from_be_bytes_def bit_of_nat_iff bit_nat_of_be possible_bit_word)

lemma bit_at_take_drop: "i < 8 * n \<Longrightarrow> bit_at (take n (drop s v)) i = bit_at v (8 * s + i)"
  by (auto simp: bit_at_def)

section \<open>Population counts\<close>

text \<open>The ones in a window of bytes, and the reads that count them.\<close>

definition byte_ones :: "bytes \<Rightarrow> nat" where
  "byte_ones bs = sum_list (map count_ones bs)"

lemma byte_ones_simps [simp]: "byte_ones [] = 0" "byte_ones (b # bs) = count_ones b + byte_ones bs"
  "byte_ones (as @ bs) = byte_ones as + byte_ones bs"
  by (simp_all add: byte_ones_def)

lemma count_ones_card: "count_ones (w :: 'a::len word) = card {i. bit w i}"
  unfolding count_ones_def filter_upt_card by (rule arg_cong [where f = card]) (auto dest: bit_imp_le_length)

lemma count_ones_byte: "count_ones b = ones [b] 0 8"
proof -
  have "{i. bit b i} = (\<lambda>i. 7 - i) ` {i. 0 \<le> i \<and> i < 8 \<and> bit_at [b] i}"
  proof (intro equalityI subsetI)
    fix i assume "i \<in> {i. bit b i}"
    then have "bit b i" "i < 8" by (auto dest: bit_imp_le_length)
    then show "i \<in> (\<lambda>i. 7 - i) ` {i. 0 \<le> i \<and> i < 8 \<and> bit_at [b] i}"
      by (intro image_eqI [of _ _ "7 - i"]) (auto simp: bit_at_def)
  qed (auto simp: bit_at_def)
  moreover have "inj_on (\<lambda>i. 7 - i) {i. 0 \<le> i \<and> i < (8::nat) \<and> bit_at [b] i}" by (auto simp: inj_on_def)
  ultimately show ?thesis unfolding count_ones_card ones_def filter_upt_card by (simp add: card_image)
qed

lemma ones_shift: "ones v (8 * s + a) (8 * s + b) = ones (drop s v) a b" if "a \<le> b"
proof -
  have "[8 * s + a..<8 * s + b] = map (\<lambda>i. 8 * s + i) [a..<b]"
    by (simp add: list_eq_iff_nth_eq)
  moreover have "bit_at v (8 * s + i) = bit_at (drop s v) i" for i
    by (auto simp: bit_at_def)
  ultimately show ?thesis by (simp add: ones_def filter_map comp_def)
qed

lemma ones_window: "ones v (8 * s) (8 * (s + n)) = byte_ones (take n (drop s v))" if "s + n \<le> length v"
  using that
proof (induction n arbitrary: s)
  case 0
  then show ?case by (simp add: ones_def)
next
  case (Suc n)
  then have d: "drop s v = v ! s # drop (Suc s) v" by (simp add: Cons_nth_drop_Suc)
  have "ones v (8 * s) (8 * (s + Suc n)) = ones v (8 * s) (8 * Suc s) + ones v (8 * Suc s) (8 * (Suc s + n))"
    by (simp add: ones_append)
  also have "ones v (8 * s) (8 * Suc s) = ones (drop s v) 0 8" using ones_shift [where a = 0 and b = 8 and s = s and v = v] by (simp add: add.commute)
  also have "ones (drop s v) 0 8 = ones [v ! s] 0 8"
    unfolding d ones_def by (rule arg_cong [where f = length], rule filter_cong) (auto simp: bit_at_def)
  finally show ?case using Suc.IH [of "Suc s"] Suc.prems by (simp add: d count_ones_byte)
qed

lemma count_ones_be: "8 * length c = LENGTH('a::len) \<Longrightarrow> count_ones (from_be_bytes c :: 'a word) = byte_ones c"
proof -
  assume c: "8 * length c = LENGTH('a)"
  have "{i. bit (from_be_bytes c :: 'a word) i} = (\<lambda>i. LENGTH('a) - 1 - i) ` {i. 0 \<le> i \<and> i < LENGTH('a) \<and> bit_at c i}"
  proof (intro equalityI subsetI)
    fix i assume "i \<in> {i. bit (from_be_bytes c :: 'a word) i}"
    then show "i \<in> (\<lambda>i. LENGTH('a) - 1 - i) ` {i. 0 \<le> i \<and> i < LENGTH('a) \<and> bit_at c i}"
      by (intro image_eqI [of _ _ "LENGTH('a) - 1 - i"]) (auto simp: bit_from_be_bytes [OF c])
  qed (auto simp: bit_from_be_bytes [OF c])
  moreover have "inj_on (\<lambda>i. LENGTH('a) - 1 - i) {i. 0 \<le> i \<and> i < LENGTH('a) \<and> bit_at c i}" by (auto simp: inj_on_def)
  ultimately have "count_ones (from_be_bytes c :: 'a word) = ones c 0 (8 * length c)"
    unfolding count_ones_card ones_def filter_upt_card c by (simp add: card_image)
  then show ?thesis using ones_window [of 0 "length c" c] by simp
qed

lemma byte_ones_rev [simp]: "byte_ones (rev c) = byte_ones c"
  by (induction c) auto

lemma count_ones_le: "length c = 8 \<Longrightarrow> count_ones (from_le_bytes c :: u64) = byte_ones c"
  by (simp add: from_le_bytes_def count_ones_be)

definition window_ones :: "bytes \<Rightarrow> nat \<Rightarrow> nat \<Rightarrow> nat" where
  "window_ones v s n = byte_ones (take n (drop s v))"

lemma window_ones_add: "window_ones v s (n + m) = window_ones v s n + window_ones v (s + n) m"
  by (simp add: window_ones_def take_add add.commute [of n s])

lemma window_ones_0 [simp]: "window_ones v s 0 = 0"
  by (simp add: window_ones_def)

lemma u64_read_ones: "s + 8 \<le> length v \<Longrightarrow> \<exists>w. u64_read v s = Some w \<and> count_ones w = window_ones v s 8"
  by (simp add: u64_read_def count_ones_le window_ones_def)

lemma popc_1x8_eq: "s + 8 * k \<le> length v \<Longrightarrow> popc_1x8 v s (s + 8 * k) c = Some (s + 8 * k, c + window_ones v s (8 * k))"
proof (induction k arbitrary: s c)
  case 0
  then show ?case by (simp add: popc_1x8.simps)
next
  case (Suc k)
  obtain w where "u64_read v s = Some w" "count_ones w = window_ones v s 8" using u64_read_ones [of s v] Suc.prems by auto
  moreover have "s + 8 * Suc k = s + 8 + 8 * k" by simp
  ultimately show ?case using Suc.IH [of "s + 8" "c + window_ones v s 8"] Suc.prems window_ones_add [of v s 8 "8 * k"]
    by (subst popc_1x8.simps) (simp add: add.assoc)
qed

lemma popc_4x8_eq: "s + 32 * k \<le> length v \<Longrightarrow> popc_4x8 v s (s + 32 * k) c = Some (s + 32 * k, c + window_ones v s (32 * k))"
proof (induction k arbitrary: s c)
  case 0
  then show ?case by (simp add: popc_4x8.simps)
next
  case (Suc k)
  obtain w0 w1 w2 w3 where w: "u64_read v s = Some w0" "count_ones w0 = window_ones v s 8"
      "u64_read v (s + 8) = Some w1" "count_ones w1 = window_ones v (s + 8) 8"
      "u64_read v (s + 16) = Some w2" "count_ones w2 = window_ones v (s + 16) 8"
      "u64_read v (s + 24) = Some w3" "count_ones w3 = window_ones v (s + 24) 8"
    using u64_read_ones [of s v] u64_read_ones [of "s + 8" v] u64_read_ones [of "s + 16" v] u64_read_ones [of "s + 24" v] Suc.prems
    by auto
  have sum: "window_ones v s (32 * Suc k) = window_ones v s 8 + window_ones v (s + 8) 8 + (window_ones v (s + 16) 8 +
      window_ones v (s + 24) 8) + window_ones v (s + 32) (32 * k)"
    using window_ones_add [of v s 8 "24 + 32 * k"] window_ones_add [of v "s + 8" 8 "16 + 32 * k"]
      window_ones_add [of v "s + 16" 8 "8 + 32 * k"] window_ones_add [of v "s + 24" 8 "32 * k"] by (simp add: add.assoc)
  show ?case using Suc.IH [of "s + 32" "c + (window_ones v s 8 + window_ones v (s + 8) 8 + (window_ones v (s + 16) 8 +
      window_ones v (s + 24) 8))"] Suc.prems w sum
    by (subst popc_4x8.simps) (simp add: add.assoc)
qed

lemma chunks_ones: "8 dvd length bs \<Longrightarrow> sum_list (map (\<lambda>c. count_ones (from_le_bytes c :: u64)) (as_chunks_8 bs)) = byte_ones bs"
proof (induction bs rule: as_chunks_8.induct)
  case (1 a b c d e f g h rest)
  from 1(2) have "8 dvd length rest" by (simp only: list.size) presburger
  with 1 show ?case by (simp add: count_ones_le)
qed (auto dest: dvd_imp_le)

lemma popc_bytes_eq: "s + n \<le> length v \<Longrightarrow> 8 dvd n \<Longrightarrow> popc_bytes v s n = Some (window_ones v s n)"
  by (simp add: popc_bytes_def chunks_ones window_ones_def)

lemma popc_batches_eq:
  "s + n * k \<le> length v \<Longrightarrow> 8 dvd n \<Longrightarrow> 0 < n \<Longrightarrow> popc_batches v n s (s + n * k) c = Some (s + n * k, c + window_ones v s (n * k))"
proof (induction k arbitrary: s c)
  case 0
  then show ?case by (simp add: popc_batches.simps)
next
  case (Suc k)
  have "popc_bytes v s n = Some (window_ones v s n)" using Suc.prems by (simp add: popc_bytes_eq)
  moreover have "s + n * Suc k = s + n + n * k" by simp
  ultimately show ?case using Suc.IH [of "s + n" "c + window_ones v s n"] Suc.prems window_ones_add [of v s n "n * k"]
    by (subst popc_batches.simps) (simp add: add.assoc)
qed

lemma popc_tail_eq: "s + n \<le> length v \<Longrightarrow> popc_tail v s n = Some (window_ones v s n)"
  by (simp add: popc_tail_def window_ones_def byte_ones_def)

lemma minus_mod: "(n::nat) - n mod k = k * (n div k)"
  by (simp add: minus_mod_eq_mult_div)

lemma popc_u64_span_eq: "s + n \<le> length v \<Longrightarrow> popc_u64_span v s n = Some (window_ones v s n)"
proof -
  assume n: "s + n \<le> length v"
  let ?a = "32 * (n div 32)" and ?t = "n mod 32"
  let ?b = "8 * (?t div 8)" and ?u = "?t mod 8"
  have parts: "n = ?a + ?t" "?t = ?b + ?u" by simp_all
  have "popc_4x8 v s (s + (n - ?t)) 0 = Some (s + ?a, window_ones v s ?a)"
    using n by (simp only: minus_mod) (simp add: popc_4x8_eq)
  moreover have "popc_1x8 v (s + ?a) (s + ?a + (?t - ?u)) (window_ones v s ?a) =
      Some (s + ?a + ?b, window_ones v s ?a + window_ones v (s + ?a) ?b)"
    using n parts by (simp only: minus_mod) (rule popc_1x8_eq, linarith)
  moreover have "popc_tail v (s + ?a + ?b) ?u = Some (window_ones v (s + ?a + ?b) ?u)"
    using n parts by (intro popc_tail_eq) linarith
  moreover have "window_ones v s n = window_ones v s ?a + window_ones v (s + ?a) ?b + window_ones v (s + ?a + ?b) ?u"
    using window_ones_add [of v s ?a ?t] window_ones_add [of v "s + ?a" ?b ?u] by simp
  ultimately show ?thesis by (simp add: popc_u64_span_def Let_def)
qed

lemma and_255_31: "(n::nat) AND 255 = n mod 256" "(n::nat) AND 31 = n mod 32"
  using take_bit_eq_mask [of 8 n] take_bit_eq_mask [of 5 n] by (simp_all add: take_bit_eq_mod mask_eq_exp_minus_1)

lemma simd_popc_eq: "s \<le> e \<Longrightarrow> e < length v \<Longrightarrow> simd_popc_x256 v s e = Some (int (window_ones v s (e - s + 1)))"
proof -
  assume se: "s \<le> e" "e < length v"
  define n where "n = e - s + 1"
  let ?a = "256 * (n div 256)" and ?t = "n mod 256"
  let ?b = "32 * (?t div 32)" and ?u = "?t mod 32"
  have n: "s + n \<le> length v" "n = ?a + ?t" "?t = ?b + ?u" using se by (simp_all add: n_def)
  have "popc_batches v 256 s (s + (n - ?t)) 0 = Some (s + ?a, window_ones v s ?a)"
    using n by (simp only: minus_mod) (simp add: popc_batches_eq)
  moreover have "popc_batches v 32 (s + ?a) (s + ?a + (?t - ?u)) (window_ones v s ?a) =
      Some (s + ?a + ?b, window_ones v s ?a + window_ones v (s + ?a) ?b)"
    using n by (simp only: minus_mod) (rule popc_batches_eq, linarith, simp_all)
  moreover have "popc_u64_span v (s + ?a + ?b) ?u = Some (window_ones v (s + ?a + ?b) ?u)"
    using n by (intro popc_u64_span_eq) linarith
  moreover have "window_ones v s n = window_ones v s ?a + window_ones v (s + ?a) ?b + window_ones v (s + ?a + ?b) ?u"
    using window_ones_add [of v s ?a ?t] window_ones_add [of v "s + ?a" ?b ?u] by simp
  ultimately show ?thesis
    unfolding simd_popc_x256_def n_def [symmetric] by (simp add: Let_def and_255_31)
qed

lemma popc_range_eq:
  "s \<le> e \<Longrightarrow> e < length v \<Longrightarrow> length v < 2 ^ 60 \<Longrightarrow> popc_range v (int s) (int e) = Some (int (window_ones v s (e - s + 1)))"
  by (simp add: popc_range_def as_usize_def scalar_popc_def popc_u64_span_eq simd_popc_eq nat_mod_as_int)

section \<open>Ranges\<close>

text \<open>The range a pair of offsets selects in a sequence of \<open>limit\<close> items, as the commands document it.\<close>

definition scan_range :: "nat \<Rightarrow> int \<Rightarrow> int \<Rightarrow> (nat \<times> nat) option" where
  "scan_range limit s e =
     (let lo = max 0 (if s < 0 then s + int limit else s);
          hi = min (int limit - 1) (max 0 (if e < 0 then e + int limit else e))
      in if lo > hi then None else Some (nat lo, nat hi))"

definition units :: "u8 \<Rightarrow> bytes \<Rightarrow> nat" where
  "units offset_type value = (if offset_type = OFFSET_UNIT_BIT then 8 * length value else length value)"

lemma wrap_i64_eq: "in_i64 x \<Longrightarrow> wrap_i64 x = x"
  unfolding wrap_i64_def in_i64_def by (simp add: signed_take_bit_int_eq_self_iff sint_sbintrunc')

lemma process_negative_offset_eq: "x < 0 \<Longrightarrow> process_negative_offset x (int n) = max 0 (x + int n)"
  by (auto simp: process_negative_offset_def)

lemma normalize_scan_range_eq:
  assumes "length value < 2 ^ 60"
  shows "normalize_scan_range offset_type s e (int (length value)) =
    map_option (map_prod int int) (scan_range (units offset_type value) s e)"
proof -
  define n where "n = units offset_type value"
  have "wrap_i64 (int (length value) * 8) = int (length value) * 8" using assms by (simp add: wrap_i64_eq in_i64_def)
  then have limit: "(if offset_type = OFFSET_UNIT_BIT then wrap_i64 (int (length value) * 8) else int (length value)) = int n"
    by (simp add: n_def units_def)
  have last: "wrap_i64 (int n - 1) = int n - 1"
    using assms by (simp add: n_def units_def wrap_i64_eq in_i64_def)
  have start: "(if x < 0 then process_negative_offset x (int n) else x) = max 0 (if x < 0 then x + int n else x)" for x
    by (simp add: process_negative_offset_eq)
  have "(if stop \<ge> int n then int n - 1 else stop) = min (int n - 1) stop" for stop by auto
  moreover have "start \<ge> int n \<or> start > min (int n - 1) stop \<longleftrightarrow> start > min (int n - 1) stop" for start stop by auto
  moreover have "int (nat (max 0 x)) = max 0 x" for x by simp
  moreover have "\<not> min (int n - 1) stop < max 0 start \<Longrightarrow> int (nat (min (int n - 1) stop)) = min (int n - 1) stop" for start stop by auto
  ultimately show ?thesis
    unfolding normalize_scan_range_def scan_range_def limit Let_def start last n_def [symmetric]
    by (simp only: if_distrib [of "map_option _"] option.map map_prod_simp prod.case) auto
qed

lemma scan_range_bounds: "scan_range limit s e = Some (lo, hi) \<Longrightarrow> lo \<le> hi \<and> hi < limit"
  unfolding scan_range_def Let_def by (simp split: if_split_asm del: max.absorb2 max.absorb1) linarith+

section \<open>Single bits\<close>

lemma as_usize_eq: "0 \<le> x \<Longrightarrow> x < 2 ^ 64 \<Longrightarrow> as_usize x = nat x"
  by (simp add: as_usize_def)

lemma offset_parts:
  assumes "0 \<le> off" "off < 2 ^ 63"
  shows "as_usize (drop_bit 3 off) = nat off div 8" "nat (7 - (off AND 7)) = 7 - nat off mod 8" "nat (off AND 7) = nat off mod 8"
  using assms by (simp_all add: as_usize_def drop_bit_eq_div and_7 nat_div_distrib nat_mod_distrib nat_diff_distrib)

lemma get_bit_eq: "0 \<le> off \<Longrightarrow> off < 2 ^ 63 \<Longrightarrow> get_bit off value = of_bool (bit_at value (nat off))"
  by (auto simp: get_bit_def offset_parts bit_at_def Let_def and_one_eq odd_iff_mod_2_eq_one bit_iff_odd_drop_bit)

lemma bit_put:
  fixes b :: u8
  assumes "k < 8" "j < 8"
  shows "bit ((b AND NOT (push_bit k 1)) OR push_bit k (of_bool x)) j = (if j = k then x else bit b j)"
  using assms by (auto simp: bit_simps)

lemma update_bitmap_eq:
  assumes "0 \<le> off" "off < 8 * int (length value)" "length value < 2 ^ 60" "set_to = of_bool x"
  shows "\<exists>value'. update_bitmap value off set_to = Some (of_bool (bit_at value (nat off)), value') \<and> length value' = length value \<and>
    (\<forall>i. bit_at value' i = (if i = nat off then x else bit_at value i))"
proof -
  let ?n = "nat off"
  have off: "off < 2 ^ 63" and n: "?n div 8 < length value" using assms by (auto simp: nat_less_iff)
  let ?b = "value ! (?n div 8)" and ?k = "7 - ?n mod 8"
  let ?v = "value[?n div 8 := (?b AND NOT (push_bit ?k 1)) OR push_bit ?k set_to]"
  have "drop_bit ?k ?b AND 1 = of_bool (bit ?b ?k)" by (simp add: and_one_eq odd_iff_mod_2_eq_one bit_iff_odd_drop_bit)
  then have "update_bitmap value off set_to = Some (of_bool (bit_at value ?n), ?v)"
    using n unfolding update_bitmap_def offset_parts [OF assms(1) off] Let_def get_byte_def bit_at_def by simp
  moreover have "bit_at ?v i = (if i = ?n then x else bit_at value i)" for i
  proof (cases "i div 8 = ?n div 8")
    case True
    have "7 - i mod 8 = ?k \<longleftrightarrow> i mod 8 = ?n mod 8" using mod_less_divisor [of 8 i] mod_less_divisor [of 8 ?n] by linarith
    also have "\<dots> \<longleftrightarrow> i = ?n" using True by (metis mult_div_mod_eq)
    finally show ?thesis using True n bit_put [of ?k "7 - i mod 8" ?b x] by (simp add: bit_at_def assms(4))
  next
    case False
    then have "i \<noteq> ?n" by auto
    with False show ?thesis by (simp add: bit_at_def)
  qed
  ultimately show ?thesis by (intro exI [of _ ?v] conjI allI) (simp_all only: length_list_update)
qed

section \<open>BITCOUNT\<close>

lemma bit_masks_foldl:
  "bit (foldl (\<lambda>m i. m OR push_bit (7 - i) 1) (m0 :: u8) xs) k \<longleftrightarrow> bit m0 k \<or> (k < 8 \<and> (\<exists>i\<in>set xs. k = 7 - i))"
  by (induction xs arbitrary: m0) (auto simp: bit_simps)

lemma bit_range_mask: "r \<le> 8 \<Longrightarrow> bit (BIT_RANGE_MASKS l r) k \<longleftrightarrow> k < 8 \<and> l \<le> 7 - k \<and> 7 - k < r"
proof (cases "l < r")
  case True
  assume "r \<le> 8"
  then show ?thesis unfolding BIT_RANGE_MASKS_def if_P [OF True] bit_masks_foldl
    by (auto intro!: bexI [of _ "7 - k"])
next
  case False
  then show ?thesis by (simp add: BIT_RANGE_MASKS_def)
qed

lemma bit_index_count_eq: "l \<le> 8 \<Longrightarrow> r \<le> 8 \<Longrightarrow> bit_index_count b l r = int (ones [b] l r)"
proof -
  assume lr: "l \<le> 8" "r \<le> 8"
  have "{i. bit (BIT_RANGE_MASKS l r AND b) i} = (\<lambda>i. 7 - i) ` {i. l \<le> i \<and> i < r \<and> bit_at [b] i}"
  proof (intro equalityI subsetI)
    fix i assume "i \<in> {i. bit (BIT_RANGE_MASKS l r AND b) i}"
    then show "i \<in> (\<lambda>i. 7 - i) ` {i. l \<le> i \<and> i < r \<and> bit_at [b] i}"
      by (intro image_eqI [of _ _ "7 - i"]) (auto simp: bit_at_def bit_and_iff bit_range_mask lr)
  qed (use lr in \<open>auto simp: bit_at_def bit_and_iff bit_range_mask\<close>)
  moreover have "inj_on (\<lambda>i. 7 - i) {i. l \<le> i \<and> i < r \<and> bit_at [b] i}" using lr by (auto simp: inj_on_def)
  ultimately show ?thesis using lr
    by (simp add: bit_index_count_def count_ones_card ones_def filter_upt_card card_image)
qed

lemma ones_byte: "s < length v \<Longrightarrow> l \<le> r \<Longrightarrow> r \<le> 8 \<Longrightarrow> ones v (8 * s + l) (8 * s + r) = ones [v ! s] l r"
proof -
  assume s: "s < length v" and lr: "l \<le> r" "r \<le> 8"
  have "ones (drop s v) l r = ones [v ! s] l r"
    unfolding ones_def using s lr
    by (intro arg_cong [where f = length] filter_cong) (auto simp: bit_at_def)
  then show ?thesis using ones_shift [OF lr(1), where s = s and v = v] by simp
qed

lemma bit_index_count_range_eq:
  assumes "lo \<le> hi" "hi < 8 * length v" "length v < 2 ^ 60"
  shows "bit_index_count_range v (int lo) (int hi) =
    Some (int (if lo div 8 = hi div 8 then ones v lo (hi + 1) else ones v lo (8 * (lo div 8 + 1)) + ones v (8 * (hi div 8)) (hi + 1)))"
proof -
  have b: "lo div 8 < length v" "hi div 8 < length v" using assms by auto
  have d: "int n div 8 = int (n div 8)" for n by (simp add: of_nat_div)
  have "n < length v \<Longrightarrow> as_usize (int n) = n" for n using assms(3) by (simp add: as_usize_eq)
  note conv = this [OF b(1)] this [OF b(2)]
  have "nat (int n AND 7) = n mod 8" for n by (simp add: and_7 nat_mod_as_int)
  note conv = conv this d of_nat_eq_iff
  have m: "lo mod 8 < 8" "hi mod 8 < 8" by simp_all
  have parts: "8 * (lo div 8) + lo mod 8 = lo" "8 * (hi div 8) + (hi mod 8 + 1) = hi + 1" "8 * (lo div 8) + 8 = 8 * (lo div 8 + 1)" by simp_all
  have m': "lo mod 8 \<le> 8" "hi mod 8 + 1 \<le> 8" using m by linarith+
  show ?thesis
  proof (cases "lo div 8 = hi div 8")
    case True
    have "lo mod 8 \<le> hi mod 8 + 1" using True parts assms(1) by linarith
    from ones_byte [OF b(1) this m'(2)] True parts(1,2)
    have "ones v lo (hi + 1) = ones [v ! (lo div 8)] (lo mod 8) (hi mod 8 + 1)" by (simp only:)
    with True show ?thesis using b m'
      by (simp only: bit_index_count_range_def Let_def conv get_byte_def) (simp add: bit_index_count_eq)
  next
    case False
    have "ones v lo (8 * (lo div 8 + 1)) = ones [v ! (lo div 8)] (lo mod 8) 8"
      using ones_byte [OF b(1) m'(1) order_refl] unfolding parts .
    moreover have "ones v (8 * (hi div 8)) (hi + 1) = ones [v ! (hi div 8)] 0 (hi mod 8 + 1)"
      using ones_byte [OF b(2) le0 m'(2)] unfolding parts by (simp only: add_0_right)
    ultimately show ?thesis using False b m'
      by (simp only: bit_index_count_range_def Let_def conv get_byte_def) (simp add: bit_index_count_eq)
  qed
qed

text \<open>The count the command documents: the ones of the selected bits or bytes.\<close>

definition bit_count_spec :: "int \<Rightarrow> int \<Rightarrow> u8 \<Rightarrow> bytes \<Rightarrow> nat" where
  "bit_count_spec s e offset_type value =
     (if s < 0 \<and> e < 0 \<and> s > e then 0
      else case scan_range (units offset_type value) s e of
        None \<Rightarrow> 0
      | Some (lo, hi) \<Rightarrow> if offset_type = OFFSET_UNIT_BIT then ones value lo (hi + 1) else ones value (8 * lo) (8 * (hi + 1)))"

lemma count_bytes:
  assumes "lo \<le> hi" "hi < length v" "length v < 2 ^ 60"
  shows "popc_range v (int lo) (int hi) = Some (int (ones v (8 * lo) (8 * (hi + 1))))"
  using popc_range_eq [OF assms] ones_window [of lo "hi - lo + 1" v] assms by (simp add: window_ones_def)

lemma count_bits:
  assumes "lo \<le> hi" "hi < 8 * length v" "length v < 2 ^ 60"
  shows "do { count \<leftarrow> bit_index_count_range v (int lo) (int hi);
      let start_offset = int lo div 8 + 1; let end_offset = int hi div 8 - 1;
      if start_offset > end_offset then Some count
      else do { n \<leftarrow> popc_range v start_offset end_offset; Some (count + n) } } = Some (int (ones v lo (hi + 1)))"
proof -
  define p where "p = lo div 8"
  define q where "q = hi div 8"
  have "int lo div 8 = int p" "lo < 8 * (p + 1)" unfolding p_def using zdiv_int [of lo 8] by simp_all
  note p = this
  have "int hi div 8 = int q" "8 * q \<le> hi" "hi < 8 * (q + 1)" unfolding q_def using zdiv_int [of hi 8] by simp_all
  note q = this
  have pq: "p \<le> q" "q < length v" using p q assms(1,2) by linarith+
  note count = bit_index_count_range_eq [OF assms, folded p_def q_def]
  show ?thesis
  proof (cases "q \<le> p + 1")
    case True
    have lt: "int p + 1 > int q - 1" using True by linarith
    show ?thesis
    proof (cases "p = q")
      case True
      then show ?thesis unfolding count p(1) q(1) Let_def bind.bind_lunit if_P [OF lt] by simp
    next
      case False
      have "q = p + 1" using False True pq(1) by linarith
      then have "ones v lo (hi + 1) = ones v lo (8 * (p + 1)) + ones v (8 * q) (hi + 1)"
        using p q by (simp only: \<open>q = p + 1\<close>) (rule ones_append, linarith+)
      then show ?thesis unfolding count p(1) q(1) Let_def bind.bind_lunit if_P [OF lt] using False by simp
    qed
  next
    case False
    then have ge: "\<not> int p + 1 > int q - 1" and ne: "p \<noteq> q" and b: "p + 1 \<le> q - 1" "q - 1 < length v" "q - 1 + 1 = q"
      using pq by linarith+
    have conv: "int p + 1 = int (p + 1)" "int q - 1 = int (q - 1)" using b by linarith+
    have "ones v lo (hi + 1) = ones v lo (8 * (p + 1)) + ones v (8 * (p + 1)) (hi + 1)"
      using p(2) q(2) False by (intro ones_append) simp_all
    also have "ones v (8 * (p + 1)) (hi + 1) = ones v (8 * (p + 1)) (8 * q) + ones v (8 * q) (hi + 1)"
      using q(2) False by (intro ones_append) simp_all
    finally have sum: "ones v lo (hi + 1) = ones v lo (8 * (p + 1)) + (ones v (8 * (p + 1)) (8 * q) + ones v (8 * q) (hi + 1))" .
    note count_bytes [OF b(1,2) assms(3), unfolded b(3), folded conv]
    then show ?thesis unfolding count p(1) q(1) Let_def bind.bind_lunit if_not_P [OF ge] if_not_P [OF ne] using sum by simp
  qed
qed

text \<open>
  C22: BITCOUNT returns the number of ones in the range its two offsets select, in bytes or in bits, whatever the offsets
  are: the batches of 256, 32 and 8 bytes, the tail and the partial first and last bytes count every bit of the range
  once and no read leaves the string.
\<close>

theorem bit_count_exact:
  assumes "length value < 2 ^ 60"
  shows "bit_count_driver s e offset_type value (int (length value)) = Some (int (bit_count_spec s e offset_type value))"
proof (cases "scan_range (units offset_type value) s e")
  case None
  then show ?thesis by (simp add: bit_count_driver_def bit_count_spec_def normalize_scan_range_eq [OF assms])
next
  case (Some r)
  obtain lo hi where r: "r = (lo, hi)" by (cases r)
  note b = scan_range_bounds [OF Some [unfolded r]]
  show ?thesis
  proof (cases "offset_type = OFFSET_UNIT_BIT")
    case True
    then have "hi < 8 * length value" using b by (simp add: units_def)
    from count_bits [OF conjunct1 [OF b] this assms] show ?thesis
      unfolding bit_count_driver_def bit_count_spec_def normalize_scan_range_eq [OF assms] Some r
        option.map option.case map_prod_simp prod.case if_P [OF True] by (cases "s < 0 \<and> e < 0 \<and> s > e") (simp_all only: if_True if_False simp_thms, simp)
  next
    case False
    then have "hi < length value" using b by (simp add: units_def)
    from count_bytes [OF conjunct1 [OF b] this assms] False show ?thesis
      by (simp add: bit_count_driver_def bit_count_spec_def normalize_scan_range_eq [OF assms] Some r)
  qed
qed

theorem bit_count_exact_witness:
  "bit_count_driver 7 16 OFFSET_UNIT_BIT [0x01, 0xFF, 0x80] 3 = Some 10"
proof -
  have "bit_count_spec 7 16 OFFSET_UNIT_BIT [0x01, 0xFF, 0x80] = 10" by code_simp
  then show ?thesis using bit_count_exact [of "[0x01, 0xFF, 0x80]" 7 16 OFFSET_UNIT_BIT] by simp
qed

end
