(* ===== verification/BitmapSearch.thy ===== *)
theory BitmapSearch
  imports BitmapProps
begin

text \<open>
  BITPOS finds the first bit of the range, and BITOP combines its sources byte by byte as if the shorter ones were
  padded with zeros.
\<close>

section \<open>Leading zeros and the first match\<close>

lemma lzcnt_bit:
  fixes w :: "'a::len word"
  assumes "j < LENGTH('a)" "bit w (LENGTH('a) - 1 - j)"
  shows "lzcnt w \<le> j" "bit w (LENGTH('a) - 1 - lzcnt w)" "i < lzcnt w \<Longrightarrow> \<not> bit w (LENGTH('a) - 1 - i)"
proof -
  let ?P = "\<lambda>i. \<not> bit w (LENGTH('a) - 1 - i)"
  let ?t = "takeWhile ?P [0..<LENGTH('a)]"
  have below: "\<not> bit w (LENGTH('a) - 1 - i)" if "i < lzcnt w" for i
  proof -
    have "?t ! i = i" using that takeWhile_nth [of i ?P "[0..<LENGTH('a)]"] length_takeWhile_le [of ?P "[0..<LENGTH('a)]"]
      by (simp add: lzcnt_def)
    then show ?thesis using that nth_mem [of i ?t] set_takeWhileD [of i ?P "[0..<LENGTH('a)]"] by (simp add: lzcnt_def)
  qed
  then show le: "lzcnt w \<le> j" using assms(2) not_le_imp_less by blast
  show "i < lzcnt w \<Longrightarrow> \<not> bit w (LENGTH('a) - 1 - i)" by (rule below)
  have "lzcnt w < length [0..<LENGTH('a)]" using le assms(1) by simp
  from nth_length_takeWhile [OF this [unfolded lzcnt_def]] show "bit w (LENGTH('a) - 1 - lzcnt w)"
    using le assms(1) by (simp add: lzcnt_def)
qed

lemma find_append: "List.find P (xs @ ys) = (case List.find P xs of None \<Rightarrow> List.find P ys | Some x \<Rightarrow> Some x)"
  by (induction xs) auto

lemma find_skip:
  assumes "p \<le> q" "q \<le> hi" "\<And>i. p \<le> i \<Longrightarrow> i < q \<Longrightarrow> \<not> P i"
  shows "List.find P [p..<hi] = List.find P [q..<hi]"
proof -
  have "[p..<hi] = [p..<q] @ [q..<hi]" using assms(1,2) by (metis le_add_diff_inverse upt_add_eq_append)
  moreover have "List.find P [p..<q] = None" using assms(3) by (auto simp: find_None_iff)
  ultimately show ?thesis by (simp add: find_append)
qed

text \<open>A word whose top bits are the answers for the next positions: its leading zeros lead to the first match.\<close>

lemma find_lzcnt:
  fixes w :: "'a::len word"
  assumes w: "m \<le> LENGTH('a)" "\<And>j. j < m \<Longrightarrow> bit w (LENGTH('a) - 1 - j) = P (p + j)"
    and j: "j < m" "P (p + j)" and hi: "p + m \<le> hi"
  shows "List.find P [p..<hi] = Some (p + lzcnt w)"
proof -
  have "j < LENGTH('a)" "bit w (LENGTH('a) - 1 - j)" using w j by auto
  note lz = lzcnt_bit [OF this]
  have m: "lzcnt w < m" using lz(1) j(1) by linarith
  have "\<not> P i" if "p \<le> i" "i < p + lzcnt w" for i
    using lz(3) [of "i - p"] w(2) [of "i - p"] that m by simp
  then have "List.find P [p..<hi] = List.find P [p + lzcnt w..<hi]" using m hi by (intro find_skip) auto
  also have "\<dots> = Some (p + lzcnt w)" using w(2) [OF m] lz(2) m hi by (subst upt_conv_Cons) auto
  finally show ?thesis .
qed

definition matches :: "bytes \<Rightarrow> u8 \<Rightarrow> nat \<Rightarrow> bool" where
  "matches input search_for i \<longleftrightarrow> bit_at input i = (search_for = 1)"

section \<open>The byte search\<close>

lemma word_nonzero_bit: "w \<noteq> (0 :: 'a::len word) \<longleftrightarrow> (\<exists>j<LENGTH('a). bit w (LENGTH('a) - 1 - j))"
proof
  assume "w \<noteq> 0"
  then obtain k where "bit w k" using bit_eq_iff [of w 0] by auto
  then show "\<exists>j<LENGTH('a). bit w (LENGTH('a) - 1 - j)"
    using bit_imp_le_length [of w k] by (intro exI [of _ "LENGTH('a) - 1 - k"]) auto
qed auto

text \<open>The word that the search inspects after a read of a whole word.\<close>

lemma read_be_matches:
  fixes w :: "'a::len word"
  assumes r: "read_be input p n = Some w" "8 * n = LENGTH('a)" and j: "j < LENGTH('a)"
  shows "bit (if search_for = 1 then w else NOT w) (LENGTH('a) - 1 - j) = matches input search_for (8 * p + j)"
proof -
  have w: "w = from_be_bytes (take n (drop p input))" and l: "8 * length (take n (drop p input)) = LENGTH('a)"
    using r by (auto simp: read_be_def split: if_splits)
  have "bit w (LENGTH('a) - 1 - j) = bit_at input (8 * p + j)"
    unfolding w bit_from_be_bytes [OF l] using j r(2) by (simp add: bit_at_take_drop)
  then show ?thesis using j by (auto simp: matches_def bit_not_iff possible_bit_word)
qed

lemma not_invalid: "w \<noteq> (if b then 0 else -1) \<longleftrightarrow> (if b then w else NOT w) \<noteq> (0 :: 'a::len word)"
  using bit.compl_eq_compl_iff [of w "-1"] by simp

lemma word_step:
  fixes w :: "'a::len word"
  assumes r: "read_be input p n = Some w" "8 * n = LENGTH('a)" and hi: "8 * p + LENGTH('a) \<le> hi"
  shows "List.find (matches input search_for) [8 * p..<hi] =
    (if w \<noteq> (if search_for = 1 then 0 else -1) then Some (8 * p + lzcnt (if search_for = 1 then w else NOT w))
     else List.find (matches input search_for) [8 * (p + n)..<hi])"
proof -
  let ?w = "if search_for = 1 then w else NOT w"
  note bits = read_be_matches [OF r, of _ search_for]
  show ?thesis
  proof (cases "?w \<noteq> 0")
    case True
    then obtain j where "j < LENGTH('a)" "bit ?w (LENGTH('a) - 1 - j)" unfolding word_nonzero_bit by blast
    with bits have "matches input search_for (8 * p + j)" by blast
    from find_lzcnt [OF order_refl bits \<open>j < LENGTH('a)\<close> this hi] True show ?thesis unfolding not_invalid by simp
  next
    case False
    then have none: "\<not> matches input search_for (8 * p + j)" if "j < LENGTH('a)" for j
      using bits [OF that] False by simp
    have "\<not> matches input search_for i" if "8 * p \<le> i" "i < 8 * (p + n)" for i
      using none [of "i - 8 * p"] that r(2) by simp
    then have "List.find (matches input search_for) [8 * p..<hi] = List.find (matches input search_for) [8 * (p + n)..<hi]"
      using hi r(2) by (intro find_skip) auto
    with False show ?thesis unfolding not_invalid by simp
  qed
qed

lemma byte_bits:
  assumes "p < length input" "j < 8"
  shows "bit (if search_for = 1 then push_bit 56 (ucast (input ! p) :: u64) else NOT (push_bit 56 (ucast (input ! p)))) (63 - j) =
    matches input search_for (8 * p + j)"
proof -
  have "(8 * p + j) div 8 = p" "(8 * p + j) mod 8 = j" using assms(2) by simp_all
  then have "bit (push_bit 56 (ucast (input ! p) :: u64)) (63 - j) = bit_at input (8 * p + j)"
    using assms by (auto simp: bit_at_def bit_simps)
  then show ?thesis using assms(2) by (auto simp: matches_def bit_not_iff)
qed

lemma byte_valid:
  assumes "p < length input"
  shows "input ! p \<noteq> (if search_for = 1 then 0 else 0xff) \<longleftrightarrow> (\<exists>j<8. matches input search_for (8 * p + j))"
proof -
  have at: "bit_at input (8 * p + j) = bit (input ! p) (7 - j)" if "j < 8" for j using assms that by (simp add: bit_at_def)
  have ff: "(0xff :: u8) = -1" by simp
  show ?thesis
    using word_nonzero_bit [of "if search_for = 1 then input ! p else NOT (input ! p)"]
    unfolding ff not_invalid by (auto simp: matches_def at bit_not_iff)
qed

lemma byte_step:
  assumes p: "p < length input" and hi: "8 * (p + 1) \<le> hi"
  shows "List.find (matches input search_for) [8 * p..<hi] =
    (if input ! p \<noteq> (if search_for = 1 then 0 else 0xff)
     then Some (8 * p + lzcnt (if search_for = 1 then push_bit 56 (ucast (input ! p) :: u64) else NOT (push_bit 56 (ucast (input ! p)))))
     else List.find (matches input search_for) [8 * (p + 1)..<hi])"
proof (cases "\<exists>j<8. matches input search_for (8 * p + j)")
  case True
  then obtain j where j: "j < 8" "matches input search_for (8 * p + j)" by blast
  let ?w = "if search_for = 1 then push_bit 56 (ucast (input ! p) :: u64) else NOT (push_bit 56 (ucast (input ! p)))"
  have "List.find (matches input search_for) [8 * p..<hi] = Some (8 * p + lzcnt ?w)"
    using byte_bits [OF p] hi
    by (intro find_lzcnt [where m = 8 and P = "matches input search_for" and p = "8 * p" and w = ?w, OF _ _ j]) simp_all
  with True show ?thesis unfolding byte_valid [OF p] by simp
next
  case False
  have "\<not> matches input search_for i" if "8 * p \<le> i" "i < 8 * (p + 1)" for i
  proof -
    have "i = 8 * p + (i - 8 * p)" "i - 8 * p < 8" using that by simp_all
    with False show ?thesis by metis
  qed
  then have "List.find (matches input search_for) [8 * p..<hi] = List.find (matches input search_for) [8 * (p + 1)..<hi]"
    using hi by (intro find_skip) auto
  then show ?thesis unfolding byte_valid [OF p] if_not_P [OF False] .
qed

lemma as_usize_int: "n < 2 ^ 60 \<Longrightarrow> as_usize (int n) = n"
  by (simp add: as_usize_eq)

lemma push_bit_3_int: "push_bit 3 (int n) = int (8 * n)"
  by (simp add: push_bit_eq_mult)

lemma byte_search_loop_eq:
  assumes "stop < length input" "length input < 2 ^ 60"
  shows "cur \<le> stop + 1 \<Longrightarrow> byte_search_loop input (int cur) (int stop) search_for =
    Some (map_option int (List.find (matches input search_for) [8 * cur..<8 * (stop + 1)]))"
proof (induction "stop + 1 - cur" arbitrary: cur rule: less_induct)
  case less
  note loop = byte_search_loop.simps [of input "int cur" "int stop" search_for]
  show ?case
  proof (cases "cur \<le> stop")
    case False
    then have "\<not> int cur \<le> int stop" "[8 * cur..<8 * (stop + 1)] = []" by simp_all
    then show ?thesis by (subst loop) (simp add: Let_def)
  next
    case True
    have usize: "as_usize (int cur) = cur" using True assms by (simp add: as_usize_int)
    have IH: "byte_search_loop input (int (cur + n)) (int stop) search_for =
      Some (map_option int (List.find (matches input search_for) [8 * (cur + n)..<8 * (stop + 1)]))" if "0 < n" "cur + n \<le> stop + 1" for n
      using that True by (intro less.hyps) auto
    consider "stop + 1 - cur \<ge> 8" | "stop + 1 - cur < 8" "stop + 1 - cur \<ge> 4" | "stop + 1 - cur < 4" by linarith
    then show ?thesis
    proof cases
      case 1
      then have ge: "int stop - int cur + 1 \<ge> 8" and len: "cur + 8 \<le> length input" "cur + 8 \<le> stop + 1" using assms(1) by linarith+
      obtain w where w: "(read_be input cur 8 :: u64 option) = Some w" using len by (simp add: read_be_def)
      from True ge show ?thesis
        by (subst loop, subst word_step [OF w]) (use len in \<open>simp_all add: Let_def usize w IH [of 8, simplified] push_bit_3_int\<close>)
    next
      case 2
      then have ge: "\<not> int stop - int cur + 1 \<ge> 8" "int stop - int cur + 1 \<ge> 4" and len: "cur + 4 \<le> length input" "cur + 4 \<le> stop + 1"
        using assms(1) by linarith+
      obtain w where w: "(read_be input cur 4 :: u32 option) = Some w" using len by (simp add: read_be_def)
      from True ge show ?thesis
        by (subst loop, subst word_step [OF w]) (use len in \<open>simp_all add: Let_def usize w IH [of 4, simplified] push_bit_3_int\<close>)
    next
      case 3
      then have ge: "\<not> int stop - int cur + 1 \<ge> 8" "\<not> int stop - int cur + 1 \<ge> 4" and len: "cur < length input" "cur + 1 \<le> stop + 1"
        using True assms(1) by linarith+
      have "byte_search_loop input (int cur + 1) (int stop) search_for =
        Some (map_option int (List.find (matches input search_for) [8 * (cur + 1)..<8 * (stop + 1)]))"
        using IH [of 1] len(2) by (simp add: add.commute)
      with True ge show ?thesis
        by (subst loop, subst byte_step [OF len(1)]) (use len in \<open>simp_all add: Let_def usize get_byte_def push_bit_3_int\<close>)
    qed
  qed
qed

section \<open>The bit search\<close>

lemma bit_mask_u64:
  "bit ((drop_bit l 0xff XOR drop_bit r 0xff) AND (0xff :: u64)) k \<longleftrightarrow> k < 8 \<and> ((l + k < 8) \<noteq> (r + k < 8))"
proof -
  have ff: "(0xff :: u64) = mask 8" by (simp add: mask_eq_exp_minus_1)
  show ?thesis unfolding ff by (auto simp: bit_simps)
qed

text \<open>One step of the bit search inspects the bits \<open>l\<close> to \<open>r\<close> of a byte.\<close>

lemma clipped_bits:
  fixes b :: u8 and m :: u64
  assumes l: "l < 8" and m: "m = (drop_bit l 0xff XOR drop_bit r 0xff) AND 0xff" and j: "l + j < min r 8"
  shows "bit (push_bit (56 + l) (ucast (b AND ucast m) :: u64)) (63 - j) = bit b (7 - (l + j))"
    and "bit (ucast (b AND ucast m) :: u64) (7 - (l + j)) = bit b (7 - (l + j))"
    and "bit m (7 - (l + j))"
proof -
  have "63 - j - (56 + l) = 7 - (l + j)" "56 + l \<le> 63 - j" "7 - (l + j) < 8" using j by linarith+
  moreover show mb: "bit m (7 - (l + j))" unfolding m bit_mask_u64 using j by auto
  ultimately show "bit (push_bit (56 + l) (ucast (b AND ucast m) :: u64)) (63 - j) = bit b (7 - (l + j))"
      "bit (ucast (b AND ucast m) :: u64) (7 - (l + j)) = bit b (7 - (l + j))"
    by (auto simp: bit_simps)
qed

lemma clipped_valid:
  fixes b :: u8 and m :: u64
  assumes l: "l < 8" and lr: "l < r" and m: "m = (drop_bit l 0xff XOR drop_bit r 0xff) AND 0xff"
  shows "(ucast (b AND ucast m) :: u64) \<noteq> ucast (if y then 0 else 0xff :: u8) AND m \<longleftrightarrow>
    (\<exists>j. l + j < min r 8 \<and> bit b (7 - (l + j)) = y)"
proof -
  have ff: "(0xff :: u8) = mask 8" by (simp add: mask_eq_exp_minus_1)
  have "(ucast (b AND ucast m) :: u64) \<noteq> ucast (if y then 0 else 0xff :: u8) AND m \<longleftrightarrow> (\<exists>k. k < 8 \<and> bit m k \<and> bit b k = y)"
  proof -
    have k: "bit m k \<Longrightarrow> k < 8" for k by (simp add: m bit_mask_u64)
    have p: "bit (ucast (b AND ucast m) :: u64) k \<longleftrightarrow> bit b k \<and> bit m k" for k using k [of k] by (auto simp: bit_simps)
    have q: "bit (ucast (if y then 0 else 0xff :: u8) AND m) k \<longleftrightarrow> \<not> y \<and> bit m k" for k
      using k [of k] unfolding ff by (auto simp: bit_simps)
    have "(ucast (b AND ucast m) :: u64) \<noteq> ucast (if y then 0 else 0xff :: u8) AND m \<longleftrightarrow>
        (\<exists>k<64. (bit b k \<and> bit m k) \<noteq> (\<not> y \<and> bit m k))" unfolding bit_eq_iff p q by simp
    also have "\<dots> \<longleftrightarrow> (\<exists>k. k < 8 \<and> bit m k \<and> bit b k = y)" using k by (intro ex_cong1) fastforce
    finally show ?thesis .
  qed
  also have "\<dots> \<longleftrightarrow> (\<exists>j. l + j < min r 8 \<and> bit b (7 - (l + j)) = y)"
  proof
    assume "\<exists>k. k < 8 \<and> bit m k \<and> bit b k = y"
    then obtain k where "k < 8" "bit m k" "bit b k = y" by blast
    moreover from this(2) lr have "l + k < 8" "\<not> r + k < 8" unfolding m bit_mask_u64 by auto
    moreover from this have "7 - (l + (7 - k - l)) = k" "l + (7 - k - l) < min r 8" by auto
    ultimately show "\<exists>j. l + j < min r 8 \<and> bit b (7 - (l + j)) = y" by (intro exI [of _ "7 - k - l"]) simp
  next
    assume "\<exists>j. l + j < min r 8 \<and> bit b (7 - (l + j)) = y"
    then obtain j where "l + j < min r 8" "bit b (7 - (l + j)) = y" by blast
    then show "\<exists>k. k < 8 \<and> bit m k \<and> bit b k = y"
      using clipped_bits(3) [OF l m] by (intro exI [of _ "7 - (l + j)"]) auto
  qed
  finally show ?thesis .
qed

text \<open>The bounds of the bits a step inspects in the byte of position \<open>cur\<close>.\<close>

definition right_bound :: "nat \<Rightarrow> nat \<Rightarrow> nat" where
  "right_bound cur stop = (if cur + (8 - cur mod 8) \<le> stop then cur mod 8 + 8 else stop mod 8 + 1)"

lemma right_bound_bounds:
  assumes "cur \<le> stop"
  shows "cur mod 8 < min (right_bound cur stop) 8"
    and "cur + (min (right_bound cur stop) 8 - cur mod 8) = min (cur + (8 - cur mod 8)) (stop + 1)"
proof -
  have l: "cur mod 8 < 8" by simp
  have "cur mod 8 < min (right_bound cur stop) 8 \<and>
    cur + (min (right_bound cur stop) 8 - cur mod 8) = min (cur + (8 - cur mod 8)) (stop + 1)"
  proof (cases "cur + (8 - cur mod 8) \<le> stop")
    case True
    then show ?thesis using l by (simp add: right_bound_def)
  next
    case False
    have "cur = 8 * (cur div 8) + cur mod 8" "stop = 8 * (stop div 8) + stop mod 8" "stop mod 8 < 8" by simp_all
    moreover from this False assms l have "stop div 8 = cur div 8" by linarith
    ultimately have "stop mod 8 \<ge> cur mod 8" "stop + 1 = cur + (stop mod 8 + 1 - cur mod 8)" using assms by linarith+
    then show ?thesis using False by (simp add: right_bound_def)
  qed
  then show "cur mod 8 < min (right_bound cur stop) 8"
      "cur + (min (right_bound cur stop) 8 - cur mod 8) = min (cur + (8 - cur mod 8)) (stop + 1)" by simp_all
qed

lemma bit_step:
  fixes m :: u64
  assumes b: "cur \<le> stop" "cur div 8 < length input"
    and m: "m = (drop_bit (cur mod 8) 0xff XOR drop_bit (right_bound cur stop) 0xff) AND 0xff"
    and payload: "payload = (ucast (input ! (cur div 8) AND ucast m) :: u64)"
  shows "List.find (matches input search_for) [cur..<stop + 1] =
    (if payload \<noteq> ucast (if search_for = 1 then 0 else 0xff :: u8) AND m
     then Some (cur + lzcnt (if search_for = 1 then push_bit (56 + cur mod 8) payload else NOT (push_bit (56 + cur mod 8) payload)))
     else List.find (matches input search_for) [cur + (8 - cur mod 8)..<stop + 1])"
proof -
  let ?l = "cur mod 8" and ?r = "right_bound cur stop" and ?b = "input ! (cur div 8)"
  let ?n = "min ?r 8 - ?l"
  let ?w = "if search_for = 1 then push_bit (56 + ?l) payload else NOT (push_bit (56 + ?l) payload)"
  have l: "?l < 8" by simp
  note r = right_bound_bounds [OF b(1)]
  have lr: "?l < ?r" using r(1) by simp
  have at: "matches input search_for (cur + j) \<longleftrightarrow> bit ?b (7 - (?l + j)) = (search_for = 1)" if "?l + j < 8" for j
  proof -
    have "cur + j = 8 * (cur div 8) + (?l + j)" by simp
    with that have "(cur + j) div 8 = cur div 8" "(cur + j) mod 8 = ?l + j" by (metis div_mult_self4 div_less add_0_right zero_neq_numeral, metis mod_mult_self4 mod_less)
    then show ?thesis using b(2) by (simp add: matches_def bit_at_def)
  qed
  have bits: "bit ?w (63 - j) = matches input search_for (cur + j)" if "j < ?n" for j
  proof -
    have j: "?l + j < min ?r 8" "?l + j < 8" "63 - j < 64" using that by linarith+
    from clipped_bits(1) [OF l m j(1)] show ?thesis using at [OF j(2)] j(3) unfolding payload by (auto simp: bit_not_iff)
  qed
  note valid = clipped_valid [OF l lr m, of ?b "search_for = 1", folded payload]
  have n: "cur + ?n \<le> stop + 1" using r(2) by simp
  show ?thesis
  proof (cases "\<exists>j. ?l + j < min ?r 8 \<and> bit ?b (7 - (?l + j)) = (search_for = 1)")
    case True
    then obtain j where j: "?l + j < min ?r 8" "bit ?b (7 - (?l + j)) = (search_for = 1)" by blast
    then have "j < ?n" "matches input search_for (cur + j)" using at [of j] by linarith (use j at [of j] in simp)
    note j' = this
    have "List.find (matches input search_for) [cur..<stop + 1] = Some (cur + lzcnt ?w)"
      using bits n by (intro find_lzcnt [where P = "matches input search_for" and p = cur and w = ?w and m = ?n, OF _ _ j']) simp_all
    then show ?thesis unfolding valid if_P [OF True] .
  next
    case False
    have none: "\<not> matches input search_for i" if "cur \<le> i" "i < cur + ?n" for i
    proof -
      define j where "j = i - cur"
      have i: "i = cur + j" using that(1) by (simp add: j_def)
      then have lt: "?l + j < min ?r 8" using that(2) by linarith
      then have "bit ?b (7 - (?l + j)) \<noteq> (search_for = 1)" using False by blast
      then show ?thesis unfolding i using at [of j] lt by simp
    qed
    have "List.find (matches input search_for) [cur..<stop + 1] = List.find (matches input search_for) [cur + ?n..<stop + 1]"
      using none n by (intro find_skip) auto
    also have "[cur + ?n..<stop + 1] = [cur + (8 - ?l)..<stop + 1]" unfolding r(2) by (simp add: min_def)
    finally show ?thesis unfolding valid if_not_P [OF False] .
  qed
qed

lemma bit_pos_bit_search_eq:
  assumes "stop < 8 * length input" "length input < 2 ^ 60"
  shows "bit_pos_bit_search input (int cur) (int stop) search_for =
    Some (case List.find (matches input search_for) [cur..<stop + 1] of Some q \<Rightarrow> int q | None \<Rightarrow> -1)"
proof (induction "stop + 1 - cur" arbitrary: cur rule: less_induct)
  case less
  note loop = bit_pos_bit_search.simps [of input "int cur" "int stop" search_for]
  show ?case
  proof (cases "cur \<le> stop")
    case False
    then have "\<not> int cur \<le> int stop" "[cur..<stop + 1] = []" by simp_all
    then show ?thesis by (subst loop) (simp add: Let_def)
  next
    case True
    then have "int cur \<le> int stop" "cur div 8 < length input" using assms(1) by auto
    note b = True this
    have "int n AND 7 = int (n mod 8)" for n by (simp add: and_7 zmod_int)
    then have m8: "nat (int n AND 7) = n mod 8" for n by simp
    have bound: "8 - int (cur mod 8) = int (8 - cur mod 8)" by (simp add: of_nat_diff)
    have right: "(if int cur + int (8 - cur mod 8) \<le> int stop then cur mod 8 + 8 else stop mod 8 + 1) = right_bound cur stop"
      by (simp only: right_bound_def of_nat_add [symmetric] of_nat_le_iff)
    have byte: "as_usize (drop_bit 3 (int cur)) = cur div 8" using offset_parts(1) [of "int cur"] True assms by simp
    have "0 < 8 - cur mod 8" by simp
    then have lt: "stop + 1 - (cur + (8 - cur mod 8)) < stop + 1 - cur" using True by linarith
    have IH: "bit_pos_bit_search input (int cur + int (8 - cur mod 8)) (int stop) search_for =
      Some (case List.find (matches input search_for) [cur + (8 - cur mod 8)..<stop + 1] of Some q \<Rightarrow> int q | None \<Rightarrow> -1)"
      using less.hyps [OF lt] by (simp only: of_nat_add)
    have get: "get_byte input (cur div 8) = Some (input ! (cur div 8))" using b(3) by (simp add: get_byte_def)
    show ?thesis
      unfolding loop Let_def if_P [OF b(2)] m8 bound right byte get bind.bind_lunit IH bit_step [OF b(1,3) refl refl, of search_for]
      by (simp only: if_distrib [of "\<lambda>x. Some (case x of Some q \<Rightarrow> int q | None \<Rightarrow> -1)"] option.case of_nat_add)
  qed
qed

section \<open>The driver\<close>

text \<open>The position the command documents.\<close>

definition bit_pos_spec :: "bytes \<Rightarrow> int \<Rightarrow> int \<Rightarrow> u8 \<Rightarrow> u8 \<Rightarrow> bool \<Rightarrow> int" where
  "bit_pos_spec input s e search_for offset_type has_end =
     (case scan_range (units offset_type input) s e of
        None \<Rightarrow> -1
      | Some (lo, hi) \<Rightarrow>
          (case List.find (matches input search_for)
             (if offset_type = OFFSET_UNIT_BIT then [lo..<hi + 1] else [8 * lo..<8 * (hi + 1)]) of
             Some q \<Rightarrow> int q
           | None \<Rightarrow> if offset_type = OFFSET_UNIT_BYTE \<and> search_for = 0 \<and> \<not> has_end then 8 * int (length input) else -1))"

text \<open>
  C23: BITPOS returns the first position in the selected range whose bit is the wanted one. Without a match it answers -1,
  except that a search for a zero by bytes without an explicit end answers the position after the last bit, as if the
  string continued with zeros.
\<close>

theorem bit_pos_exact:
  assumes "length input < 2 ^ 60" "offset_type = OFFSET_UNIT_BYTE \<or> offset_type = OFFSET_UNIT_BIT"
  shows "bit_pos_driver input (int (length input)) s e search_for offset_type has_end =
    Some (bit_pos_spec input s e search_for offset_type has_end)"
proof (cases "scan_range (units offset_type input) s e")
  case None
  then show ?thesis by (simp add: bit_pos_driver_def bit_pos_spec_def normalize_scan_range_eq [OF assms(1)])
next
  case (Some r)
  obtain lo hi where r: "r = (lo, hi)" by (cases r)
  note b = scan_range_bounds [OF Some [unfolded r]]
  have ne: "OFFSET_UNIT_BYTE \<noteq> OFFSET_UNIT_BIT" by (simp add: OFFSET_UNIT_BYTE_def OFFSET_UNIT_BIT_def)
  note norm = normalize_scan_range_eq [OF assms(1), of offset_type s e, unfolded Some r option.map map_prod_simp]
  from assms(2) show ?thesis
  proof
    assume t: "offset_type = OFFSET_UNIT_BIT"
    then have "hi < 8 * length input" using b by (simp add: units_def)
    from bit_pos_bit_search_eq [OF this assms(1), of lo search_for] t ne show ?thesis
      by (simp add: bit_pos_driver_def bit_pos_spec_def norm [unfolded t] Some [unfolded t] r split: option.split)
  next
    assume t: "offset_type = OFFSET_UNIT_BYTE"
    then have hi: "hi < length input" using b ne by (simp add: units_def)
    have "wrap_i64 (int (length input) * 8) = 8 * int (length input)" using assms(1) by (simp add: wrap_i64_eq in_i64_def)
    with byte_search_loop_eq [OF hi assms(1), of lo search_for] t ne b show ?thesis
      by (simp add: bit_pos_driver_def bit_pos_byte_search_def bit_pos_spec_def norm [unfolded t] Some [unfolded t] r split: option.split)
  qed
qed

theorem bit_pos_exact_witness:
  "bit_pos_driver [0xFF, 0xF8, 0x00] 3 2 17 0 OFFSET_UNIT_BIT True = Some 13 \<and>
   bit_pos_driver [0xFF, 0xFF] 2 0 (-1) 0 OFFSET_UNIT_BYTE False = Some 16"
proof
  have "bit_pos_spec [0xFF, 0xF8, 0x00] 2 17 0 OFFSET_UNIT_BIT True = 13" by code_simp
  then show "bit_pos_driver [0xFF, 0xF8, 0x00] 3 2 17 0 OFFSET_UNIT_BIT True = Some 13"
    using bit_pos_exact [of "[0xFF, 0xF8, 0x00]" OFFSET_UNIT_BIT 2 17 0 True] by simp
  have "bit_pos_spec [0xFF, 0xFF] 0 (-1) 0 OFFSET_UNIT_BYTE False = 16" by code_simp
  then show "bit_pos_driver [0xFF, 0xFF] 2 0 (-1) 0 OFFSET_UNIT_BYTE False = Some 16"
    using bit_pos_exact [of "[0xFF, 0xFF]" OFFSET_UNIT_BYTE 0 "-1" 0 False] by simp
qed

section \<open>BITOP\<close>

text \<open>The byte of a source at a position, zero beyond its end, and the operation on the bytes of one position.\<close>

definition byte_or_zero :: "bytes \<Rightarrow> nat \<Rightarrow> u8" where
  "byte_or_zero s i = (if i < length s then s ! i else 0)"

fun byte_op :: "BitmapOperation \<Rightarrow> u8 \<Rightarrow> u8 \<Rightarrow> u8" where
  "byte_op BopAnd a b = a AND b"
| "byte_op BopOr a b = a OR b"
| "byte_op BopXor a b = a XOR b"
| "byte_op BopDiff a b = a AND NOT b"
| "byte_op BopNot a b = a"

definition column_op :: "BitmapOperation \<Rightarrow> u8 list \<Rightarrow> u8" where
  "column_op op bs = foldl (byte_op op) (if op = BopNot then NOT (hd bs) else hd bs) (tl bs)"

definition longest :: "bytes list \<Rightarrow> nat" where
  "longest srcs = foldr (\<lambda>s n. max (length s) n) srcs 0"

definition bitop_spec :: "BitmapOperation \<Rightarrow> bytes list \<Rightarrow> bytes" where
  "bitop_spec op srcs = map (\<lambda>i. column_op op (map (\<lambda>s. byte_or_zero s i) srcs)) [0..<longest srcs]"

definition shortest :: "bytes list \<Rightarrow> nat" where
  "shortest srcs = foldr (\<lambda>s n. min (length s) n) srcs usize_max"

lemma foldr_max: "foldr (\<lambda>s n. max (length s) n) xs (k :: nat) = max k (foldr (\<lambda>s n. max (length s) n) xs 0)"
  by (induction xs) auto

lemma foldr_min: "foldr (\<lambda>s n. min (length s) n) xs (min k (l :: nat)) = min k (foldr (\<lambda>s n. min (length s) n) xs l)"
  by (induction xs) auto

lemma longest_snoc: "longest (srcs @ [s]) = max (longest srcs) (length s)"
  unfolding longest_def using foldr_max [of srcs "length s"] by (simp add: max.commute [of _ "length s"])

lemma shortest_snoc: "shortest (srcs @ [s]) = min (shortest srcs) (length s)"
  unfolding shortest_def using foldr_min [of srcs "length s" usize_max] by (simp add: min.commute [of _ "length s"])

lemma column_op_snoc: "bs \<noteq> [] \<Longrightarrow> column_op op (bs @ [b]) = byte_op op (column_op op bs) b"
  by (cases bs) (simp_all add: column_op_def)

lemma length_zip_prefix [simp]: "length (zip_prefix f dst src) = length dst"
  by (simp add: zip_prefix_def)

lemma nth_zip_prefix: "i < length dst \<Longrightarrow> zip_prefix f dst src ! i = (if i < length src then f (dst ! i) (src ! i) else dst ! i)"
  by (auto simp: zip_prefix_def nth_append)

lemma nth_resize_zero: "length v \<le> n \<Longrightarrow> i < n \<Longrightarrow> resize_zero v n ! i = (if i < length v then v ! i else 0)"
  by (auto simp: resize_zero_def nth_append)

lemma length_resize_zero [simp]: "length (resize_zero v n) = n"
  by (simp add: resize_zero_def)

text \<open>A later source changes every byte as the operation says, the tail of AND apart.\<close>

lemma bitop_fold_length:
  "ba_keys_found acc > 0 \<Longrightarrow> length (ba_dst (bitop_fold acc src)) =
     (if ba_op acc = BopNot then length (ba_dst acc) else max (length (ba_dst acc)) (length src))"
  by (cases "ba_op acc") (simp_all add: bitop_fold_def Let_def)

lemma bitop_fold_byte:
  "ba_keys_found acc > 0 \<Longrightarrow> ba_op acc = BopAnd \<longrightarrow> i < length src \<Longrightarrow>
     byte_or_zero (ba_dst (bitop_fold acc src)) i = byte_op (ba_op acc) (byte_or_zero (ba_dst acc) i) (byte_or_zero src i)"
  by (cases "ba_op acc") (auto simp: bitop_fold_def Let_def byte_or_zero_def nth_zip_prefix nth_resize_zero nth_append)

lemma bitop_fold_fields [simp]: "ba_op (bitop_fold acc src) = ba_op acc" "ba_keys_found (bitop_fold acc src) = ba_keys_found acc + 1"
  "ba_shortest (bitop_fold acc src) = min (ba_shortest acc) (length src)"
  by (simp_all add: bitop_fold_def Let_def split: BitmapOperation.split)

lemma bitop_folded:
  assumes "srcs \<noteq> []" "op = BopNot \<longrightarrow> length srcs = 1"
  defines "acc \<equiv> foldl bitop_fold (bitop_new op) srcs"
  shows "ba_op acc = op \<and> ba_keys_found acc = length srcs \<and> ba_shortest acc = shortest srcs \<and> length (ba_dst acc) = longest srcs \<and>
    (\<forall>i. (op = BopAnd \<longrightarrow> i < shortest srcs) \<and> (op = BopNot \<longrightarrow> i < longest srcs) \<longrightarrow> byte_or_zero (ba_dst acc) i = column_op op (map (\<lambda>s. byte_or_zero s i) srcs))"
  using assms(1,2) unfolding acc_def
proof (induction srcs rule: rev_induct)
  case Nil
  then show ?case by simp
next
  case (snoc s srcs)
  show ?case
  proof (cases "srcs = []")
    case True
    then show ?thesis
      by (cases op) (auto simp: bitop_new_def bitop_fold_def Let_def shortest_def longest_def column_op_def byte_or_zero_def)
  next
    case False
    with snoc.prems have op: "op \<noteq> BopNot" by auto
    define acc where "acc = foldl bitop_fold (bitop_new op) srcs"
    have IH: "ba_op acc = op" "ba_keys_found acc = length srcs" "ba_shortest acc = shortest srcs" "length (ba_dst acc) = longest srcs"
      "\<And>i. (op = BopAnd \<longrightarrow> i < shortest srcs) \<Longrightarrow> byte_or_zero (ba_dst acc) i = column_op op (map (\<lambda>s. byte_or_zero s i) srcs)"
      using snoc.IH False op unfolding acc_def by auto
    have found: "ba_keys_found acc > 0" using IH(2) False by simp
    have "byte_or_zero (ba_dst (bitop_fold acc s)) i = column_op op (map (\<lambda>s. byte_or_zero s i) (srcs @ [s]))"
      if "op = BopAnd \<longrightarrow> i < shortest (srcs @ [s])" for i
      using bitop_fold_byte [OF found, of i s] IH(1) IH(5) [of i] that False by (simp add: column_op_snoc shortest_snoc)
    then show ?thesis using IH(1-4) bitop_fold_length [OF found, of s] op False
      by (simp add: acc_def [symmetric] longest_snoc shortest_snoc)
  qed
qed

lemma column_and_zero: "0 \<in> set bs \<Longrightarrow> column_op BopAnd bs = 0"
proof -
  have z: "foldl (byte_op BopAnd) 0 bs = 0" for bs by (induction bs) auto
  have f: "0 \<in> set bs \<Longrightarrow> foldl (byte_op BopAnd) b bs = 0" for b bs by (induction bs arbitrary: b) (auto simp: z)
  show "0 \<in> set bs \<Longrightarrow> column_op BopAnd bs = 0" by (cases bs) (auto simp: column_op_def z f)
qed

lemma shortest_attained: "shortest srcs < usize_max \<Longrightarrow> \<exists>s\<in>set srcs. length s = shortest srcs"
  by (induction srcs rule: rev_induct) (auto simp: shortest_snoc shortest_def [of "[]"] min_def)

lemma longest_ge: "s \<in> set srcs \<Longrightarrow> length s \<le> longest srcs"
  by (induction srcs rule: rev_induct) (auto simp: longest_snoc)

lemma longest_le: "\<forall>s\<in>set srcs. length s \<le> n \<Longrightarrow> longest srcs \<le> n"
  by (induction srcs rule: rev_induct) (auto simp: longest_snoc longest_def [of "[]"])

lemma shortest_le: "s \<in> set srcs \<Longrightarrow> shortest srcs \<le> length s"
  by (induction srcs rule: rev_induct) (auto simp: shortest_snoc)

text \<open>
  C28: BITOP over any sources, missing keys taken as empty strings, produces a string as long as the longest source whose
  every byte is the operation applied to the bytes of the sources at that position, a shorter source read as zeros
  beyond its end. DIFF keeps the bits of the first source that are in none of the others.
\<close>

theorem bitop_exact:
  assumes "srcs \<noteq> []" "\<forall>s\<in>set srcs. length s \<le> usize_max"
    and "op = BopNot \<longrightarrow> length srcs = 1" "op = BopDiff \<longrightarrow> length srcs \<ge> 2"
  shows "bitop_finish (foldl bitop_fold (bitop_new op) srcs) = Some (Inr (bitop_spec op srcs))"
proof -
  define acc where "acc = foldl bitop_fold (bitop_new op) srcs"
  note f = bitop_folded [OF assms(1,3), folded acc_def]
  obtain s where s: "s \<in> set srcs" using assms(1) by (cases srcs) auto
  have le: "shortest srcs \<le> length (ba_dst acc)" using shortest_le [OF s] longest_ge [OF s] f by simp
  have byte: "ba_dst acc ! i = column_op op (map (\<lambda>s. byte_or_zero s i) srcs)"
    if "i < longest srcs" "op = BopAnd \<longrightarrow> i < shortest srcs" for i
  proof -
    have "byte_or_zero (ba_dst acc) i = column_op op (map (\<lambda>s. byte_or_zero s i) srcs)" using f that by blast
    moreover have "length (ba_dst acc) = longest srcs" using f by blast
    ultimately show ?thesis using that(1) by (simp add: byte_or_zero_def [of "ba_dst acc"])
  qed
  show ?thesis
  proof (cases "op = BopAnd")
    case False
    have "ba_dst acc = bitop_spec op srcs" using f byte False by (intro nth_equalityI) (auto simp: bitop_spec_def)
    with False f assms(4) show ?thesis unfolding acc_def [symmetric] by (auto simp: bitop_finish_def)
  next
    case True
    let ?r = "take (shortest srcs) (ba_dst acc) @ replicate (length (ba_dst acc) - shortest srcs) 0"
    have tail: "column_op op (map (\<lambda>s. byte_or_zero s i) srcs) = 0" if "\<not> i < shortest srcs" "i < longest srcs" for i
    proof -
      have "shortest srcs < usize_max" using that longest_le [OF assms(2)] by linarith
      from shortest_attained [OF this] obtain s where "s \<in> set srcs" "length s = shortest srcs" by blast
      with \<open>\<not> i < shortest srcs\<close> have "0 \<in> set (map (\<lambda>s. byte_or_zero s i) srcs)" by (force simp: byte_or_zero_def)
      then show ?thesis using column_and_zero True by simp
    qed
    have "?r = bitop_spec op srcs"
      using f le by (intro nth_equalityI) (auto simp: bitop_spec_def nth_append byte tail)
    with True f le assms(1) show ?thesis unfolding acc_def [symmetric] by (simp add: bitop_finish_def)
  qed
qed

theorem bitop_exact_witness:
  "bitop_finish (foldl bitop_fold (bitop_new BopAnd) [[0xF0, 0xFF, 0x01], [0x3C], [0xFF, 0x0F]]) = Some (Inr [0x30, 0, 0]) \<and>
   bitop_finish (foldl bitop_fold (bitop_new BopDiff) [[0xF0], [0x30, 0x01]]) = Some (Inr [0xC0, 0])"
proof
  have "bitop_spec BopAnd [[0xF0, 0xFF, 0x01], [0x3C], [0xFF, 0x0F]] = [0x30, 0, 0]" by code_simp
  then show "bitop_finish (foldl bitop_fold (bitop_new BopAnd) [[0xF0, 0xFF, 0x01], [0x3C], [0xFF, 0x0F]]) = Some (Inr [0x30, 0, 0])"
    using bitop_exact [of "[[0xF0, 0xFF, 0x01], [0x3C], [0xFF, 0x0F]]" BopAnd] by (simp add: usize_max_def)
  have "bitop_spec BopDiff [[0xF0], [0x30, 0x01]] = [0xC0, 0]" by code_simp
  then show "bitop_finish (foldl bitop_fold (bitop_new BopDiff) [[0xF0], [0x30, 0x01]]) = Some (Inr [0xC0, 0])"
    using bitop_exact [of "[[0xF0], [0x30, 0x01]]" BopDiff] by (simp add: usize_max_def)
qed

end
