(* ===== verification/BitField.thy ===== *)
theory BitField
  imports Bitmap NumGrammar Glob
begin

text \<open>
  The bit fields behind BITFIELD and BITFIELD_RO (\<open>wbitmap/src/bitfield/parse.rs\<close>, \<open>execute.rs\<close>): the parsers of a
  field type, an offset and an overflow policy, reading and writing a field of up to 64 bits at any bit offset, and the
  overflow policies of INCRBY. The value of a field is a 64-bit word, the two's complement of the \<open>i64\<close> of the source;
  an offset is an \<open>int\<close>. The outer \<open>None\<close> of a result is a panic or an arithmetic overflow of a shift amount.
\<close>

section \<open>Parsing\<close>

definition BIT_FIELD_SIGN_SIGNED :: u8 where
  "BIT_FIELD_SIGN_SIGNED = 0x80"

datatype BitFieldSecondaryCommand = BfGet | BfSet | BfIncrBy

datatype BitFieldOverflow = OvWrap | OvSat | OvFail

fun overflow_byte :: "BitFieldOverflow \<Rightarrow> u8" where
  "overflow_byte OvWrap = 0"
| "overflow_byte OvSat = 1"
| "overflow_byte OvFail = 2"

definition eq_ascii_case_const :: "bytes \<Rightarrow> bytes \<Rightarrow> bool" where
  "eq_ascii_case_const a b \<longleftrightarrow>
     length a = length b \<and> list_all (\<lambda>(x, y). \<not> (x \<noteq> y \<and> to_ascii_lowercase x \<noteq> to_ascii_lowercase y)) (zip a b)"

definition parse_bitfield_overflow_slice :: "bytes \<Rightarrow> BitFieldOverflow option" where
  "parse_bitfield_overflow_slice raw =
     (if length raw = 3 \<and> eq_ascii_case_const raw [0x53, 0x41, 0x54] then Some OvSat
      else if length raw = 4 then
        if eq_ascii_case_const raw [0x57, 0x52, 0x41, 0x50] then Some OvWrap
        else if eq_ascii_case_const raw [0x46, 0x41, 0x49, 0x4C] then Some OvFail
        else None
      else None)"

definition parse_bitmap_offset_type :: "bytes \<Rightarrow> u8 option" where
  "parse_bitmap_offset_type raw =
     (if length raw = 3 \<and> eq_ascii_case_const raw [0x42, 0x49, 0x54] then Some 1
      else if length raw = 4 \<and> eq_ascii_case_const raw [0x42, 0x59, 0x54, 0x45] then Some 0
      else None)"

definition try_get_bitfield_secondary_command :: "bytes \<Rightarrow> BitFieldSecondaryCommand option" where
  "try_get_bitfield_secondary_command raw =
     (if length raw = 3 then
        if eq_ascii_case_const raw [0x47, 0x45, 0x54] then Some BfGet
        else if eq_ascii_case_const raw [0x53, 0x45, 0x54] then Some BfSet
        else None
      else if length raw = 6 \<and> eq_ascii_case_const raw [0x49, 0x4E, 0x43, 0x52, 0x42, 0x59] then Some BfIncrBy
      else None)"

definition parse_bitfield_encoding :: "bytes \<Rightarrow> (u8 \<times> bool) option" where
  "parse_bitfield_encoding encoding =
     (if length encoding \<le> 1 then None
      else do {
        is_signed \<leftarrow> (if hd encoding = 0x69 then Some True else if hd encoding = 0x75 then Some False else None);
        bit_count \<leftarrow> strict_i64 (tl encoding);
        if bit_count > 0 \<and> (if is_signed then bit_count \<le> 64 else bit_count < 64)
        then Some (word_of_int bit_count, is_signed) else None
      })"

definition parse_bitfield_offset :: "bytes \<Rightarrow> (int \<times> bool) option" where
  "parse_bitfield_offset raw =
     (let (digits, multiply_offset) =
        (case raw of
           b # rest \<Rightarrow> if b = 0x23 \<and> rest \<noteq> [] then (rest, True) else (raw, False)
         | [] \<Rightarrow> (raw, False))
      in do {
        offset \<leftarrow> strict_i64 digits;
        if offset \<ge> 0 then Some (offset, multiply_offset) else None
      })"

definition parse_bitfield_type_offset :: "bytes \<Rightarrow> bytes \<Rightarrow> (u8 \<times> int) option" where
  "parse_bitfield_type_offset encoding offset_raw = do {
     (bit_count, is_signed) \<leftarrow> parse_bitfield_encoding encoding;
     (offset, multiply_offset) \<leftarrow> parse_bitfield_offset offset_raw;
     (normalized_offset, end_offset) \<leftarrow> try_validate_bitfield_offset offset bit_count multiply_offset;
     let type_info = (if is_signed then 0x80 OR bit_count else bit_count);
     Some (type_info, normalized_offset)
   }"

section \<open>Arguments\<close>

record BitFieldCmdArgs =
  bf_secondary_command :: BitFieldSecondaryCommand
  bf_type_info :: u8
  bf_offset :: int
  bf_value :: u64
  bf_overflow_type :: u8

record BitFieldSpec =
  bs_offset :: int
  bs_encoding :: u8
  bs_signed :: bool

definition from_type_info :: "u8 \<Rightarrow> BitFieldSpec" where
  "from_type_info type_info =
     \<lparr>bs_offset = 0, bs_encoding = type_info AND 0x7F, bs_signed = (type_info AND BIT_FIELD_SIGN_SIGNED \<noteq> 0)\<rparr>"

definition length_from_type :: "BitFieldCmdArgs \<Rightarrow> int" where
  "length_from_type args =
     (let bit_count = bs_encoding (from_type_info (bf_type_info args));
          end_offset = wrap_i64 (bf_offset args + uint bit_count - 1)
      in case length_in_bytes end_offset of None \<Rightarrow> 0 | Some n \<Rightarrow> n)"

definition new_block_alloc_length_from_type :: "BitFieldCmdArgs \<Rightarrow> int \<Rightarrow> int" where
  "new_block_alloc_length_from_type args value_len = max value_len (length_from_type args)"

section \<open>Overflow policies\<close>

text \<open>The tables have 65 entries; an index beyond them panics.\<close>

definition UNSIGNED_MAX_VAL :: "u8 \<Rightarrow> u64 option" where
  "UNSIGNED_MAX_VAL bit_count =
     (if bit_count > 64 then None
      else if bit_count = 0 then Some 0
      else if bit_count = 64 then Some (-1)
      else Some (push_bit (unat bit_count) 1 - 1))"

definition SIGNED_SIGNBIT :: "u8 \<Rightarrow> u64 option" where
  "SIGNED_SIGNBIT bit_count =
     (if bit_count > 64 then None else if bit_count = 0 then Some 0 else Some (push_bit (unat bit_count - 1) 1))"

definition SIGNED_MASK :: "u8 \<Rightarrow> u64 option" where
  "SIGNED_MASK bit_count =
     (if bit_count > 64 then None
      else if bit_count = 0 then Some 0
      else if bit_count = 64 then Some (-1)
      else Some (push_bit (unat bit_count - 1) 1 - 1))"

definition check_unsigned_bitfield_overflow :: "u64 \<Rightarrow> u64 \<Rightarrow> u8 \<Rightarrow> u8 \<Rightarrow> (u64 \<times> bool) option" where
  "check_unsigned_bitfield_overflow value incr_by bit_count overflow_type = do {
     max_val \<leftarrow> UNSIGNED_MAX_VAL bit_count;
     let max_add = max_val - value;
     let neg = (sint incr_by < 0);
     let abs_incr_by = (if sint incr_by < 0 then NOT incr_by + 1 else incr_by);
     let overflow = (abs_incr_by > max_add);
     let underflow = (abs_incr_by > value \<and> neg);
     let result = (if neg then value - abs_incr_by else value + abs_incr_by);
     let result = result AND max_val;
     Some
       (if overflow_type = overflow_byte OvWrap then
          if overflow \<or> underflow then (result, True) else (result, False)
        else if overflow_type = overflow_byte OvSat then
          if overflow then (max_val, True) else if underflow then (0, True) else (result, False)
        else if overflow_type = overflow_byte OvFail then
          if overflow \<or> underflow then (0, True) else (result, False)
        else (0, True))
   }"

definition check_signed_bitfield_overflow :: "u64 \<Rightarrow> u64 \<Rightarrow> u8 \<Rightarrow> u8 \<Rightarrow> (u64 \<times> bool) option" where
  "check_signed_bitfield_overflow value incr_by bit_count overflow_type = do {
     signbit \<leftarrow> SIGNED_SIGNBIT bit_count;
     mask_val \<leftarrow> SIGNED_MASK bit_count;
     let result = value + incr_by;
     let underflow = (result AND signbit = 0 \<and> sint value < 0 \<and> sint incr_by < 0);
     let overflow =
       (if bit_count = 64 then sint result < 0 \<and> sint value \<ge> 0 \<and> sint incr_by > 0
        else result AND NOT mask_val > 0 \<and> sint value \<ge> 0 \<and> sint incr_by > 0);
     Some
       (if overflow_type = overflow_byte OvWrap then
          if underflow \<or> overflow then
            (if bit_count < 64
             then if result AND signbit > 0 then result OR NOT mask_val else result AND mask_val
             else result, True)
          else (result, False)
        else if overflow_type = overflow_byte OvSat then
          let max_val = (if bit_count = 64 then 0x7FFFFFFFFFFFFFFF else signbit - 1)
          in if overflow then (max_val, True) else if underflow then (- max_val - 1, True) else (result, False)
        else if overflow_type = overflow_byte OvFail then
          if underflow \<or> overflow then (0, True) else (result, False)
        else (0, True))
   }"

definition check_bitfield_overflow :: "u64 \<Rightarrow> u64 \<Rightarrow> u8 \<Rightarrow> u8 \<Rightarrow> bool \<Rightarrow> (u64 \<times> bool) option" where
  "check_bitfield_overflow value incr_by bit_count overflow_type is_signed = do {
     (new_value, overflow) \<leftarrow>
       (if is_signed then check_signed_bitfield_overflow value incr_by bit_count overflow_type
        else check_unsigned_bitfield_overflow value incr_by bit_count overflow_type);
     Some (new_value, overflow_type = overflow_byte OvFail \<and> overflow)
   }"

section \<open>Reading\<close>

text \<open>The bytes of the field fill the eight bytes of the buffer from the top down.\<close>

fun fill_slots :: "nat list \<Rightarrow> bytes \<Rightarrow> nat \<Rightarrow> bytes \<Rightarrow> nat \<Rightarrow> (bytes \<times> nat) option" where
  "fill_slots [] value cend buf cur = Some (buf, cur)"
| "fill_slots (slot # slots) value cend buf cur =
     (if cur < cend then do {
        b \<leftarrow> get_byte value cur;
        fill_slots slots value cend (buf[slot := b]) (cur + 1)
      } else fill_slots slots value cend buf cur)"

definition get_value :: "bytes \<Rightarrow> bytes \<Rightarrow> nat \<Rightarrow> nat \<Rightarrow> nat \<Rightarrow> BitFieldSpec \<Rightarrow> (u64 \<times> bytes \<times> nat) option" where
  "get_value buf value cur cend vend spec =
     (if bs_encoding spec > 64 then None
      else do {
        (buf, cur) \<leftarrow> fill_slots (rev [0..<8]) value cend buf cur;
        let return_value = from_le_bytes buf;
        let left = nat (bs_offset spec - push_bit 3 (drop_bit 3 (bs_offset spec)));
        let return_value = push_bit left return_value;
        return_value \<leftarrow>
          (if 64 - left < unat (bs_encoding spec) then do {
             lsb \<leftarrow> (if cur < vend then do { b \<leftarrow> get_byte value cur; Some (drop_bit (8 - left) b) } else Some 0);
             Some (return_value OR ucast lsb)
           } else Some return_value);
        let right = 64 - unat (bs_encoding spec);
        Some (if bs_signed spec then signed_drop_bit right return_value else drop_bit right return_value, buf, cur)
      })"

definition get_bitfield :: "bytes \<Rightarrow> int \<Rightarrow> int \<Rightarrow> u8 \<Rightarrow> bool \<Rightarrow> u64 option option" where
  "get_bitfield bitmap bitmap_length offset encoding is_signed =
     (case try_validate_bitfield_offset offset encoding False of
        None \<Rightarrow> Some None
      | Some (offset, end_offset) \<Rightarrow>
          case (index offset, index end_offset) of
            (Some byte_index_start, Some byte_index_end) \<Rightarrow>
              if int byte_index_start \<ge> bitmap_length then Some (Some 0)
              else do {
                let vend = as_usize bitmap_length;
                let cend = min (byte_index_end + 1) vend;
                (v, buf, cur) \<leftarrow> get_value (replicate 8 0) bitmap byte_index_start cend vend
                  \<lparr>bs_offset = offset, bs_encoding = encoding, bs_signed = is_signed\<rparr>;
                Some (Some v)
              }
          | _ \<Rightarrow> Some None)"

section \<open>Writing\<close>

record BitFieldWriteSpec =
  ws_bitmap_start :: nat
  ws_offset :: int
  ws_encoding :: nat
  ws_unaligned_bits :: nat
  ws_new_value :: u64

definition set_value :: "bytes \<Rightarrow> bytes \<Rightarrow> nat \<Rightarrow> nat \<Rightarrow> BitFieldWriteSpec \<Rightarrow> bytes option" where
  "set_value buf value cur cend spec =
     (let byte_index_start = as_usize (drop_bit 3 (ws_offset spec));
          encoding = ws_encoding spec;
          tmp = ws_new_value spec AND (if encoding = 64 then -1 else push_bit encoding 1 - 1)
      in do {
        (value, tmp, pbits, sbits) \<leftarrow>
          (if encoding > ws_unaligned_bits spec then
             let sbits = encoding - ws_unaligned_bits spec;
                 smask = push_bit sbits 1 - 1
             in if sbits > 8 then None
                else do {
                  let keep = 8 - sbits;
                  let msb = ucast (push_bit keep (tmp AND smask));
                  b \<leftarrow> get_byte value cur;
                  let b9 = b AND ucast (push_bit keep (1 :: u16) - 1);
                  Some (value[cur := msb OR b9], tmp AND NOT smask, encoding - sbits, sbits)
                }
           else Some (value, tmp, encoding, 0));
        let shf = int (ws_unaligned_bits spec) - int encoding;
        let mask_val = (if encoding = 64 then -1 else push_bit pbits 1 - 1);
        let (tmp, mask_val) =
          (if shf < 0 then (drop_bit (nat (- shf)) tmp, NOT (drop_bit (nat (- shf)) (push_bit sbits mask_val)))
           else (push_bit (nat shf) tmp, NOT (push_bit (nat shf) mask_val)));
        let old_v = from_le_bytes buf;
        let tmp = (old_v AND mask_val) OR tmp;
        let cur = ws_bitmap_start spec + byte_index_start;
        if cur < cend then
          let write_len = min (cend - cur) 8
          in if cur + write_len \<le> length value
             then Some (copy_at value cur (take write_len (to_be_bytes 8 tmp))) else None
        else Some value
      })"

definition write_bitfield :: "bytes \<Rightarrow> int \<Rightarrow> BitFieldCmdArgs \<Rightarrow> ((u64 \<times> bool) option \<times> bytes) option" where
  "write_bitfield bitmap bitmap_length args =
     (let spec = from_type_info (bf_type_info args)
      in case try_validate_bitfield_offset (bf_offset args) (bs_encoding spec) False of
        None \<Rightarrow> Some (None, bitmap)
      | Some (offset, end_offset) \<Rightarrow>
          case (index offset, index end_offset) of
            (Some byte_index_start, Some byte_index_end) \<Rightarrow>
              if int byte_index_start \<ge> bitmap_length then Some (None, bitmap)
              else do {
                let vend = as_usize bitmap_length;
                let cend = min (byte_index_end + 1) vend;
                (old_value, buf, cur) \<leftarrow>
                  get_value (replicate 8 0) bitmap byte_index_start cend vend (spec\<lparr>bs_offset := offset\<rparr>);
                abandoned \<leftarrow>
                  (if bf_secondary_command args = BfSet \<and> bf_overflow_type args = overflow_byte OvFail
                   then map_option snd
                     (check_bitfield_overflow old_value 0 (bs_encoding spec) (bf_overflow_type args) (bs_signed spec))
                   else Some False);
                if abandoned then Some (Some (0, True), bitmap)
                else do {
                  (new_value, overflow) \<leftarrow>
                    (if bf_secondary_command args = BfSet then Some (bf_value args, False)
                     else check_bitfield_overflow old_value (bf_value args) (bs_encoding spec) (bf_overflow_type args)
                            (bs_signed spec));
                  let left = nat (offset - push_bit 3 (drop_bit 3 offset));
                  bitmap \<leftarrow> set_value buf bitmap cur cend
                    \<lparr>ws_bitmap_start = 0, ws_offset = offset, ws_encoding = unat (bs_encoding spec),
                     ws_unaligned_bits = 64 - left, ws_new_value = new_value\<rparr>;
                  Some (Some (if bf_secondary_command args = BfSet then (old_value, False) else (new_value, overflow)), bitmap)
                }
              }
          | _ \<Rightarrow> Some (None, bitmap))"

definition bit_field_execute :: "BitFieldCmdArgs \<Rightarrow> bytes \<Rightarrow> ((u64 \<times> bool) option \<times> bytes) option" where
  "bit_field_execute args value =
     (let spec = from_type_info (bf_type_info args); val_len = int (length value)
      in case bf_secondary_command args of
           BfGet \<Rightarrow>
             map_option (\<lambda>v. (map_option (\<lambda>v. (v, False)) v, value))
               (get_bitfield value val_len (bf_offset args) (bs_encoding spec) (bs_signed spec))
         | _ \<Rightarrow> write_bitfield value val_len args)"

definition bit_field_execute_ro :: "BitFieldCmdArgs \<Rightarrow> bytes \<Rightarrow> u64 option option" where
  "bit_field_execute_ro args value =
     (let spec = from_type_info (bf_type_info args)
      in case bf_secondary_command args of
           BfGet \<Rightarrow> get_bitfield value (int (length value)) (bf_offset args) (bs_encoding spec) (bs_signed spec)
         | _ \<Rightarrow> Some None)"

end
