(* ===== verification/BitFieldProps.thy ===== *)
theory BitFieldProps
  imports BitField BitmapProps
begin

text \<open>
  A bit field of up to 64 bits at any bit offset is read and written exactly: the value is the number its bits denote,
  a write changes its bits and no other, and the overflow policies of INCRBY are compared with integer arithmetic.
\<close>

section \<open>The value of a field\<close>

text \<open>The field of \<open>n\<close> bits at offset \<open>o\<close>, most significant bit first.\<close>

definition field_word :: "bytes \<Rightarrow> nat \<Rightarrow> nat \<Rightarrow> u64" where
  "field_word value off n = horner_sum of_bool 2 (rev (map (bit_at value) [off..<off + n]))"

definition widen :: "bool \<Rightarrow> nat \<Rightarrow> u64 \<Rightarrow> u64" where
  "widen is_signed n w = (if is_signed then signed_take_bit (n - 1) w else take_bit n w)"

definition field_value :: "bytes \<Rightarrow> nat \<Rightarrow> nat \<Rightarrow> bool \<Rightarrow> u64" where
  "field_value value off n is_signed = widen is_signed n (field_word value off n)"

lemma bit_field_word: "bit (field_word value off n) k \<longleftrightarrow> k < 64 \<and> k < n \<and> bit_at value (off + n - 1 - k)"
  unfolding field_word_def by (auto simp: bit_horner_sum_bit_word_iff rev_nth)

lemma bit_widen:
  assumes "0 < n" "n \<le> 64"
  shows "bit (widen is_signed n w) k \<longleftrightarrow> k < 64 \<and> (if k < n then bit w k else is_signed \<and> bit w (n - 1))"
proof -
  have "min (n - 1) k = (if k < n then k else n - 1)" using assms by auto
  then have "bit (signed_take_bit (n - 1) w) k \<longleftrightarrow> k < 64 \<and> (if k < n then bit w k else bit w (n - 1))"
    by (simp add: bit_signed_take_bit_iff)
  then show ?thesis using assms by (auto simp: widen_def bit_take_bit_iff)
qed

section \<open>The buffer\<close>

lemma fill_slots_eq:
  "k \<le> length buf \<Longrightarrow> cend \<le> length value \<Longrightarrow> fill_slots (rev [0..<k]) value cend buf cur =
     Some (take (k - min k (cend - cur)) buf @ rev (take (min k (cend - cur)) (drop cur value)) @ drop k buf,
           cur + min k (cend - cur))"
proof (induction k arbitrary: buf cur)
  case 0
  then show ?case by simp
next
  case (Suc k)
  show ?case
  proof (cases "cur < cend")
    case False
    then show ?thesis using Suc.IH [of buf cur] Suc.prems by simp
  next
    case True
    let ?n = "min k (cend - (cur + 1))"
    have n: "min (Suc k) (cend - cur) = Suc ?n" using True by auto
    have get: "get_byte value cur = Some (value ! cur)" using True Suc.prems by (simp add: get_byte_def)
    have d: "drop cur value = value ! cur # drop (cur + 1) value" using True Suc.prems by (simp add: Cons_nth_drop_Suc)
    have "drop k (buf[k := value ! cur]) = value ! cur # drop (Suc k) buf"
      using Suc.prems(1) by (metis Cons_nth_drop_Suc Suc_le_lessD drop_update_cancel length_list_update lessI nth_list_update_eq)
    then show ?thesis using Suc.IH [of "buf[k := value ! cur]" "cur + 1"] Suc.prems True
      by (simp add: get n d)
  qed
qed

text \<open>The first eight bytes of the field as a word, with zeros where the string ends.\<close>

definition window :: "bytes \<Rightarrow> nat \<Rightarrow> nat \<Rightarrow> u64" where
  "window value cur n = from_be_bytes (take n (drop cur value) @ replicate (8 - n) 0)"

lemma bit_at_append_zeros: "bit_at (bs @ replicate k 0) i \<longleftrightarrow> bit_at bs i"
  by (auto simp: bit_at_def nth_append)

lemma bit_window:
  assumes "n \<le> 8" "cur + n \<le> length value" "j < 64"
  shows "bit (window value cur n) (63 - j) \<longleftrightarrow> j < 8 * n \<and> bit_at value (8 * cur + j)"
proof -
  have "8 * length (take n (drop cur value) @ replicate (8 - n) 0) = LENGTH(64)" using assms by simp
  from bit_from_be_bytes [OF this] have "bit (window value cur n) (63 - j) \<longleftrightarrow> bit_at (take n (drop cur value)) j"
    unfolding window_def using assms(3) by (simp add: bit_at_append_zeros) linarith
  also have "\<dots> \<longleftrightarrow> j < 8 * n \<and> bit_at value (8 * cur + j)"
    using assms bit_at_take_drop [of j n cur "value"] by (cases "j < 8 * n") (auto simp: bit_at_def)
  finally show ?thesis .
qed

lemma fill_window:
  assumes "cend \<le> length value"
  shows "\<exists>buf. fill_slots (rev [0..<8]) value cend (replicate 8 0) cur = Some (buf, cur + min 8 (cend - cur)) \<and>
    from_le_bytes buf = window value cur (min 8 (cend - cur))"
proof -
  let ?n = "min 8 (cend - cur)"
  have "length (take ?n (drop cur value)) = ?n" using assms by simp
  then show ?thesis using fill_slots_eq [of 8 "replicate 8 0" cend "value" cur] assms
    by (simp add: from_le_bytes_def window_def del: upt_rec_numeral)
qed

section \<open>Reading a field\<close>

lemma shift_field:
  assumes n: "0 < n" "n \<le> 64" and T: "\<And>j. j < n \<Longrightarrow> bit T (63 - j) = bit_at bm (off + j)"
  shows "(if is_signed then signed_drop_bit (64 - n) T else drop_bit (64 - n) T) = field_value bm off n is_signed"
proof (rule bit_word_eqI)
  fix k assume "k < LENGTH(64)"
  then have k: "k < 64" by simp
  have low: "bit T (64 - n + k) = bit_at bm (off + n - 1 - k)" if "k < n"
  proof -
    have "64 - n + k = 63 - (n - 1 - k)" "n - 1 - k < n" "off + (n - 1 - k) = off + n - 1 - k" using that n by linarith+
    then show ?thesis using T [of "n - 1 - k"] by simp
  qed
  have top: "bit T 63 = bit_at bm off" using T [of 0] n by simp
  have "bit (signed_drop_bit (64 - n) T) k \<longleftrightarrow> (if k < n then bit T (64 - n + k) else bit T 63)"
    using n k by (auto simp: bit_signed_drop_bit_iff)
  moreover have "bit (drop_bit (64 - n) T) k \<longleftrightarrow> k < n \<and> bit T (64 - n + k)"
    using n k by (auto simp: bit_drop_bit_eq dest: bit_imp_le_length)
  moreover have "bit (field_value bm off n is_signed) k \<longleftrightarrow>
      (if k < n then bit_at bm (off + n - 1 - k) else is_signed \<and> bit_at bm off)"
    unfolding field_value_def bit_widen [OF n] bit_field_word using n k by auto
  ultimately show "bit (if is_signed then signed_drop_bit (64 - n) T else drop_bit (64 - n) T) k = bit (field_value bm off n is_signed) k"
    using low top by (cases is_signed; cases "k < n") simp_all
qed

lemma left_bits: "off < 2 ^ 63 \<Longrightarrow> nat (int off - push_bit 3 (drop_bit 3 (int off))) = off mod 8"
proof -
  have "push_bit 3 (drop_bit 3 (int off)) = int (8 * (off div 8))" by (simp add: push_bit_eq_mult drop_bit_eq_div of_nat_div)
  moreover have "int off - int (8 * (off div 8)) = int (off mod 8)" by (simp add: minus_mult_div_eq_mod [symmetric] of_nat_diff)
  ultimately show ?thesis by simp
qed

lemma byte_of_position: "(off :: nat) = 8 * p + l \<Longrightarrow> 8 * m \<le> l + j \<Longrightarrow> p + m \<le> (off + j) div 8"
  by (simp add: less_eq_div_iff_mult_less_eq)

lemma short_window:
  fixes p e len q :: nat
  shows "p + min 8 (min (e + 1) len - p) \<le> q \<Longrightarrow> min 8 (min (e + 1) len - p) < 8 \<Longrightarrow> q \<le> e \<Longrightarrow> len \<le> q"
  by auto

text \<open>The bits that the shifted window lacks come from the ninth byte.\<close>

lemma shifted_window:
  fixes off n p l e :: nat
  assumes n: "0 < n" "n \<le> 64" and off: "off = 8 * p + l" "l < 8" and p: "p < length bm"
    and j: "j < n" and last: "(off + j) div 8 \<le> e"
  defines "m \<equiv> min 8 (min (e + 1) (length bm) - p)"
  assumes lsb: "lsb = (if p + m < length bm then drop_bit (8 - l) (bm ! (p + m)) else 0)"
  shows "bit (push_bit l (window bm p m) OR (if 64 - l < n then ucast lsb else 0)) (63 - j) = bit_at bm (off + j)"
proof -
  have m: "m \<le> 8" "p + m \<le> length bm" using p by (auto simp: m_def)
  have at: "off + j = 8 * p + (l + j)" using off by simp
  show ?thesis
  proof (cases "l + j < 64")
    case True
    have out: "\<not> bit_at bm (off + j)" if "\<not> l + j < 8 * m"
    proof -
      have "8 * m \<le> l + j" "m < 8" using that True by simp_all
      from byte_of_position [OF off(1) this(1)] this(2) last have "length bm \<le> (off + j) div 8"
        unfolding m_def by (rule short_window)
      then show ?thesis by (simp add: bit_at_def)
    qed
    have w: "bit (window bm p m) (63 - (l + j)) \<longleftrightarrow> l + j < 8 * m \<and> bit_at bm (off + j)"
      unfolding at by (rule bit_window [OF m True])
    have eq: "63 - j - l = 63 - (l + j)" "l \<le> 63 - j" "63 - j < 64" "8 \<le> 8 - l + (63 - j)" using True by linarith+
    have "\<not> bit lsb (63 - j)" unfolding lsb using eq(4) by (auto simp: bit_drop_bit_eq dest: bit_imp_le_length)
    then have "\<not> bit (if 64 - l < n then ucast lsb else 0 :: u64) (63 - j)" by (auto simp: bit_unsigned_iff)
    moreover have "bit (push_bit l (window bm p m)) (63 - j) \<longleftrightarrow> bit (window bm p m) (63 - (l + j))"
      using eq by (simp add: bit_push_bit_iff)
    ultimately show ?thesis using out w unfolding bit_or_iff by blast
  next
    case False
    define i where "i = l + j - 64"
    have i: "l + j = 64 + i" "i < l" using False j n off by (simp_all add: i_def)
    then have big: "64 - l < n" "\<not> l \<le> 63 - j" "8 - l + (63 - j) = 7 - i" "63 - j < 64" using j off by linarith+
    have q: "off + j = 8 * (p + 8) + i" using i(1) unfolding off(1) by simp
    have i8: "i < 8" using i off by linarith
    have "(off + j) div 8 = p + 8" unfolding q using i8 by simp
    moreover have "(off + j) mod 8 = i" unfolding q by (rule trans [OF mod_mult_self4 mod_less [OF i8]])
    ultimately have div: "(off + j) div 8 = p + 8" "(off + j) mod 8 = i" .
    have bit: "bit (push_bit l (window bm p m) OR (if 64 - l < n then ucast lsb else 0)) (63 - j) = bit lsb (63 - j)"
      using big by (simp add: bit_or_iff bit_push_bit_iff bit_unsigned_iff)
    show ?thesis
    proof (cases "p + 8 < length bm")
      case True
      then have "m = 8" using last unfolding div m_def by auto
      then show ?thesis using True big unfolding bit unfolding lsb by (simp add: bit_at_def div bit_drop_bit_eq)
    next
      case False
      then have "\<not> p + m < length bm" using last p unfolding div m_def by auto
      then show ?thesis using False unfolding bit unfolding lsb by (simp add: bit_at_def div)
    qed
  qed
qed

lemma get_value_eq:
  fixes off p l e :: nat
  assumes n: "n = unat enc" "0 < n" "n \<le> 64" and off: "off < 2 ^ 63" "off = 8 * p + l" "l < 8" and p: "p < length bm"
    and last: "\<And>j. j < n \<Longrightarrow> (off + j) div 8 \<le> e"
  defines "m \<equiv> min 8 (min (e + 1) (length bm) - p)"
  shows "\<exists>buf. get_value (replicate 8 0) bm p (min (e + 1) (length bm)) (length bm)
      \<lparr>bs_offset = int off, bs_encoding = enc, bs_signed = is_signed\<rparr> = Some (field_value bm off n is_signed, buf, p + m) \<and>
    from_le_bytes buf = window bm p m"
proof -
  have le: "\<not> enc > 64" using n by (simp add: word_less_nat_alt)
  obtain buf where buf: "fill_slots (rev [0..<8]) bm (min (e + 1) (length bm)) (replicate 8 0) p = Some (buf, p + m)"
    "from_le_bytes buf = window bm p m" using fill_window [of "min (e + 1) (length bm)" bm p] unfolding m_def by auto
  define lsb where "lsb = (if p + m < length bm then drop_bit (8 - l) (bm ! (p + m)) else 0)"
  have get: "(if p + m < length bm then do { b \<leftarrow> get_byte bm (p + m); Some (drop_bit (8 - l) b) } else Some 0) = Some lsb"
    by (simp add: lsb_def get_byte_def)
  have left: "nat (int off - push_bit 3 (drop_bit 3 (int off))) = l" using left_bits [OF off(1)] off(2,3) by simp
  let ?T = "push_bit l (window bm p m) OR (if 64 - l < n then ucast lsb else 0)"
  have T: "(if 64 - l < n then Some (push_bit l (window bm p m) OR ucast lsb) else Some (push_bit l (window bm p m))) = Some ?T"
    by simp
  have "bit ?T (63 - j) = bit_at bm (off + j)" if "j < n" for j
    using shifted_window [OF n(2,3) off(2,3) p that last [OF that] lsb_def [unfolded m_def]] unfolding m_def .
  from shift_field [OF n(2,3) this, of is_signed] show ?thesis
    by (intro exI [of _ buf]) (simp only: get_value_def BitFieldSpec.select_convs le if_False Let_def buf bind.bind_lunit prod.case left
        get n(1) [symmetric] T simp_thms)
qed

lemma valid_offset:
  assumes "0 < n" "n = unat enc" "off + n \<le> 8 * 536870912"
  shows "try_validate_bitfield_offset (int off) enc False = Some (int off, int (off + n - 1))"
    and "index (int off) = Some (off div 8)" "index (int (off + n - 1)) = Some ((off + n - 1) div 8)"
proof -
  have z: "(enc = 0) = False" using assms(1,2) by auto
  have e: "int off + (uint enc - 1) = int (off + n - 1)" using assms(1,2) by (simp add: of_nat_diff)
  have ok: "is_valid_bit_offset (int (off + n - 1))" "is_valid_bit_offset (int off)" using assms(1,3)
    by (simp_all add: is_valid_bit_offset_def MAX_OFFSET_FOR_BITMAP_LENGTH_def MAX_BITMAP_PAYLOAD_BYTES_def)
  have "in_i64 (int (off + n - 1))" using assms(1,3) by (simp add: in_i64_def)
  with ok show "try_validate_bitfield_offset (int off) enc False = Some (int off, int (off + n - 1))"
    unfolding try_validate_bitfield_offset_def checked_add_i64_def z if_False bind.bind_lunit e by simp
  show "index (int off) = Some (off div 8)" "index (int (off + n - 1)) = Some ((off + n - 1) div 8)"
    using assms(3) ok offset_parts(1) [of "int off"] offset_parts(1) [of "int (off + n - 1)"]
    unfolding index_def nat_int by simp_all
qed

lemma field_value_outside: "length bm \<le> off div 8 \<Longrightarrow> 0 < n \<Longrightarrow> n \<le> 64 \<Longrightarrow> field_value bm off n is_signed = 0"
proof -
  assume "length bm \<le> off div 8" "0 < n" "n \<le> 64"
  then have "\<not> bit_at bm i" if "off \<le> i" for i
    using div_le_mono [OF that, of 8] unfolding bit_at_def by linarith
  then have "bit (field_word bm off n) k = False" for k unfolding bit_field_word by auto
  then have "field_word bm off n = 0" by (intro bit_word_eqI) simp
  then show ?thesis by (simp add: field_value_def widen_def)
qed

text \<open>The read of a field, wherever it lies, and also beyond the end of the string.\<close>

lemma get_bitfield_eq:
  assumes n: "n = unat enc" "0 < n" "n \<le> 64" and off: "off + n \<le> 8 * 536870912" and len: "length bm < 2 ^ 60"
  shows "get_bitfield bm (int (length bm)) (int off) enc is_signed = Some (Some (field_value bm off n is_signed))"
proof -
  note v = valid_offset [OF n(2,1) off]
  show ?thesis
  proof (cases "off div 8 < length bm")
    case False
    then show ?thesis using v n by (simp add: get_bitfield_def field_value_outside)
  next
    case True
    have "as_usize (int (length bm)) = length bm" using len by (simp add: as_usize_eq)
    moreover have "(off + j) div 8 \<le> (off + n - 1) div 8" if "j < n" for j using that by (intro div_le_mono) simp
    then obtain buf where "get_value (replicate 8 0) bm (off div 8) (min ((off + n - 1) div 8 + 1) (length bm)) (length bm)
      \<lparr>bs_offset = int off, bs_encoding = enc, bs_signed = is_signed\<rparr> =
        Some (field_value bm off n is_signed, buf, off div 8 + min 8 (min ((off + n - 1) div 8 + 1) (length bm) - off div 8))"
      using get_value_eq [OF n, of off "off div 8" "off mod 8" bm "(off + n - 1) div 8" is_signed] True off by auto
    ultimately show ?thesis using True v by (simp only: get_bitfield_def) simp
  qed
qed

section \<open>Writing a field\<close>

lemma mask_u64: "n \<le> 64 \<Longrightarrow> (if n = 64 then -1 else push_bit n 1 - 1 :: u64) = mask n"
  by (auto simp: mask_eq_exp_minus_1)

lemma bit_at_to_be: "j < 64 \<Longrightarrow> bit_at (to_be_bytes 8 (F :: u64)) j \<longleftrightarrow> bit F (63 - j)"
proof -
  assume j: "j < 64"
  have "bit (from_be_bytes (to_be_bytes 8 F) :: u64) (63 - j) \<longleftrightarrow> bit_at (to_be_bytes 8 F) j"
    using j by (subst bit_from_be_bytes) (auto simp: less_imp_diff_less)
  then show ?thesis by (simp add: from_to_be_bytes)
qed

lemma bit_at_copy_word:
  assumes "p + m \<le> length bm" "m \<le> 8"
  shows "bit_at (copy_at bm p (take m (to_be_bytes 8 (F :: u64)))) i \<longleftrightarrow>
    (if 8 * p \<le> i \<and> i < 8 * (p + m) then bit F (63 - (i - 8 * p)) else bit_at bm i)"
proof -
  have l: "length (take m (to_be_bytes 8 F)) = m" using assms(2) by simp
  have div: "p \<le> i div 8 \<and> i div 8 < p + m \<longleftrightarrow> 8 * p \<le> i \<and> i < 8 * (p + m)"
    by (simp add: less_eq_div_iff_mult_less_eq div_less_iff_less_mult mult.commute)
  have len: "length (copy_at bm p (take m (to_be_bytes 8 F))) = length bm" using assms l by simp
  show ?thesis
  proof (cases "8 * p \<le> i \<and> i < 8 * (p + m)")
    case True
    define j where "j = i - 8 * p"
    have j: "i = 8 * p + j" "j < 64" "j < 8 * m" using True assms(2) by (auto simp: j_def)
    then have q: "i div 8 = p + j div 8" "i mod 8 = j mod 8" "j div 8 < m" "j div 8 < 8" using assms(2) by auto
    then have "bit_at (copy_at bm p (take m (to_be_bytes 8 F))) i \<longleftrightarrow> bit_at (to_be_bytes 8 F) j"
      using assms l by (simp add: bit_at_def len nth_copy_at)
    also have "\<dots> \<longleftrightarrow> bit F (63 - j)" using j(2) by (rule bit_at_to_be)
    finally show ?thesis using True by (simp add: j_def)
  next
    case False
    then have "\<not> (p \<le> i div 8 \<and> i div 8 < p + m)" using div by blast
    then show ?thesis using False assms l by (auto simp: bit_at_def len nth_copy_at)
  qed
qed

text \<open>The new word: the field replaced, the rest of the window kept. First a field inside eight bytes, then one in nine.\<close>

lemma merged_inside:
  fixes W nv :: u64
  assumes "0 < n" "n + l \<le> 64" "i < 64"
  defines "s \<equiv> 64 - l - n"
  shows "bit ((W AND NOT (push_bit s (mask n))) OR push_bit s (nv AND mask n)) (63 - i) =
    (if l \<le> i \<and> i < l + n then bit nv (l + n - 1 - i) else bit W (63 - i))"
proof -
  have k: "63 - i < 64" using assms(3) by linarith
  have b: "bit (push_bit s x) (63 - i) \<longleftrightarrow> s \<le> 63 - i \<and> bit x (63 - i - s)" for x :: u64 using k by (simp add: bit_push_bit_iff)
  show ?thesis
  proof (cases "l \<le> i \<and> i < l + n")
    case True
    then have "s \<le> 63 - i" "63 - i - s = l + n - 1 - i" "l + n - 1 - i < n" "l + n - 1 - i < 64" using assms by (auto simp: s_def)
    with True show ?thesis using k by (simp add: bit_or_iff bit_and_iff bit_not_iff bit_mask_iff b)
  next
    case False
    then have "\<not> s \<le> 63 - i \<or> \<not> 63 - i - s < n" using assms by (auto simp: s_def)
    with False show ?thesis using k by (auto simp: bit_or_iff bit_and_iff bit_not_iff bit_mask_iff b)
  qed
qed

lemma merged_across:
  fixes W nv :: u64
  assumes "n \<le> 64" "64 < n + l" "l < 8" "i < 64"
  defines "s \<equiv> n - (64 - l)"
  shows "bit ((W AND NOT (mask (64 - l))) OR drop_bit s ((nv AND mask n) AND NOT (mask s))) (63 - i) =
    (if l \<le> i \<and> i < l + n then bit nv (l + n - 1 - i) else bit W (63 - i))"
proof -
  have k: "63 - i < 64" using assms(4) by linarith
  have e: "s + (63 - i) = l + n - 1 - i" "i < l + n" "63 - i < 64 - l \<longleftrightarrow> l \<le> i" "l + n - 1 - i < n \<longleftrightarrow> l \<le> i" "\<not> l + n - 1 - i < s"
    using assms by (auto simp: s_def)
  have b: "bit (drop_bit s x) (63 - i) \<longleftrightarrow> bit x (l + n - 1 - i)" for x :: u64 by (simp add: bit_drop_bit_eq e(1))
  have f: "bit nv (l + n - 1 - i) \<Longrightarrow> l + n - 1 - i < 64" by (simp add: bit_imp_le_length [where 'a = 64, simplified])
  show ?thesis using k e f by (auto simp: bit_or_iff bit_and_iff bit_not_iff bit_mask_iff b)
qed

lemma ninth_byte:
  fixes t :: u64 and b :: u8
  assumes "0 < s" "s \<le> 8" "k < 8"
  shows "bit (ucast (push_bit (8 - s) (t AND mask s)) OR (b AND ucast (push_bit (8 - s) (1 :: u16) - 1))) k =
    (if 8 - s \<le> k then bit t (k - (8 - s)) else bit b k)"
proof -
  have m: "push_bit (8 - s) (1 :: u16) - 1 = mask (8 - s)" by (simp add: mask_eq_exp_minus_1)
  have "8 - s \<le> k \<Longrightarrow> k - (8 - s) < s" using assms by linarith
  then show ?thesis unfolding m using assms by (auto simp: bit_simps)
qed

definition field_written :: "bytes \<Rightarrow> nat \<Rightarrow> nat \<Rightarrow> u64 \<Rightarrow> bytes \<Rightarrow> bool" where
  "field_written bm off n nv bm' \<longleftrightarrow> length bm' = length bm \<and>
     (\<forall>i. bit_at bm' i = (if off \<le> i \<and> i < off + n then bit nv (off + n - 1 - i) else bit_at bm i))"

lemma copy_field:
  assumes off: "off = 8 * p + l" and m: "p + m \<le> length bm1" "m \<le> 8" "length bm1 = length bm"
    and F: "\<And>i. i < 8 * m \<Longrightarrow> bit F (63 - i) = (if l \<le> i \<and> i < l + n then bit nv (l + n - 1 - i) else bit_at bm (8 * p + i))"
    and rest: "\<And>i. \<not> (8 * p \<le> i \<and> i < 8 * (p + m)) \<Longrightarrow>
      bit_at bm1 i = (if off \<le> i \<and> i < off + n then bit nv (off + n - 1 - i) else bit_at bm i)"
  shows "field_written bm off n nv (copy_at bm1 p (take m (to_be_bytes 8 (F :: u64))))"
  unfolding field_written_def
proof (intro conjI allI)
  have "length (take m (to_be_bytes 8 F)) = m" using m(2) by simp
  then show "length (copy_at bm1 p (take m (to_be_bytes 8 F))) = length bm" using m by simp
  fix i
  show "bit_at (copy_at bm1 p (take m (to_be_bytes 8 F))) i =
    (if off \<le> i \<and> i < off + n then bit nv (off + n - 1 - i) else bit_at bm i)"
  proof (cases "8 * p \<le> i \<and> i < 8 * (p + m)")
    case True
    then obtain j where j: "i = 8 * p + j" using le_Suc_ex by blast
    with True have "j < 8 * m" by simp
    from F [OF this] True show ?thesis unfolding bit_at_copy_word [OF m(1,2)] j off by simp
  next
    case False
    show ?thesis unfolding bit_at_copy_word [OF m(1,2)] if_not_P [OF False] by (rule rest [OF False])
  qed
qed

text \<open>The mask of the eight bytes when the field reaches into the ninth.\<close>

lemma across_mask:
  assumes "n \<le> 64" "64 < n + l" "l < 8"
  shows "drop_bit (n - (64 - l)) (push_bit (n - (64 - l)) (if n = 64 then -1 else push_bit (64 - l) 1 - 1 :: u64)) = mask (64 - l)"
proof (rule bit_word_eqI)
  fix k assume "k < LENGTH(64)"
  have m: "push_bit (64 - l) 1 - 1 = (mask (64 - l) :: u64)" by (simp add: mask_eq_exp_minus_1)
  let ?s = "n - (64 - l)" and ?m = "if n = 64 then -1 else push_bit (64 - l) 1 - 1 :: u64"
  have "bit (drop_bit ?s (push_bit ?s ?m)) k \<longleftrightarrow> ?s + k < 64 \<and> bit ?m k"
    by (auto simp: bit_drop_bit_eq bit_push_bit_iff)
  also have "\<dots> \<longleftrightarrow> k < 64 - l"
  proof (cases "n = 64")
    case True
    then show ?thesis using assms by auto
  next
    case False
    then have "bit ?m k \<longleftrightarrow> k < 64 - l" unfolding m using assms by (auto simp: bit_mask_iff)
    then show ?thesis using False assms by auto
  qed
  finally show "bit (drop_bit ?s (push_bit ?s ?m)) k = bit (mask (64 - l) :: u64) k" using assms by (auto simp: bit_mask_iff)
qed

text \<open>The ninth byte as part of the bit string.\<close>

lemma across_rest:
  fixes nv :: u64
  assumes n: "n \<le> 64" "64 < n + l" and off: "off = 8 * p + l" "l < 8" and len: "p + 8 < length bm"
    and i: "\<not> (8 * p \<le> i \<and> i < 8 * (p + 8))"
  defines "s \<equiv> n - (64 - l)"
  shows "bit_at (bm[p + 8 := ucast (push_bit (8 - s) ((nv AND mask n) AND mask s)) OR
      (bm ! (p + 8) AND ucast (push_bit (8 - s) (1 :: u16) - 1))]) i =
    (if off \<le> i \<and> i < off + n then bit nv (off + n - 1 - i) else bit_at bm i)"
proof (cases "i div 8 = p + 8")
  case True
  define k where "k = 7 - i mod 8"
  have s: "0 < s" "s \<le> 8" "n = 64 - l + s" using n off by (simp_all add: s_def)
  have "i mod 8 < 8" "i = 8 * (i div 8) + i mod 8" by simp_all
  then have k: "k < 8" "i = 8 * (p + 8) + (7 - k)" unfolding k_def True by simp_all
  have f: "off \<le> i \<and> i < off + n \<longleftrightarrow> 8 - s \<le> k" using k s off by auto
  have g: "off + n - 1 - i = k - (8 - s)" "k - (8 - s) < n" if "8 - s \<le> k" using k s off that by auto
  have b: "bit (nv AND mask n) (k - (8 - s)) \<longleftrightarrow> bit nv (k - (8 - s))" if "8 - s \<le> k"
    using g(2) [OF that] n(1) by (auto simp: bit_and_iff bit_mask_iff)
  have up: "bit_at (bm[p + 8 := x]) i = bit x k" for x unfolding bit_at_def True k_def [symmetric] using len by simp
  have at: "bit_at bm i = bit (bm ! (p + 8)) k" unfolding bit_at_def True k_def [symmetric] using len by simp
  show ?thesis unfolding f up at ninth_byte [OF s(1,2) k(1)] using g(1) b by simp
next
  case False
  have "\<not> (off \<le> i \<and> i < off + n)"
  proof
    assume "off \<le> i \<and> i < off + n"
    then have "8 * (p + 8) \<le> i" "i < 8 * (p + 9)" using i n off by auto
    then have "i div 8 = p + 8" by (simp add: div_nat_eqI)
    with False show False ..
  qed
  moreover have "bit_at (bm[p + 8 := x]) i = bit_at bm i" for x using False by (simp add: bit_at_def)
  ultimately show ?thesis by (simp only: if_False)
qed

lemma set_value_inside:
  fixes off p l e :: nat
  assumes n: "0 < n" "n + l \<le> 64" and off: "off < 2 ^ 63" "off = 8 * p + l" "l < 8"
    and e: "8 * e < off + n" "off + n \<le> 8 * (e + 1)" "p \<le> e" "e < length bm"
    and buf: "from_le_bytes buf = window bm p (e + 1 - p)"
  shows "\<exists>bm'. set_value buf bm cur (e + 1)
      \<lparr>ws_bitmap_start = 0, ws_offset = int off, ws_encoding = n, ws_unaligned_bits = 64 - l, ws_new_value = nv\<rparr> = Some bm' \<and>
    field_written bm off n nv bm'"
proof -
  define m where "m = e + 1 - p"
  note buf = buf [folded m_def]
  have n64: "n \<le> 64" using n by simp
  have m: "m \<le> 8" "p + m \<le> length bm" "p + m = e + 1" "min m 8 = m" "p < e + 1" using e n off by (auto simp: m_def)
  have start: "as_usize (drop_bit 3 (int off)) = p" using offset_parts(1) [of "int off"] off by simp
  let ?s = "64 - l - n"
  let ?F = "(window bm p m AND NOT (push_bit ?s (mask n))) OR push_bit ?s (nv AND mask n)"
  have A: "n > 64 - l \<longleftrightarrow> False" "int (64 - l) - int n < 0 \<longleftrightarrow> False" "nat (int (64 - l) - int n) = ?s" using n by auto
  have "set_value buf bm cur (e + 1)
      \<lparr>ws_bitmap_start = 0, ws_offset = int off, ws_encoding = n, ws_unaligned_bits = 64 - l, ws_new_value = nv\<rparr> =
    Some (copy_at bm p (take m (to_be_bytes 8 ?F)))"
    unfolding set_value_def BitFieldWriteSpec.select_convs start Let_def mask_u64 [OF n64] A if_False bind.bind_lunit prod.case
      add_0 if_P [OF m(5)] m_def [symmetric] m(4) if_P [OF m(2)] buf ..
  moreover have "field_written bm off n nv (copy_at bm p (take m (to_be_bytes 8 ?F)))"
  proof (rule copy_field [OF off(2) m(2,1) refl])
    fix i assume i: "i < 8 * m"
    then have "i < 64" using m(1) by linarith
    from merged_inside [OF n this, of "window bm p m" nv] bit_window [OF m(1,2) this] i
    show "bit ?F (63 - i) = (if l \<le> i \<and> i < l + n then bit nv (l + n - 1 - i) else bit_at bm (8 * p + i))" by simp
  next
    fix i assume "\<not> (8 * p \<le> i \<and> i < 8 * (p + m))"
    then have "\<not> (off \<le> i \<and> i < off + n)" unfolding m(3) using e(2) off(2) by auto
    then show "bit_at bm i = (if off \<le> i \<and> i < off + n then bit nv (off + n - 1 - i) else bit_at bm i)" by (simp only: if_False)
  qed
  ultimately show ?thesis by blast
qed

lemma set_value_across:
  fixes off p l :: nat
  assumes n: "n \<le> 64" "64 < n + l" and off: "off < 2 ^ 63" "off = 8 * p + l" "l < 8"
    and len: "p + 8 < length bm" and buf: "from_le_bytes buf = window bm p 8"
  shows "\<exists>bm'. set_value buf bm (p + 8) (p + 9)
      \<lparr>ws_bitmap_start = 0, ws_offset = int off, ws_encoding = n, ws_unaligned_bits = 64 - l, ws_new_value = nv\<rparr> = Some bm' \<and>
    field_written bm off n nv bm'"
proof -
  let ?s = "n - (64 - l)"
  let ?t = "nv AND mask n"
  let ?b = "ucast (push_bit (8 - ?s) (?t AND mask ?s)) OR (bm ! (p + 8) AND ucast (push_bit (8 - ?s) (1 :: u16) - 1)) :: u8"
  let ?F = "(window bm p 8 AND NOT (mask (64 - l))) OR drop_bit ?s (?t AND NOT (mask ?s))"
  have s: "n > 64 - l" "\<not> ?s > 8" using n off(3) by linarith+
  have get: "get_byte bm (p + 8) = Some (bm ! (p + 8))" using len by (simp add: get_byte_def)
  have shf: "int (64 - l) - int n < 0" "nat (- (int (64 - l) - int n)) = ?s" "n - ?s = 64 - l" using n off(3) by auto
  have sm: "push_bit ?s 1 - 1 = (mask ?s :: u64)" by (simp add: mask_eq_exp_minus_1)
  have start: "as_usize (drop_bit 3 (int off)) = p" using offset_parts(1) [of "int off"] off by simp
  have w: "p < p + 9" "min (p + 9 - p) 8 = 8" "p + 8 \<le> length (bm[p + 8 := ?b])" using len by simp_all
  have "set_value buf bm (p + 8) (p + 9)
      \<lparr>ws_bitmap_start = 0, ws_offset = int off, ws_encoding = n, ws_unaligned_bits = 64 - l, ws_new_value = nv\<rparr> =
    Some (copy_at (bm[p + 8 := ?b]) p (take 8 (to_be_bytes 8 ?F)))"
    unfolding set_value_def BitFieldWriteSpec.select_convs start Let_def mask_u64 [OF n(1)] if_P [OF s(1)] if_not_P [OF s(2)]
      get bind.bind_lunit prod.case shf(2,3) if_P [OF shf(1)] sm across_mask [OF n off(3)] add_0 if_P [OF w(1)] w(2) if_P [OF w(3)] buf ..
  moreover have "field_written bm off n nv (copy_at (bm[p + 8 := ?b]) p (take 8 (to_be_bytes 8 ?F)))"
  proof (rule copy_field [OF off(2)])
    fix i assume i: "i < 8 * (8 :: nat)"
    then have "i < 64" by simp
    moreover have "p + 8 \<le> length bm" using len by simp
    ultimately show "bit ?F (63 - i) = (if l \<le> i \<and> i < l + n then bit nv (l + n - 1 - i) else bit_at bm (8 * p + i))"
      using merged_across [OF n off(3), of i "window bm p 8" nv] bit_window [of 8 p bm i] by simp
  next
    fix i assume "\<not> (8 * p \<le> i \<and> i < 8 * (p + 8))"
    from across_rest [OF n off(2,3) len this]
    show "bit_at (bm[p + 8 := ?b]) i = (if off \<le> i \<and> i < off + n then bit nv (off + n - 1 - i) else bit_at bm i)" .
  qed (use len in simp_all)
  ultimately show ?thesis by blast
qed

lemma set_value_eq:
  fixes off p l e :: nat
  assumes n: "0 < n" "n \<le> 64" and off: "off < 2 ^ 63" "off = 8 * p + l" "l < 8"
    and e: "8 * e < off + n" "off + n \<le> 8 * (e + 1)" "p \<le> e" "e < length bm"
    and buf: "from_le_bytes buf = window bm p (min 8 (e + 1 - p))"
  shows "\<exists>bm'. set_value buf bm (p + min 8 (e + 1 - p)) (e + 1)
      \<lparr>ws_bitmap_start = 0, ws_offset = int off, ws_encoding = n, ws_unaligned_bits = 64 - l, ws_new_value = nv\<rparr> = Some bm' \<and>
    field_written bm off n nv bm'"
proof (cases "n + l \<le> 64")
  case True
  then have "min 8 (e + 1 - p) = e + 1 - p" using e off by auto
  then show ?thesis using set_value_inside [OF n(1) True off e] buf by simp
next
  case False
  then have "8 * e < 8 * (p + 9)" "8 * (p + 8) < 8 * (e + 1)" using n(2) e(1,2) [unfolded off(2)] off(3) by auto
  then have e9: "min 8 (e + 1 - p) = 8" "e + 1 = p + 9" "p + 8 < length bm" using e(4) by auto
  have "64 < n + l" using False by simp
  from set_value_across [OF n(2) this off e9(3) buf [unfolded e9(1)], of nv] show ?thesis unfolding e9(1) unfolding e9(2) .
qed

end
