(* ===== verification/BitFieldExec.thy ===== *)
theory BitFieldExec
  imports BitFieldProps
begin

text \<open>
  The sub-commands of BITFIELD as a whole: SET and GET, the overflow policies against integer arithmetic, and INCRBY.
\<close>

section \<open>Writing through the command\<close>

text \<open>A field that lies inside the string, as the caller ensures by growing the string first.\<close>

definition field_args :: "BitFieldCmdArgs \<Rightarrow> bytes \<Rightarrow> nat \<Rightarrow> nat \<Rightarrow> bool \<Rightarrow> bool" where
  "field_args args bm off n is_signed \<longleftrightarrow>
     bf_offset args = int off \<and> unat (bf_type_info args AND 0x7F) = n \<and> is_signed = (bf_type_info args AND 0x80 \<noteq> 0) \<and>
     0 < n \<and> n \<le> 64 \<and> off + n \<le> 8 * length bm \<and> length bm \<le> 536870912"

lemma check_zero: "unat enc \<le> 64 \<Longrightarrow> map_option snd (check_bitfield_overflow v 0 enc pol is_signed) = Some False \<or> pol \<noteq> overflow_byte OvFail"
  by (auto simp: check_bitfield_overflow_def check_unsigned_bitfield_overflow_def check_signed_bitfield_overflow_def
      UNSIGNED_MAX_VAL_def SIGNED_SIGNBIT_def SIGNED_MASK_def Let_def word_less_nat_alt)

lemma write_bitfield_eq:
  assumes a: "field_args args bm off n is_signed" and c: "bf_secondary_command args \<noteq> BfGet"
    and nv: "(if bf_secondary_command args = BfSet then Some (bf_value args, False)
       else check_bitfield_overflow (field_value bm off n is_signed) (bf_value args) (bf_type_info args AND 0x7F)
              (bf_overflow_type args) is_signed) = Some (nv, ov)"
  shows "\<exists>bm'. bit_field_execute args bm =
      Some (Some (if bf_secondary_command args = BfSet then (field_value bm off n is_signed, False) else (nv, ov)), bm') \<and>
    field_written bm off n nv bm'"
proof -
  let ?enc = "bf_type_info args AND 0x7F" and ?p = "off div 8" and ?l = "off mod 8" and ?e = "(off + n - 1) div 8"
  have n: "n = unat ?enc" "0 < n" "n \<le> 64" and off: "bf_offset args = int off" "off + n \<le> 8 * length bm" "length bm \<le> 536870912"
    and s: "is_signed = (bf_type_info args AND 0x80 \<noteq> 0)" using a by (simp_all add: field_args_def)
  have "off + n \<le> 8 * 536870912" using off by linarith
  moreover from this have "off < 2 ^ 63" by simp
  ultimately have le: "off + n \<le> 8 * 536870912" "off < 2 ^ 63" .
  note v = valid_offset [OF n(2,1) le(1)]
  have e: "8 * ?e < off + n" "off + n \<le> 8 * (?e + 1)" "?p \<le> ?e" "?e < length bm"
  proof -
    show "8 * ?e < off + n" using div_times_less_eq_dividend [of "off + n - 1" 8] n(2) by linarith
    show "off + n \<le> 8 * (?e + 1)" using dividend_less_times_div [of 8 "off + n - 1"] n(2) by simp
    show "?p \<le> ?e" using n(2) by (intro div_le_mono) simp
    show "?e < length bm" using off(2) n(2) by (simp add: div_less_iff_less_mult)
  qed
  have min: "min (?e + 1) (length bm) = ?e + 1" using e(4) by simp
  have parts: "off = 8 * ?p + ?l" "?l < 8" by simp_all
  have last: "(off + j) div 8 \<le> ?e" if "j < n" for j using that by (intro div_le_mono) simp
  have p: "?p < length bm" using e(3,4) by linarith
  obtain buf where get: "get_value (replicate 8 0) bm ?p (?e + 1) (length bm)
      \<lparr>bs_offset = int off, bs_encoding = ?enc, bs_signed = is_signed\<rparr> = Some (field_value bm off n is_signed, buf, ?p + min 8 (?e + 1 - ?p))"
    and buf: "from_le_bytes buf = window bm ?p (min 8 (?e + 1 - ?p))"
    using get_value_eq [OF n le(2) parts p last, of is_signed] unfolding min by auto
  obtain bm' where set: "set_value buf bm (?p + min 8 (?e + 1 - ?p)) (?e + 1)
      \<lparr>ws_bitmap_start = 0, ws_offset = int off, ws_encoding = n, ws_unaligned_bits = 64 - ?l, ws_new_value = nv\<rparr> = Some bm'"
    "field_written bm off n nv bm'" using set_value_eq [OF n(2,3) le(2) parts e buf] by blast
  have usize: "as_usize (int (length bm)) = length bm" using off(3) by (simp add: as_usize_eq)
  have spec: "from_type_info (bf_type_info args) = \<lparr>bs_offset = 0, bs_encoding = ?enc, bs_signed = is_signed\<rparr>"
    by (simp add: from_type_info_def s BIT_FIELD_SIGN_SIGNED_def)
  have start: "(int ?p \<ge> int (length bm)) = False" using p by simp
  have go: "(if bf_secondary_command args = BfSet \<and> bf_overflow_type args = overflow_byte OvFail
      then map_option snd (check_bitfield_overflow (field_value bm off n is_signed) 0 ?enc (bf_overflow_type args) is_signed) else Some False) = Some False"
    using check_zero [of ?enc "field_value bm off n is_signed" "bf_overflow_type args" is_signed] n by auto
  have "write_bitfield bm (int (length bm)) args =
    Some (Some (if bf_secondary_command args = BfSet then (field_value bm off n is_signed, False) else (nv, ov)), bm')"
    unfolding write_bitfield_def spec off(1) Let_def BitFieldSpec.simps v option.case prod.case start if_False usize min get bind.bind_lunit
      go nv left_bits [OF le(2)] n(1) [symmetric] set(1) ..
  with c set(2) show ?thesis by (cases "bf_secondary_command args") (auto simp: bit_field_execute_def Let_def)
qed

lemma field_after_write:
  assumes "field_written bm off n nv bm'" "0 < n" "n \<le> 64"
  shows "field_value bm' off n is_signed = widen is_signed n nv"
proof (rule bit_word_eqI)
  have w: "bit (field_word bm' off n) k = bit nv k" if "k < n" for k
  proof -
    have "off \<le> off + n - 1 - k \<and> off + n - 1 - k < off + n" "off + n - 1 - (off + n - 1 - k) = k" using that by linarith+
    then show ?thesis using assms(1,3) that unfolding bit_field_word by (simp add: field_written_def)
  qed
  fix k
  show "bit (field_value bm' off n is_signed) k = bit (widen is_signed n nv) k"
    unfolding field_value_def bit_widen [OF assms(2,3)] using w [of k] w [of "n - 1"] assms(2) by simp
qed

lemma get_after:
  assumes "field_args args bm off n is_signed" "length bm' = length bm"
  shows "bit_field_execute_ro (args\<lparr>bf_secondary_command := BfGet\<rparr>) bm' = Some (Some (field_value bm' off n is_signed))"
proof -
  have "length bm' < 2 ^ 60" "off + n \<le> 8 * 536870912" using assms by (auto simp: field_args_def)
  then show ?thesis
    using assms get_bitfield_eq [of n "bf_type_info args AND 0x7F" off bm' is_signed]
    by (simp add: field_args_def bit_field_execute_ro_def from_type_info_def BIT_FIELD_SIGN_SIGNED_def Let_def)
qed

text \<open>
  C13: BITFIELD SET on a field of 1 to 64 bits at any bit offset of the string answers the previous value of the field and
  replaces exactly the bits of the field: a GET of the same field then returns the low bits of the value, extended by
  its sign for a signed type, the length stays and no bit outside the field changes.
\<close>

theorem bitfield_set_get:
  assumes "field_args args bm off n is_signed" "bf_secondary_command args = BfSet"
  shows "\<exists>bm'. bit_field_execute args bm = Some (Some (field_value bm off n is_signed, False), bm') \<and>
    bit_field_execute_ro (args\<lparr>bf_secondary_command := BfGet\<rparr>) bm' = Some (Some (widen is_signed n (bf_value args))) \<and>
    length bm' = length bm \<and> (\<forall>i. i < off \<or> off + n \<le> i \<longrightarrow> bit_at bm' i = bit_at bm i)"
proof -
  have n: "0 < n" "n \<le> 64" using assms(1) by (simp_all add: field_args_def)
  obtain bm' where bm': "bit_field_execute args bm = Some (Some (field_value bm off n is_signed, False), bm')"
    "field_written bm off n (bf_value args) bm'"
    using write_bitfield_eq [OF assms(1), of "bf_value args" False] assms(2) by auto
  then have "length bm' = length bm" "\<forall>i. i < off \<or> off + n \<le> i \<longrightarrow> bit_at bm' i = bit_at bm i" by (auto simp: field_written_def)
  with bm' get_after [OF assms(1), of bm'] field_after_write [OF bm'(2) n] show ?thesis by auto
qed

theorem bitfield_set_get_witness:
  "\<exists>bm'. bit_field_execute \<lparr>bf_secondary_command = BfSet, bf_type_info = 0xBF, bf_offset = 7, bf_value = - 2, bf_overflow_type = 0\<rparr>
      (replicate 9 0xFF) = Some (Some (- 1, False), bm') \<and>
    bit_field_execute_ro \<lparr>bf_secondary_command = BfGet, bf_type_info = 0xBF, bf_offset = 7, bf_value = - 2, bf_overflow_type = 0\<rparr>
      bm' = Some (Some (- 2))"
proof -
  let ?args = "\<lparr>bf_secondary_command = BfSet, bf_type_info = 0xBF, bf_offset = 7, bf_value = - 2, bf_overflow_type = 0\<rparr> :: BitFieldCmdArgs"
  have "field_args ?args (replicate 9 0xFF) 7 63 True" by (simp add: field_args_def)
  moreover have "field_value (replicate 9 0xFF) 7 63 True = - 1" by code_simp
  moreover have "widen True 63 (- 2) = - 2" by code_simp
  ultimately show ?thesis using bitfield_set_get [of ?args "replicate 9 0xFF" 7 63 True] by auto
qed

section \<open>Overflow policies\<close>

text \<open>What the policies mean for the integer \<open>x\<close> and the range \<open>lo\<close> to \<open>hi\<close>: the value, and whether it is refused.\<close>

fun policy_spec :: "BitFieldOverflow \<Rightarrow> int \<Rightarrow> int \<Rightarrow> int \<Rightarrow> int \<times> bool" where
  "policy_spec pol lo hi x =
     (if lo \<le> x \<and> x \<le> hi then (x, False)
      else case pol of
        OvWrap \<Rightarrow> (lo + (x - lo) mod (hi - lo + 1), False)
      | OvSat \<Rightarrow> (if x > hi then hi else lo, False)
      | OvFail \<Rightarrow> (0, True))"

lemma and_push_1: "(w :: u64) AND push_bit k 1 = 0 \<longleftrightarrow> \<not> bit w k"
  by (simp add: push_bit_of_1 and_exp_eq_0_iff_not_bit)

lemma and_not_mask_u64: "(w :: u64) AND NOT (mask k) = 0 \<longleftrightarrow> uint w < 2 ^ k"
proof -
  have "w AND NOT (mask k) = 0 \<longleftrightarrow> take_bit k w = w"
    unfolding bit_eq_iff by (auto simp: bit_and_iff bit_not_iff bit_mask_iff bit_take_bit_iff)
  also have "\<dots> \<longleftrightarrow> take_bit k (uint w) = uint w" by (metis unsigned_take_bit_eq unsigned_word_eqI)
  also have "\<dots> \<longleftrightarrow> uint w < 2 ^ k" by (simp add: take_bit_int_eq_self_iff)
  finally show ?thesis .
qed

lemma sint_of_int: "- (2 ^ 63) \<le> x \<Longrightarrow> x < 2 ^ 63 \<Longrightarrow> sint (word_of_int x :: u64) = x"
  using wrap_i64_eq [of x] by (simp add: wrap_i64_def in_i64_def)

lemma bit_negative_sum:
  assumes "- (2 * 2 ^ m) \<le> x" "x < 0"
  shows "bit (x :: int) m \<longleftrightarrow> - (2 ^ m) \<le> x"
proof -
  define P :: int where "P = 2 ^ m"
  have P: "0 < P" "- (2 * P) \<le> x" using assms(1) by (simp_all add: P_def)
  have "x div P = (if - P \<le> x then - 1 else - 2)"
  proof (cases "- P \<le> x")
    case True
    then have "x = P * (- 1) + (x + P)" "0 \<le> x + P" "x + P < P" using assms(2) by simp_all
    from int_div_pos_eq [OF this] True show ?thesis by simp
  next
    case False
    then have "x = P * (- 2) + (x + 2 * P)" "0 \<le> x + 2 * P" "x + 2 * P < P" using P by simp_all
    from int_div_pos_eq [OF this] False show ?thesis by simp
  qed
  then show ?thesis by (simp add: bit_iff_odd P_def)
qed

lemma wrap_signed: "- (2 ^ m) + (x + 2 ^ m) mod (2 ^ Suc m) = signed_take_bit m (x :: int)"
  by (simp add: signed_take_bit_eq_take_bit_shift take_bit_eq_mod)

lemma word_signed_take: "k < 64 \<Longrightarrow> word_of_int (signed_take_bit k x) = signed_take_bit k (word_of_int x :: u64)"
  by (rule bit_word_eqI) (auto simp: bit_word_of_int_iff bit_signed_take_bit_iff min_def)

lemma sign_extension:
  fixes w :: u64
  assumes "k < 64"
  shows "(if w AND push_bit k 1 > 0 then w OR NOT (mask k) else w AND mask k) = signed_take_bit k w"
proof -
  have "w AND push_bit k 1 > 0 \<longleftrightarrow> bit w k" using and_push_1 [of w k] by (auto simp: word_gt_0)
  then show ?thesis using assms
    by (intro bit_word_eqI) (auto simp: bit_or_iff bit_and_iff bit_not_iff bit_mask_iff bit_signed_take_bit_iff min_def le_less)
qed

lemma signed_flags:
  fixes V D :: int and m :: nat
  assumes m: "m < 64" and V: "- (2 ^ m) \<le> V" "V < 2 ^ m" and D: "- (2 ^ m) \<le> D" "D < 2 ^ m"
  defines "result \<equiv> word_of_int V + word_of_int D :: u64"
  shows "result AND push_bit m 1 = 0 \<and> V < 0 \<and> D < 0 \<longleftrightarrow> V + D < - (2 ^ m)"
    and "m = 63 \<Longrightarrow> sint result < 0 \<and> V \<ge> 0 \<and> D > 0 \<longleftrightarrow> V + D \<ge> 2 ^ m"
    and "m < 63 \<Longrightarrow> result AND NOT (mask m) > 0 \<and> V \<ge> 0 \<and> D > 0 \<longleftrightarrow> V + D \<ge> 2 ^ m"
proof -
  have r: "result = word_of_int (V + D)" by (simp add: result_def)
  have "\<not> bit (V + D) m \<longleftrightarrow> V + D < - (2 ^ m)" if "V < 0" "D < 0" using bit_negative_sum [of m "V + D"] that V D by linarith
  moreover have "V < 0 \<and> D < 0" if "V + D < - (2 ^ m)" using that V D by linarith
  moreover have "bit result m \<longleftrightarrow> bit (V + D) m" unfolding r bit_word_of_int_iff using m by simp
  ultimately show "result AND push_bit m 1 = 0 \<and> V < 0 \<and> D < 0 \<longleftrightarrow> V + D < - (2 ^ m)"
    unfolding and_push_1 by blast
  have pos: "V \<ge> 0 \<and> D > 0" if "V + D \<ge> 2 ^ m" using that V D by linarith
  show "sint result < 0 \<and> V \<ge> 0 \<and> D > 0 \<longleftrightarrow> V + D \<ge> 2 ^ m" if m: "m = 63"
  proof (cases "V \<ge> 0 \<and> D > 0")
    case True
    show ?thesis
    proof (cases "V + D < 2 ^ 63")
      case True
      then show ?thesis using sint_of_int [of "V + D"] \<open>V \<ge> 0 \<and> D > 0\<close> by (simp add: r m)
    next
      case False
      have "result = word_of_int (V + D - 2 ^ 64)" by (simp add: r)
      then have "sint result = V + D - 2 ^ 64" using sint_of_int [of "V + D - 2 ^ 64"] False V D by (simp add: m)
      then show ?thesis using False True V D by (simp add: m)
    qed
  next
    case False
    then show ?thesis using pos by blast
  qed
  show "result AND NOT (mask m) > 0 \<and> V \<ge> 0 \<and> D > 0 \<longleftrightarrow> V + D \<ge> 2 ^ m" if m: "m < 63"
  proof (cases "V \<ge> 0 \<and> D > 0")
    case True
    have "(2 :: int) ^ m \<le> 2 ^ 62" using m by (intro power_increasing) auto
    then have "V + D < 2 ^ 64" "0 \<le> V + D" using True V D by simp_all
    then have "uint result = V + D" unfolding r uint_word_of_int by simp
    moreover have "result AND NOT (mask m) > 0 \<longleftrightarrow> \<not> uint result < 2 ^ m" unfolding and_not_mask_u64 [symmetric] by (auto simp: word_gt_0)
    ultimately show ?thesis using True by auto
  next
    case False
    then show ?thesis using pos by blast
  qed
qed

text \<open>The tables for a field of \<open>m + 1\<close> bits.\<close>

lemma signed_tables:
  assumes "unat enc = Suc m" "m < 64"
  shows "SIGNED_SIGNBIT enc = Some (push_bit m 1)" "SIGNED_MASK enc = Some (if m = 63 then -1 else mask m)"
    and "enc = 64 \<longleftrightarrow> m = 63" "enc < 64 \<longleftrightarrow> m < 63"
proof -
  have e: "\<not> enc > 64" "enc \<noteq> 0" using assms by (auto simp: word_less_nat_alt)
  show c: "enc = 64 \<longleftrightarrow> m = 63" "enc < 64 \<longleftrightarrow> m < 63" using assms by (auto simp: word_less_nat_alt word_unat_eq_iff)
  show "SIGNED_SIGNBIT enc = Some (push_bit m 1)" using e unfolding SIGNED_SIGNBIT_def assms(1) by simp
  show "SIGNED_MASK enc = Some (if m = 63 then -1 else mask m)"
    using e unfolding SIGNED_MASK_def assms(1) c by (simp add: mask_eq_exp_minus_1)
qed

lemma signed_wrap_word:
  fixes x :: int
  assumes "m < 64"
  defines "r \<equiv> word_of_int x :: u64"
  shows "(if m < 63 then if r AND push_bit m 1 > 0 then r OR NOT (if m = 63 then -1 else mask m) else r AND (if m = 63 then -1 else mask m) else r) =
    word_of_int (- (2 ^ m) + (x + 2 ^ m) mod (2 ^ Suc m))"
proof -
  have w: "word_of_int (- (2 ^ m) + (x + 2 ^ m) mod (2 ^ Suc m)) = signed_take_bit m r"
    unfolding wrap_signed r_def by (rule word_signed_take [OF assms(1)])
  have t: "signed_take_bit 63 r = r"
  proof (rule bit_word_eqI)
    fix k assume "k < LENGTH(64)"
    then have "min 63 k = k" by simp
    then show "bit (signed_take_bit 63 r) k = bit r k" using \<open>k < LENGTH(64)\<close> by (simp add: bit_signed_take_bit_iff)
  qed
  show ?thesis
  proof (cases "m = 63")
    case True
    then show ?thesis unfolding w using t by simp
  next
    case False
    then have "m < 63" "(if m = 63 then -1 else mask m) = (mask m :: u64)" using assms(1) by simp_all
    then show ?thesis unfolding w sign_extension [OF assms(1), of r, symmetric] by simp
  qed
qed

lemma check_signed_eq:
  fixes V D :: int
  assumes enc: "unat enc = Suc m" "m < 64"
    and V: "- (2 ^ m) \<le> V" "V < 2 ^ m" and D: "- (2 ^ m) \<le> D" "D < 2 ^ m"
  shows "check_bitfield_overflow (word_of_int V) (word_of_int D) enc (overflow_byte pol) True =
    Some (map_prod word_of_int id (policy_spec pol (- (2 ^ m)) (2 ^ m - 1) (V + D)))"
proof -
  note t = signed_tables [OF enc]
  have "(2 :: int) ^ m \<le> 2 ^ 63" using enc(2) by (intro power_increasing) auto
  then have s: "sint (word_of_int V :: u64) = V" "sint (word_of_int D :: u64) = D" using V D by (auto intro!: sint_of_int)
  note f = signed_flags [OF enc(2) V D]
  define x where "x = V + D"
  define P :: int where "P = 2 ^ m"
  have P: "0 < P" by (simp add: P_def)
  let ?r = "word_of_int V + word_of_int D :: u64"
  have over: "(if m = 63 then sint ?r < 0 \<and> V \<ge> 0 \<and> D > 0 else ?r AND NOT (if m = 63 then -1 else mask m) > 0 \<and> V \<ge> 0 \<and> D > 0) \<longleftrightarrow> x \<ge> P"
    using f(2,3) enc(2) unfolding x_def P_def by (cases "m = 63") auto
  have under: "?r AND push_bit m 1 = 0 \<and> V < 0 \<and> D < 0 \<longleftrightarrow> x < - P" using f(1) unfolding x_def P_def .
  have r: "?r = word_of_int x" by (simp add: x_def)
  have sat: "(if m = 63 then 0x7FFFFFFFFFFFFFFF else push_bit m 1 - 1 :: u64) = word_of_int (P - 1)"
    by (cases "m = 63") (simp_all add: push_bit_of_1 P_def)
  have lo: "- word_of_int (P - 1) - 1 = (word_of_int (- P) :: u64)" by simp
  note wrap = signed_wrap_word [OF enc(2), of x, folded P_def]
  have Q: "P - 1 - - P + 1 = (2 ^ Suc m)" "x - - P = x + P" by (simp_all add: P_def)
  have c: "check_signed_bitfield_overflow (word_of_int V) (word_of_int D) enc (overflow_byte pol) =
    Some (word_of_int (fst (policy_spec pol (- P) (P - 1) x)), x < - P \<or> x \<ge> P)"
    unfolding check_signed_bitfield_overflow_def t bind.bind_lunit Let_def s r
    unfolding under [unfolded r] over [unfolded r] wrap sat lo policy_spec.simps Q
    using P by (cases pol; cases "x < - P"; cases "x \<ge> P") simp_all
  show ?thesis unfolding check_bitfield_overflow_def if_True c P_def [symmetric] x_def [symmetric] bind.bind_lunit prod.case policy_spec.simps
    using P by (cases pol; cases "x < - P"; cases "x \<ge> P") simp_all
qed

text \<open>The unsigned check as integer arithmetic, exactly as it is.\<close>

lemma check_unsigned_raw:
  fixes V D :: int
  assumes enc: "unat enc = n" "0 < n" "n < 64" and V: "0 \<le> V" "V < 2 ^ n" and D: "- (2 ^ 63) \<le> D" "D < 2 ^ 63"
  shows "check_bitfield_overflow (word_of_int V) (word_of_int D) enc (overflow_byte pol) False =
    Some (case pol of
        OvWrap \<Rightarrow> (word_of_int ((V + D) mod 2 ^ n), False)
      | OvSat \<Rightarrow> (word_of_int (if \<bar>D\<bar> > 2 ^ n - 1 - V then 2 ^ n - 1 else if V + D < 0 then 0 else (V + D) mod 2 ^ n), False)
      | OvFail \<Rightarrow> if \<bar>D\<bar> > 2 ^ n - 1 - V \<or> V + D < 0 then (0, True) else (word_of_int ((V + D) mod 2 ^ n), False))"
proof -
  define P :: int where "P = 2 ^ n"
  have "(2 :: int) ^ n \<le> 2 ^ 63" using enc by (intro power_increasing) auto
  then have P: "P \<le> 2 ^ 63" "0 < P" "V < P" using V by (simp_all add: P_def)
  have e: "\<not> enc > 64" "enc \<noteq> 0" "enc \<noteq> 64" using enc by (auto simp: word_less_nat_alt)
  have max: "UNSIGNED_MAX_VAL enc = Some (word_of_int (P - 1))"
    using e unfolding UNSIGNED_MAX_VAL_def enc(1) by (simp add: P_def push_bit_of_1)
  have u: "uint (word_of_int k :: u64) = k" if "0 \<le> k" "k < 2 ^ 64" for k using that unfolding uint_word_of_int by simp
  have neg: "sint (word_of_int D :: u64) = D" using D by (rule sint_of_int)
  have abs: "(if D < 0 then NOT (word_of_int D) + 1 else word_of_int D :: u64) = word_of_int \<bar>D\<bar>" by (simp add: minus_eq_not_plus_1 [symmetric])
  have gt: "(word_of_int a :: u64) > word_of_int b \<longleftrightarrow> a > b" if "0 \<le> a" "a < 2 ^ 64" "0 \<le> b" "b < 2 ^ 64" for a b
    unfolding word_less_alt using u that by simp
  have b: "\<bar>D\<bar> < 2 ^ 64" "V < 2 ^ 64" "P - 1 - V < 2 ^ 64" "0 \<le> P - 1 - V" using D P V by auto
  have over: "(word_of_int \<bar>D\<bar> :: u64) > word_of_int (P - 1) - word_of_int V \<longleftrightarrow> \<bar>D\<bar> > P - 1 - V"
    using gt [of "\<bar>D\<bar>" "P - 1 - V"] b by simp
  have under: "(word_of_int \<bar>D\<bar> :: u64) > word_of_int V \<and> D < 0 \<longleftrightarrow> V + D < 0"
    using gt [of "\<bar>D\<bar>" V] b V by auto
  have res: "(if D < 0 then word_of_int V - word_of_int \<bar>D\<bar> else word_of_int V + word_of_int \<bar>D\<bar> :: u64) = word_of_int (V + D)" by simp
  have "(word_of_int (P - 1) :: u64) = mask n" by (simp add: P_def mask_eq_exp_minus_1)
  then have and_max: "word_of_int (V + D) AND (word_of_int (P - 1) :: u64) = word_of_int ((V + D) mod P)"
    by (simp only: P_def take_bit_eq_mask [symmetric] take_bit_of_int take_bit_int_def)
  show ?thesis
    unfolding check_bitfield_overflow_def check_unsigned_bitfield_overflow_def if_False max bind.bind_lunit Let_def neg abs over under res and_max
      P_def [symmetric] prod.case
    by (cases pol) simp_all
qed

section \<open>INCRBY\<close>

text \<open>The range of a type, the number a field holds, and the increments that the overflow check judges correctly.\<close>

definition field_lo :: "bool \<Rightarrow> nat \<Rightarrow> int" where
  "field_lo is_signed n = (if is_signed then - (2 ^ (n - 1)) else 0)"

definition field_hi :: "bool \<Rightarrow> nat \<Rightarrow> int" where
  "field_hi is_signed n = (if is_signed then 2 ^ (n - 1) - 1 else 2 ^ n - 1)"

definition field_int :: "bytes \<Rightarrow> nat \<Rightarrow> nat \<Rightarrow> bool \<Rightarrow> int" where
  "field_int bm off n is_signed =
     (if is_signed then sint (field_value bm off n is_signed) else uint (field_value bm off n is_signed))"

definition judged :: "bool \<Rightarrow> nat \<Rightarrow> BitFieldOverflow \<Rightarrow> int \<Rightarrow> int \<Rightarrow> bool" where
  "judged is_signed n pol V D \<longleftrightarrow>
     (if is_signed then field_lo True n \<le> D \<and> D \<le> field_hi True n
      else n < 64 \<and> in_i64 D \<and> (0 \<le> D \<or> pol = OvWrap \<or> - D \<le> field_hi False n - V))"

lemma field_int_range:
  assumes "0 < n" "n \<le> 64"
  shows "word_of_int (field_int bm off n is_signed) = field_value bm off n is_signed"
    and "field_lo is_signed n \<le> field_int bm off n is_signed" "field_int bm off n is_signed \<le> field_hi is_signed n"
proof -
  let ?w = "field_word bm off n" and ?y = "signed_take_bit (n - 1) (sint (field_word bm off n))"
  have y: "- (2 ^ (n - 1)) \<le> ?y" "?y < 2 ^ (n - 1)"
    by (simp_all add: signed_take_bit_int_greater_eq_minus_exp signed_take_bit_int_less_exp)
  have "(2 :: int) ^ (n - 1) \<le> 2 ^ 63" using assms by (intro power_increasing) auto
  then have "sint (word_of_int ?y :: u64) = ?y" using y by (intro sint_of_int) linarith+
  moreover have "word_of_int ?y = signed_take_bit (n - 1) ?w" using word_signed_take [of "n - 1" "sint ?w"] assms by simp
  ultimately have s: "sint (signed_take_bit (n - 1) ?w) = ?y" by simp
  have u: "uint (take_bit n ?w) < 2 ^ n" unfolding unsigned_take_bit_eq by (rule take_bit_int_less_exp)
  show "word_of_int (field_int bm off n is_signed) = field_value bm off n is_signed" by (simp add: field_int_def)
  show "field_lo is_signed n \<le> field_int bm off n is_signed" "field_int bm off n is_signed \<le> field_hi is_signed n"
    using s y u by (simp_all add: field_int_def field_lo_def field_hi_def field_value_def widen_def)
qed

lemma policies_exact:
  assumes n: "unat enc = n" "0 < n" "n \<le> 64" and V: "field_lo is_signed n \<le> V" "V \<le> field_hi is_signed n"
    and D: "judged is_signed n pol V D"
  shows "check_bitfield_overflow (word_of_int V) (word_of_int D) enc (overflow_byte pol) is_signed =
    Some (map_prod word_of_int id (policy_spec pol (field_lo is_signed n) (field_hi is_signed n) (V + D)))"
proof (cases is_signed)
  case True
  have "unat enc = Suc (n - 1)" "n - 1 < 64" using n by simp_all
  from check_signed_eq [OF this, of V D pol] True V D show ?thesis by (simp add: judged_def field_lo_def field_hi_def)
next
  case False
  define P :: int where "P = 2 ^ n"
  have n64: "n < 64" and d: "- (2 ^ 63) \<le> D" "D < 2 ^ 63" and c: "0 \<le> D \<or> pol = OvWrap \<or> - D \<le> P - 1 - V"
    using D False by (simp_all add: judged_def field_hi_def in_i64_def P_def)
  have v: "0 \<le> V" "V < 2 ^ n" "V < P" using V False by (simp_all add: field_lo_def field_hi_def P_def)
  have small: "0 \<le> V + D \<Longrightarrow> V + D < P \<Longrightarrow> (V + D) mod P = V + D" by simp
  show ?thesis using False check_unsigned_raw [OF n(1,2) n64 v(1,2) d, of pol] c v small
    unfolding P_def [symmetric] field_lo_def field_hi_def
    by (cases pol; cases "V + D < 0"; cases "V + D \<ge> P") auto
qed

lemma policy_spec_range:
  assumes "lo \<le> 0" "0 \<le> hi" "policy_spec pol lo hi y = (x, refused)"
  shows "lo \<le> x \<and> x \<le> hi"
proof -
  have "0 \<le> (y - lo) mod (hi - lo + 1)" "(y - lo) mod (hi - lo + 1) < hi - lo + 1"
    using pos_mod_sign [of "hi - lo + 1" "y - lo"] pos_mod_bound [of "hi - lo + 1" "y - lo"] assms(1,2) by linarith+
  then show ?thesis using assms by (cases pol) (auto split: if_splits)
qed

lemma widen_int:
  assumes "0 < n" "n \<le> 64" "field_lo is_signed n \<le> x \<and> x \<le> field_hi is_signed n"
  shows "(if is_signed then sint (widen is_signed n (word_of_int x)) else uint (widen is_signed n (word_of_int x))) = x"
proof (cases is_signed)
  case True
  have "(2 :: int) ^ (n - 1) \<le> 2 ^ 63" using assms by (intro power_increasing) auto
  moreover have r: "- (2 ^ (n - 1)) \<le> x" "x < 2 ^ (n - 1)" using assms(3) True by (simp_all add: field_lo_def field_hi_def)
  ultimately have "sint (word_of_int x :: u64) = x" by (intro sint_of_int) linarith+
  moreover have "signed_take_bit (n - 1) (word_of_int x :: u64) = word_of_int (signed_take_bit (n - 1) x)"
    using word_signed_take [of "n - 1" x] assms(1,2) by simp
  moreover have "signed_take_bit (n - 1) x = x" using r by (simp add: signed_take_bit_int_eq_self)
  ultimately show ?thesis using True by (simp add: widen_def)
next
  case False
  have "(2 :: int) ^ n \<le> 2 ^ 64" using assms(2) by (intro power_increasing) auto
  moreover have r: "0 \<le> x" "x < 2 ^ n" using assms(3) False by (simp_all add: field_lo_def field_hi_def)
  ultimately have "uint (word_of_int x :: u64) = x" unfolding uint_word_of_int by simp
  then show ?thesis using False r by (simp add: widen_def unsigned_take_bit_eq take_bit_int_eq_self del: uint_word_of_int_eq)
qed

text \<open>
  C17: BITFIELD INCRBY adds in the integers and applies the policy to the sum: WRAP reduces it modulo the width into the
  range of the type, SAT stops at the nearer end, FAIL flags a sum outside the range as refused, for a nil answer. Unless
  it is refused, the answer is the result and the field holds it afterwards; no bit outside the field changes in either
  case. This holds for a signed field and an increment that the type can hold, and for an unsigned field when the
  increment is not negative, when the policy is WRAP, or when the decrement does not exceed the distance of the value
  from the maximum. What a refused increment leaves in the field itself is not part of the statement.
\<close>

theorem bitfield_incrby:
  assumes a: "field_args args bm off n is_signed" "bf_secondary_command args = BfIncrBy"
    and args: "bf_overflow_type args = overflow_byte pol" "bf_value args = word_of_int D"
    and D: "judged is_signed n pol (field_int bm off n is_signed) D"
    and x: "policy_spec pol (field_lo is_signed n) (field_hi is_signed n) (field_int bm off n is_signed + D) = (x, refused)"
  shows "\<exists>r bm'. bit_field_execute args bm = Some (Some (r, refused), bm') \<and> length bm' = length bm \<and>
    (\<not> refused \<longrightarrow> r = word_of_int x \<and> field_int bm' off n is_signed = x) \<and>
    (\<forall>i. i < off \<or> off + n \<le> i \<longrightarrow> bit_at bm' i = bit_at bm i)"
proof -
  have n: "unat (bf_type_info args AND 0x7F) = n" "0 < n" "n \<le> 64" using a(1) by (simp_all add: field_args_def)
  note r = field_int_range [OF n(2,3)]
  have c: "check_bitfield_overflow (field_value bm off n is_signed) (bf_value args) (bf_type_info args AND 0x7F) (bf_overflow_type args)
      is_signed = Some (word_of_int x, refused)"
    using policies_exact [OF n r(2,3) D] x unfolding r(1) args by simp
  then obtain bm' where bm': "bit_field_execute args bm = Some (Some (word_of_int x, refused), bm')"
    "field_written bm off n (word_of_int x) bm'"
    using write_bitfield_eq [OF a(1), of "word_of_int x" refused] a(2) by auto
  have "field_lo is_signed n \<le> x \<and> x \<le> field_hi is_signed n"
    using policy_spec_range [OF _ _ x] by (simp add: field_hi_def field_lo_def)
  then have "field_int bm' off n is_signed = x" using field_after_write [OF bm'(2) n(2,3)] widen_int [OF n(2,3), of is_signed x]
    unfolding field_int_def by (cases is_signed) simp_all
  with bm' show ?thesis by (auto simp: field_written_def)
qed

theorem bitfield_incrby_witness:
  "\<exists>bm'. bit_field_execute \<lparr>bf_secondary_command = BfIncrBy, bf_type_info = 0x88, bf_offset = 4, bf_value = word_of_int 100, bf_overflow_type = 1\<rparr>
      [0x07, 0x8F] = Some (Some (127, False), bm') \<and> field_int bm' 4 8 True = 127"
proof -
  let ?args = "\<lparr>bf_secondary_command = BfIncrBy, bf_type_info = 0x88, bf_offset = 4, bf_value = word_of_int 100, bf_overflow_type = 1\<rparr> :: BitFieldCmdArgs"
  have a: "field_args ?args [0x07, 0x8F] 4 8 True" by (simp add: field_args_def)
  have v: "field_int [0x07, 0x8F] 4 8 True = 120" by code_simp
  show ?thesis using bitfield_incrby [of ?args "[0x07, 0x8F]" 4 8 True OvSat 100 127 False] a
    by (auto simp: v judged_def field_lo_def field_hi_def)
qed

section \<open>Increments that are judged wrongly\<close>

text \<open>
  C36: The unsigned check compares the magnitude of the increment with the room above the value even when the increment is
  negative. A decrement that leaves a value inside the range, but is larger than that room, is taken for an overflow:
  SAT answers the maximum instead of the difference and FAIL refuses.
\<close>

theorem unsigned_decrement_misjudged:
  fixes V D :: int
  assumes "unat enc = n" "0 < n" "n < 64" "0 \<le> V" "V < 2 ^ n" "D < 0" "0 \<le> V + D" "2 ^ n - 1 - V < - D"
  shows "check_bitfield_overflow (word_of_int V) (word_of_int D) enc (overflow_byte OvSat) False = Some (word_of_int (2 ^ n - 1), False) \<and>
    check_bitfield_overflow (word_of_int V) (word_of_int D) enc (overflow_byte OvFail) False = Some (0, True)"
proof -
  have "(2 :: int) ^ n \<le> 2 ^ 63" using assms(3) by (intro power_increasing) auto
  then have "- (2 ^ 63) \<le> D" "D < 2 ^ 63" using assms(5-7) by simp_all
  note raw = check_unsigned_raw [OF assms(1-5) this]
  have "\<bar>D\<bar> > 2 ^ n - 1 - V" using assms(6,8) by linarith
  then show ?thesis unfolding raw BitFieldOverflow.case by simp
qed

theorem unsigned_decrement_misjudged_witness:
  "check_bitfield_overflow (word_of_int 200) (word_of_int (- 100)) 8 (overflow_byte OvSat) False = Some (255, False) \<and>
   check_bitfield_overflow (word_of_int 200) (word_of_int (- 100)) 8 (overflow_byte OvFail) False = Some (0, True)"
  using unsigned_decrement_misjudged [of 8 8 200 "- 100"] by simp

text \<open>
  C37: The signed check looks for an overflow only when the value and the increment have the same sign. With opposite signs
  the sum is passed on unchecked under every policy, even when the increment leaves the range of the type: it is the
  answer, and the field takes its low bits.
\<close>

theorem signed_mixed_signs_unchecked:
  fixes V D :: int
  assumes "unat enc = Suc m" "m < 64" "in_i64 V" "in_i64 D" "0 \<le> V \<and> D < 0 \<or> V < 0 \<and> 0 \<le> D"
  shows "check_bitfield_overflow (word_of_int V) (word_of_int D) enc (overflow_byte pol) True = Some (word_of_int (V + D), False)"
proof -
  have s: "sint (word_of_int V :: u64) = V" "sint (word_of_int D :: u64) = D"
    using assms(3,4) by (auto simp: in_i64_def intro!: sint_of_int)
  show ?thesis
    unfolding check_bitfield_overflow_def check_signed_bitfield_overflow_def signed_tables [OF assms(1,2)] bind.bind_lunit Let_def s if_True
    using assms(5) by (cases pol) auto
qed

theorem signed_mixed_signs_unchecked_witness:
  "check_bitfield_overflow (word_of_int 5) (word_of_int (- 1000)) 8 (overflow_byte OvSat) True = Some (word_of_int (- 995), False)"
  using signed_mixed_signs_unchecked [of 8 7 5 "- 1000" OvSat] by (simp add: in_i64_def)

end
