(* ===== verification/Spec2Isabelle.thy ===== *)
theory Spec2Isabelle
  imports NumGrammar Glob KeyCodec MetaValue RecordCodec IndexSplit TxnRace TxnRefusal BitmapSearch BitFieldExec
begin

text \<open>
  Verification of the storage core, the transaction layer and the bitmap kernels of WeDB, a Redis-compatible store (\<open>src/wedb\<close>).

  \<^bold>\<open>The program.\<close> A key of a session becomes a tagged physical key behind the varint prefix of its namespace and
  database (\<open>wbase/varint.rs\<close>, \<open>wval\<close>). A record with a header word, key, value and padding is laid out in the hybrid
  log (\<open>wrecord\<close>). A latch-striped hash index with overflow chains maps key hashes to log addresses (\<open>windex\<close>). A
  transaction (\<open>wtxn\<close>) watches keys, queues keys, latches the buckets of its keys in bucket order, checks the watched
  versions and writes markers to the log. The bitmap commands work on the string value of a key (\<open>wbitmap\<close>).

  \<^bold>\<open>Theories and sources.\<close>
  \<^item> \<open>Wedb_Prelude\<close>: machine integers as words, bytes as lists of words, results as sums, big and little endian codes.
  \<^item> \<open>Varint\<close>: \<open>wbase/varint.rs\<close>. \<open>NumGrammar\<close>: the integer parsers of \<open>wbase/num.rs\<close>. \<open>Glob\<close>: \<open>wbase/glob.rs\<close>.
    \<open>Align\<close>, \<open>Address\<close>: \<open>wbase/align.rs\<close>, \<open>wbase/addr.rs\<close>. \<open>StackBuf\<close>: \<open>wbase/buf.rs\<close>.
  \<^item> \<open>Tags\<close>, \<open>KeyCodec\<close>, \<open>MetaValue\<close>: \<open>wval/tag.rs\<close>, \<open>ns_codec.rs\<close>, \<open>codec.rs\<close>, \<open>meta.rs\<close>.
  \<^item> \<open>RecordHeader\<close>, \<open>RecordCodec\<close>: \<open>wrecord/header.rs\<close>, \<open>codec.rs\<close>, \<open>record_ref.rs\<close>, \<open>record_mut.rs\<close>.
  \<^item> \<open>IndexEntry\<close>, \<open>BucketLatch\<close>, \<open>BucketPool\<close>, \<open>DirectVm\<close>, \<open>Candidates\<close>: \<open>windex/entry.rs\<close>, \<open>bucket.rs\<close>, \<open>buckets.rs\<close>,
    \<open>overflow_pool.rs\<close>, \<open>ram/direct_vm.rs\<close>, \<open>candidate.rs\<close>. \<open>IndexTable\<close>, \<open>IndexScan\<close>, \<open>IndexSplit\<close>: \<open>table.rs\<close>, \<open>chain.rs\<close>,
    \<open>find.rs\<close>, \<open>insert.rs\<close>, \<open>split.rs\<close>. \<open>IndexCorrect\<close> and \<open>IndexProps\<close> hold the lemmas and properties of the index.
  \<^item> \<open>TxnLocks\<close>: \<open>wtxn/txn_keys_buffer.rs\<close>, \<open>txn_key_entry.rs\<close>. \<open>TxnManager\<close>: \<open>wtxn/transaction_manager.rs\<close> and the
    containers it owns. \<open>TxnLocksCorrect\<close>, \<open>TxnLockProps\<close>, \<open>TxnManagerProps\<close> hold their lemmas and properties.
  \<^item> \<open>TxnSystem\<close>: the lock operations of many sessions interleaved latch operation by latch operation.
    \<open>TxnSystemProps\<close> and \<open>TxnRace\<close> hold safety and progress of that system.
  \<^item> \<open>Bitmap\<close>: \<open>wbitmap/manager.rs\<close>, \<open>bit_count.rs\<close>, \<open>bit_pos.rs\<close>, \<open>bit_op.rs\<close>. \<open>BitField\<close>: \<open>wbitmap/bitfield/parse.rs\<close> and
    \<open>execute.rs\<close>. \<open>BitmapProps\<close>, \<open>BitmapSearch\<close>, \<open>BitFieldProps\<close>, \<open>BitFieldExec\<close> hold their lemmas and properties.
  \<^item> \<open>TxnCommands\<close>: the session side of transactions, \<open>wnode/resp/txn_resp_commands.rs\<close> (MULTI, EXEC, DISCARD, WATCH,
    UNWATCH, the queueing of a command inside MULTI) and the parts of \<open>resp_server_session/txn.rs\<close>, \<open>dispatch.rs\<close> and
    \<open>consume.rs\<close> that route a frame to them, and what \<open>net/handler/drive\<close> does with a command that suspends the session.
    \<open>TxnCommandProps\<close> and \<open>TxnRefusal\<close> hold the properties of a whole batch.

  \<^bold>\<open>State and operations.\<close> A struct is a record with the fields of the source, an enum a datatype, a \<open>u8\<close> to \<open>u64\<close> a
  word of that width, a \<open>usize\<close> a natural number with its bound written where the code checks it. Shared memory is an
  explicit state that each operation takes and returns. An atomic operation is one step, and a loop over a
  compare-and-swap is a step relation or a function over the values it reads. \<open>None\<close> as the result of an operation is a
  panic, undefined behaviour or a loop that does not end, so a theorem that an operation returns states \<open>Some\<close>.

  \<^bold>\<open>What the lemmas show.\<close> Codecs: round trips, order preservation, canonical forms and the error of each malformed
  input. Latches: mutual exclusion and exact accounting of readers for every interleaving. Records: encoding and every
  sequence of in-place updates. Index: insert, update, delete and lookup agree with a multiset of entries, a split
  keeps every lookup, a cyclic chain is detected. Pool: blocks are handed out fresh and none is lost. Transactions: a
  lock attempt takes all latches or none; concurrent transactions exclude one another, account for what they hold and
  cannot all lose a race; EXEC starts only with its keys covered and its watched keys unchanged. A batch of frames from
  MULTI to EXEC runs all its commands or none, unless the session goes away while a command of the batch is suspended; a
  command that aborts the queueing makes EXEC discard the batch; a WATCH in the queue is replayed without being announced.
  A re-lock that is not interrupted joins the old and new claims or leaves everything as it was. A glob pattern matches
  the language of its elements.
  Bitmaps: counting, searching, combining and the access to bit fields agree with the bits of the string, no read leaves
  it, and the overflow policies agree with integer arithmetic except for the increments that two theorems name.

  \<^bold>\<open>Interfaces.\<close> The locales \<open>ordered_code\<close>, \<open>repr_code\<close>, \<open>read_walk\<close>, \<open>entry_store\<close>, \<open>latch_bank\<close> and \<open>lock_client\<close> state what a
  client relies on, and each is interpreted on the definitions of the model.

  \<^bold>\<open>Bounds and fuel.\<close> The chain walk has the step bound of the source (\<open>MAX_CHAIN_STEPS\<close>). The retry loops are partial
  functions whose result \<open>None\<close> is the loop that never ends; what they need to return is a hypothesis on the other
  threads, and the witnesses give such threads. The loop over the received frames has fuel: EXEC rewinds the read
  position at most once per batch, so twice the number of frames is enough for every call of the loop. The pump takes the
  outcomes of the races at suspended commands as a list. All other loops are total.

  \<^bold>\<open>Parameters.\<close> The hash functions (a third-party crate), the log behind the marker interface, the answers of the
  barrier, and what other threads do between two attempts. For the session commands: the catalogue of commands with
  their arities and key positions, the verdicts of access control and of the cluster check, and the effect and reply of a
  data command, which answers at once or suspends and is completed later. The receive buffer is the list of the frames that the reader has split off.

  \<^bold>\<open>Not modelled.\<close> Asynchronous I/O and everything built on it (devices, log flushing, checkpoints, replication, the
  network loop), wrappers of third-party crates (range index, vector index, scripting, transport security, JSON), the
  bodies of the data commands, a change of the database generation during a replay, the yield at the output watermark,
  floating point, prefetching and metrics. Memory orderings are not modelled: atomic
  operations are sequentially consistent.
\<close>

end
